(* ===== verification/Prelude.thy ===== *)
theory Prelude
  imports Main "HOL-Library.AList" "HOL-Library.Word" "HOL-Library.Multiset"
    "HOL-Library.Monad_Syntax"
begin

text \<open>
  Shared vocabulary of the development.

  \<^item> Go maps are association lists read through \<^const>\<open>map_of\<close>; \<open>m[k] = v\<close>, \<open>delete(m, k)\<close>,
    \<open>len(m)\<close> and \<open>range\<close> are \<open>mput\<close>, \<open>mdel\<close>, \<open>mlen\<close> and \<open>mrange\<close>. Go leaves the order of a
    \<open>range\<close> over a map unspecified: every loop over a map takes an oracle (a list of choices)
    and \<open>range_order_complete\<close> shows that the oracles produce every order.
  \<^item> \<open>time.Time\<close> and \<open>time.Duration\<close> are nanosecond counts, with the saturation of \<open>Time.Sub\<close>.
  \<^item> Cardinality-based quorums: two sets of members intersect when their sizes say so
    (locale \<open>quorum_system\<close>), with majorities as an instance.
\<close>

named_theorems gomap_simps "equations that reduce Go map operations to map_of"

subsection \<open>Go maps\<close>

type_synonym ('k, 'v) gomap = "('k \<times> 'v) list"

abbreviation mget :: "('k, 'v) gomap \<Rightarrow> 'k \<Rightarrow> 'v option" where
  "mget m k \<equiv> map_of m k"

definition mgetd :: "'v \<Rightarrow> ('k, 'v) gomap \<Rightarrow> 'k \<Rightarrow> 'v" where
  "mgetd zero m k = (case map_of m k of None \<Rightarrow> zero | Some v \<Rightarrow> v)"

definition mput :: "'k \<Rightarrow> 'v \<Rightarrow> ('k, 'v) gomap \<Rightarrow> ('k, 'v) gomap" where
  "mput k v m = AList.update k v m"

definition mdel :: "'k \<Rightarrow> ('k, 'v) gomap \<Rightarrow> ('k, 'v) gomap" where
  "mdel k m = AList.delete k m"

definition mkeys :: "('k, 'v) gomap \<Rightarrow> 'k list" where
  "mkeys m = remdups (map fst m)"

definition mlen :: "('k, 'v) gomap \<Rightarrow> nat" where
  "mlen m = length (mkeys m)"

lemma map_of_mput [simp, gomap_simps]: "map_of (mput k v m) = (map_of m)(k \<mapsto> v)"
  by (simp add: mput_def update_conv')

lemma map_of_mdel [simp, gomap_simps]: "map_of (mdel k m) = (map_of m)(k := None)"
  by (simp add: mdel_def delete_conv')

lemma set_mkeys [simp]: "set (mkeys m) = dom (map_of m)"
  by (simp add: mkeys_def dom_map_of_conv_image_fst)

lemma distinct_mkeys [simp]: "distinct (mkeys m)"
  by (simp add: mkeys_def)

lemma mlen_card: "mlen m = card (dom (map_of m))"
  by (metis distinct_card distinct_mkeys mlen_def set_mkeys)

lemma mlen_cong: "map_of m = map_of m' \<Longrightarrow> mlen m = mlen m'"
  by (simp add: mlen_card)

lemma mgetd_simps [simp, gomap_simps]:
  "map_of m k = Some v \<Longrightarrow> mgetd z m k = v"
  "map_of m k = None \<Longrightarrow> mgetd z m k = z"
  by (simp_all add: mgetd_def)

lemma mgetd_mput [simp, gomap_simps]: "mgetd z (mput k v m) k' = (if k' = k then v else mgetd z m k')"
  by (simp add: mgetd_def)

lemma mgetd_mdel [simp, gomap_simps]: "mgetd z (mdel k m) k' = (if k' = k then z else mgetd z m k')"
  by (simp add: mgetd_def)

lemma mgetd_Nil [simp, gomap_simps]: "mgetd z [] k = z"
  by (simp add: mgetd_def)

lemma mput_Nil [simp]: "mput k v [] = [(k, v)]"
  by (simp add: mput_def)

lemma mput_Cons [simp]:
  "mput k v (p # m) = (if fst p = k then (k, v) # m else p # mput k v m)"
  by (cases p) (simp add: mput_def)

lemma mdel_Nil [simp]: "mdel k [] = []"
  by (simp add: mdel_def)

lemma mdel_Cons [simp]: "mdel k (p # m) = (if fst p = k then mdel k m else p # mdel k m)"
  by (cases p) (simp add: mdel_def AList.delete_eq)

subsection \<open>The order of a range loop over a map\<close>

fun range_order :: "nat list \<Rightarrow> 'a list \<Rightarrow> 'a list" where
  "range_order [] xs = xs"
| "range_order (c # cs) [] = []"
| "range_order (c # cs) (x # xs) =
     (let i = c mod length (x # xs)
      in (x # xs) ! i # range_order cs (take i (x # xs) @ drop (Suc i) (x # xs)))"

lemma mset_remove_nth:
  assumes "i < length xs"
  shows "mset xs = add_mset (xs ! i) (mset (take i xs @ drop (Suc i) xs))"
proof -
  have "xs = take i xs @ xs ! i # drop (Suc i) xs"
    using assms by (simp add: id_take_nth_drop)
  then have "mset xs = mset (take i xs @ xs ! i # drop (Suc i) xs)" by metis
  then show ?thesis by simp
qed

lemma mset_range_order [simp]: "mset (range_order cs xs) = mset xs"
proof (induction cs xs rule: range_order.induct)
  case (3 c cs x xs)
  let ?i = "c mod length (x # xs)"
  have i: "?i < length (x # xs)" by simp
  have "mset (range_order (c # cs) (x # xs)) =
      add_mset ((x # xs) ! ?i) (mset (take ?i (x # xs) @ drop (Suc ?i) (x # xs)))"
    unfolding range_order.simps(3) Let_def using "3"[OF refl] by (simp only: mset.simps)
  then show ?case using mset_remove_nth [OF i] by simp
qed simp_all

lemma set_range_order [simp]: "set (range_order cs xs) = set xs"
  using mset_range_order by (metis set_mset_mset)

lemma length_range_order [simp]: "length (range_order cs xs) = length xs"
  using mset_range_order by (metis size_mset)

lemma distinct_range_order [simp]: "distinct (range_order cs xs) = distinct xs"
  using mset_range_order by (metis mset_eq_imp_distinct_iff)

text \<open>Every order of the elements is the result of some oracle.\<close>

lemma range_order_complete:
  assumes "mset ys = mset xs"
  shows "\<exists>cs. range_order cs xs = ys"
  using assms
proof (induction ys arbitrary: xs)
  case Nil
  then show ?case by (intro exI [of _ "[]"]) simp
next
  case (Cons y ys)
  then have "y \<in> set xs" by (metis list.set_intros(1) mset_eq_setD)
  then obtain i where i: "i < length xs" "xs ! i = y" by (auto simp: in_set_conv_nth)
  have "mset (take i xs @ drop (Suc i) xs) = mset ys"
    using mset_remove_nth [OF i(1)] Cons.prems i(2) by simp
  then obtain cs where cs: "range_order cs (take i xs @ drop (Suc i) xs) = ys"
    using Cons.IH [of "take i xs @ drop (Suc i) xs"] by auto
  obtain x xs' where xs: "xs = x # xs'" using i(1) by (cases xs) auto
  have "range_order (i # cs) xs = y # ys"
    unfolding xs range_order.simps(3) Let_def using i cs by (simp add: xs)
  then show ?case by blast
qed

definition mrange :: "nat list \<Rightarrow> ('k, 'v) gomap \<Rightarrow> ('k \<times> 'v) list" where
  "mrange cs m = map (\<lambda>k. (k, the (map_of m k))) (range_order cs (mkeys m))"

lemma set_mrange [simp]: "set (mrange cs m) = {(k, v). map_of m k = Some v}"
  by (force simp: mrange_def)

lemma distinct_mrange_keys [simp]: "distinct (map fst (mrange cs m))"
  by (simp add: mrange_def comp_def)

subsection \<open>Time\<close>

type_synonym time = int

definition time_sub :: "time \<Rightarrow> time \<Rightarrow> int" where
  "time_sub a b = max (- (2 ^ 63)) (min (2 ^ 63 - 1) (a - b))"

abbreviation Millisecond :: int where "Millisecond \<equiv> 1000000"
abbreviation Second :: int where "Second \<equiv> 1000 * Millisecond"

subsection \<open>Quorums\<close>

locale quorum_system =
  fixes members :: "'a set" and Quorum :: "'a set \<Rightarrow> bool"
  assumes finite_members: "finite members"
    and quorum_subset: "Quorum Q \<Longrightarrow> Q \<subseteq> members"
    and quorum_meet: "Quorum Q \<Longrightarrow> Quorum Q' \<Longrightarrow> Q \<inter> Q' \<noteq> {}"
begin

lemma quorum_common:
  assumes "Quorum Q" "Quorum Q'"
  obtains a where "a \<in> members" "a \<in> Q" "a \<in> Q'"
  using quorum_meet [OF assms] quorum_subset [OF assms(1)] by blast

lemma quorum_nonempty: "Quorum Q \<Longrightarrow> Q \<noteq> {}"
  using quorum_meet by blast

end

lemma card_overlap:
  assumes "finite E" "S \<subseteq> E" "T \<subseteq> E" "card E < card S + card T"
  shows "S \<inter> T \<noteq> {}"
proof
  assume "S \<inter> T = {}"
  moreover have "finite S" "finite T" using assms finite_subset by auto
  ultimately have "card (S \<union> T) = card S + card T" by (simp add: card_Un_disjoint)
  moreover have "card (S \<union> T) \<le> card E" using assms by (intro card_mono) auto
  ultimately show False using assms(4) by simp
qed

definition replicas :: "int \<Rightarrow> int set" where
  "replicas n = {0..<n}"

definition majority :: "int \<Rightarrow> int set \<Rightarrow> bool" where
  "majority n Q \<longleftrightarrow> Q \<subseteq> replicas n \<and> nat n < 2 * card Q"

lemma finite_replicas [simp]: "finite (replicas n)"
  by (simp add: replicas_def)

lemma card_replicas [simp]: "card (replicas n) = nat n"
  by (simp add: replicas_def)

lemma majority_meet:
  assumes "majority n Q" "majority n Q'"
  shows "Q \<inter> Q' \<noteq> {}"
proof (rule card_overlap [OF finite_replicas [of n]])
  show "card (replicas n) < card Q + card Q'"
    using assms by (simp add: majority_def)
qed (use assms in \<open>auto simp: majority_def\<close>)

interpretation maj: quorum_system "replicas n" "majority n" for n
  by unfold_locales (simp_all add: majority_meet, simp add: majority_def)

lemma majority_half: "0 \<le> n \<Longrightarrow> Q \<subseteq> replicas n \<Longrightarrow> n div 2 + 1 \<le> int (card Q) \<Longrightarrow> majority n Q"
  by (simp add: majority_def)

end
