(* ===== verification/KVState.thy ===== *)
theory KVState
  imports Prelude
begin

text \<open>
  Package \<open>state\<close> (\<open>src/state/state.go\<close>, \<open>src/state/validation.go\<close>): commands, the key-value
  state machine, the conflict relation the protocols use to reorder commands, the byte codec and
  the admission policy.

  \<open>Key\<close> is an \<open>int64\<close>: a 64-bit word compared through \<^const>\<open>sint\<close>, so the upper end of a scan
  wraps as in the code. \<open>binary.LittleEndian.Uint64\<close> panics on a short slice: \<^const>\<open>None\<close>.
  The ordered map of the third-party package \<open>gods/maps/treemap\<close> is the argument \<open>tm\<close>, a record of
  the operations the code calls; the locale \<open>treemap_spec\<close> states their documented behaviour.
\<close>

unbundle bit_operations_syntax

type_synonym byte = "8 word"
type_synonym bytes = "byte list"
type_synonym key = "64 word"
type_synonym operation = "8 word"

abbreviation NONE :: operation where "NONE \<equiv> 0"
abbreviation PUT :: operation where "PUT \<equiv> 1"
abbreviation GET :: operation where "GET \<equiv> 2"
abbreviation SCAN :: operation where "SCAN \<equiv> 3"

definition NIL :: bytes where "NIL = []"

record command =
  Op :: operation
  K :: key
  V :: bytes

definition NOOP :: "command list" where
  "NOOP = [\<lparr>Op = NONE, K = 0, V = NIL\<rparr>]"

definition KeyComparator :: "key \<Rightarrow> key \<Rightarrow> int" where
  "KeyComparator a b = (if sint a > sint b then 1 else if sint a < sint b then -1 else 0)"

subsection \<open>Little-endian integers\<close>

definition le_put :: "nat \<Rightarrow> 'a::len word \<Rightarrow> bytes" where
  "le_put k w = map (\<lambda>i. ucast (drop_bit (8 * i) w)) [0..<k]"

definition le_get :: "nat \<Rightarrow> bytes \<Rightarrow> 'a::len word" where
  "le_get k bs = foldr (\<lambda>b acc. ucast b OR push_bit 8 acc) (take k bs) 0"

definition Uint64 :: "bytes \<Rightarrow> 64 word option" where
  "Uint64 bs = (if length bs < 8 then None else Some (le_get 8 bs))"

subsection \<open>The conflict relation\<close>

definition Conflict :: "command \<Rightarrow> command \<Rightarrow> bool option" where
  "Conflict gamma delta =
     (if Op gamma = SCAN \<and> Op delta = SCAN then Some False
      else do {
        (ky, lb, ub) \<leftarrow>
          (if Op gamma = SCAN then do { cnt \<leftarrow> Uint64 (V gamma); Some (K delta, K gamma, K gamma + cnt) }
           else if Op delta = SCAN then do { cnt \<leftarrow> Uint64 (V delta); Some (K gamma, K delta, K delta + cnt) }
           else Some (K gamma, K delta, K delta));
        Some (sint ky \<ge> sint lb \<and> sint ky \<le> sint ub \<and> (Op gamma = PUT \<or> Op delta = PUT))
      })"

fun Conflict_any :: "command \<Rightarrow> command list \<Rightarrow> bool option" where
  "Conflict_any a [] = Some False"
| "Conflict_any a (b # bs) = do { x \<leftarrow> Conflict a b; if x then Some True else Conflict_any a bs }"

fun ConflictBatch :: "command list \<Rightarrow> command list \<Rightarrow> bool option" where
  "ConflictBatch [] batch2 = Some False"
| "ConflictBatch (a # as) batch2 =
     do { x \<leftarrow> Conflict_any a batch2; if x then Some True else ConflictBatch as batch2 }"

definition IsRead :: "command \<Rightarrow> bool" where
  "IsRead c \<longleftrightarrow> Op c = GET"

subsection \<open>Executing a command\<close>

record 'm treemap =
  tm_New :: 'm
  tm_Put :: "key \<Rightarrow> bytes \<Rightarrow> 'm \<Rightarrow> 'm"
  tm_Get :: "key \<Rightarrow> 'm \<Rightarrow> bytes option"
  tm_Select :: "(key \<Rightarrow> bytes \<Rightarrow> bool) \<Rightarrow> 'm \<Rightarrow> 'm"
  tm_Iterate :: "'m \<Rightarrow> (key \<times> bytes) list"
  tm_Size :: "'m \<Rightarrow> nat"

definition InitState :: "'m treemap \<Rightarrow> 'm" where
  "InitState tm = tm_New tm"

definition in_scan :: "key \<Rightarrow> 64 word \<Rightarrow> key \<Rightarrow> bool" where
  "in_scan lo cnt k \<longleftrightarrow> sint k \<ge> sint lo \<and> sint k \<le> sint (lo + cnt)"

definition Execute :: "'m treemap \<Rightarrow> command \<Rightarrow> 'm \<Rightarrow> (bytes \<times> 'm) option" where
  "Execute tm c st =
     (if Op c = PUT then Some (NIL, tm_Put tm (K c) (V c) st)
      else if Op c = GET then
        (case tm_Get tm (K c) st of Some v \<Rightarrow> Some (v, st) | None \<Rightarrow> Some (NIL, st))
      else if Op c = SCAN then do {
        cnt \<leftarrow> Uint64 (V c);
        Some (concat (map snd (tm_Iterate tm (tm_Select tm (\<lambda>k v. in_scan (K c) cnt k) st))), st)
      }
      else Some (NIL, st))"

subsection \<open>Preloaded records\<close>

abbreviation golden :: "64 word" where "golden \<equiv> 0x9e3779b97f4a7c15"

definition mix :: "64 word \<Rightarrow> 64 word" where
  "mix g = (let w = g;
      w = (w XOR drop_bit 30 w) * 0xbf58476d1ce4e5b9;
      w = (w XOR drop_bit 27 w) * 0x94d049bb133111eb
    in w XOR drop_bit 31 w)"

function fill_from :: "nat \<Rightarrow> 64 word \<Rightarrow> bytes" where
  "fill_from left g =
     (if left = 0 then []
      else let g' = g + golden; k = min 8 left
        in le_put k (mix g') @ fill_from (left - k) g')"
  by pat_completeness auto
termination
  by (relation "measure fst") auto

declare fill_from.simps [simp del]

definition fillPreloadedValue :: "nat \<Rightarrow> 64 word \<Rightarrow> 64 word \<Rightarrow> bytes" where
  "fillPreloadedValue len ky seed = fill_from len (seed XOR (ky * golden))"

datatype preload_error = NegativeRecordCount | NegativeValueSize | StateNotEmpty

fun preload_loop :: "'m treemap \<Rightarrow> nat \<Rightarrow> 64 word \<Rightarrow> int list \<Rightarrow> 'm \<times> bytes \<Rightarrow> 'm \<times> bytes" where
  "preload_loop tm sz seed [] (st, digest) = (st, digest)"
| "preload_loop tm sz seed (k # ks) (st, digest) =
     (let v = fillPreloadedValue sz (word_of_int k) seed; ky = word_of_int k
      in preload_loop tm sz seed ks (tm_Put tm ky v st, digest @ le_put 8 ky @ v))"

text \<open>\<open>Preload\<close> returns the new store and the bytes written to the digest; \<open>sha\<close> is SHA-256.\<close>

definition Preload ::
  "'m treemap \<Rightarrow> (bytes \<Rightarrow> bytes) \<Rightarrow> int \<Rightarrow> int \<Rightarrow> 64 word \<Rightarrow> 'm \<Rightarrow> preload_error + ('m \<times> bytes)" where
  "Preload tm sha recordCount valueSize seed st =
     (if recordCount < 0 then Inl NegativeRecordCount
      else if valueSize < 0 then Inl NegativeValueSize
      else if tm_Size tm st \<noteq> 0 then Inl StateNotEmpty
      else let (st', digest) = preload_loop tm (nat valueSize) seed [0..recordCount - 1] (st, [])
        in Inr (st', sha digest))"

subsection \<open>The byte codec\<close>

datatype read_error = EOF | UnexpectedEOF

definition ReadFull :: "nat \<Rightarrow> bytes \<Rightarrow> read_error + (bytes \<times> bytes)" where
  "ReadFull k r = (if k \<le> length r then Inr (take k r, drop k r)
     else if r = [] then Inl EOF else Inl UnexpectedEOF)"

definition Op_Marshal :: "operation \<Rightarrow> bytes" where
  "Op_Marshal op = [op]"

definition Op_Unmarshal :: "bytes \<Rightarrow> read_error + (operation \<times> bytes)" where
  "Op_Unmarshal r = (case ReadFull 1 r of Inl e \<Rightarrow> Inl e | Inr (bs, r') \<Rightarrow> Inr (bs ! 0, r'))"

definition Key_Marshal :: "key \<Rightarrow> bytes" where
  "Key_Marshal k = le_put 8 k"

definition Key_Unmarshal :: "bytes \<Rightarrow> read_error + (key \<times> bytes)" where
  "Key_Unmarshal r = (case ReadFull 8 r of Inl e \<Rightarrow> Inl e | Inr (bs, r') \<Rightarrow> Inr (le_get 8 bs, r'))"

text \<open>The length header is four bytes, of which \<open>PutUint16\<close> writes two.\<close>

definition Value_Marshal :: "bytes \<Rightarrow> bytes" where
  "Value_Marshal v = le_put 2 (word_of_nat (length v) :: 16 word) @ [0, 0] @ v"

definition Value_Unmarshal :: "bytes \<Rightarrow> read_error + (bytes \<times> bytes)" where
  "Value_Unmarshal r = (case ReadFull 4 r of Inl e \<Rightarrow> Inl e
     | Inr (bs, r') \<Rightarrow> ReadFull (unat (le_get 2 bs :: 16 word)) r')"

definition Command_Marshal :: "command \<Rightarrow> bytes" where
  "Command_Marshal c = Op_Marshal (Op c) @ Key_Marshal (K c) @ Value_Marshal (V c)"

definition Command_Unmarshal :: "bytes \<Rightarrow> read_error + (command \<times> bytes)" where
  "Command_Unmarshal r =
     (case Op_Unmarshal r of Inl e \<Rightarrow> Inl e | Inr (op, r1) \<Rightarrow>
      (case Key_Unmarshal r1 of Inl e \<Rightarrow> Inl e | Inr (k, r2) \<Rightarrow>
       (case Value_Unmarshal r2 of Inl e \<Rightarrow> Inl e | Inr (v, r3) \<Rightarrow>
        Inr (\<lparr>Op = op, K = k, V = v\<rparr>, r3))))"

subsection \<open>Admission policy\<close>

definition MaxValueBytes :: int where "MaxValueBytes = 65535"

record command_policy =
  Operations :: "operation list"
  PolicyMaxValueBytes :: int

datatype policy_error = UnsupportedOperation operation | ValueTooLong int | ScanNeedsCount

definition Validate :: "command_policy \<Rightarrow> command \<Rightarrow> policy_error option" where
  "Validate p c =
     (let allowed = (if Operations p \<noteq> [] then Op c \<in> set (Operations p) else Op c \<le> SCAN);
          limit = (if PolicyMaxValueBytes p = 0 then MaxValueBytes else PolicyMaxValueBytes p)
      in if \<not> allowed then Some (UnsupportedOperation (Op c))
         else if int (length (V c)) > limit then Some (ValueTooLong limit)
         else if Op c = SCAN \<and> length (V c) < 8 then Some ScanNeedsCount
         else None)"

subsection \<open>The codec\<close>

lemma bit_le_fold:
  "bit (foldr (\<lambda>b acc. ucast b OR push_bit 8 acc) bs (0 :: 'a::len word)) i \<longleftrightarrow>
     i < LENGTH('a) \<and> i div 8 < length bs \<and> bit (bs ! (i div 8) :: byte) (i mod 8)"
proof (induction bs arbitrary: i)
  case (Cons b bs)
  show ?case
  proof (cases "i < 8")
    case True
    then show ?thesis by (auto simp: bit_or_iff bit_push_bit_iff bit_ucast_iff)
  next
    case False
    then obtain j where j: "i = j + 8" by (metis add.commute le_Suc_ex not_less)
    have "\<not> bit b i" using False by (auto dest: bit_imp_le_length)
    moreover have "(j + 8) div 8 = Suc (j div 8)" by simp
    ultimately show ?thesis using Cons [of j]
      by (auto simp: j bit_or_iff bit_push_bit_iff bit_ucast_iff)
  qed
qed simp

lemma le_get_put:
  assumes "LENGTH('a::len) \<le> 8 * k"
  shows "le_get k (le_put k (w :: 'a word) @ rest) = w"
proof -
  have "le_get k (le_put k w @ rest) =
      foldr (\<lambda>b acc. ucast b OR push_bit 8 acc) (le_put k w) (0 :: 'a word)"
    by (simp add: le_get_def le_put_def)
  moreover have "bit (foldr (\<lambda>b acc. ucast b OR push_bit 8 acc) (le_put k w) (0 :: 'a word)) i \<longleftrightarrow> bit w i" if "i < LENGTH('a)" for i
  proof -
    have "i div 8 < k" using that assms by linarith
    then show ?thesis using that
      by (simp add: bit_le_fold le_put_def bit_ucast_iff bit_drop_bit_eq)
  qed
  ultimately show ?thesis by (simp add: bit_word_eqI)
qed

lemma length_le_put [simp]: "length (le_put k w) = k"
  by (simp add: le_put_def)

lemma ReadFull_append [simp]: "length bs = k \<Longrightarrow> ReadFull k (bs @ r) = Inr (bs, r)"
  by (auto simp: ReadFull_def)

lemma Op_roundtrip [simp]: "Op_Unmarshal (Op_Marshal op @ r) = Inr (op, r)"
  using ReadFull_append [of "[op]" 1 r] by (simp add: Op_Unmarshal_def Op_Marshal_def)

lemma Key_roundtrip [simp]: "Key_Unmarshal (Key_Marshal k @ r) = Inr (k, r)"
  using le_get_put [of 8 k "[]"] by (simp add: Key_Unmarshal_def Key_Marshal_def)

text \<open>Only sixteen bits of the length survive: the rest of a longer value stays in the stream.\<close>

lemma Value_roundtrip:
  "Value_Unmarshal (Value_Marshal v @ r) =
     Inr (take (length v mod 2 ^ 16) v, drop (length v mod 2 ^ 16) v @ r)"
proof -
  let ?h = "le_put 2 (word_of_nat (length v) :: 16 word)"
  have "ReadFull 4 ((?h @ [0, 0]) @ v @ r) = Inr (?h @ [0, 0], v @ r)"
    by (rule ReadFull_append) simp
  moreover have "(le_get 2 (?h @ [0, 0]) :: 16 word) = word_of_nat (length v)"
    by (rule le_get_put) simp
  moreover have "unat (word_of_nat (length v) :: 16 word) = length v mod 2 ^ 16"
    by (simp add: unat_of_nat)
  moreover have "length v mod 2 ^ 16 \<le> length v + length r"
    by (rule trans_le_add1) (rule mod_less_eq_dividend)
  ultimately show ?thesis
    by (simp add: Value_Unmarshal_def Value_Marshal_def ReadFull_def)
qed

lemma Command_roundtrip:
  assumes "length (V c) < 2 ^ 16"
  shows "Command_Unmarshal (Command_Marshal c @ r) = Inr (c, r)"
  using assms by (simp add: Command_Unmarshal_def Command_Marshal_def Value_roundtrip)

lemma Command_roundtrip_iff:
  "Command_Unmarshal (Command_Marshal c @ r) = Inr (c, r) \<longleftrightarrow> length (V c) \<le> 65535"
proof
  assume "Command_Unmarshal (Command_Marshal c @ r) = Inr (c, r)"
  then have "take (length (V c) mod 2 ^ 16) (V c) = V c"
    by (simp add: Command_Unmarshal_def Command_Marshal_def Value_roundtrip)
  then have "length (V c) \<le> length (V c) mod 2 ^ 16" by (simp only: take_all_iff)
  then have "length (V c) < 2 ^ 16" by (rule le_less_trans) simp
  then show "length (V c) \<le> 65535" by simp
qed (simp add: Command_roundtrip)

subsection \<open>Conflicts\<close>

lemma Conflict_sym: "Conflict a b = Conflict b a"
  by (auto simp: Conflict_def split: Option.bind_splits)

lemma Conflict_any_iff:
  "(\<forall>b\<in>set bs. Conflict a b \<noteq> None) \<Longrightarrow>
     Conflict_any a bs = Some (\<exists>b\<in>set bs. Conflict a b = Some True)"
  by (induction bs) auto

subsection \<open>Preloading\<close>

lemma length_fill_from [simp]: "length (fill_from n g) = n"
  by (induction n g rule: fill_from.induct) (subst fill_from.simps, simp add: Let_def)

lemma take_le_put: "j \<le> k \<Longrightarrow> take j (le_put k w) = le_put j w"
  by (simp add: le_put_def take_map)

text \<open>A shorter preloaded value is a prefix of a longer one.\<close>

lemma take_fill_from: "m \<le> n \<Longrightarrow> take m (fill_from n g) = fill_from m g"
proof (induction n g arbitrary: m rule: fill_from.induct)
  case (1 n g)
  show ?case
  proof (cases "m = 0")
    case False
    with 1 have n: "n \<noteq> 0" by simp
    have "take (m - min 8 m) (fill_from (n - min 8 n) (g + golden)) =
        fill_from (m - min 8 m) (g + golden)"
      using 1 n by (intro "1.IH") auto
    moreover have "take m (le_put (min 8 n) (mix (g + golden))) = le_put (min 8 m) (mix (g + golden))"
      using "1.prems" take_le_put [of "min 8 m" "min 8 n"] by (cases "m \<le> 8") (auto simp: min_def)
    moreover have "m - min 8 n = m - min 8 m" using "1.prems" by auto
    ultimately show ?thesis
      using False n by (subst (1 2) fill_from.simps) (simp add: Let_def)
  qed (simp add: fill_from.simps)
qed

end
