(* ===== verification/KVSpec.thy ===== *)
theory KVSpec
  imports KVState
begin

text \<open>
  The contract of the key-value state machine: \<open>spec_exec\<close> over a finite map, the documented
  behaviour of \<open>gods/maps/treemap\<close> as locale \<open>treemap_spec\<close>, the refinement from \<open>Execute\<close> to the
  contract, and commutation: two commands that do not conflict can be executed in either order.
  The locale is interpreted on an ordered association list.
\<close>

type_synonym kv = "key \<rightharpoonup> bytes"

definition ordered_keys :: "key set \<Rightarrow> key list" where
  "ordered_keys S = map word_of_int (sorted_list_of_set (sint ` S))"

definition scan_range :: "key \<Rightarrow> 64 word \<Rightarrow> key set" where
  "scan_range lo cnt = {k. sint lo \<le> sint k \<and> sint k \<le> sint (lo + cnt)}"

lemma in_scan_range: "in_scan lo cnt k \<longleftrightarrow> k \<in> scan_range lo cnt"
  by (simp add: in_scan_def scan_range_def)

definition spec_exec :: "command \<Rightarrow> kv \<Rightarrow> (bytes \<times> kv) option" where
  "spec_exec c m =
     (if Op c = PUT then Some ([], m(K c \<mapsto> V c))
      else if Op c = GET then Some (case m (K c) of Some v \<Rightarrow> v | None \<Rightarrow> [], m)
      else if Op c = SCAN then
        (case Uint64 (V c) of None \<Rightarrow> None
         | Some cnt \<Rightarrow> Some (concat (map (\<lambda>k. the (m k)) (ordered_keys {k \<in> dom m. k \<in> scan_range (K c) cnt})), m))
      else Some ([], m))"

subsection \<open>The ordered map of the library\<close>

definition ordered_by_key :: "(key \<times> 'v) list \<Rightarrow> bool" where
  "ordered_by_key xs \<longleftrightarrow> sorted_wrt (<) (map (\<lambda>(k, _). sint k) xs)"

locale treemap_spec =
  fixes tm :: "'m treemap" and abs :: "'m \<Rightarrow> kv" and inv :: "'m \<Rightarrow> bool"
  assumes inv_New: "inv (tm_New tm)" and abs_New: "abs (tm_New tm) = Map.empty"
    and inv_Put: "inv m \<Longrightarrow> inv (tm_Put tm k v m)"
    and abs_Put: "inv m \<Longrightarrow> abs (tm_Put tm k v m) = (abs m)(k \<mapsto> v)"
    and Get_abs: "inv m \<Longrightarrow> tm_Get tm k m = abs m k"
    and inv_Select: "inv m \<Longrightarrow> inv (tm_Select tm P m)"
    and abs_Select: "inv m \<Longrightarrow>
      abs (tm_Select tm P m) k = (case abs m k of Some v \<Rightarrow> if P k v then Some v else None | None \<Rightarrow> None)"
    and Iterate_ordered: "inv m \<Longrightarrow> ordered_by_key (tm_Iterate tm m)"
    and Iterate_abs: "inv m \<Longrightarrow> map_of (tm_Iterate tm m) = abs m"
    and Size_Iterate: "inv m \<Longrightarrow> tm_Size tm m = length (tm_Iterate tm m)"

lemma ordered_values:
  assumes "ordered_by_key xs"
  shows "map snd xs = map (\<lambda>k. the (map_of xs k)) (ordered_keys (dom (map_of xs)))"
proof -
  let ?ks = "map fst xs"
  have ks: "sorted_wrt (<) (map sint ?ks)"
    using assms by (simp add: ordered_by_key_def comp_def case_prod_beta')
  then have "distinct (map sint ?ks)" "sorted (map sint ?ks)"
    by (simp_all add: strict_sorted_iff)
  then have dist: "distinct ?ks" using distinct_map by metis
  have "sorted_list_of_set (set (map sint ?ks)) = map sint ?ks"
    using \<open>distinct (map sint ?ks)\<close> \<open>sorted (map sint ?ks)\<close>
    by (metis sorted_list_of_set.idem_if_sorted_distinct)
  then have "ordered_keys (dom (map_of xs)) = ?ks"
    unfolding ordered_keys_def
    by (simp add: dom_map_of_conv_image_fst image_image comp_def flip: image_set)
  moreover have "map snd xs = map (\<lambda>k. the (map_of xs k)) ?ks"
    using dist by (auto simp: map_of_is_SomeI)
  ultimately show ?thesis by simp
qed

context treemap_spec
begin

lemma Execute_inv: "inv st \<Longrightarrow> Execute tm c st = Some (v, st') \<Longrightarrow> inv st'"
  by (auto simp: Execute_def inv_Put split: if_splits option.splits Option.bind_splits)

lemma Select_values:
  assumes "inv st"
  shows "map snd (tm_Iterate tm (tm_Select tm (\<lambda>k v. P k) st)) =
    map (\<lambda>k. the (abs st k)) (ordered_keys {k \<in> dom (abs st). P k})"
proof -
  let ?s = "tm_Select tm (\<lambda>k v. P k) st"
  have s: "inv ?s" using assms by (rule inv_Select)
  have dom: "dom (abs ?s) = {k \<in> dom (abs st). P k}"
    by (auto simp: abs_Select [OF assms] dom_def split: option.splits)
  have "map snd (tm_Iterate tm ?s) = map (\<lambda>k. the (abs ?s k)) (ordered_keys (dom (abs ?s)))"
    using ordered_values [OF Iterate_ordered [OF s]] by (simp add: Iterate_abs [OF s])
  moreover have "the (abs ?s k) = the (abs st k)" if "k \<in> set (ordered_keys (dom (abs ?s)))" for k
  proof -
    have "finite (dom (abs ?s))" using Iterate_abs [OF s] finite_dom_map_of by metis
    then have "k \<in> dom (abs ?s)" using that by (auto simp: ordered_keys_def)
    then show ?thesis by (auto simp: abs_Select [OF assms] split: option.splits if_splits)
  qed
  ultimately show ?thesis by (simp add: dom)
qed

lemma Execute_refines:
  assumes "inv st"
  shows "map_option (\<lambda>(v, st'). (v, abs st')) (Execute tm c st) = spec_exec c (abs st)"
  using assms
  by (auto simp: Execute_def spec_exec_def NIL_def abs_Put Get_abs Select_values in_scan_range
      split: option.splits Option.bind_splits)

lemma Execute_SomeD:
  "inv st \<Longrightarrow> Execute tm c st = Some (v, st') \<Longrightarrow> spec_exec c (abs st) = Some (v, abs st')"
  using Execute_refines [of st c] by simp

end

subsection \<open>Commands that do not conflict commute\<close>

lemma scan_put_frame:
  assumes "k \<notin> scan_range lo cnt"
  shows "map (\<lambda>x. the ((m(k \<mapsto> v)) x)) (ordered_keys {x \<in> dom (m(k \<mapsto> v)). x \<in> scan_range lo cnt}) =
    map (\<lambda>x. the (m x)) (ordered_keys {x \<in> dom m. x \<in> scan_range lo cnt})"
proof -
  have eq: "{x \<in> dom (m(k \<mapsto> v)). x \<in> scan_range lo cnt} = {x \<in> dom m. x \<in> scan_range lo cnt}"
    using assms by auto
  have "x \<noteq> k" if "x \<in> set (ordered_keys {x \<in> dom m. x \<in> scan_range lo cnt})" for x
  proof -
    have "x \<in> {x \<in> dom m. x \<in> scan_range lo cnt}"
    proof (cases "finite {x \<in> dom m. x \<in> scan_range lo cnt}")
      case True
      with that show ?thesis by (auto simp: ordered_keys_def)
    qed (simp add: finite_code)
    with assms show ?thesis by auto
  qed
  then show ?thesis unfolding eq by auto
qed

lemma put_scan_commute:
  assumes "Op a = PUT" "Op b = SCAN" "Uint64 (V b) = Some cnt" "(K a) \<notin> scan_range (K b) cnt"
  shows "spec_exec b (m(K a \<mapsto> V a)) =
    map_option (\<lambda>(r, m'). (r, m'(K a \<mapsto> V a))) (spec_exec b m)"
  using assms by (simp add: spec_exec_def scan_put_frame [OF assms(4), of m "V a"] del: fun_upd_apply dom_fun_upd)

lemma Conflict_put_scan:
  assumes "Op a = PUT" "Op b = SCAN" "Conflict a b = Some False"
  obtains cnt where "Uint64 (V b) = Some cnt" "(K a) \<notin> scan_range (K b) cnt"
  using assms by (cases "Uint64 (V b)") (auto simp: Conflict_def scan_range_def)

lemma Conflict_put_point:
  assumes "Op a = PUT" "Op b \<noteq> SCAN" "Conflict a b = Some False"
  shows "K a \<noteq> K b"
  using assms by (auto simp: Conflict_def)

lemma nonput_state: "Op c \<noteq> PUT \<Longrightarrow> spec_exec c m = Some (r, m') \<Longrightarrow> m' = m"
  by (auto simp: spec_exec_def split: if_splits option.splits)

lemma put_then:
  assumes "Op a = PUT" "Conflict a b = Some False" "spec_exec b m = Some (rb, mb)"
  shows "spec_exec b (m(K a \<mapsto> V a)) = Some (rb, mb(K a \<mapsto> V a))"
proof (cases "Op b = SCAN")
  case True
  then obtain cnt where "Uint64 (V b) = Some cnt" "(K a) \<notin> scan_range (K b) cnt"
    using assms Conflict_put_scan by metis
  with put_scan_commute [OF assms(1) True this] assms(3) show ?thesis by simp
next
  case False
  then have "K a \<noteq> K b" using assms Conflict_put_point by blast
  with assms(3) False show ?thesis
    by (auto simp: spec_exec_def fun_upd_twist split: if_splits)
qed

lemma put_then_inv:
  assumes "Op a = PUT" "Conflict a b = Some False" "spec_exec b (m(K a \<mapsto> V a)) = Some (rb, m2)"
  obtains mb where "spec_exec b m = Some (rb, mb)" "m2 = mb(K a \<mapsto> V a)"
proof -
  obtain rb' mb where "spec_exec b m = Some (rb', mb)"
    using assms Conflict_put_scan [of a b]
    by (cases "Op b = SCAN") (fastforce simp: spec_exec_def)+
  with put_then [OF assms(1,2) this] assms(3) that show thesis by auto
qed

lemma spec_commute:
  assumes nc: "Conflict a b = Some False"
    and a: "spec_exec a m = Some (ra, ma)" and b: "spec_exec b ma = Some (rb, m2)"
  shows "\<exists>mb. spec_exec b m = Some (rb, mb) \<and> spec_exec a mb = Some (ra, m2)"
proof (cases "Op a = PUT")
  case True
  then have ma: "ma = m(K a \<mapsto> V a)" "ra = []" using a by (auto simp: spec_exec_def)
  obtain mb where "spec_exec b m = Some (rb, mb)" "m2 = mb(K a \<mapsto> V a)"
    using put_then_inv [OF True nc] b ma by blast
  with True ma show ?thesis by (auto simp: spec_exec_def)
next
  case False
  then have ma: "ma = m" using nonput_state a by blast
  show ?thesis
  proof (cases "Op b = PUT")
    case True
    then have "m2 = m(K b \<mapsto> V b)" "rb = []" using b ma by (auto simp: spec_exec_def)
    with put_then [OF True _ a, unfolded Conflict_sym [of b]] nc ma True show ?thesis
      by (auto simp: spec_exec_def)
  next
    case b': False
    with nonput_state b have "m2 = ma" by blast
    with a b ma show ?thesis by auto
  qed
qed

subsection \<open>An ordered association list\<close>

fun ol_put :: "key \<Rightarrow> bytes \<Rightarrow> (key \<times> bytes) list \<Rightarrow> (key \<times> bytes) list" where
  "ol_put k v [] = [(k, v)]"
| "ol_put k v ((k', v') # xs) =
     (if sint k < sint k' then (k, v) # (k', v') # xs
      else if k = k' then (k, v) # xs else (k', v') # ol_put k v xs)"

definition ordered_list :: "(key \<times> bytes) list treemap" where
  "ordered_list = \<lparr>tm_New = [], tm_Put = ol_put, tm_Get = (\<lambda>k m. map_of m k),
     tm_Select = (\<lambda>P. filter (\<lambda>(k, v). P k v)), tm_Iterate = (\<lambda>m. m), tm_Size = length\<rparr>"

lemma map_of_ol_put: "ordered_by_key m \<Longrightarrow> map_of (ol_put k v m) = (map_of m)(k \<mapsto> v)"
  by (induction k v m rule: ol_put.induct) (auto simp: ordered_by_key_def fun_upd_twist)

lemma set_ol_put: "set (ol_put k v m) \<subseteq> insert (k, v) (set m)"
  by (induction k v m rule: ol_put.induct) auto

lemma ordered_ol_put: "ordered_by_key m \<Longrightarrow> ordered_by_key (ol_put k v m)"
proof (induction k v m rule: ol_put.induct)
  case (2 k v k' v' xs)
  have "sint k' < sint k" if "\<not> sint k < sint k'" "k \<noteq> k'"
    using that by (metis linorder_neqE signed_word_eqI)
  with 2 show ?case
    using set_ol_put [of k v xs] by (fastforce simp: ordered_by_key_def)
qed (simp add: ordered_by_key_def)

lemma ordered_filter: "ordered_by_key m \<Longrightarrow> ordered_by_key (filter P m)"
  by (induction m) (auto simp: ordered_by_key_def)

lemma map_of_filter_ordered:
  "ordered_by_key m \<Longrightarrow> map_of (filter (\<lambda>(k, v). P k v) m) k =
     (case map_of m k of Some v \<Rightarrow> if P k v then Some v else None | None \<Rightarrow> None)"
proof (induction m)
  case (Cons x xs)
  have "map_of xs k = None" if "fst x = k"
  proof -
    have "k' \<noteq> k" if "(k', v) \<in> set xs" for k' v
      using Cons.prems that \<open>fst x = k\<close> by (fastforce simp: ordered_by_key_def case_prod_beta)
    then show ?thesis by (force simp: map_of_eq_None_iff)
  qed
  with Cons show ?case by (cases x) (auto simp: ordered_by_key_def split: option.splits)
qed simp

interpretation ol: treemap_spec ordered_list map_of ordered_by_key
  by unfold_locales
    (simp_all add: ordered_list_def map_of_ol_put ordered_ol_put ordered_filter map_of_filter_ordered,
     simp_all add: ordered_by_key_def)

subsection \<open>Properties\<close>

text \<open>C8: over any ordered map that behaves as the library documents, \<open>Execute\<close> refines the
  abstract key-value machine: same reply, same resulting map, a panic exactly where the contract
  has one, and the library's invariant kept.\<close>

theorem Execute_correct:
  assumes "treemap_spec tm m_abs ok" "ok st"
  shows "map_option (\<lambda>(v, st'). (v, m_abs st')) (Execute tm c st) = spec_exec c (m_abs st) \<and>
    (case Execute tm c st of None \<Rightarrow> True | Some (v, st') \<Rightarrow> ok st')"
  using treemap_spec.Execute_refines [OF assms] treemap_spec.Execute_inv [OF assms]
  by (auto split: option.splits)

theorem Execute_correct_witness:
  "map_option (\<lambda>(v, st'). (v, map_of st')) (Execute ordered_list \<lparr>Op = PUT, K = 7, V = [1, 2]\<rparr> [(5, [9])]) =
     spec_exec \<lparr>Op = PUT, K = 7, V = [1, 2]\<rparr> (map_of [(5, [9])]) \<and>
   Execute ordered_list \<lparr>Op = PUT, K = 7, V = [1, 2]\<rparr> [(5, [9])] = Some ([], [(5, [9]), (7, [1, 2])])"
  using Execute_correct [OF ol.treemap_spec_axioms, of "[(5, [9])]" "\<lparr>Op = PUT, K = 7, V = [1, 2]\<rparr>"]
  by (simp add: ordered_by_key_def Execute_def ordered_list_def NIL_def)

text \<open>C9: commands that \<open>Conflict\<close> calls independent commute: executed in the other order, each
  gives the same reply and the two stores hold the same map.\<close>

theorem independent_commands_commute:
  assumes "treemap_spec tm m_abs ok" "ok st" "Conflict a b = Some False"
    and "Execute tm a st = Some (ra, st1)" "Execute tm b st1 = Some (rb, st2)"
  shows "\<exists>st1' st2'. Execute tm b st = Some (rb, st1') \<and> Execute tm a st1' = Some (ra, st2') \<and> m_abs st2' = m_abs st2"
proof -
  note ref = treemap_spec.Execute_refines [OF assms(1)] and keep = treemap_spec.Execute_inv [OF assms(1)]
  have i1: "ok st1" using keep assms(2,4) .
  obtain mb where mb: "spec_exec b (m_abs st) = Some (rb, mb)" "spec_exec a mb = Some (ra, m_abs st2)"
    using spec_commute [OF assms(3)] treemap_spec.Execute_SomeD [OF assms(1)] assms(2,4,5) i1 by metis
  obtain st1' where b: "Execute tm b st = Some (rb, st1')" "m_abs st1' = mb"
    using ref [OF assms(2), of b] mb(1) by auto
  then have "ok st1'" using keep assms(2) by blast
  then obtain st2' where "Execute tm a st1' = Some (ra, st2')" "m_abs st2' = m_abs st2"
    using ref [of st1' a] mb(2) b(2) by auto
  with b show ?thesis by blast
qed

theorem independent_commands_commute_witness:
  "\<exists>st1' st2'. Execute ordered_list \<lparr>Op = SCAN, K = 10, V = [5, 0, 0, 0, 0, 0, 0, 0]\<rparr> [(12, [4])] = Some ([4], st1') \<and>
     Execute ordered_list \<lparr>Op = PUT, K = 7, V = [1]\<rparr> st1' = Some ([], st2') \<and> map_of st2' = map_of [(7, [1]), (12, [4])]"
  by (rule independent_commands_commute [OF ol.treemap_spec_axioms, where ?st1.0 = "[(7, [1]), (12, [4])]"])
    (simp_all add: ordered_by_key_def Execute_def ordered_list_def NIL_def Conflict_def Uint64_def le_get_def in_scan_def scan_range_def)

text \<open>C10: a command accepted by any admission policy never makes \<open>Execute\<close> panic, and never makes \<open>Conflict\<close>
  panic against another accepted command. It survives the wire format, whatever follows it in the stream, exactly
  when its value has at most \<open>MaxValueBytes\<close> = 65535 bytes; the default policy and every policy whose own limit does not
  exceed 65535 guarantee that. A policy with a larger limit (the one of \<open>src/bodega/replica.go\<close>, whose messages do
  not use this codec) accepts values whose length the codec truncates to 16 bits.\<close>

theorem validated_commands_are_safe:
  assumes "Validate pol c = None" "Validate pol d = None"
  shows "Execute tm c st \<noteq> None \<and> Conflict c d \<noteq> None \<and>
    (Command_Unmarshal (Command_Marshal c @ rest) = Inr (c, rest) \<longleftrightarrow> int (length (V c)) \<le> MaxValueBytes) \<and>
    (PolicyMaxValueBytes pol \<le> MaxValueBytes \<longrightarrow> int (length (V c)) \<le> MaxValueBytes)"
proof -
  have "Op x = SCAN \<Longrightarrow> Uint64 (V x) \<noteq> None" if "Validate pol x = None" for x
    using that by (auto simp: Validate_def Uint64_def Let_def split: if_splits)
  then have "Op c = SCAN \<Longrightarrow> Uint64 (V c) \<noteq> None" "Op d = SCAN \<Longrightarrow> Uint64 (V d) \<noteq> None"
    using assms by blast+
  then have "Execute tm c st \<noteq> None" "Conflict c d \<noteq> None"
    by (auto simp: Execute_def Conflict_def split: option.splits Option.bind_splits)
  moreover have "PolicyMaxValueBytes pol \<le> MaxValueBytes \<Longrightarrow> int (length (V c)) \<le> MaxValueBytes"
    using assms(1) by (auto simp: Validate_def MaxValueBytes_def Let_def split: if_splits)
  ultimately show ?thesis using Command_roundtrip_iff [of c rest] by (simp add: MaxValueBytes_def)
qed

theorem validated_commands_are_safe_witness:
  "Command_Unmarshal (Command_Marshal \<lparr>Op = SCAN, K = 1, V = [5, 0, 0, 0, 0, 0, 0, 0]\<rparr> @ [3]) =
     Inr (\<lparr>Op = SCAN, K = 1, V = [5, 0, 0, 0, 0, 0, 0, 0]\<rparr>, [3]) \<and>
   Conflict \<lparr>Op = SCAN, K = 1, V = [5, 0, 0, 0, 0, 0, 0, 0]\<rparr> \<lparr>Op = PUT, K = 4, V = []\<rparr> \<noteq> None"
  using validated_commands_are_safe [of "\<lparr>Operations = [], PolicyMaxValueBytes = 0\<rparr>"
    "\<lparr>Op = SCAN, K = 1, V = [5, 0, 0, 0, 0, 0, 0, 0]\<rparr>" "\<lparr>Op = PUT, K = 4, V = []\<rparr>" ordered_list "[]" "[3]"]
  by (simp add: Validate_def MaxValueBytes_def)

end
