(* ===== verification/Requests.thy ===== *)
theory Requests
  imports KVState
begin

text \<open>
  Request identities (\<open>RequestID\<close> of \<open>src/replica/defs\<close>) with the order the protocols sort them
  by, Go's truncating integer division and the \<open>int32\<close> conversion.
\<close>

datatype request_id = RequestID (Client: int) (Sequence: int)

text \<open>The comparison of the sorts over identifiers, and the linear order it is.\<close>

definition id_before :: "request_id \<Rightarrow> request_id \<Rightarrow> bool" where
  "id_before a b \<longleftrightarrow>
     (if Client a \<noteq> Client b then Client a < Client b else Sequence a < Sequence b)"

instantiation request_id :: linorder
begin

definition less_request_id :: "request_id \<Rightarrow> request_id \<Rightarrow> bool" where
  "less_request_id a b \<longleftrightarrow> id_before a b"

definition less_eq_request_id :: "request_id \<Rightarrow> request_id \<Rightarrow> bool" where
  "less_eq_request_id a b \<longleftrightarrow> a < b \<or> a = (b :: request_id)"

instance
proof
  fix a b c :: request_id
  show "a < b \<longleftrightarrow> a \<le> b \<and> \<not> b \<le> a"
    by (auto simp: less_request_id_def id_before_def less_eq_request_id_def split: if_splits)
  show "a \<le> a" by (simp add: less_eq_request_id_def)
  show "a \<le> b \<Longrightarrow> b \<le> c \<Longrightarrow> a \<le> c"
    by (auto simp: less_request_id_def id_before_def less_eq_request_id_def split: if_splits)
  show "a \<le> b \<Longrightarrow> b \<le> a \<Longrightarrow> a = b"
    by (auto simp: less_request_id_def id_before_def less_eq_request_id_def split: if_splits)
  show "a \<le> b \<or> b \<le> a"
    by (cases a; cases b) (auto simp: less_request_id_def id_before_def less_eq_request_id_def)
qed

end

definition go_div :: "int \<Rightarrow> int \<Rightarrow> int" where
  "go_div a b = sgn a * sgn b * (\<bar>a\<bar> div \<bar>b\<bar>)"

lemma go_div_nonneg [simp]: "0 \<le> a \<Longrightarrow> 0 < b \<Longrightarrow> go_div a b = a div b"
  by (cases "a = 0") (simp_all add: go_div_def)

definition int32 :: "int \<Rightarrow> int" where
  "int32 x = signed_take_bit 31 x"

lemma int32_small: "- (2 ^ 31) \<le> x \<Longrightarrow> x < 2 ^ 31 \<Longrightarrow> int32 x = x"
  by (simp add: int32_def signed_take_bit_int_eq_self)

definition boolInt :: "bool \<Rightarrow> int" where
  "boolInt b = (if b then 1 else 0)"

text \<open>Reading a slice by index; an index out of range panics.\<close>

definition slice_get :: "'a list \<Rightarrow> int \<Rightarrow> 'a option" where
  "slice_get xs i = (if 0 \<le> i \<and> i < int (length xs) then Some (xs ! nat i) else None)"

record request =
  req_ID :: request_id
  req_Command :: command

end
