(* ===== verification/ReplicaSet.thy ===== *)
theory ReplicaSet
  imports Prelude
begin

text \<open>
  Package \<open>replicaset\<close>: sets of replica identifiers 0..63 kept in one \<open>uint64\<close>
  (\<open>src/replicaset/set.go\<close>). The abstraction \<open>ids\<close> reads a word as a set of integers and every
  operation is shown to implement the set operation it is named after; \<open>Range\<close> visits exactly the
  members, in ascending order, and stops when the visitor says so.
\<close>

unbundle bit_operations_syntax

type_synonym rset = "64 word"

abbreviation MaxSize :: int where "MaxSize \<equiv> 64"

definition in_range :: "int \<Rightarrow> bool" where
  "in_range i \<longleftrightarrow> 0 \<le> i \<and> i < MaxSize"

definition With :: "rset \<Rightarrow> int \<Rightarrow> rset" where
  "With s i = (if i < 0 \<or> i \<ge> MaxSize then s else s OR push_bit (nat i) 1)"

definition Add :: "rset \<Rightarrow> int \<Rightarrow> rset \<times> bool" where
  "Add s i = (let s' = With s i in (s', s' \<noteq> s))"

definition Remove :: "rset \<Rightarrow> int \<Rightarrow> rset" where
  "Remove s i = (if i \<ge> 0 \<and> i < MaxSize then s AND NOT (push_bit (nat i) 1) else s)"

definition Contains :: "rset \<Rightarrow> int \<Rightarrow> bool" where
  "Contains s i \<longleftrightarrow> i \<ge> 0 \<and> i < MaxSize \<and> s AND push_bit (nat i) 1 \<noteq> 0"

definition OnesCount64 :: "64 word \<Rightarrow> nat" where
  "OnesCount64 w = length (filter (bit w) [0..<64])"

definition Size :: "rset \<Rightarrow> int" where
  "Size s = int (OnesCount64 s)"

definition Union :: "rset \<Rightarrow> rset \<Rightarrow> rset" where
  "Union s t = s OR t"

definition Intersection :: "rset \<Rightarrow> rset \<Rightarrow> rset" where
  "Intersection s t = s AND t"

definition Covers :: "rset \<Rightarrow> rset \<Rightarrow> bool" where
  "Covers s t \<longleftrightarrow> s AND t = t"

definition Equal :: "rset \<Rightarrow> rset \<Rightarrow> bool" where
  "Equal s t \<longleftrightarrow> s = t"

text \<open>\<open>New\<close> and \<open>All\<close> (here \<open>All_ids\<close>) panic on identifiers or sizes that do not fit: \<^const>\<open>None\<close>.\<close>

fun New_from :: "rset \<Rightarrow> int list \<Rightarrow> rset option" where
  "New_from s [] = Some s"
| "New_from s (i # is) = (if i < 0 \<or> i \<ge> MaxSize then None else New_from (fst (Add s i)) is)"

definition New :: "int list \<Rightarrow> rset option" where
  "New is = New_from 0 is"

definition All_ids :: "int \<Rightarrow> rset option" where
  "All_ids sz = (if sz < 0 \<or> sz > MaxSize then None
     else Some (drop_bit (nat (MaxSize - sz)) (NOT 0)))"

definition TrailingZeros64 :: "64 word \<Rightarrow> nat" where
  "TrailingZeros64 w = (case find (bit w) [0..<64] of None \<Rightarrow> 64 | Some i \<Rightarrow> i)"

subsection \<open>The set a word stands for\<close>

definition ids :: "rset \<Rightarrow> int set" where
  "ids s = {i. in_range i \<and> bit s (nat i)}"

lemma bit_single: "bit (2 ^ k :: 64 word) i \<longleftrightarrow> i = k \<and> k < 64"
  by (auto simp: bit_exp_iff)

lemma in_range_nat: "in_range i \<Longrightarrow> nat i < 64"
  by (auto simp: in_range_def)

lemma ids_subset: "ids s \<subseteq> {0..<64}"
  by (auto simp: ids_def in_range_def)

lemma finite_ids [simp]: "finite (ids s)"
  using ids_subset finite_subset by blast

lemma ids_0 [simp]: "ids 0 = {}"
  by (simp add: ids_def)

lemma ids_image: "ids s = int ` {k. k < 64 \<and> bit s k}"
  by (force simp: ids_def in_range_def image_iff)

lemma ids_inject: "ids s = ids t \<longleftrightarrow> s = t"
proof
  assume eq: "ids s = ids t"
  show "s = t"
  proof (rule bit_word_eqI)
    fix k assume "k < LENGTH(64)"
    then have "int k \<in> ids s \<longleftrightarrow> bit s k" "int k \<in> ids t \<longleftrightarrow> bit t k"
      by (auto simp: ids_def in_range_def)
    with eq show "bit s k \<longleftrightarrow> bit t k" by simp
  qed
qed simp

lemma Size_card: "Size s = int (card (ids s))"
proof -
  have "OnesCount64 s = card (set (filter (bit s) [0..<64]))"
    unfolding OnesCount64_def by (subst distinct_card) simp_all
  also have "set (filter (bit s) [0..<64]) = {k. k < 64 \<and> bit s k}" by auto
  also have "card {k. k < 64 \<and> bit s k} = card (ids s)"
    by (simp add: ids_image card_image)
  finally show ?thesis by (simp add: Size_def)
qed

lemma ids_With: "ids (With s i) = (if in_range i then insert i (ids s) else ids s)"
  by (auto simp: With_def ids_def in_range_def bit_or_iff bit_single)

lemma ids_Remove: "ids (Remove s i) = ids s - {i}"
  by (auto simp: Remove_def ids_def in_range_def bit_and_iff bit_not_iff bit_single)

lemma word_nonzero_bit: "(w :: 64 word) \<noteq> 0 \<longleftrightarrow> (\<exists>k<64. bit w k)"
proof
  assume "w \<noteq> 0"
  then show "\<exists>k<64. bit w k" using bit_word_eqI [of w 0] by auto
qed auto

lemma Contains_iff: "Contains s i \<longleftrightarrow> i \<in> ids s"
  by (auto simp: Contains_def ids_def in_range_def word_nonzero_bit bit_and_iff bit_single)

lemma ids_Union: "ids (Union s t) = ids s \<union> ids t"
  by (auto simp: Union_def ids_def bit_or_iff)

lemma ids_Intersection: "ids (Intersection s t) = ids s \<inter> ids t"
  by (auto simp: Intersection_def ids_def bit_and_iff)

lemma Covers_iff: "Covers s t \<longleftrightarrow> ids t \<subseteq> ids s"
proof -
  have "Covers s t \<longleftrightarrow> ids (Intersection s t) = ids t"
    by (simp add: Covers_def Intersection_def ids_inject)
  then show ?thesis by (auto simp: ids_Intersection)
qed

lemma Covers_refl: "Covers s s"
  by (simp add: Covers_def)

lemma Add_iff: "snd (Add s i) \<longleftrightarrow> in_range i \<and> i \<notin> ids s"
proof -
  have "snd (Add s i) \<longleftrightarrow> ids (With s i) \<noteq> ids s" by (simp add: Add_def Let_def ids_inject)
  then show ?thesis by (auto simp: ids_With)
qed

lemma ids_All: "All_ids sz = Some s \<Longrightarrow> ids s = {0..<sz}"
  by (auto simp: All_ids_def ids_def in_range_def bit_mask_iff split: if_splits)

lemma New_from_ids:
  "New_from s is = Some t \<longleftrightarrow> (\<forall>i\<in>set is. in_range i) \<and> ids t = ids s \<union> set is"
proof (induction "is" arbitrary: s)
  case Nil
  then show ?case by (auto simp: ids_inject)
next
  case (Cons i "is")
  then show ?case
    by (auto simp: Add_def Let_def ids_With in_range_def)
qed

subsection \<open>Range\<close>

lemma TrailingZeros64_least:
  assumes "s \<noteq> 0"
  shows "TrailingZeros64 s < 64" "bit s (TrailingZeros64 s)" "\<And>k. k < TrailingZeros64 s \<Longrightarrow> \<not> bit s k"
proof -
  obtain k where k: "k < 64" "bit s k"
    using assms word_nonzero_bit by blast
  then obtain j where j: "find (bit s) [0..<64] = Some j"
    by (metis atLeastLessThan_iff find_None_iff2 not_None_eq set_upt zero_le)
  then have "j < 64 \<and> bit s j \<and> (\<forall>k<j. \<not> bit s k)"
    by (auto simp: find_Some_iff)
  with j show "TrailingZeros64 s < 64" "bit s (TrailingZeros64 s)"
    "\<And>k. k < TrailingZeros64 s \<Longrightarrow> \<not> bit s k"
    by (auto simp: TrailingZeros64_def)
qed

text \<open>\<open>s &= s - 1\<close> clears the lowest member.\<close>

lemma clear_lowest:
  assumes "s \<noteq> 0"
  shows "s AND (s - 1) = Remove s (int (TrailingZeros64 s))"
proof -
  define k where "k = TrailingZeros64 s"
  define u where "u = Remove s (int k)"
  note least = TrailingZeros64_least [OF assms, folded k_def]
  have bit_u: "bit u j \<longleftrightarrow> bit s j \<and> j \<noteq> k" for j
    using least(1) by (auto simp: u_def Remove_def bit_and_iff bit_not_iff bit_single
        dest: bit_imp_le_length)
  have "u AND push_bit k 1 = 0"
    by (rule bit_word_eqI) (auto simp: bit_and_iff bit_u bit_single)
  then have "u + push_bit k 1 = u OR push_bit k 1" by (rule disjunctive_add_eq_or)
  also have "\<dots> = s"
    using least(1,2) by (intro bit_word_eqI) (auto simp: bit_or_iff bit_u bit_single)
  finally have s: "s = u + push_bit k 1" by simp
  have "u AND mask k = 0"
    using least(3) by (intro bit_word_eqI) (auto simp: bit_and_iff bit_u bit_mask_iff)
  then have "u + mask k = u OR mask k" by (rule disjunctive_add_eq_or)
  moreover have "s - 1 = u + mask k"
    by (simp add: s mask_eq_exp_minus_1 push_bit_eq_mult)
  ultimately have "s - 1 = u OR mask k" by simp
  then have "s AND (s - 1) = u"
    using least(3) by (intro bit_word_eqI) (auto simp: bit_and_iff bit_or_iff bit_u bit_mask_iff)
  then show ?thesis by (simp add: u_def k_def)
qed

lemma trailing_in_ids: "s \<noteq> 0 \<Longrightarrow> int (TrailingZeros64 s) \<in> ids s"
  using TrailingZeros64_least [of s] by (simp add: ids_def in_range_def)

lemma trailing_least: "i \<in> ids s \<Longrightarrow> int (TrailingZeros64 s) \<le> i"
  using TrailingZeros64_least(3) [of s "nat i"] not_less
  by (cases "s = 0") (fastforce simp: ids_def in_range_def)+

text \<open>\<open>Range\<close> threads the visitor's state; \<open>visit\<close> returns the new state and whether to go on.\<close>

function Range :: "rset \<Rightarrow> (int \<Rightarrow> 'a \<Rightarrow> 'a \<times> bool) \<Rightarrow> 'a \<Rightarrow> 'a" where
  "Range s visit acc =
     (if s = 0 then acc
      else let i = int (TrailingZeros64 s); (acc', go_on) = visit i acc
        in if \<not> go_on then acc' else Range (s AND (s - 1)) visit acc')"
  by pat_completeness auto
termination
proof (relation "measure (\<lambda>(s, _, _). card (ids s))")
  fix s :: rset and visit :: "int \<Rightarrow> 'a \<Rightarrow> 'a \<times> bool" and acc i x acc' go_on
  assume "s \<noteq> 0"
  then show "((s AND (s - 1), visit, acc'), s, visit, acc) \<in> measure (\<lambda>(s, _, _). card (ids s))"
    by (auto simp: clear_lowest ids_Remove intro!: psubset_card_mono dest: trailing_in_ids)
qed simp

declare Range.simps [simp del]

lemma Range_0 [simp]: "Range 0 visit acc = acc"
  by (simp add: Range.simps)

fun visit_list :: "int list \<Rightarrow> (int \<Rightarrow> 'a \<Rightarrow> 'a \<times> bool) \<Rightarrow> 'a \<Rightarrow> 'a" where
  "visit_list [] visit acc = acc"
| "visit_list (i # is) visit acc =
     (let (acc', go_on) = visit i acc in if go_on then visit_list is visit acc' else acc')"

lemma sorted_ids_step:
  assumes "s \<noteq> 0"
  shows "sorted_list_of_set (ids s) =
    int (TrailingZeros64 s) # sorted_list_of_set (ids (s AND (s - 1)))"
proof -
  have "Min (ids s) = int (TrailingZeros64 s)"
    using assms trailing_in_ids trailing_least by (intro Min_eqI) auto
  moreover have "ids s \<noteq> {}" using assms trailing_in_ids by auto
  ultimately show ?thesis
    using assms by (simp add: sorted_list_of_set_nonempty clear_lowest ids_Remove)
qed

lemma Range_visit_list: "Range s visit acc = visit_list (sorted_list_of_set (ids s)) visit acc"
proof (induction s visit acc rule: Range.induct)
  case (1 s visit acc)
  show ?case
  proof (cases "s = 0")
    case False
    then show ?thesis
      using 1 by (subst Range.simps) (auto simp: sorted_ids_step Let_def split: prod.split)
  qed simp
qed

subsection \<open>Contract\<close>

text \<open>What the protocols rely on: a collection of identifiers with membership and size.\<close>

locale id_set =
  fixes empty :: 's and insert_id :: "'s \<Rightarrow> int \<Rightarrow> 's" and count :: "'s \<Rightarrow> int"
    and abs :: "'s \<Rightarrow> int set" and ok :: "int \<Rightarrow> bool"
  assumes abs_empty: "abs empty = {}"
    and abs_insert: "ok i \<Longrightarrow> abs (insert_id s i) = insert i (abs s)"
    and count_card: "count s = int (card (abs s))"
    and abs_finite: "finite (abs s)"
begin

lemma abs_fold: "\<forall>i\<in>set is. ok i \<Longrightarrow> abs (foldl insert_id s is) = abs s \<union> set is"
  by (induction "is" arbitrary: s) (auto simp: abs_insert)

text \<open>Votes counted from members of 0..n-1 that reach n/2+1 are a majority.\<close>

lemma count_majority:
  assumes "abs s \<subseteq> replicas n" "n div 2 + 1 \<le> count s" "0 \<le> n"
  shows "majority n (abs s)"
  using majority_half [OF assms(3,1)] assms(2) by (simp add: count_card)

lemma count_insert_fresh:
  "ok i \<Longrightarrow> i \<notin> abs s \<Longrightarrow> count (insert_id s i) = count s + 1"
  by (simp add: count_card abs_insert abs_finite)

end

interpretation rs: id_set "0 :: rset" With Size ids in_range
  by unfold_locales (simp_all add: ids_With Size_card)

lemma ids_7: "ids 7 = {0, 1, 2}"
proof -
  have "ids (With (With (With 0 0) 1) 2) = {0, 1, 2}" by (auto simp: ids_With in_range_def)
  moreover have "With (With (With 0 0) 1) 2 = 7" by (simp add: With_def)
  ultimately show ?thesis by simp
qed

subsection \<open>Properties of the set\<close>

text \<open>C39 The bit mask is a finite set of the identifiers 0 to 63: every operation is the set operation of its name,
  identifiers out of range are ignored, and two masks are equal when they have the same members.\<close>

theorem replicaset_refines_sets:
  "ids (With s i) = (if in_range i then insert i (ids s) else ids s) \<and> ids (Remove s i) = ids s - {i} \<and>
   ids (Union s t) = ids s \<union> ids t \<and> ids (Intersection s t) = ids s \<inter> ids t \<and>
   (Contains s i \<longleftrightarrow> i \<in> ids s) \<and> (Covers s t \<longleftrightarrow> ids t \<subseteq> ids s) \<and> (Equal s t \<longleftrightarrow> ids s = ids t) \<and>
   Size s = int (card (ids s)) \<and> (snd (Add s i) \<longleftrightarrow> in_range i \<and> i \<notin> ids s)"
  by (simp add: ids_With ids_Remove ids_Union ids_Intersection Contains_iff Covers_iff Equal_def ids_inject Size_card Add_iff)

text \<open>C40 \<open>Range\<close> visits exactly the members, in ascending order, and stops at the first visit that says so.\<close>

theorem replicaset_Range_ascending:
  "Range s visit acc = visit_list (sorted_list_of_set (ids s)) visit acc"
  by (rule Range_visit_list)

end
