(* ===== verification/PaxosSpec.thy ===== *)
theory PaxosSpec
  imports PaxosCore
begin

text \<open>
  What the Paxos core promises: an abstract replicated log in which one replica at a time takes one
  small step (relation \<open>mstep\<close>) against the set of all packets ever sent. A node keeps the part of
  the core that safety depends on; packets and records are those of the code. The inductive
  invariant \<open>Inv\<close> says why a value chosen by a majority in one ballot is the only value any later
  ballot can propose; \<open>PaxosRefine\<close> shows that every handler of the core is a sequence of these steps.
\<close>

record node =
  n_bal :: int
  n_lead :: int
  n_prep :: bool
  n_high :: int
  n_exec :: int
  n_log :: "int \<rightharpoonup> logrec"
  n_votes :: "int \<Rightarrow> int set"
  n_pages :: "int \<Rightarrow> int \<rightharpoonup> packet"
  n_prom :: "int set"
  n_frz :: "packet list"
  n_frzB :: int
  n_frzF :: int
  n_sent :: "packet set"

type_synonym net = "int \<Rightarrow> node"

definition soup :: "int \<Rightarrow> net \<Rightarrow> packet set" where
  "soup N \<sigma> = (\<Union>i\<in>replicas N. n_sent (\<sigma> i))"

definition record_kinds :: "kind set" where
  "record_kinds = {packetAccept, packetCommit, packetPromise}"

definition owned_kinds :: "kind set" where
  "owned_kinds = {packetPrepare, packetAccept, packetCommit, packetReady}"

definition leader_kinds :: "kind set" where
  "leader_kinds = {packetAccept, packetCommit, packetReady, packetFetch}"

lemma kind_mem [simp]:
  "k \<in> record_kinds \<longleftrightarrow> k = packetAccept \<or> k = packetCommit \<or> k = packetPromise"
  "k \<in> owned_kinds \<longleftrightarrow> k = packetPrepare \<or> k = packetAccept \<or> k = packetCommit \<or> k = packetReady"
  "k \<in> leader_kinds \<longleftrightarrow> k = packetAccept \<or> k = packetCommit \<or> k = packetReady \<or> k = packetFetch"
  by (auto simp: record_kinds_def owned_kinds_def leader_kinds_def)

text \<open>A promise is a snapshot cut into pages of 128 records.\<close>

definition promise_page :: "int \<Rightarrow> int \<Rightarrow> int \<Rightarrow> int \<Rightarrow> logrec list \<Rightarrow> nat \<Rightarrow> packet" where
  "promise_page q b F H vs k =
     (Packet packetPromise q b)\<lparr>p_Floor := F, p_High := H, p_Page := int k,
        p_Pages := int (page_count (length vs)), p_Records := take 128 (drop (k * 128) vs)\<rparr>"

definition promise_pages :: "int \<Rightarrow> int \<Rightarrow> int \<Rightarrow> int \<Rightarrow> logrec list \<Rightarrow> packet list" where
  "promise_pages q b F H vs = map (promise_page q b F H vs) [0..<page_count (length vs)]"

definition suffix_of :: "node \<Rightarrow> int \<Rightarrow> logrec list" where
  "suffix_of nd F = List.map_filter (n_log nd) [F..n_high nd]"

definition freeze :: "int \<Rightarrow> packet \<Rightarrow> node \<Rightarrow> node" where
  "freeze i p nd =
     (if n_frz nd \<noteq> [] \<and> n_frzB nd = p_Ballot p \<and> n_frzF nd = p_Floor p
      then nd\<lparr>n_sent := n_sent nd \<union> set (n_frz nd)\<rparr>
      else let snap = promise_pages i (n_bal nd) (p_Floor p) (n_high nd) (suffix_of nd (p_Floor p))
        in nd\<lparr>n_frz := snap, n_frzB := p_Ballot p, n_frzF := p_Floor p, n_sent := n_sent nd \<union> set snap\<rparr>)"

definition inst :: "logrec \<Rightarrow> node \<Rightarrow> node" where
  "inst r nd =
     (if (case n_log nd (r_Slot r) of Some old \<Rightarrow> r_Committed old | None \<Rightarrow> False) then nd
      else nd\<lparr>n_log := (n_log nd)(r_Slot r \<mapsto> r), n_high := max (n_high nd) (r_Slot r)\<rparr>)"

text \<open>What a node may send, besides promises.\<close>

definition emittable :: "int \<Rightarrow> net \<Rightarrow> int \<Rightarrow> packet \<Rightarrow> bool" where
  "emittable N \<sigma> i p \<longleftrightarrow> p_From p = i \<and> p_Ballot p = n_bal (\<sigma> i) \<and>
     (case p_Kind p of
        packetPrepare \<Rightarrow> n_prep (\<sigma> i) \<and> n_lead (\<sigma> i) = i \<and> p_Floor p = n_exec (\<sigma> i) + 1
      | packetPromise \<Rightarrow> False
      | packetAccept \<Rightarrow> \<not> n_prep (\<sigma> i) \<and> n_lead (\<sigma> i) = i \<and>
          (\<forall>r\<in>set (p_Records p). \<exists>l. n_log (\<sigma> i) (r_Slot r) = Some l \<and> r_Request r = r_Request l \<and>
             r_Ballot r = n_bal (\<sigma> i) \<and> (r_Committed r \<longrightarrow> r_Committed l))
      | packetCommit \<Rightarrow> \<not> n_prep (\<sigma> i) \<and> n_lead (\<sigma> i) = i \<and>
          (\<forall>r\<in>set (p_Records p). \<exists>l. n_log (\<sigma> i) (r_Slot r) = Some l \<and> r_Request r = r_Request l \<and>
             r_Ballot r = n_bal (\<sigma> i) \<and> r_Committed r \<and> r_Committed l)
      | packetAck \<Rightarrow> (\<forall>a\<in>set (p_Records p). \<exists>p'\<in>soup N \<sigma>. \<exists>r\<in>set (p_Records p').
             p_Kind p' = packetAccept \<and> p_Ballot p' = n_bal (\<sigma> i) \<and> r_Slot r = r_Slot a \<and>
             (\<exists>l. n_log (\<sigma> i) (r_Slot a) = Some l \<and> (r_Ballot l = n_bal (\<sigma> i) \<or> r_Committed l)))
      | packetReady \<Rightarrow> \<not> n_prep (\<sigma> i) \<and> n_lead (\<sigma> i) = i
      | packetFetch \<Rightarrow> (\<exists>p'\<in>soup N \<sigma>. p_Kind p' \<in> {packetAccept, packetReady} \<and> p_Ballot p' = n_bal (\<sigma> i))
      | _ \<Rightarrow> True)"

definition all_records :: "node \<Rightarrow> logrec set" where
  "all_records nd = {r. \<exists>q\<in>n_prom nd. \<exists>k p. n_pages nd q k = Some p \<and> r \<in> set (p_Records p)}"

definition selects :: "logrec set \<Rightarrow> int \<Rightarrow> logrec option \<Rightarrow> bool" where
  "selects recs s sel \<longleftrightarrow> (case sel of
     Some r \<Rightarrow> r \<in> recs \<and> r_Slot r = s \<and> (\<forall>r'\<in>recs. r_Slot r' = s \<longrightarrow> r_Ballot r' \<le> r_Ballot r)
   | None \<Rightarrow> \<forall>r\<in>recs. r_Slot r \<noteq> s)"

definition refilled :: "int \<Rightarrow> int \<Rightarrow> logrec option \<Rightarrow> logrec" where
  "refilled b s sel = (case sel of Some r \<Rightarrow> r | None \<Rightarrow> noop_record s)\<lparr>r_Ballot := b, r_Committed := False\<rparr>"

definition page_ok :: "node \<Rightarrow> int \<Rightarrow> int \<Rightarrow> int \<Rightarrow> packet \<Rightarrow> bool" where
  "page_ok nd np H k p \<longleftrightarrow> p_Pages p = np \<and> p_Floor p = n_exec nd + 1 \<and> p_High p = H"

inductive mstep :: "int \<Rightarrow> net \<Rightarrow> int \<Rightarrow> node \<Rightarrow> bool" for N \<sigma> i where
  m_begin: "\<lbrakk>b = (n_bal (\<sigma> i) div N + 1) * N + i;
     p = (Packet packetPrepare i b)\<lparr>p_Floor := n_exec (\<sigma> i) + 1\<rparr>\<rbrakk> \<Longrightarrow>
   mstep N \<sigma> i ((\<sigma> i)\<lparr>n_bal := b, n_lead := i, n_prep := True, n_pages := (\<lambda>_. Map.empty), n_prom := {},
     n_votes := (\<lambda>_. {}), n_sent := insert p (n_sent (\<sigma> i))\<rparr>)"
| m_adopt: "\<lbrakk>p \<in> soup N \<sigma>; p_Kind p \<in> {packetPrepare, packetReady}; p_Ballot p > n_bal (\<sigma> i)\<rbrakk> \<Longrightarrow>
   mstep N \<sigma> i ((\<sigma> i)\<lparr>n_bal := p_Ballot p, n_lead := p_From p, n_prep := False, n_votes := (\<lambda>_. {})\<rparr>)"
| m_emit: "emittable N \<sigma> i p \<Longrightarrow> mstep N \<sigma> i ((\<sigma> i)\<lparr>n_sent := insert p (n_sent (\<sigma> i))\<rparr>)"
| m_freeze: "\<lbrakk>p \<in> soup N \<sigma>; p_Kind p = packetPrepare; p_Ballot p = n_bal (\<sigma> i)\<rbrakk> \<Longrightarrow>
   mstep N \<sigma> i (freeze i p (\<sigma> i))"
| m_install: "\<lbrakk>p \<in> soup N \<sigma>; p_Kind p \<in> {packetAccept, packetCommit}; p_Ballot p = n_bal (\<sigma> i);
     r \<in> set (p_Records p)\<rbrakk> \<Longrightarrow> mstep N \<sigma> i (inst r (\<sigma> i))"
| m_vote: "\<lbrakk>p \<in> soup N \<sigma>; p_Kind p = packetAck; p_Ballot p = n_bal (\<sigma> i); s \<in> r_Slot ` set (p_Records p)\<rbrakk> \<Longrightarrow>
   mstep N \<sigma> i ((\<sigma> i)\<lparr>n_votes := (n_votes (\<sigma> i))(s := insert (p_From p) (n_votes (\<sigma> i) s))\<rparr>)"
| m_commit: "\<lbrakk>\<not> n_prep (\<sigma> i); n_lead (\<sigma> i) = i; n_log (\<sigma> i) s = Some r; r_Ballot r = n_bal (\<sigma> i);
     majority N (n_votes (\<sigma> i) s)\<rbrakk> \<Longrightarrow>
   mstep N \<sigma> i ((\<sigma> i)\<lparr>n_log := (n_log (\<sigma> i))(s \<mapsto> r\<lparr>r_Committed := True\<rparr>)\<rparr>)"
| m_exec: "\<lbrakk>\<not> n_prep (\<sigma> i); n_log (\<sigma> i) (n_exec (\<sigma> i) + 1) = Some r; r_Committed r\<rbrakk> \<Longrightarrow>
   mstep N \<sigma> i ((\<sigma> i)\<lparr>n_exec := n_exec (\<sigma> i) + 1, n_votes := (n_votes (\<sigma> i))(r_Slot r := {})\<rparr>)"
| m_page: "\<lbrakk>p \<in> soup N \<sigma>; p_Kind p = packetPromise; p_Ballot p = n_bal (\<sigma> i)\<rbrakk> \<Longrightarrow>
   mstep N \<sigma> i ((\<sigma> i)\<lparr>n_pages := (n_pages (\<sigma> i))(p_From p := (n_pages (\<sigma> i) (p_From p))(p_Page p \<mapsto> p))\<rparr>)"
| m_prom: "\<lbrakk>0 < np; q \<in> replicas N;
     \<forall>k\<in>{0..<np}. \<exists>p. n_pages (\<sigma> i) q k = Some p \<and> page_ok (\<sigma> i) np H k p\<rbrakk> \<Longrightarrow>
   mstep N \<sigma> i ((\<sigma> i)\<lparr>n_prom := insert q (n_prom (\<sigma> i))\<rparr>)"
| m_recover: "\<lbrakk>n_prep (\<sigma> i); i \<in> n_prom (\<sigma> i); majority N (n_prom (\<sigma> i)); n_exec (\<sigma> i) \<le> h;
     \<forall>q\<in>n_prom (\<sigma> i). \<forall>k p. n_pages (\<sigma> i) q k = Some p \<longrightarrow> p_High p \<le> h;
     \<forall>s. n_exec (\<sigma> i) < s \<and> s \<le> h \<longrightarrow> selects (all_records (\<sigma> i)) s (sel s);
     lg = (\<lambda>s. if n_exec (\<sigma> i) < s \<and> s \<le> h then Some (refilled (n_bal (\<sigma> i)) s (sel s)) else n_log (\<sigma> i) s)\<rbrakk> \<Longrightarrow>
   mstep N \<sigma> i ((\<sigma> i)\<lparr>n_prep := False, n_log := lg, n_high := h, n_votes := (\<lambda>_. {})\<rparr>)"
| m_flush: "\<lbrakk>\<not> n_prep (\<sigma> i); n_lead (\<sigma> i) = i; h = n_high (\<sigma> i) + 1\<rbrakk> \<Longrightarrow>
   mstep N \<sigma> i ((\<sigma> i)\<lparr>n_log := (n_log (\<sigma> i))(h \<mapsto> \<lparr>r_Slot = h, r_Ballot = n_bal (\<sigma> i), r_Request = v, r_Committed = False\<rparr>),
     n_high := h\<rparr>)"

definition net_step :: "int \<Rightarrow> net \<Rightarrow> net \<Rightarrow> bool" where
  "net_step N \<sigma> \<sigma>' \<longleftrightarrow> (\<exists>i\<in>replicas N. \<exists>nd. mstep N \<sigma> i nd \<and> \<sigma>' = \<sigma>(i := nd))"

definition init_node :: "int \<Rightarrow> node" where
  "init_node L = \<lparr>n_bal = L, n_lead = L, n_prep = False, n_high = -1, n_exec = -1, n_log = Map.empty,
     n_votes = (\<lambda>_. {}), n_pages = (\<lambda>_. Map.empty), n_prom = {}, n_frz = [], n_frzB = 0, n_frzF = 0, n_sent = {}\<rparr>"

subsection \<open>Proposals, acknowledgements, choice\<close>

definition acked :: "net \<Rightarrow> int \<Rightarrow> int \<Rightarrow> int \<Rightarrow> bool" where
  "acked \<sigma> q s b \<longleftrightarrow> (\<exists>p\<in>n_sent (\<sigma> q). p_Kind p = packetAck \<and> p_Ballot p = b \<and> s \<in> r_Slot ` set (p_Records p))"

definition proposed :: "int \<Rightarrow> net \<Rightarrow> int \<Rightarrow> int \<Rightarrow> request \<Rightarrow> bool" where
  "proposed N \<sigma> s b v \<longleftrightarrow> (\<exists>p\<in>soup N \<sigma>. p_Kind p \<in> record_kinds \<and>
     (\<exists>r\<in>set (p_Records p). r_Slot r = s \<and> r_Ballot r = b \<and> r_Request r = v))"

definition known :: "int \<Rightarrow> net \<Rightarrow> int \<Rightarrow> int \<Rightarrow> request \<Rightarrow> bool" where
  "known N \<sigma> s b v \<longleftrightarrow> proposed N \<sigma> s b v \<or>
     (\<exists>q\<in>replicas N. \<exists>r. n_log (\<sigma> q) s = Some r \<and> r_Ballot r = b \<and> r_Request r = v)"

definition chosen :: "int \<Rightarrow> net \<Rightarrow> int \<Rightarrow> int \<Rightarrow> request \<Rightarrow> bool" where
  "chosen N \<sigma> s b v \<longleftrightarrow> proposed N \<sigma> s b v \<and> (\<exists>Q. majority N Q \<and> (\<forall>q\<in>Q. acked \<sigma> q s b))"

definition dead :: "int \<Rightarrow> net \<Rightarrow> int \<Rightarrow> int \<Rightarrow> bool" where
  "dead N \<sigma> s b \<longleftrightarrow> (\<exists>Q. majority N Q \<and> (\<forall>q\<in>Q. b < n_bal (\<sigma> q) \<and> \<not> acked \<sigma> q s b))"

definition decided :: "int \<Rightarrow> net \<Rightarrow> logrec \<Rightarrow> bool" where
  "decided N \<sigma> r \<longleftrightarrow> (\<exists>b\<le>r_Ballot r. chosen N \<sigma> (r_Slot r) b (r_Request r))"

lemma chosen_not_dead: "chosen N \<sigma> s b v \<Longrightarrow> \<not> dead N \<sigma> s b"
  unfolding chosen_def dead_def using maj.quorum_common by (metis)

subsection \<open>The invariant\<close>

definition inv_ids :: "int \<Rightarrow> net \<Rightarrow> bool" where
  "inv_ids N \<sigma> \<longleftrightarrow> (\<forall>i\<in>replicas N. 0 \<le> n_bal (\<sigma> i) \<and> n_lead (\<sigma> i) = n_bal (\<sigma> i) mod N \<and>
     n_bal (\<sigma> i) \<le> n_bal (\<sigma> (n_bal (\<sigma> i) mod N)) \<and> (n_prep (\<sigma> i) \<longrightarrow> n_lead (\<sigma> i) = i))"

definition pkt_ok :: "int \<Rightarrow> int \<Rightarrow> int \<Rightarrow> packet \<Rightarrow> bool" where
  "pkt_ok N i b p \<longleftrightarrow> p_From p = i \<and> 0 \<le> p_Ballot p \<and> p_Ballot p \<le> b \<and>
     (p_Kind p \<in> owned_kinds \<longrightarrow> p_Ballot p mod N = i) \<and>
     (p_Kind p \<in> {packetAccept, packetCommit} \<longrightarrow> (\<forall>r\<in>set (p_Records p). r_Ballot r = p_Ballot p \<and> 0 \<le> r_Slot r)) \<and>
     (p_Kind p = packetCommit \<longrightarrow> (\<forall>r\<in>set (p_Records p). r_Committed r))"

definition inv_pkt :: "int \<Rightarrow> net \<Rightarrow> bool" where
  "inv_pkt N \<sigma> \<longleftrightarrow> (\<forall>i\<in>replicas N. \<forall>p\<in>n_sent (\<sigma> i). pkt_ok N i (n_bal (\<sigma> i)) p)"

definition inv_prep :: "int \<Rightarrow> net \<Rightarrow> bool" where
  "inv_prep N \<sigma> \<longleftrightarrow> (\<forall>i\<in>replicas N. n_prep (\<sigma> i) \<longrightarrow>
     (\<forall>p\<in>soup N \<sigma>. p_Ballot p = n_bal (\<sigma> i) \<longrightarrow> p_Kind p \<notin> leader_kinds)) \<and>
   (\<forall>p\<in>soup N \<sigma>. p_Kind p = packetFetch \<longrightarrow>
     (\<exists>p'\<in>soup N \<sigma>. p_Kind p' \<in> {packetAccept, packetReady} \<and> p_Ballot p' = p_Ballot p))"

definition inv_floor :: "int \<Rightarrow> net \<Rightarrow> bool" where
  "inv_floor N \<sigma> \<longleftrightarrow>
     (\<forall>p\<in>soup N \<sigma>. \<forall>p'\<in>soup N \<sigma>. p_Kind p = packetPrepare \<longrightarrow> p_Kind p' = packetPrepare \<longrightarrow>
        p_Ballot p = p_Ballot p' \<longrightarrow> p_Floor p = p_Floor p') \<and>
     (\<forall>i\<in>replicas N. n_prep (\<sigma> i) \<longrightarrow> (\<forall>p\<in>n_sent (\<sigma> i). p_Ballot p = n_bal (\<sigma> i) \<longrightarrow>
        (p_Kind p = packetPrepare \<longrightarrow> p_Floor p = n_exec (\<sigma> i) + 1) \<and>
        (p_Kind p = packetPromise \<longrightarrow> p_High p = n_high (\<sigma> i))))"

definition inv_log :: "int \<Rightarrow> net \<Rightarrow> bool" where
  "inv_log N \<sigma> \<longleftrightarrow> (\<forall>q\<in>replicas N. -1 \<le> n_exec (\<sigma> q) \<and> -1 \<le> n_high (\<sigma> q) \<and>
     (\<forall>s r. n_log (\<sigma> q) s = Some r \<longrightarrow> r_Slot r = s \<and> 0 \<le> s \<and> s \<le> n_high (\<sigma> q) \<and> r_Ballot r \<le> n_bal (\<sigma> q)) \<and>
     (\<forall>s. 0 \<le> s \<and> s \<le> n_exec (\<sigma> q) \<longrightarrow> (\<exists>r. n_log (\<sigma> q) s = Some r \<and> r_Committed r)))"

definition inv_lead :: "int \<Rightarrow> net \<Rightarrow> bool" where
  "inv_lead N \<sigma> \<longleftrightarrow> (\<forall>s b v. known N \<sigma> s b v \<longrightarrow> b < n_bal (\<sigma> (b mod N)) \<or>
     b = n_bal (\<sigma> (b mod N)) \<and> \<not> n_prep (\<sigma> (b mod N)) \<and>
     (\<exists>r. n_log (\<sigma> (b mod N)) s = Some r \<and> r_Request r = v))"

definition inv_uniq :: "int \<Rightarrow> net \<Rightarrow> bool" where
  "inv_uniq N \<sigma> \<longleftrightarrow> (\<forall>s b v w. known N \<sigma> s b v \<longrightarrow> known N \<sigma> s b w \<longrightarrow> v = w)"

definition safe :: "int \<Rightarrow> net \<Rightarrow> int \<Rightarrow> int \<Rightarrow> request \<Rightarrow> bool" where
  "safe N \<sigma> s b v \<longleftrightarrow> (\<forall>b'<b. dead N \<sigma> s b' \<or> proposed N \<sigma> s b' v)"

definition inv_safe :: "int \<Rightarrow> net \<Rightarrow> bool" where
  "inv_safe N \<sigma> \<longleftrightarrow> (\<forall>s b v. known N \<sigma> s b v \<longrightarrow> safe N \<sigma> s b v)"

definition inv_ack :: "int \<Rightarrow> net \<Rightarrow> bool" where
  "inv_ack N \<sigma> \<longleftrightarrow> (\<forall>q\<in>replicas N. \<forall>s b. acked \<sigma> q s b \<longrightarrow> (\<exists>v. proposed N \<sigma> s b v) \<and>
     (\<exists>r. n_log (\<sigma> q) s = Some r \<and> (b \<le> r_Ballot r \<or> r_Committed r)))"

definition inv_com :: "int \<Rightarrow> net \<Rightarrow> bool" where
  "inv_com N \<sigma> \<longleftrightarrow> (\<forall>q\<in>replicas N. \<forall>s r. n_log (\<sigma> q) s = Some r \<longrightarrow> r_Committed r \<longrightarrow> decided N \<sigma> r) \<and>
     (\<forall>p\<in>soup N \<sigma>. p_Kind p \<in> record_kinds \<longrightarrow> (\<forall>r\<in>set (p_Records p). r_Committed r \<longrightarrow> decided N \<sigma> r))"

definition inv_votes :: "int \<Rightarrow> net \<Rightarrow> bool" where
  "inv_votes N \<sigma> \<longleftrightarrow> (\<forall>i\<in>replicas N. \<forall>s. \<forall>q\<in>n_votes (\<sigma> i) s. q \<in> replicas N \<and> acked \<sigma> q s (n_bal (\<sigma> i)))"

definition snap_ok :: "net \<Rightarrow> int \<Rightarrow> int \<Rightarrow> int \<Rightarrow> int \<Rightarrow> logrec list \<Rightarrow> bool" where
  "snap_ok \<sigma> q b F H vs \<longleftrightarrow> b \<le> n_bal (\<sigma> q) \<and>
     (\<forall>p\<in>n_sent (\<sigma> q). p_Kind p = packetPromise \<longrightarrow> p_Ballot p = b \<longrightarrow> p \<in> set (promise_pages q b F H vs)) \<and>
     (\<forall>s b'. F \<le> s \<longrightarrow> b' < b \<longrightarrow> acked \<sigma> q s b' \<longrightarrow>
        s \<le> H \<and> (\<exists>r\<in>set vs. r_Slot r = s \<and> (b' \<le> r_Ballot r \<or> r_Committed r)))"

definition inv_snap :: "int \<Rightarrow> net \<Rightarrow> bool" where
  "inv_snap N \<sigma> \<longleftrightarrow> (\<forall>q\<in>replicas N. \<forall>p\<in>n_sent (\<sigma> q). p_Kind p = packetPromise \<longrightarrow>
     (\<exists>F H vs. snap_ok \<sigma> q (p_Ballot p) F H vs))"

definition inv_frz :: "int \<Rightarrow> net \<Rightarrow> bool" where
  "inv_frz N \<sigma> \<longleftrightarrow> (\<forall>q\<in>replicas N.
     (\<forall>p\<in>n_sent (\<sigma> q). p_Kind p = packetPromise \<longrightarrow> p_Ballot p = n_bal (\<sigma> q) \<longrightarrow> n_frz (\<sigma> q) \<noteq> [] \<and> n_frzB (\<sigma> q) = n_bal (\<sigma> q)) \<and>
     (n_frz (\<sigma> q) \<noteq> [] \<longrightarrow> n_frzB (\<sigma> q) \<le> n_bal (\<sigma> q)) \<and>
     (n_frz (\<sigma> q) \<noteq> [] \<longrightarrow> n_frzB (\<sigma> q) = n_bal (\<sigma> q) \<longrightarrow>
        (\<exists>p\<in>soup N \<sigma>. p_Kind p = packetPrepare \<and> p_Ballot p = n_bal (\<sigma> q) \<and> p_Floor p = n_frzF (\<sigma> q)) \<and>
        set (n_frz (\<sigma> q)) \<subseteq> n_sent (\<sigma> q) \<and>
        (\<exists>H vs. n_frz (\<sigma> q) = promise_pages q (n_bal (\<sigma> q)) (n_frzF (\<sigma> q)) H vs \<and>
           snap_ok \<sigma> q (n_bal (\<sigma> q)) (n_frzF (\<sigma> q)) H vs)))"

definition complete_from :: "net \<Rightarrow> int \<Rightarrow> int \<Rightarrow> int \<Rightarrow> logrec list \<Rightarrow> bool" where
  "complete_from \<sigma> i q H vs \<longleftrightarrow> snap_ok \<sigma> q (n_bal (\<sigma> i)) (n_exec (\<sigma> i) + 1) H vs \<and>
     (\<forall>k. n_pages (\<sigma> i) q k =
        (if 0 \<le> k \<and> k < int (page_count (length vs))
         then Some (promise_page q (n_bal (\<sigma> i)) (n_exec (\<sigma> i) + 1) H vs (nat k)) else None))"

definition inv_pages :: "int \<Rightarrow> net \<Rightarrow> bool" where
  "inv_pages N \<sigma> \<longleftrightarrow> (\<forall>i\<in>replicas N. n_prep (\<sigma> i) \<longrightarrow>
     (\<forall>q k p. n_pages (\<sigma> i) q k = Some p \<longrightarrow>
        q \<in> replicas N \<and> p \<in> n_sent (\<sigma> q) \<and> p_Kind p = packetPromise \<and> p_Ballot p = n_bal (\<sigma> i) \<and> p_Page p = k) \<and>
     (\<forall>q\<in>n_prom (\<sigma> i). \<exists>H vs. complete_from \<sigma> i q H vs))"

definition inv_est :: "int \<Rightarrow> net \<Rightarrow> bool" where
  "inv_est N \<sigma> \<longleftrightarrow> (\<forall>i\<in>replicas N. \<not> n_prep (\<sigma> i) \<longrightarrow> n_lead (\<sigma> i) = i \<longrightarrow>
     (\<exists>Q. majority N Q \<and> (\<forall>q\<in>Q. n_bal (\<sigma> i) \<le> n_bal (\<sigma> q))) \<and>
     (\<forall>s r. n_log (\<sigma> i) s = Some r \<longrightarrow> r_Ballot r = n_bal (\<sigma> i) \<or> r_Committed r) \<and>
     (\<forall>s b. n_high (\<sigma> i) < s \<longrightarrow> b < n_bal (\<sigma> i) \<longrightarrow> dead N \<sigma> s b))"

definition Inv :: "int \<Rightarrow> net \<Rightarrow> bool" where
  "Inv N \<sigma> \<longleftrightarrow> inv_ids N \<sigma> \<and> inv_pkt N \<sigma> \<and> inv_prep N \<sigma> \<and> inv_floor N \<sigma> \<and> inv_log N \<sigma> \<and> inv_lead N \<sigma> \<and>
     inv_uniq N \<sigma> \<and> inv_safe N \<sigma> \<and> inv_ack N \<sigma> \<and> inv_com N \<sigma> \<and> inv_votes N \<sigma> \<and> inv_snap N \<sigma> \<and> inv_frz N \<sigma> \<and>
     inv_pages N \<sigma> \<and> inv_est N \<sigma>"

end
