(* ===== verification/PaxosSafety.thy ===== *)
theory PaxosSafety
  imports PaxosSpec
begin

text \<open>
  The invariant of the abstract replicated log is kept by every step, hence agreement: no two
  replicas ever hold different committed requests in one slot.
\<close>

definition evolves :: "int \<Rightarrow> net \<Rightarrow> net \<Rightarrow> bool" where
  "evolves N \<sigma> \<sigma>' \<longleftrightarrow> (\<forall>q\<in>replicas N. n_bal (\<sigma> q) \<le> n_bal (\<sigma>' q) \<and> n_sent (\<sigma> q) \<subseteq> n_sent (\<sigma>' q) \<and>
     (\<forall>s b. acked \<sigma>' q s b \<longrightarrow> acked \<sigma> q s b \<or> n_bal (\<sigma> q) \<le> b))"

lemma Inv_parts:
  assumes "Inv N \<sigma>"
  shows "inv_ids N \<sigma>" "inv_pkt N \<sigma>" "inv_prep N \<sigma>" "inv_floor N \<sigma>" "inv_log N \<sigma>" "inv_lead N \<sigma>"
    "inv_uniq N \<sigma>" "inv_safe N \<sigma>" "inv_ack N \<sigma>" "inv_com N \<sigma>" "inv_votes N \<sigma>" "inv_snap N \<sigma>"
    "inv_frz N \<sigma>" "inv_pages N \<sigma>" "inv_est N \<sigma>"
  using assms by (simp_all add: Inv_def)

lemma mod_replica [simp]: "0 < N \<Longrightarrow> b mod N \<in> replicas N"
  by (simp add: replicas_def)

lemma soupI: "q \<in> replicas N \<Longrightarrow> p \<in> n_sent (\<sigma> q) \<Longrightarrow> p \<in> soup N \<sigma>"
  by (auto simp: soup_def)

lemma majority_sub: "majority N Q \<Longrightarrow> q \<in> Q \<Longrightarrow> q \<in> replicas N"
  by (auto simp: majority_def)

lemma ev_acked: "evolves N \<sigma> \<sigma>' \<Longrightarrow> q \<in> replicas N \<Longrightarrow> acked \<sigma> q s b \<Longrightarrow> acked \<sigma>' q s b"
  by (fastforce simp: evolves_def acked_def)

lemma ev_bal: "evolves N \<sigma> \<sigma>' \<Longrightarrow> q \<in> replicas N \<Longrightarrow> n_bal (\<sigma> q) \<le> n_bal (\<sigma>' q)"
  by (simp add: evolves_def)

lemma ev_soup: "evolves N \<sigma> \<sigma>' \<Longrightarrow> p \<in> soup N \<sigma> \<Longrightarrow> p \<in> soup N \<sigma>'"
  by (fastforce simp: evolves_def soup_def)

lemma ev_proposed: "evolves N \<sigma> \<sigma>' \<Longrightarrow> proposed N \<sigma> s b v \<Longrightarrow> proposed N \<sigma>' s b v"
  unfolding proposed_def using ev_soup by blast

lemma ev_chosen: "evolves N \<sigma> \<sigma>' \<Longrightarrow> chosen N \<sigma> s b v \<Longrightarrow> chosen N \<sigma>' s b v"
  unfolding chosen_def using ev_proposed ev_acked majority_sub by blast

lemma ev_decided: "evolves N \<sigma> \<sigma>' \<Longrightarrow> decided N \<sigma> r \<Longrightarrow> decided N \<sigma>' r"
  unfolding decided_def using ev_chosen by blast

lemma ev_dead:
  assumes "evolves N \<sigma> \<sigma>'" "dead N \<sigma> s b"
  shows "dead N \<sigma>' s b"
proof -
  obtain Q where Q: "majority N Q" "\<forall>q\<in>Q. b < n_bal (\<sigma> q) \<and> \<not> acked \<sigma> q s b"
    using assms(2) by (auto simp: dead_def)
  have "b < n_bal (\<sigma>' q) \<and> \<not> acked \<sigma>' q s b" if "q \<in> Q" for q
  proof -
    have "n_bal (\<sigma> q) \<le> n_bal (\<sigma>' q)" "acked \<sigma>' q s b \<longrightarrow> acked \<sigma> q s b \<or> n_bal (\<sigma> q) \<le> b"
      using assms(1) majority_sub [OF Q(1) that] by (auto simp: evolves_def)
    with Q(2) that show ?thesis by fastforce
  qed
  with Q(1) show ?thesis unfolding dead_def by blast
qed

lemma ev_safe: "evolves N \<sigma> \<sigma>' \<Longrightarrow> safe N \<sigma> s b v \<Longrightarrow> safe N \<sigma>' s b v"
  unfolding safe_def using ev_dead ev_proposed by blast

lemma ev_snap:
  assumes "evolves N \<sigma> \<sigma>'" "q \<in> replicas N" "snap_ok \<sigma> q b F H vs"
    and "\<forall>p\<in>n_sent (\<sigma>' q). p_Kind p = packetPromise \<longrightarrow> p_Ballot p = b \<longrightarrow>
      p \<in> n_sent (\<sigma> q) \<or> p \<in> set (promise_pages q b F H vs)"
  shows "snap_ok \<sigma>' q b F H vs"
  unfolding snap_ok_def
proof (intro conjI ballI allI impI)
  show "b \<le> n_bal (\<sigma>' q)" using assms(3) ev_bal [OF assms(1,2)] by (simp add: snap_ok_def)
  show "p \<in> set (promise_pages q b F H vs)"
    if "p \<in> n_sent (\<sigma>' q)" "p_Kind p = packetPromise" "p_Ballot p = b" for p
    using that assms(3,4) by (auto simp: snap_ok_def)
  fix s b' assume *: "F \<le> s" "b' < b" "acked \<sigma>' q s b'"
  then have "acked \<sigma> q s b'" using assms(1-3) by (force simp: evolves_def snap_ok_def)
  then show "s \<le> H" "\<exists>r\<in>set vs. r_Slot r = s \<and> (b' \<le> r_Ballot r \<or> r_Committed r)"
    using * assms(3) by (auto simp: snap_ok_def)
qed

subsection \<open>New proposals\<close>

definition keeps_leaders :: "int \<Rightarrow> net \<Rightarrow> net \<Rightarrow> bool" where
  "keeps_leaders N \<sigma> \<sigma>' \<longleftrightarrow> (\<forall>q\<in>replicas N. n_bal (\<sigma> q) < n_bal (\<sigma>' q) \<or> n_bal (\<sigma> q) = n_bal (\<sigma>' q) \<and>
     (\<not> n_prep (\<sigma> q) \<longrightarrow> n_lead (\<sigma> q) = q \<longrightarrow> \<not> n_prep (\<sigma>' q) \<and>
       (\<forall>s r. n_log (\<sigma> q) s = Some r \<longrightarrow> (\<exists>r'. n_log (\<sigma>' q) s = Some r' \<and> r_Request r' = r_Request r))))"

definition new_proposals :: "int \<Rightarrow> net \<Rightarrow> net \<Rightarrow> int \<Rightarrow> bool" where
  "new_proposals N \<sigma> \<sigma>' i \<longleftrightarrow> (\<forall>s b v. known N \<sigma>' s b v \<longrightarrow> known N \<sigma> s b v \<or>
     b mod N = i \<and> b = n_bal (\<sigma>' i) \<and> \<not> n_prep (\<sigma>' i) \<and>
     (\<exists>r. n_log (\<sigma>' i) s = Some r \<and> r_Request r = v) \<and> safe N \<sigma>' s b v)"

lemma lead_step:
  assumes "0 < N" "inv_ids N \<sigma>" "inv_lead N \<sigma>" "keeps_leaders N \<sigma> \<sigma>'" "new_proposals N \<sigma> \<sigma>' i"
  shows "inv_lead N \<sigma>'"
  unfolding inv_lead_def
proof (intro allI impI)
  fix s b v assume k: "known N \<sigma>' s b v"
  let ?o = "b mod N"
  show "b < n_bal (\<sigma>' ?o) \<or> b = n_bal (\<sigma>' ?o) \<and> \<not> n_prep (\<sigma>' ?o) \<and> (\<exists>r. n_log (\<sigma>' ?o) s = Some r \<and> r_Request r = v)"
  proof (cases "known N \<sigma> s b v")
    case False
    with k assms(5) show ?thesis by (auto simp: new_proposals_def)
  next
    case True
    have o: "?o \<in> replicas N" using assms(1) by simp
    have keep: "n_bal (\<sigma> ?o) < n_bal (\<sigma>' ?o) \<or> n_bal (\<sigma> ?o) = n_bal (\<sigma>' ?o) \<and>
       (\<not> n_prep (\<sigma> ?o) \<longrightarrow> n_lead (\<sigma> ?o) = ?o \<longrightarrow> \<not> n_prep (\<sigma>' ?o) \<and>
       (\<forall>s r. n_log (\<sigma> ?o) s = Some r \<longrightarrow> (\<exists>r'. n_log (\<sigma>' ?o) s = Some r' \<and> r_Request r' = r_Request r)))"
      using assms(4) o unfolding keeps_leaders_def by blast
    consider "b < n_bal (\<sigma> ?o)" | r where "b = n_bal (\<sigma> ?o)" "\<not> n_prep (\<sigma> ?o)" "n_log (\<sigma> ?o) s = Some r" "r_Request r = v"
      using assms(3) True unfolding inv_lead_def by blast
    then show ?thesis
    proof cases
      case 1
      with keep show ?thesis by auto
    next
      case 2
      then have "n_lead (\<sigma> ?o) = ?o" using assms(2) o by (auto simp: inv_ids_def)
      with 2 keep show ?thesis by fastforce
    qed
  qed
qed

lemma uniq_step:
  assumes "inv_uniq N \<sigma>" "inv_lead N \<sigma>'" "new_proposals N \<sigma> \<sigma>' i"
  shows "inv_uniq N \<sigma>'"
  unfolding inv_uniq_def
proof (intro allI impI)
  fix s b v w assume k: "known N \<sigma>' s b v" "known N \<sigma>' s b w"
  show "v = w"
  proof (cases "known N \<sigma> s b v \<and> known N \<sigma> s b w")
    case True
    with assms(1) show ?thesis unfolding inv_uniq_def by blast
  next
    case False
    then have "b mod N = i \<and> b = n_bal (\<sigma>' i)" using k assms(3) unfolding new_proposals_def by blast
    then have "(\<exists>r. n_log (\<sigma>' i) s = Some r \<and> r_Request r = v)" "(\<exists>r. n_log (\<sigma>' i) s = Some r \<and> r_Request r = w)"
      using k assms(2) unfolding inv_lead_def by (metis less_irrefl)+
    then show ?thesis by auto
  qed
qed

lemma safe_step:
  assumes "evolves N \<sigma> \<sigma>'" "inv_safe N \<sigma>" "new_proposals N \<sigma> \<sigma>' i"
  shows "inv_safe N \<sigma>'"
  using assms ev_safe unfolding inv_safe_def new_proposals_def by blast

lemma com_step:
  assumes ev: "evolves N \<sigma> \<sigma>'" and com: "inv_com N \<sigma>"
    and log: "\<And>q s r. q \<in> replicas N \<Longrightarrow> n_log (\<sigma>' q) s = Some r \<Longrightarrow> r_Committed r \<Longrightarrow>
      n_log (\<sigma> q) s = Some r \<or> decided N \<sigma>' r"
    and pk: "\<And>p r. p \<in> soup N \<sigma>' \<Longrightarrow> p_Kind p \<in> record_kinds \<Longrightarrow> r \<in> set (p_Records p) \<Longrightarrow> r_Committed r \<Longrightarrow>
      p \<in> soup N \<sigma> \<or> decided N \<sigma>' r"
  shows "inv_com N \<sigma>'"
  unfolding inv_com_def
proof (intro conjI ballI allI impI)
  fix q s r assume "q \<in> replicas N" "n_log (\<sigma>' q) s = Some r" "r_Committed r"
  with log [of q s r] com ev_decided [OF ev] show "decided N \<sigma>' r" unfolding inv_com_def by blast
next
  fix p r assume "p \<in> soup N \<sigma>'" "p_Kind p \<in> record_kinds" "r \<in> set (p_Records p)" "r_Committed r"
  with pk [of p r] com ev_decided [OF ev] show "decided N \<sigma>' r" unfolding inv_com_def by blast
qed

text \<open>No later ballot can know another value than a chosen one.\<close>

lemma chosen_forces:
  assumes "inv_safe N \<sigma>" "inv_uniq N \<sigma>" "chosen N \<sigma> s b v" "known N \<sigma> s b' w" "b \<le> b'"
  shows "w = v"
proof (cases "b = b'")
  case True
  with assms show ?thesis unfolding inv_uniq_def chosen_def known_def by blast
next
  case False
  with assms(5) have "b < b'" by simp
  then have "dead N \<sigma> s b \<or> proposed N \<sigma> s b w"
    using assms(1,4) unfolding inv_safe_def safe_def by blast
  then have "proposed N \<sigma> s b w" using chosen_not_dead assms(3) by blast
  with assms(2,3) show ?thesis unfolding inv_uniq_def chosen_def known_def by blast
qed

text \<open>A decided request may be proposed again in any ballot a majority has reached.\<close>

lemma decided_safe:
  assumes "0 < N" "inv_safe N \<sigma>" "inv_ack N \<sigma>" "inv_uniq N \<sigma>" "decided N \<sigma> r"
    and Q: "majority N Q" "\<forall>q\<in>Q. b \<le> n_bal (\<sigma> q)"
  shows "safe N \<sigma> (r_Slot r) b (r_Request r)"
  unfolding safe_def
proof (intro allI impI)
  fix b' assume b': "b' < b"
  let ?s = "r_Slot r" and ?v = "r_Request r"
  obtain b1 where b1: "b1 \<le> r_Ballot r" "chosen N \<sigma> ?s b1 ?v" using assms(5) by (auto simp: decided_def)
  have known1: "known N \<sigma> ?s b1 ?v" "proposed N \<sigma> ?s b1 ?v" using b1 by (auto simp: chosen_def known_def)
  consider "b' < b1" | "b' = b1" | "b1 < b'" by linarith
  then show "dead N \<sigma> ?s b' \<or> proposed N \<sigma> ?s b' ?v"
  proof cases
    case 1
    with known1 assms(2) show ?thesis unfolding inv_safe_def safe_def by blast
  next
    case 2
    with known1 show ?thesis by simp
  next
    case 3
    show ?thesis
    proof (cases "\<exists>w. proposed N \<sigma> ?s b' w")
      case True
      then obtain w where w: "proposed N \<sigma> ?s b' w" by blast
      then have "w = ?v" using chosen_forces [OF assms(2,4) b1(2), of b' w] w 3 by (simp add: known_def)
      with w show ?thesis by simp
    next
      case False
      then have "\<not> acked \<sigma> q ?s b'" if "q \<in> Q" for q
        using assms(3) majority_sub [OF Q(1) that] unfolding inv_ack_def by blast
      then have "dead N \<sigma> ?s b'" using Q b' unfolding dead_def by fastforce
      then show ?thesis ..
    qed
  qed
qed

lemma decided_agree:
  assumes "inv_safe N \<sigma>" "inv_uniq N \<sigma>" "decided N \<sigma> r" "decided N \<sigma> r'" "r_Slot r = r_Slot r'"
  shows "r_Request r = r_Request r'"
proof -
  have agree: "w = v" if "chosen N \<sigma> s b v" "chosen N \<sigma> s b' w" "b \<le> b'" for s b b' v w
    using chosen_forces [OF assms(1,2) that(1) _ that(3)] that(2) by (simp add: chosen_def known_def)
  obtain b b' where "chosen N \<sigma> (r_Slot r) b (r_Request r)" "chosen N \<sigma> (r_Slot r) b' (r_Request r')"
    using assms(3-5) by (auto simp: decided_def)
  then show ?thesis using agree by (metis linear)
qed

subsection \<open>Steps on votes, pages and the executed prefix\<close>

definition quiet :: "net \<Rightarrow> net \<Rightarrow> bool" where
  "quiet \<sigma> \<sigma>' \<longleftrightarrow> (\<forall>q. n_bal (\<sigma>' q) = n_bal (\<sigma> q) \<and> n_lead (\<sigma>' q) = n_lead (\<sigma> q) \<and> n_prep (\<sigma>' q) = n_prep (\<sigma> q) \<and>
     n_high (\<sigma>' q) = n_high (\<sigma> q) \<and> n_log (\<sigma>' q) = n_log (\<sigma> q) \<and> n_frz (\<sigma>' q) = n_frz (\<sigma> q) \<and>
     n_frzB (\<sigma>' q) = n_frzB (\<sigma> q) \<and> n_frzF (\<sigma>' q) = n_frzF (\<sigma> q) \<and> n_sent (\<sigma>' q) = n_sent (\<sigma> q))"

lemma quiet_Inv:
  assumes q: "quiet \<sigma> \<sigma>'" and inv: "Inv N \<sigma>"
    and "inv_floor N \<sigma>'" "inv_log N \<sigma>'" "inv_votes N \<sigma>'" "inv_pages N \<sigma>'"
  shows "Inv N \<sigma>'"
proof -
  have fields: "n_bal (\<sigma>' q) = n_bal (\<sigma> q)" "n_lead (\<sigma>' q) = n_lead (\<sigma> q)" "n_prep (\<sigma>' q) = n_prep (\<sigma> q)"
    "n_high (\<sigma>' q) = n_high (\<sigma> q)" "n_log (\<sigma>' q) = n_log (\<sigma> q)" "n_frz (\<sigma>' q) = n_frz (\<sigma> q)"
    "n_frzB (\<sigma>' q) = n_frzB (\<sigma> q)" "n_frzF (\<sigma>' q) = n_frzF (\<sigma> q)" "n_sent (\<sigma>' q) = n_sent (\<sigma> q)" for q
    using q by (simp_all add: quiet_def)
  have soup: "soup N \<sigma>' = soup N \<sigma>" by (simp add: soup_def fields)
  have acked: "acked \<sigma>' = acked \<sigma>" by (simp add: acked_def fun_eq_iff fields)
  have proposed: "proposed N \<sigma>' = proposed N \<sigma>" by (simp add: proposed_def fun_eq_iff soup)
  have known: "known N \<sigma>' = known N \<sigma>" by (simp add: known_def fun_eq_iff proposed fields)
  have chosen: "chosen N \<sigma>' = chosen N \<sigma>" by (simp add: chosen_def fun_eq_iff proposed acked)
  have dead: "dead N \<sigma>' = dead N \<sigma>" by (simp add: dead_def fun_eq_iff acked fields)
  have snap: "snap_ok \<sigma>' = snap_ok \<sigma>" by (simp add: snap_ok_def fun_eq_iff acked fields)
  have "inv_ids N \<sigma>' = inv_ids N \<sigma>" "inv_pkt N \<sigma>' = inv_pkt N \<sigma>" "inv_prep N \<sigma>' = inv_prep N \<sigma>"
    "inv_lead N \<sigma>' = inv_lead N \<sigma>" "inv_uniq N \<sigma>' = inv_uniq N \<sigma>" "inv_safe N \<sigma>' = inv_safe N \<sigma>"
    "inv_ack N \<sigma>' = inv_ack N \<sigma>" "inv_com N \<sigma>' = inv_com N \<sigma>" "inv_snap N \<sigma>' = inv_snap N \<sigma>"
    "inv_frz N \<sigma>' = inv_frz N \<sigma>" "inv_est N \<sigma>' = inv_est N \<sigma>"
    by (simp_all only: inv_ids_def inv_pkt_def inv_prep_def inv_lead_def inv_uniq_def inv_safe_def safe_def
        inv_ack_def inv_com_def decided_def inv_snap_def inv_frz_def inv_est_def
        fields soup acked proposed known chosen dead snap)
  with inv assms(3-6) show ?thesis by (simp add: Inv_def)
qed

lemma quiet_snap: "quiet \<sigma> \<sigma>' \<Longrightarrow> snap_ok \<sigma>' = snap_ok \<sigma>"
  by (simp add: quiet_def snap_ok_def acked_def fun_eq_iff)

lemma quiet_floor:
  assumes "quiet \<sigma> \<sigma>'" "\<And>q. n_prep (\<sigma> q) \<Longrightarrow> n_exec (\<sigma>' q) = n_exec (\<sigma> q)" "inv_floor N \<sigma>"
  shows "inv_floor N \<sigma>'"
proof -
  have "soup N \<sigma>' = soup N \<sigma>" using assms(1) by (simp add: soup_def quiet_def)
  then have "inv_floor N \<sigma>' = inv_floor N \<sigma>"
    using assms(1,2) by (simp add: inv_floor_def quiet_def)
  with assms(3) show ?thesis by simp
qed

lemma quiet_log: "quiet \<sigma> \<sigma>' \<Longrightarrow> (\<And>q. n_exec (\<sigma>' q) = n_exec (\<sigma> q)) \<Longrightarrow> inv_log N \<sigma> \<Longrightarrow> inv_log N \<sigma>'"
  by (simp add: inv_log_def quiet_def)

lemma quiet_votes: "quiet \<sigma> \<sigma>' \<Longrightarrow> (\<And>q s. n_votes (\<sigma>' q) s \<subseteq> n_votes (\<sigma> q) s) \<Longrightarrow> inv_votes N \<sigma> \<Longrightarrow> inv_votes N \<sigma>'"
  by (fastforce simp: inv_votes_def quiet_def acked_def)

lemma quiet_pages:
  assumes "quiet \<sigma> \<sigma>'" "\<And>q. n_prep (\<sigma> q) \<Longrightarrow> n_exec (\<sigma>' q) = n_exec (\<sigma> q)"
    "\<And>q. n_pages (\<sigma>' q) = n_pages (\<sigma> q)" "\<And>q. n_prom (\<sigma>' q) = n_prom (\<sigma> q)" "inv_pages N \<sigma>"
  shows "inv_pages N \<sigma>'"
proof -
  have "inv_pages N \<sigma>' = inv_pages N \<sigma>"
    using assms(1-4) quiet_snap [OF assms(1)] by (simp add: inv_pages_def complete_from_def quiet_def cong: if_cong split del: if_split)
  with assms(5) show ?thesis by simp
qed

lemma quiet_upd:
  "n_bal nd = n_bal (\<sigma> i) \<Longrightarrow> n_lead nd = n_lead (\<sigma> i) \<Longrightarrow> n_prep nd = n_prep (\<sigma> i) \<Longrightarrow> n_high nd = n_high (\<sigma> i) \<Longrightarrow>
     n_log nd = n_log (\<sigma> i) \<Longrightarrow> n_frz nd = n_frz (\<sigma> i) \<Longrightarrow> n_frzB nd = n_frzB (\<sigma> i) \<Longrightarrow> n_frzF nd = n_frzF (\<sigma> i) \<Longrightarrow>
     n_sent nd = n_sent (\<sigma> i) \<Longrightarrow> quiet \<sigma> (\<sigma>(i := nd))"
  by (simp add: quiet_def)

lemma pkt_ok_mono: "pkt_ok N i b p \<Longrightarrow> b \<le> b' \<Longrightarrow> pkt_ok N i b' p"
  by (auto simp: pkt_ok_def)

lemma soup_owner:
  assumes "inv_pkt N \<sigma>" "p \<in> soup N \<sigma>"
  shows "p_From p \<in> replicas N" "p \<in> n_sent (\<sigma> (p_From p))" "0 \<le> p_Ballot p" "p_Ballot p \<le> n_bal (\<sigma> (p_From p))"
    "p_Kind p \<in> owned_kinds \<longrightarrow> p_Ballot p mod N = p_From p"
    "p_Kind p \<in> {packetAccept, packetCommit} \<longrightarrow> (\<forall>r\<in>set (p_Records p). r_Ballot r = p_Ballot p \<and> 0 \<le> r_Slot r)"
    "p_Kind p = packetCommit \<longrightarrow> (\<forall>r\<in>set (p_Records p). r_Committed r)"
proof -
  obtain q where q: "q \<in> replicas N" "p \<in> n_sent (\<sigma> q)" using assms(2) by (auto simp: soup_def)
  note pk = assms(1) [unfolded inv_pkt_def, rule_format, OF q, unfolded pkt_ok_def]
  then have "p_From p = q" by blast
  with q pk show "p_From p \<in> replicas N" "p \<in> n_sent (\<sigma> (p_From p))" "0 \<le> p_Ballot p" "p_Ballot p \<le> n_bal (\<sigma> (p_From p))"
    "p_Kind p \<in> owned_kinds \<longrightarrow> p_Ballot p mod N = p_From p"
    "p_Kind p \<in> {packetAccept, packetCommit} \<longrightarrow> (\<forall>r\<in>set (p_Records p). r_Ballot r = p_Ballot p \<and> 0 \<le> r_Slot r)"
    "p_Kind p = packetCommit \<longrightarrow> (\<forall>r\<in>set (p_Records p). r_Committed r)"
    by blast+
qed

lemma vote_Inv:
  assumes inv: "Inv N \<sigma>" and i: "i \<in> replicas N"
    and p: "p \<in> soup N \<sigma>" "p_Kind p = packetAck" "p_Ballot p = n_bal (\<sigma> i)" "s \<in> r_Slot ` set (p_Records p)"
  shows "Inv N (\<sigma>(i := (\<sigma> i)\<lparr>n_votes := (n_votes (\<sigma> i))(s := insert (p_From p) (n_votes (\<sigma> i) s))\<rparr>))"
proof (rule quiet_Inv [OF _ inv])
  let ?\<sigma> = "\<sigma>(i := (\<sigma> i)\<lparr>n_votes := (n_votes (\<sigma> i))(s := insert (p_From p) (n_votes (\<sigma> i) s))\<rparr>)"
  show q: "quiet \<sigma> ?\<sigma>" by (rule quiet_upd) simp_all
  have ack: "acked \<sigma> (p_From p) s (n_bal (\<sigma> i))" "p_From p \<in> replicas N"
    using soup_owner [of N \<sigma> p] inv p by (auto simp: Inv_def acked_def)
  have eq: "acked ?\<sigma> = acked \<sigma>" by (auto simp: acked_def fun_eq_iff)
  show "inv_votes N ?\<sigma>" using inv ack by (auto simp: Inv_def inv_votes_def eq)
  show "inv_floor N ?\<sigma>" by (rule quiet_floor [OF q]) (use inv in \<open>auto simp: Inv_def\<close>)
  show "inv_log N ?\<sigma>" by (rule quiet_log [OF q]) (use inv in \<open>auto simp: Inv_def\<close>)
  show "inv_pages N ?\<sigma>" by (rule quiet_pages [OF q]) (use inv in \<open>auto simp: Inv_def\<close>)
qed

lemma exec_Inv:
  assumes inv: "Inv N \<sigma>" and i: "i \<in> replicas N"
    and r: "\<not> n_prep (\<sigma> i)" "n_log (\<sigma> i) (n_exec (\<sigma> i) + 1) = Some r" "r_Committed r"
  shows "Inv N (\<sigma>(i := (\<sigma> i)\<lparr>n_exec := n_exec (\<sigma> i) + 1, n_votes := (n_votes (\<sigma> i))(r_Slot r := {})\<rparr>))"
proof (rule quiet_Inv [OF _ inv])
  let ?\<sigma> = "\<sigma>(i := (\<sigma> i)\<lparr>n_exec := n_exec (\<sigma> i) + 1, n_votes := (n_votes (\<sigma> i))(r_Slot r := {})\<rparr>)"
  show q: "quiet \<sigma> ?\<sigma>" by (rule quiet_upd) simp_all
  show "inv_floor N ?\<sigma>" by (rule quiet_floor [OF q]) (use inv r(1) in \<open>auto simp: Inv_def\<close>)
  show "inv_pages N ?\<sigma>" by (rule quiet_pages [OF q]) (use inv r(1) in \<open>auto simp: Inv_def\<close>)
  show "inv_votes N ?\<sigma>" by (rule quiet_votes [OF q]) (use inv in \<open>auto simp: Inv_def\<close>)
  have "\<exists>r. n_log (\<sigma> i) s = Some r \<and> r_Committed r" if "0 \<le> s" "s \<le> n_exec (\<sigma> i) + 1" for s
    using inv i r that by (cases "s = n_exec (\<sigma> i) + 1") (auto simp: Inv_def inv_log_def)
  moreover have "-1 \<le> n_exec (\<sigma> i)" using inv i by (simp add: Inv_def inv_log_def)
  ultimately show "inv_log N ?\<sigma>" using inv by (simp add: Inv_def inv_log_def)
qed

subsection \<open>Collecting promises\<close>

lemma promise_page_simps [simp]:
  "p_Kind (promise_page q b F H vs k) = packetPromise" "p_From (promise_page q b F H vs k) = q"
  "p_Ballot (promise_page q b F H vs k) = b" "p_Floor (promise_page q b F H vs k) = F"
  "p_High (promise_page q b F H vs k) = H" "p_Page (promise_page q b F H vs k) = int k"
  "p_Pages (promise_page q b F H vs k) = int (page_count (length vs))"
  "p_Records (promise_page q b F H vs k) = take 128 (drop (k * 128) vs)"
  by (simp_all add: promise_page_def Packet_def)

lemma page_count_pos [simp]: "0 < page_count m"
  by (simp add: page_count_def Let_def)

lemma in_promise_pages:
  "p \<in> set (promise_pages q b F H vs) \<longleftrightarrow> (\<exists>k<page_count (length vs). p = promise_page q b F H vs k)"
  by (auto simp: promise_pages_def)

lemma page_cover: "m < length vs \<Longrightarrow> m div 128 < page_count (length vs)"
  by (simp add: page_count_def Let_def) linarith

lemma pages_union:
  "(\<Union>k<page_count (length vs). set (take 128 (drop (k * 128) vs))) = set vs"
proof
  show "set vs \<subseteq> (\<Union>k<page_count (length vs). set (take 128 (drop (k * 128) vs)))"
  proof
    fix r assume "r \<in> set vs"
    then obtain m where m: "m < length vs" "r = vs ! m" by (auto simp: in_set_conv_nth)
    let ?k = "m div 128"
    have "?k * 128 \<le> m" "m - ?k * 128 = m mod 128" by (simp_all add: minus_div_mult_eq_mod)
    then have "m mod 128 < length (take 128 (drop (?k * 128) vs))" "take 128 (drop (?k * 128) vs) ! (m mod 128) = r"
      using m by auto
    then have "r \<in> set (take 128 (drop (?k * 128) vs))" by (metis nth_mem)
    with page_cover [OF m(1)] show "r \<in> (\<Union>k<page_count (length vs). set (take 128 (drop (k * 128) vs)))" by blast
  qed
qed (auto dest: in_set_takeD in_set_dropD)

lemma inv_pages_cases:
  assumes "inv_pages N \<sigma>" "i \<in> replicas N" "n_prep (\<sigma> i)" "n_pages (\<sigma> i) q k = Some p"
  shows "q \<in> replicas N" "p \<in> n_sent (\<sigma> q)" "p_Kind p = packetPromise" "p_Ballot p = n_bal (\<sigma> i)" "p_Page p = k"
  using assms unfolding inv_pages_def by blast+

lemma page_Inv:
  assumes inv: "Inv N \<sigma>" and i: "i \<in> replicas N"
    and p: "p \<in> soup N \<sigma>" "p_Kind p = packetPromise" "p_Ballot p = n_bal (\<sigma> i)"
  shows "Inv N (\<sigma>(i := (\<sigma> i)\<lparr>n_pages := (n_pages (\<sigma> i))(p_From p := (n_pages (\<sigma> i) (p_From p))(p_Page p \<mapsto> p))\<rparr>))"
    (is "Inv N ?\<sigma>")
proof (rule quiet_Inv [OF _ inv])
  let ?q = "p_From p"
  show q: "quiet \<sigma> ?\<sigma>" by (rule quiet_upd) simp_all
  note inv' = Inv_parts [OF inv]
  note own = soup_owner [OF inv'(2) p(1)]
  show "inv_floor N ?\<sigma>" by (rule quiet_floor [OF q]) (use inv' in auto)
  show "inv_log N ?\<sigma>" by (rule quiet_log [OF q]) (use inv' in auto)
  show "inv_votes N ?\<sigma>" by (rule quiet_votes [OF q]) (use inv' in auto)
  have pages: "n_pages (?\<sigma> j) = (if j = i then (n_pages (\<sigma> i))(?q := (n_pages (\<sigma> i) ?q)(p_Page p \<mapsto> p)) else n_pages (\<sigma> j))"
    and rest: "n_bal (?\<sigma> j) = n_bal (\<sigma> j)" "n_exec (?\<sigma> j) = n_exec (\<sigma> j)" "n_sent (?\<sigma> j) = n_sent (\<sigma> j)"
      "n_prep (?\<sigma> j) = n_prep (\<sigma> j)" "n_prom (?\<sigma> j) = n_prom (\<sigma> j)" for j by simp_all
  have cf: "complete_from ?\<sigma> j q' H vs" if c: "complete_from \<sigma> j q' H vs" for j q' H vs
  proof (cases "j = i \<and> q' = ?q")
    case True
    have "p \<in> set (promise_pages ?q (n_bal (\<sigma> i)) (n_exec (\<sigma> i) + 1) H vs)"
      using c True own p by (auto simp: complete_from_def snap_ok_def)
    then obtain k where "k < page_count (length vs)" "p = promise_page ?q (n_bal (\<sigma> i)) (n_exec (\<sigma> i) + 1) H vs k"
      by (auto simp: in_promise_pages)
    then have "n_pages (\<sigma> i) ?q (p_Page p) = Some p"
      using c True by (simp add: complete_from_def) (metis nat_int of_nat_0_le_iff of_nat_less_iff promise_page_simps(6))
    then have "n_pages (?\<sigma> j) = n_pages (\<sigma> j)" using True by (simp add: pages fun_upd_idem)
    with c show ?thesis unfolding complete_from_def quiet_snap [OF q] rest by simp
  next
    case False
    then have "n_pages (?\<sigma> j) q' = n_pages (\<sigma> j) q'" by (auto simp: pages)
    with c show ?thesis unfolding complete_from_def quiet_snap [OF q] rest by simp
  qed
  have pg: "q' \<in> replicas N \<and> p' \<in> n_sent (\<sigma> q') \<and> p_Kind p' = packetPromise \<and> p_Ballot p' = n_bal (\<sigma> j) \<and> p_Page p' = k"
    if "j \<in> replicas N" "n_prep (\<sigma> j)" "n_pages (?\<sigma> j) q' k = Some p'" for j q' k p'
    using that own p inv_pages_cases [OF inv'(14) that(1,2), of q' k p'] by (auto simp: pages split: if_splits)
  show "inv_pages N ?\<sigma>"
    unfolding inv_pages_def rest
  proof (intro ballI impI, rule conjI)
    fix j assume j: "j \<in> replicas N" "n_prep (\<sigma> j)"
    show "\<forall>q k p'. n_pages (?\<sigma> j) q k = Some p' \<longrightarrow> q \<in> replicas N \<and> p' \<in> n_sent (\<sigma> q) \<and>
        p_Kind p' = packetPromise \<and> p_Ballot p' = n_bal (\<sigma> j) \<and> p_Page p' = k"
      using pg [OF j] by blast
    show "\<forall>q\<in>n_prom (\<sigma> j). \<exists>H vs. complete_from ?\<sigma> j q H vs"
      using cf inv'(14) j unfolding inv_pages_def by blast
  qed
qed

lemma prom_Inv:
  assumes inv: "Inv N \<sigma>" and i: "i \<in> replicas N" and np: "0 < np" and q: "q \<in> replicas N"
    and pgs: "\<forall>k\<in>{0..<np}. \<exists>p. n_pages (\<sigma> i) q k = Some p \<and> page_ok (\<sigma> i) np H k p"
  shows "Inv N (\<sigma>(i := (\<sigma> i)\<lparr>n_prom := insert q (n_prom (\<sigma> i))\<rparr>))" (is "Inv N ?\<sigma>")
proof (rule quiet_Inv [OF _ inv])
  show qt: "quiet \<sigma> ?\<sigma>" by (rule quiet_upd) simp_all
  note inv' = Inv_parts [OF inv]
  show "inv_floor N ?\<sigma>" by (rule quiet_floor [OF qt]) (use inv' in auto)
  show "inv_log N ?\<sigma>" by (rule quiet_log [OF qt]) (use inv' in auto)
  show "inv_votes N ?\<sigma>" by (rule quiet_votes [OF qt]) (use inv' in auto)
  have "\<exists>H vs. complete_from \<sigma> i q H vs" if prep: "n_prep (\<sigma> i)"
  proof -
    note pc = inv_pages_cases [OF inv'(14) i prep]
    obtain p where p: "n_pages (\<sigma> i) q 0 = Some p" "page_ok (\<sigma> i) np H 0 p" using pgs np by force
    then obtain F H' vs where snap: "snap_ok \<sigma> q (n_bal (\<sigma> i)) F H' vs"
      using pc [OF p(1)] inv'(12) unfolding inv_snap_def by metis
    have page: "\<exists>k'<page_count (length vs). k = int k' \<and> p' = promise_page q (n_bal (\<sigma> i)) F H' vs k'"
      if "n_pages (\<sigma> i) q k = Some p'" for k p'
    proof -
      have "p' \<in> set (promise_pages q (n_bal (\<sigma> i)) F H' vs)"
        using snap pc [OF that] by (auto simp: snap_ok_def)
      then show ?thesis using pc(5) [OF that] by (auto simp: in_promise_pages)
    qed
    have F: "F = n_exec (\<sigma> i) + 1" and cnt: "np = int (page_count (length vs))"
      using page [OF p(1)] p(2) by (auto simp: page_ok_def)
    have "n_pages (\<sigma> i) q k = (if 0 \<le> k \<and> k < np then Some (promise_page q (n_bal (\<sigma> i)) F H' vs (nat k)) else None)" for k
    proof (cases "n_pages (\<sigma> i) q k")
      case None
      with pgs show ?thesis by force
    next
      case (Some p')
      with page [OF Some] show ?thesis by (auto simp: cnt)
    qed
    with snap show ?thesis unfolding complete_from_def F cnt by blast
  qed
  moreover have "n_bal (?\<sigma> j) = n_bal (\<sigma> j)" "n_exec (?\<sigma> j) = n_exec (\<sigma> j)" "n_pages (?\<sigma> j) = n_pages (\<sigma> j)" for j
    by simp_all
  then have "complete_from ?\<sigma> = complete_from \<sigma>"
    by (intro ext) (simp only: complete_from_def quiet_snap [OF qt])
  ultimately show "inv_pages N ?\<sigma>"
    using inv'(14) by (auto simp: inv_pages_def)
qed

subsection \<open>What a step leaves alone\<close>

definition no_new_promises :: "int \<Rightarrow> net \<Rightarrow> net \<Rightarrow> bool" where
  "no_new_promises N \<sigma> \<sigma>' \<longleftrightarrow> (\<forall>q\<in>replicas N. \<forall>p\<in>n_sent (\<sigma>' q). p_Kind p = packetPromise \<longrightarrow> p \<in> n_sent (\<sigma> q))"

lemma snap_mono:
  "evolves N \<sigma> \<sigma>' \<Longrightarrow> no_new_promises N \<sigma> \<sigma>' \<Longrightarrow> q \<in> replicas N \<Longrightarrow> snap_ok \<sigma> q b F H vs \<Longrightarrow> snap_ok \<sigma>' q b F H vs"
  by (erule ev_snap) (auto simp: no_new_promises_def)

lemma votes_frame:
  assumes ev: "evolves N \<sigma> \<sigma>'" and v: "inv_votes N \<sigma>"
    and "\<And>q s. q \<in> replicas N \<Longrightarrow> n_votes (\<sigma>' q) s = {} \<or> n_votes (\<sigma>' q) s \<subseteq> n_votes (\<sigma> q) s \<and> n_bal (\<sigma>' q) = n_bal (\<sigma> q)"
  shows "inv_votes N \<sigma>'"
  unfolding inv_votes_def
proof (intro ballI allI)
  fix i s q assume i: "i \<in> replicas N" and q: "q \<in> n_votes (\<sigma>' i) s"
  with assms(3) [of i s] have "q \<in> n_votes (\<sigma> i) s" "n_bal (\<sigma>' i) = n_bal (\<sigma> i)" by auto
  with v i ev_acked [OF ev] show "q \<in> replicas N \<and> acked \<sigma>' q s (n_bal (\<sigma>' i))"
    unfolding inv_votes_def by metis
qed

lemma snap_frame: "evolves N \<sigma> \<sigma>' \<Longrightarrow> no_new_promises N \<sigma> \<sigma>' \<Longrightarrow> inv_snap N \<sigma> \<Longrightarrow> inv_snap N \<sigma>'"
  unfolding inv_snap_def using snap_mono by (metis no_new_promises_def)

lemma frz_frame:
  assumes ev: "evolves N \<sigma> \<sigma>'" and np: "no_new_promises N \<sigma> \<sigma>'" and inv: "inv_frz N \<sigma>" "inv_pkt N \<sigma>"
    and same: "\<And>q. q \<in> replicas N \<Longrightarrow> n_frz (\<sigma>' q) = n_frz (\<sigma> q) \<and> n_frzB (\<sigma>' q) = n_frzB (\<sigma> q) \<and> n_frzF (\<sigma>' q) = n_frzF (\<sigma> q)"
  shows "inv_frz N \<sigma>'"
  unfolding inv_frz_def
proof (intro ballI)
  fix q assume q: "q \<in> replicas N"
  have old: "\<forall>p\<in>n_sent (\<sigma>' q). p_Kind p = packetPromise \<longrightarrow> p_Ballot p \<le> n_bal (\<sigma> q)"
    using np inv(2) q by (auto simp: no_new_promises_def inv_pkt_def pkt_ok_def)
  note f = inv(1) [unfolded inv_frz_def, rule_format, OF q]
  have b: "n_bal (\<sigma> q) \<le> n_bal (\<sigma>' q)" using ev_bal [OF ev q] .
  show "(\<forall>p\<in>n_sent (\<sigma>' q). p_Kind p = packetPromise \<longrightarrow> p_Ballot p = n_bal (\<sigma>' q) \<longrightarrow> n_frz (\<sigma>' q) \<noteq> [] \<and> n_frzB (\<sigma>' q) = n_bal (\<sigma>' q)) \<and>
     (n_frz (\<sigma>' q) \<noteq> [] \<longrightarrow> n_frzB (\<sigma>' q) \<le> n_bal (\<sigma>' q)) \<and>
     (n_frz (\<sigma>' q) \<noteq> [] \<longrightarrow> n_frzB (\<sigma>' q) = n_bal (\<sigma>' q) \<longrightarrow>
        (\<exists>p\<in>soup N \<sigma>'. p_Kind p = packetPrepare \<and> p_Ballot p = n_bal (\<sigma>' q) \<and> p_Floor p = n_frzF (\<sigma>' q)) \<and>
        set (n_frz (\<sigma>' q)) \<subseteq> n_sent (\<sigma>' q) \<and>
        (\<exists>H vs. n_frz (\<sigma>' q) = promise_pages q (n_bal (\<sigma>' q)) (n_frzF (\<sigma>' q)) H vs \<and>
           snap_ok \<sigma>' q (n_bal (\<sigma>' q)) (n_frzF (\<sigma>' q)) H vs))"
  proof (cases "n_bal (\<sigma>' q) = n_bal (\<sigma> q)")
    case True
    have sub: "n_sent (\<sigma> q) \<subseteq> n_sent (\<sigma>' q)" using ev q by (simp add: evolves_def)
    have old_p: "p \<in> n_sent (\<sigma> q)" if "p \<in> n_sent (\<sigma>' q)" "p_Kind p = packetPromise" for p
      using np q that by (auto simp: no_new_promises_def)
    have s: "n_frz (\<sigma>' q) = n_frz (\<sigma> q)" "n_frzB (\<sigma>' q) = n_frzB (\<sigma> q)" "n_frzF (\<sigma>' q) = n_frzF (\<sigma> q)"
      using same [OF q] by blast+
    show ?thesis unfolding True s
    proof (intro conjI impI)
      assume z: "n_frz (\<sigma> q) \<noteq> []" "n_frzB (\<sigma> q) = n_bal (\<sigma> q)"
      show "\<exists>p\<in>soup N \<sigma>'. p_Kind p = packetPrepare \<and> p_Ballot p = n_bal (\<sigma> q) \<and> p_Floor p = n_frzF (\<sigma> q)"
        using f z ev_soup [OF ev] by meson
      show "set (n_frz (\<sigma> q)) \<subseteq> n_sent (\<sigma>' q)" using f z sub by blast
      show "\<exists>H vs. n_frz (\<sigma> q) = promise_pages q (n_bal (\<sigma> q)) (n_frzF (\<sigma> q)) H vs \<and>
           snap_ok \<sigma>' q (n_bal (\<sigma> q)) (n_frzF (\<sigma> q)) H vs"
        using f z snap_mono [OF ev np q] by meson
    qed (use f old_p in blast)+
  next
    case False
    with b f same [OF q] old show ?thesis by force
  qed
qed

lemma pages_frame:
  assumes ev: "evolves N \<sigma> \<sigma>'" and np: "no_new_promises N \<sigma> \<sigma>'" and inv: "inv_pages N \<sigma>"
    and same: "\<And>j. j \<in> replicas N \<Longrightarrow> n_prep (\<sigma>' j) \<Longrightarrow>
      n_pages (\<sigma>' j) = (\<lambda>_. Map.empty) \<and> n_prom (\<sigma>' j) = {} \<or>
      n_prep (\<sigma> j) \<and> n_bal (\<sigma>' j) = n_bal (\<sigma> j) \<and> n_exec (\<sigma>' j) = n_exec (\<sigma> j) \<and>
      n_pages (\<sigma>' j) = n_pages (\<sigma> j) \<and> n_prom (\<sigma>' j) = n_prom (\<sigma> j)"
  shows "inv_pages N \<sigma>'"
  unfolding inv_pages_def
proof (intro ballI impI)
  fix j assume j: "j \<in> replicas N" "n_prep (\<sigma>' j)"
  show "(\<forall>q k p. n_pages (\<sigma>' j) q k = Some p \<longrightarrow> q \<in> replicas N \<and> p \<in> n_sent (\<sigma>' q) \<and> p_Kind p = packetPromise \<and>
        p_Ballot p = n_bal (\<sigma>' j) \<and> p_Page p = k) \<and> (\<forall>q\<in>n_prom (\<sigma>' j). \<exists>H vs. complete_from \<sigma>' j q H vs)"
  proof (cases "n_pages (\<sigma>' j) = (\<lambda>_. Map.empty) \<and> n_prom (\<sigma>' j) = {}")
    case False
    then have s: "n_prep (\<sigma> j)" "n_bal (\<sigma>' j) = n_bal (\<sigma> j)" "n_exec (\<sigma>' j) = n_exec (\<sigma> j)"
      "n_pages (\<sigma>' j) = n_pages (\<sigma> j)" "n_prom (\<sigma>' j) = n_prom (\<sigma> j)" using same [OF j] by auto
    have old: "\<forall>q k p. n_pages (\<sigma> j) q k = Some p \<longrightarrow> q \<in> replicas N \<and> p \<in> n_sent (\<sigma> q) \<and> p_Kind p = packetPromise \<and>
        p_Ballot p = n_bal (\<sigma> j) \<and> p_Page p = k" "\<forall>q\<in>n_prom (\<sigma> j). \<exists>H vs. complete_from \<sigma> j q H vs"
      using inv j(1) s(1) unfolding inv_pages_def by blast+
    have "complete_from \<sigma>' j q H vs" if "complete_from \<sigma> j q H vs" for q H vs
    proof -
      have "n_pages (\<sigma> j) q 0 \<noteq> None" using that by (simp add: complete_from_def)
      then have "q \<in> replicas N" using old(1) by blast
      with that snap_mono [OF ev np] show ?thesis unfolding complete_from_def s by blast
    qed
    moreover have "p \<in> n_sent (\<sigma>' q)" if "q \<in> replicas N" "p \<in> n_sent (\<sigma> q)" for p q
      using that ev by (auto simp: evolves_def)
    ultimately show ?thesis using old unfolding s by blast
  qed simp
qed

lemma est_frame:
  assumes ev: "evolves N \<sigma> \<sigma>'" and inv: "inv_est N \<sigma>"
    and same: "\<And>j. j \<in> replicas N \<Longrightarrow> \<not> n_prep (\<sigma>' j) \<Longrightarrow> n_lead (\<sigma>' j) = j \<Longrightarrow>
      \<not> n_prep (\<sigma> j) \<and> n_lead (\<sigma> j) = j \<and> n_bal (\<sigma>' j) = n_bal (\<sigma> j) \<and> n_high (\<sigma> j) \<le> n_high (\<sigma>' j) \<and>
      (\<forall>s r. n_log (\<sigma>' j) s = Some r \<longrightarrow> n_log (\<sigma> j) s = Some r \<or> r_Ballot r = n_bal (\<sigma> j) \<or> r_Committed r)"
  shows "inv_est N \<sigma>'"
  unfolding inv_est_def
proof (intro ballI impI)
  fix j assume j: "j \<in> replicas N" "\<not> n_prep (\<sigma>' j)" "n_lead (\<sigma>' j) = j"
  note s = same [OF j]
  obtain Q where Q: "majority N Q" "\<forall>q\<in>Q. n_bal (\<sigma> j) \<le> n_bal (\<sigma> q)"
    and log: "\<forall>s r. n_log (\<sigma> j) s = Some r \<longrightarrow> r_Ballot r = n_bal (\<sigma> j) \<or> r_Committed r"
    and dead: "\<forall>s b. n_high (\<sigma> j) < s \<longrightarrow> b < n_bal (\<sigma> j) \<longrightarrow> dead N \<sigma> s b"
    using inv j(1) s unfolding inv_est_def by blast
  have "n_bal (\<sigma>' j) \<le> n_bal (\<sigma>' q)" if "q \<in> Q" for q
    using Q that s ev_bal [OF ev majority_sub [OF Q(1) that]] by force
  moreover have "dead N \<sigma>' x b" if "n_high (\<sigma>' j) < x" "b < n_bal (\<sigma>' j)" for x b
    using dead that s ev_dead [OF ev] by force
  ultimately show "(\<exists>Q. majority N Q \<and> (\<forall>q\<in>Q. n_bal (\<sigma>' j) \<le> n_bal (\<sigma>' q))) \<and>
     (\<forall>s r. n_log (\<sigma>' j) s = Some r \<longrightarrow> r_Ballot r = n_bal (\<sigma>' j) \<or> r_Committed r) \<and>
     (\<forall>s b. n_high (\<sigma>' j) < s \<longrightarrow> b < n_bal (\<sigma>' j) \<longrightarrow> dead N \<sigma>' s b)"
    using Q(1) log s by metis
qed

lemma acked_le: "inv_pkt N \<sigma> \<Longrightarrow> q \<in> replicas N \<Longrightarrow> acked \<sigma> q s b \<Longrightarrow> b \<le> n_bal (\<sigma> q)"
  by (auto simp: inv_pkt_def pkt_ok_def acked_def)

lemma ack_frame:
  assumes ev: "evolves N \<sigma> \<sigma>'" and inv: "inv_ack N \<sigma>" "inv_pkt N \<sigma>"
    and same: "\<And>q s b. q \<in> replicas N \<Longrightarrow> acked \<sigma>' q s b \<Longrightarrow> acked \<sigma> q s b"
    and log: "\<And>q s r. q \<in> replicas N \<Longrightarrow> n_log (\<sigma> q) s = Some r \<Longrightarrow> \<exists>r'. n_log (\<sigma>' q) s = Some r' \<and>
      (r_Ballot r \<le> r_Ballot r' \<and> (r_Committed r \<longrightarrow> r_Committed r') \<or> n_bal (\<sigma> q) \<le> r_Ballot r')"
  shows "inv_ack N \<sigma>'"
  unfolding inv_ack_def
proof (intro ballI allI impI)
  fix q s b assume q: "q \<in> replicas N" and a: "acked \<sigma>' q s b"
  then have a': "acked \<sigma> q s b" using same by blast
  obtain v r where v: "proposed N \<sigma> s b v" and r: "n_log (\<sigma> q) s = Some r" "b \<le> r_Ballot r \<or> r_Committed r"
    using inv(1) q a' unfolding inv_ack_def by blast
  have "b \<le> n_bal (\<sigma> q)" using acked_le [OF inv(2) q a'] .
  then show "(\<exists>v. proposed N \<sigma>' s b v) \<and> (\<exists>r. n_log (\<sigma>' q) s = Some r \<and> (b \<le> r_Ballot r \<or> r_Committed r))"
    using log [OF q r(1)] r(2) ev_proposed [OF ev v] by force
qed

subsection \<open>Sending\<close>

text \<open>The leader of a ballot is one replica.\<close>

lemma same_ballot_leader:
  "inv_ids N \<sigma> \<Longrightarrow> i \<in> replicas N \<Longrightarrow> q \<in> replicas N \<Longrightarrow> n_bal (\<sigma> i) = n_bal (\<sigma> q) \<Longrightarrow>
     n_lead (\<sigma> i) = i \<Longrightarrow> n_lead (\<sigma> q) = q \<Longrightarrow> i = q"
  by (auto simp: inv_ids_def)

definition emit_to :: "int \<Rightarrow> packet \<Rightarrow> net \<Rightarrow> net" where
  "emit_to i p \<sigma> = \<sigma>(i := (\<sigma> i)\<lparr>n_sent := insert p (n_sent (\<sigma> i))\<rparr>)"

lemma emit_to_simps [simp]:
  "n_bal (emit_to i p \<sigma> q) = n_bal (\<sigma> q)" "n_lead (emit_to i p \<sigma> q) = n_lead (\<sigma> q)"
  "n_prep (emit_to i p \<sigma> q) = n_prep (\<sigma> q)" "n_high (emit_to i p \<sigma> q) = n_high (\<sigma> q)"
  "n_exec (emit_to i p \<sigma> q) = n_exec (\<sigma> q)" "n_log (emit_to i p \<sigma> q) = n_log (\<sigma> q)"
  "n_votes (emit_to i p \<sigma> q) = n_votes (\<sigma> q)" "n_pages (emit_to i p \<sigma> q) = n_pages (\<sigma> q)"
  "n_prom (emit_to i p \<sigma> q) = n_prom (\<sigma> q)" "n_frz (emit_to i p \<sigma> q) = n_frz (\<sigma> q)"
  "n_frzB (emit_to i p \<sigma> q) = n_frzB (\<sigma> q)" "n_frzF (emit_to i p \<sigma> q) = n_frzF (\<sigma> q)"
  "n_sent (emit_to i p \<sigma> q) = (if q = i then insert p (n_sent (\<sigma> i)) else n_sent (\<sigma> q))"
  by (simp_all add: emit_to_def)

lemma soup_emit [simp]: "i \<in> replicas N \<Longrightarrow> soup N (emit_to i p \<sigma>) = insert p (soup N \<sigma>)"
  by (auto simp: soup_def split: if_splits)

lemma acked_emit:
  "acked (emit_to i p \<sigma>) q s b \<longleftrightarrow> acked \<sigma> q s b \<or>
     q = i \<and> p_Kind p = packetAck \<and> p_Ballot p = b \<and> s \<in> r_Slot ` set (p_Records p)"
  by (auto simp: acked_def)

lemma emit_evolves: "emittable N \<sigma> i p \<Longrightarrow> evolves N \<sigma> (emit_to i p \<sigma>)"
  by (auto simp: evolves_def acked_emit emittable_def)

lemma emit_no_promise: "emittable N \<sigma> i p \<Longrightarrow> no_new_promises N \<sigma> (emit_to i p \<sigma>)"
  by (auto simp: no_new_promises_def emittable_def)

lemma emittable_record:
  assumes "emittable N \<sigma> i p" "p_Kind p \<in> record_kinds" "r \<in> set (p_Records p)"
  obtains l where "\<not> n_prep (\<sigma> i)" "n_lead (\<sigma> i) = i" "n_log (\<sigma> i) (r_Slot r) = Some l" "r_Request r = r_Request l"
    "r_Ballot r = n_bal (\<sigma> i)" "r_Committed r \<longrightarrow> r_Committed l" "p_Kind p = packetCommit \<longrightarrow> r_Committed r"
proof -
  have "\<exists>l. \<not> n_prep (\<sigma> i) \<and> n_lead (\<sigma> i) = i \<and> n_log (\<sigma> i) (r_Slot r) = Some l \<and> r_Request r = r_Request l \<and>
      r_Ballot r = n_bal (\<sigma> i) \<and> (r_Committed r \<longrightarrow> r_Committed l) \<and> (p_Kind p = packetCommit \<longrightarrow> r_Committed r)"
    using assms unfolding emittable_def by (cases "p_Kind p") (simp_all, blast+)
  with that show thesis by blast
qed

lemma emit_pkt:
  assumes "Inv N \<sigma>" "i \<in> replicas N" "emittable N \<sigma> i p"
  shows "inv_pkt N (emit_to i p \<sigma>)"
proof -
  note inv = Inv_parts [OF assms(1)]
  have b: "0 \<le> n_bal (\<sigma> i)" "n_lead (\<sigma> i) = n_bal (\<sigma> i) mod N" using inv(1) assms(2) by (auto simp: inv_ids_def)
  have recs: "r_Ballot r = p_Ballot p \<and> 0 \<le> r_Slot r \<and> (p_Kind p = packetCommit \<longrightarrow> r_Committed r)"
    if "p_Kind p \<in> record_kinds" "r \<in> set (p_Records p)" for r
    using emittable_record [OF assms(3) that] inv(5) assms(2,3) unfolding inv_log_def emittable_def by metis
  have "p_Kind p \<in> owned_kinds \<longrightarrow> n_lead (\<sigma> i) = i" "p_From p = i" "p_Ballot p = n_bal (\<sigma> i)"
    using assms(3) by (auto simp: emittable_def)
  then have "pkt_ok N i (n_bal (\<sigma> i)) p" using b recs by (auto simp: pkt_ok_def)
  with inv(2) show ?thesis by (auto simp: inv_pkt_def)
qed

lemma emit_prep:
  assumes "Inv N \<sigma>" "i \<in> replicas N" "emittable N \<sigma> i p"
  shows "inv_prep N (emit_to i p \<sigma>)"
proof -
  note inv = Inv_parts [OF assms(1)]
  have new: "p_Kind p \<notin> leader_kinds" if q: "q \<in> replicas N" "n_prep (\<sigma> q)" "p_Ballot p = n_bal (\<sigma> q)" for q
  proof
    assume k: "p_Kind p \<in> leader_kinds"
    have "n_lead (\<sigma> q) = q" using inv(1) q by (auto simp: inv_ids_def)
    moreover have "n_bal (\<sigma> i) = n_bal (\<sigma> q)" using assms(3) q(3) by (simp add: emittable_def)
    ultimately have no: "\<not> (\<not> n_prep (\<sigma> i) \<and> n_lead (\<sigma> i) = i)"
      using same_ballot_leader [OF inv(1) assms(2) q(1)] q(2) by blast
    have "p_Kind p = packetFetch" using k assms(3) no by (auto simp: emittable_def)
    then obtain p' where "p' \<in> soup N \<sigma>" "p_Kind p' \<in> {packetAccept, packetReady}" "p_Ballot p' = n_bal (\<sigma> q)"
      using assms(3) q(3) by (auto simp: emittable_def)
    then show False using inv(3) q unfolding inv_prep_def by fastforce
  qed
  have fetch: "\<exists>p'\<in>soup N \<sigma>. p_Kind p' \<in> {packetAccept, packetReady} \<and> p_Ballot p' = p_Ballot p" if "p_Kind p = packetFetch"
    using assms(3) that by (auto simp: emittable_def)
  show ?thesis unfolding inv_prep_def emit_to_simps soup_emit [OF assms(2)]
  proof (intro conjI ballI impI)
    fix q p' assume "q \<in> replicas N" "n_prep (\<sigma> q)" "p' \<in> insert p (soup N \<sigma>)" "p_Ballot p' = n_bal (\<sigma> q)"
    then show "p_Kind p' \<notin> leader_kinds" using new inv(3) unfolding inv_prep_def by blast
  next
    fix p' assume "p' \<in> insert p (soup N \<sigma>)" "p_Kind p' = packetFetch"
    then show "\<exists>x\<in>insert p (soup N \<sigma>). p_Kind x \<in> {packetAccept, packetReady} \<and> p_Ballot x = p_Ballot p'"
      using fetch inv(3) unfolding inv_prep_def by blast
  qed
qed

lemma emit_floor:
  assumes "Inv N \<sigma>" "i \<in> replicas N" "emittable N \<sigma> i p"
  shows "inv_floor N (emit_to i p \<sigma>)"
proof -
  note inv = Inv_parts [OF assms(1)]
  have own: "p_Floor p' = p_Floor p" if "p_Kind p = packetPrepare" "p' \<in> soup N \<sigma>" "p_Kind p' = packetPrepare" "p_Ballot p' = p_Ballot p" for p'
  proof -
    have em: "n_prep (\<sigma> i)" "n_lead (\<sigma> i) = i" "p_Floor p = n_exec (\<sigma> i) + 1" "p_Ballot p = n_bal (\<sigma> i)"
      using assms(3) that(1) by (auto simp: emittable_def)
    have "p_From p' = p_Ballot p' mod N" using soup_owner(5) [OF inv(2) that(2)] that(3) by simp
    also have "\<dots> = i" using em inv(1) assms(2) that(4) by (auto simp: inv_ids_def)
    finally have "p' \<in> n_sent (\<sigma> i)" using soup_owner [OF inv(2) that(2)] by simp
    then have "p_Floor p' = n_exec (\<sigma> i) + 1"
      using inv(4) [unfolded inv_floor_def, THEN conjunct2, rule_format, OF assms(2) em(1), of p'] that(3,4) em(4) by simp
    with em(3) show ?thesis by simp
  qed
  have new: "p_Kind p \<noteq> packetPromise" "p_Kind p = packetPrepare \<longrightarrow> p_Floor p = n_exec (\<sigma> i) + 1"
    using assms(3) by (auto simp: emittable_def)
  show ?thesis unfolding inv_floor_def emit_to_simps soup_emit [OF assms(2)]
  proof (rule conjI; intro ballI impI)
    fix p1 p2 assume p12: "p1 \<in> insert p (soup N \<sigma>)" "p2 \<in> insert p (soup N \<sigma>)" "p_Kind p1 = packetPrepare"
      "p_Kind p2 = packetPrepare" "p_Ballot p1 = p_Ballot p2"
    consider "p1 = p" "p2 = p" | "p1 = p" "p2 \<in> soup N \<sigma>" | "p2 = p" "p1 \<in> soup N \<sigma>" | "p1 \<in> soup N \<sigma>" "p2 \<in> soup N \<sigma>"
      using p12(1,2) by blast
    then show "p_Floor p1 = p_Floor p2"
    proof cases
      case 2
      then show ?thesis using own [of p2] p12 by metis
    next
      case 3
      then show ?thesis using own [of p1] p12 by metis
    next
      case 4
      then show ?thesis using inv(4) p12(3-5) unfolding inv_floor_def by blast
    qed simp
  next
    fix q p' assume "q \<in> replicas N" "n_prep (\<sigma> q)" "p' \<in> (if q = i then insert p (n_sent (\<sigma> i)) else n_sent (\<sigma> q))"
      "p_Ballot p' = n_bal (\<sigma> q)"
    then show "(p_Kind p' = packetPrepare \<longrightarrow> p_Floor p' = n_exec (\<sigma> q) + 1) \<and> (p_Kind p' = packetPromise \<longrightarrow> p_High p' = n_high (\<sigma> q))"
      using new inv(4) unfolding inv_floor_def by (metis insertE)
  qed
qed

lemma emit_new_proposals:
  assumes "0 < N" "Inv N \<sigma>" "i \<in> replicas N" "emittable N \<sigma> i p"
  shows "new_proposals N \<sigma> (emit_to i p \<sigma>) i"
  unfolding new_proposals_def
proof (intro allI impI)
  fix s b v assume k: "known N (emit_to i p \<sigma>) s b v"
  note inv = Inv_parts [OF assms(2)]
  show "known N \<sigma> s b v \<or> b mod N = i \<and> b = n_bal (emit_to i p \<sigma> i) \<and> \<not> n_prep (emit_to i p \<sigma> i) \<and>
    (\<exists>r. n_log (emit_to i p \<sigma> i) s = Some r \<and> r_Request r = v) \<and> safe N (emit_to i p \<sigma>) s b v"
  proof (cases "known N \<sigma> s b v")
    case False
    then obtain r where r: "p_Kind p \<in> record_kinds" "r \<in> set (p_Records p)" "r_Slot r = s" "r_Ballot r = b" "r_Request r = v"
      using k assms(3) by (auto simp: known_def proposed_def)
    obtain l where l: "\<not> n_prep (\<sigma> i)" "n_lead (\<sigma> i) = i" "n_log (\<sigma> i) s = Some l" "v = r_Request l" "b = n_bal (\<sigma> i)"
      using emittable_record [OF assms(4) r(1,2)] r by metis
    have bal: "b mod N = i" using l inv(1) assms(3) by (auto simp: inv_ids_def)
    have "r_Ballot l \<noteq> b" using False l assms(3) by (auto simp: known_def)
    then obtain Q where com: "r_Committed l" and Q: "majority N Q" "\<forall>q\<in>Q. n_bal (\<sigma> i) \<le> n_bal (\<sigma> q)"
      using inv(15) l assms(3) unfolding inv_est_def by blast
    have "decided N \<sigma> l" using inv(10) com l assms(3) unfolding inv_com_def by blast
    then have "safe N \<sigma> (r_Slot l) b (r_Request l)"
      using decided_safe [OF assms(1) inv(8,9,7)] Q l(5) by blast
    moreover have "r_Slot l = s" using inv(5) l assms(3) unfolding inv_log_def by blast
    ultimately have "safe N (emit_to i p \<sigma>) s b v" using ev_safe [OF emit_evolves [OF assms(4)]] l by simp
    with l bal show ?thesis by simp
  qed simp
qed

lemma emit_ack:
  assumes "Inv N \<sigma>" "i \<in> replicas N" "emittable N \<sigma> i p"
  shows "inv_ack N (emit_to i p \<sigma>)"
  unfolding inv_ack_def
proof (intro ballI allI impI)
  fix q s b assume q: "q \<in> replicas N" and a: "acked (emit_to i p \<sigma>) q s b"
  note inv = Inv_parts [OF assms(1)] and mono = ev_proposed [OF emit_evolves [OF assms(3)]]
  show "(\<exists>v. proposed N (emit_to i p \<sigma>) s b v) \<and> (\<exists>r. n_log (emit_to i p \<sigma> q) s = Some r \<and> (b \<le> r_Ballot r \<or> r_Committed r))"
  proof (cases "acked \<sigma> q s b")
    case True
    then obtain v where "proposed N \<sigma> s b v" "\<exists>r. n_log (\<sigma> q) s = Some r \<and> (b \<le> r_Ballot r \<or> r_Committed r)"
      using inv(9) q unfolding inv_ack_def by blast
    with mono show ?thesis by auto
  next
    case False
    with a obtain x where x: "q = i" "p_Kind p = packetAck" "p_Ballot p = b" "x \<in> set (p_Records p)" "r_Slot x = s"
      by (auto simp: acked_emit)
    then obtain p' r l where p': "p' \<in> soup N \<sigma>" "r \<in> set (p_Records p')" "p_Kind p' = packetAccept" "p_Ballot p' = b"
      "r_Slot r = s" "n_log (\<sigma> i) s = Some l" "r_Ballot l = b \<or> r_Committed l"
      using assms(3) unfolding emittable_def by fastforce
    then have "proposed N \<sigma> s b (r_Request r)"
      using soup_owner(6) [OF inv(2) p'(1)] by (fastforce simp: proposed_def)
    with mono p'(6,7) x(1) show ?thesis by auto
  qed
qed

lemma emit_com:
  assumes "Inv N \<sigma>" "i \<in> replicas N" "emittable N \<sigma> i p"
  shows "inv_com N (emit_to i p \<sigma>)"
proof (rule com_step [OF emit_evolves [OF assms(3)] Inv_parts(10) [OF assms(1)]])
  note inv = Inv_parts [OF assms(1)]
  fix p' r assume p': "p' \<in> soup N (emit_to i p \<sigma>)" "p_Kind p' \<in> record_kinds" "r \<in> set (p_Records p')" "r_Committed r"
  show "p' \<in> soup N \<sigma> \<or> decided N (emit_to i p \<sigma>) r"
  proof (cases "p' = p")
    case True
    obtain l where l: "n_log (\<sigma> i) (r_Slot r) = Some l" "r_Request r = r_Request l" "r_Ballot r = n_bal (\<sigma> i)" "r_Committed l"
      using emittable_record [OF assms(3)] True p' by metis
    then have "decided N \<sigma> l" "r_Ballot l \<le> r_Ballot r" "r_Slot l = r_Slot r"
      using inv(5,10) assms(2) unfolding inv_com_def inv_log_def by (metis, fastforce, blast)
    then have "decided N \<sigma> r" using l unfolding decided_def by (metis order.trans)
    then show ?thesis using ev_decided [OF emit_evolves [OF assms(3)]] by blast
  qed (use p' assms(2) in simp)
qed simp

lemma emit_Inv:
  assumes "0 < N" "Inv N \<sigma>" "i \<in> replicas N" "emittable N \<sigma> i p"
  shows "Inv N (emit_to i p \<sigma>)"
proof -
  note inv = Inv_parts [OF assms(2)] and ev = emit_evolves [OF assms(4)] and np = emit_no_promise [OF assms(4)]
  have "keeps_leaders N \<sigma> (emit_to i p \<sigma>)" by (auto simp: keeps_leaders_def)
  then have lead: "inv_lead N (emit_to i p \<sigma>)"
    using lead_step assms(1) inv(1,6) emit_new_proposals [OF assms] by blast
  show ?thesis unfolding Inv_def
  proof (intro conjI)
    show "inv_ids N (emit_to i p \<sigma>)" using inv(1) by (auto simp: inv_ids_def)
    show "inv_log N (emit_to i p \<sigma>)" using inv(5) by (simp add: inv_log_def)
    show "inv_uniq N (emit_to i p \<sigma>)" using uniq_step [OF inv(7) lead emit_new_proposals [OF assms]] .
    show "inv_safe N (emit_to i p \<sigma>)" using safe_step [OF ev inv(8) emit_new_proposals [OF assms]] .
    show "inv_votes N (emit_to i p \<sigma>)" by (rule votes_frame [OF ev inv(11)]) simp
    show "inv_snap N (emit_to i p \<sigma>)" using snap_frame [OF ev np inv(12)] .
    show "inv_frz N (emit_to i p \<sigma>)" by (rule frz_frame [OF ev np inv(13) inv(2)]) simp
    show "inv_pages N (emit_to i p \<sigma>)" by (rule pages_frame [OF ev np inv(14)]) simp
    show "inv_est N (emit_to i p \<sigma>)" by (rule est_frame [OF ev inv(15)]) simp
  qed (use lead emit_pkt emit_prep emit_floor emit_ack emit_com assms in blast)+
qed

subsection \<open>Writing the log\<close>

definition set_log :: "int \<Rightarrow> bool \<Rightarrow> (int \<rightharpoonup> logrec) \<Rightarrow> int \<Rightarrow> net \<Rightarrow> net" where
  "set_log i pr lg h \<sigma> = \<sigma>(i := (\<sigma> i)\<lparr>n_prep := pr, n_log := lg, n_high := h\<rparr>)"

lemma set_log_simps [simp]:
  "n_bal (set_log i pr lg h \<sigma> q) = n_bal (\<sigma> q)" "n_lead (set_log i pr lg h \<sigma> q) = n_lead (\<sigma> q)"
  "n_prep (set_log i pr lg h \<sigma> q) = (if q = i then pr else n_prep (\<sigma> q))"
  "n_high (set_log i pr lg h \<sigma> q) = (if q = i then h else n_high (\<sigma> q))"
  "n_exec (set_log i pr lg h \<sigma> q) = n_exec (\<sigma> q)" "n_log (set_log i pr lg h \<sigma> q) = (if q = i then lg else n_log (\<sigma> q))"
  "n_votes (set_log i pr lg h \<sigma> q) = n_votes (\<sigma> q)" "n_pages (set_log i pr lg h \<sigma> q) = n_pages (\<sigma> q)"
  "n_prom (set_log i pr lg h \<sigma> q) = n_prom (\<sigma> q)" "n_frz (set_log i pr lg h \<sigma> q) = n_frz (\<sigma> q)"
  "n_frzB (set_log i pr lg h \<sigma> q) = n_frzB (\<sigma> q)" "n_frzF (set_log i pr lg h \<sigma> q) = n_frzF (\<sigma> q)"
  "n_sent (set_log i pr lg h \<sigma> q) = n_sent (\<sigma> q)"
  by (simp_all add: set_log_def)

lemma set_log_ghosts [simp]:
  "soup N (set_log i pr lg h \<sigma>) = soup N \<sigma>" "acked (set_log i pr lg h \<sigma>) = acked \<sigma>"
  "proposed N (set_log i pr lg h \<sigma>) = proposed N \<sigma>" "chosen N (set_log i pr lg h \<sigma>) = chosen N \<sigma>"
  "dead N (set_log i pr lg h \<sigma>) = dead N \<sigma>" "decided N (set_log i pr lg h \<sigma>) = decided N \<sigma>"
  "safe N (set_log i pr lg h \<sigma>) = safe N \<sigma>" "evolves N \<sigma> (set_log i pr lg h \<sigma>)"
  "no_new_promises N \<sigma> (set_log i pr lg h \<sigma>)"
proof -
  show s: "soup N (set_log i pr lg h \<sigma>) = soup N \<sigma>" and a: "acked (set_log i pr lg h \<sigma>) = acked \<sigma>"
    by (simp_all add: soup_def acked_def fun_eq_iff)
  show p: "proposed N (set_log i pr lg h \<sigma>) = proposed N \<sigma>" by (simp add: proposed_def fun_eq_iff s)
  show c: "chosen N (set_log i pr lg h \<sigma>) = chosen N \<sigma>" by (simp add: chosen_def fun_eq_iff a p)
  show d: "dead N (set_log i pr lg h \<sigma>) = dead N \<sigma>" by (simp add: dead_def fun_eq_iff a)
  show "decided N (set_log i pr lg h \<sigma>) = decided N \<sigma>" by (simp add: decided_def fun_eq_iff c)
  show "safe N (set_log i pr lg h \<sigma>) = safe N \<sigma>" by (simp add: safe_def fun_eq_iff d p)
  show "evolves N \<sigma> (set_log i pr lg h \<sigma>)" "no_new_promises N \<sigma> (set_log i pr lg h \<sigma>)"
    by (simp_all add: evolves_def no_new_promises_def a)
qed

definition log_ok :: "int \<Rightarrow> net \<Rightarrow> int \<Rightarrow> bool \<Rightarrow> (int \<rightharpoonup> logrec) \<Rightarrow> int \<Rightarrow> bool" where
  "log_ok N \<sigma> i pr lg h \<longleftrightarrow> n_high (\<sigma> i) \<le> h \<and> (n_prep (\<sigma> i) \<longrightarrow> pr \<longrightarrow> h = n_high (\<sigma> i)) \<and> (pr \<longrightarrow> n_prep (\<sigma> i)) \<and>
     (\<forall>s r. lg s = Some r \<longrightarrow> r_Slot r = s \<and> 0 \<le> s \<and> s \<le> h \<and> r_Ballot r \<le> n_bal (\<sigma> i) \<and>
        (r_Committed r \<longrightarrow> n_log (\<sigma> i) s = Some r \<or> decided N \<sigma> r) \<and>
        (known N \<sigma> s (r_Ballot r) (r_Request r) \<or>
         \<not> pr \<and> n_lead (\<sigma> i) = i \<and> r_Ballot r = n_bal (\<sigma> i) \<and> safe N \<sigma> s (n_bal (\<sigma> i)) (r_Request r))) \<and>
     (\<forall>s r. n_log (\<sigma> i) s = Some r \<longrightarrow> (\<exists>r'. lg s = Some r' \<and>
        (r_Ballot r \<le> r_Ballot r' \<and> (r_Committed r \<longrightarrow> r_Committed r') \<or> n_bal (\<sigma> i) \<le> r_Ballot r') \<and>
        (r_Committed r \<longrightarrow> s \<le> n_exec (\<sigma> i) \<longrightarrow> r_Committed r') \<and>
        (\<not> n_prep (\<sigma> i) \<longrightarrow> n_lead (\<sigma> i) = i \<longrightarrow> r_Request r' = r_Request r)))"

lemma log_okD:
  assumes "log_ok N \<sigma> i pr lg h"
  shows "n_high (\<sigma> i) \<le> h" "n_prep (\<sigma> i) \<and> pr \<longrightarrow> h = n_high (\<sigma> i)" "pr \<longrightarrow> n_prep (\<sigma> i)"
    "lg s = Some r \<Longrightarrow> r_Slot r = s \<and> 0 \<le> s \<and> s \<le> h \<and> r_Ballot r \<le> n_bal (\<sigma> i)"
    "lg s = Some r \<Longrightarrow> r_Committed r \<Longrightarrow> n_log (\<sigma> i) s = Some r \<or> decided N \<sigma> r"
    "lg s = Some r \<Longrightarrow> known N \<sigma> s (r_Ballot r) (r_Request r) \<or>
       \<not> pr \<and> n_lead (\<sigma> i) = i \<and> r_Ballot r = n_bal (\<sigma> i) \<and> safe N \<sigma> s (n_bal (\<sigma> i)) (r_Request r)"
    "n_log (\<sigma> i) s = Some r \<Longrightarrow> \<exists>r'. lg s = Some r' \<and>
       (r_Ballot r \<le> r_Ballot r' \<and> (r_Committed r \<longrightarrow> r_Committed r') \<or> n_bal (\<sigma> i) \<le> r_Ballot r')"
    "n_log (\<sigma> i) s = Some r \<Longrightarrow> r_Committed r \<Longrightarrow> s \<le> n_exec (\<sigma> i) \<Longrightarrow> \<exists>r'. lg s = Some r' \<and> r_Committed r'"
    "n_log (\<sigma> i) s = Some r \<Longrightarrow> \<not> n_prep (\<sigma> i) \<Longrightarrow> n_lead (\<sigma> i) = i \<Longrightarrow> \<exists>r'. lg s = Some r' \<and> r_Request r' = r_Request r"
proof -
  note ok = assms [unfolded log_ok_def]
  show "n_high (\<sigma> i) \<le> h" "n_prep (\<sigma> i) \<and> pr \<longrightarrow> h = n_high (\<sigma> i)" "pr \<longrightarrow> n_prep (\<sigma> i)" using ok by blast+
  show "lg s = Some r \<Longrightarrow> r_Slot r = s \<and> 0 \<le> s \<and> s \<le> h \<and> r_Ballot r \<le> n_bal (\<sigma> i)"
    "lg s = Some r \<Longrightarrow> r_Committed r \<Longrightarrow> n_log (\<sigma> i) s = Some r \<or> decided N \<sigma> r"
    "lg s = Some r \<Longrightarrow> known N \<sigma> s (r_Ballot r) (r_Request r) \<or>
       \<not> pr \<and> n_lead (\<sigma> i) = i \<and> r_Ballot r = n_bal (\<sigma> i) \<and> safe N \<sigma> s (n_bal (\<sigma> i)) (r_Request r)"
    using ok by blast+
  assume "n_log (\<sigma> i) s = Some r"
  then obtain r' where "lg s = Some r'"
    "r_Ballot r \<le> r_Ballot r' \<and> (r_Committed r \<longrightarrow> r_Committed r') \<or> n_bal (\<sigma> i) \<le> r_Ballot r'"
    "r_Committed r \<longrightarrow> s \<le> n_exec (\<sigma> i) \<longrightarrow> r_Committed r'"
    "\<not> n_prep (\<sigma> i) \<longrightarrow> n_lead (\<sigma> i) = i \<longrightarrow> r_Request r' = r_Request r" using ok by blast
  then show "\<exists>r'. lg s = Some r' \<and> (r_Ballot r \<le> r_Ballot r' \<and> (r_Committed r \<longrightarrow> r_Committed r') \<or> n_bal (\<sigma> i) \<le> r_Ballot r')"
    "r_Committed r \<Longrightarrow> s \<le> n_exec (\<sigma> i) \<Longrightarrow> \<exists>r'. lg s = Some r' \<and> r_Committed r'"
    "\<not> n_prep (\<sigma> i) \<Longrightarrow> n_lead (\<sigma> i) = i \<Longrightarrow> \<exists>r'. lg s = Some r' \<and> r_Request r' = r_Request r" by blast+
qed

lemma set_log_new_proposals:
  assumes "0 < N" "Inv N \<sigma>" "i \<in> replicas N" "log_ok N \<sigma> i pr lg h"
  shows "new_proposals N \<sigma> (set_log i pr lg h \<sigma>) i"
  unfolding new_proposals_def
proof (intro allI impI)
  fix s b v assume k: "known N (set_log i pr lg h \<sigma>) s b v"
  show "known N \<sigma> s b v \<or> b mod N = i \<and> b = n_bal (set_log i pr lg h \<sigma> i) \<and> \<not> n_prep (set_log i pr lg h \<sigma> i) \<and>
    (\<exists>r. n_log (set_log i pr lg h \<sigma> i) s = Some r \<and> r_Request r = v) \<and> safe N (set_log i pr lg h \<sigma>) s b v"
  proof (cases "known N \<sigma> s b v")
    case False
    then obtain r where r: "lg s = Some r" "r_Ballot r = b" "r_Request r = v"
      using k by (auto simp: known_def split: if_splits)
    then have new: "\<not> pr" "n_lead (\<sigma> i) = i" "b = n_bal (\<sigma> i)" "safe N \<sigma> s b v"
      using log_okD(6) [OF assms(4) r(1)] r(2,3) False by auto
    have "b mod N = i" using new Inv_parts(1) [OF assms(2)] assms(3) by (auto simp: inv_ids_def)
    with new r show ?thesis by simp
  qed simp
qed

lemma set_log_Inv:
  assumes "0 < N" "Inv N \<sigma>" "i \<in> replicas N" "log_ok N \<sigma> i pr lg h"
    and est: "inv_est N (set_log i pr lg h \<sigma>)"
  shows "Inv N (set_log i pr lg h \<sigma>)" (is "Inv N ?\<sigma>")
proof -
  note inv = Inv_parts [OF assms(2)] and np = set_log_new_proposals [OF assms(1-4)]
  note ok = log_okD [OF assms(4)]
  have "keeps_leaders N \<sigma> ?\<sigma>"
    unfolding keeps_leaders_def
  proof (intro ballI disjI2 conjI impI allI)
    fix q assume q: "\<not> n_prep (\<sigma> q)" "n_lead (\<sigma> q) = q"
    show "\<not> n_prep (?\<sigma> q)" using q(1) ok(3) by auto
    show "\<exists>r'. n_log (?\<sigma> q) s = Some r' \<and> r_Request r' = r_Request r" if "n_log (\<sigma> q) s = Some r" for s r
      using that ok(9) [of s r] q by (cases "q = i") auto
  qed simp
  then have lead: "inv_lead N ?\<sigma>" using lead_step assms(1) inv(1,6) np by blast
  have log: "inv_log N ?\<sigma>"
    unfolding inv_log_def
  proof (intro ballI)
    fix q assume "q \<in> replicas N"
    note q = inv(5) [unfolded inv_log_def, rule_format, OF this]
    show "-1 \<le> n_exec (?\<sigma> q) \<and> -1 \<le> n_high (?\<sigma> q) \<and>
      (\<forall>s r. n_log (?\<sigma> q) s = Some r \<longrightarrow> r_Slot r = s \<and> 0 \<le> s \<and> s \<le> n_high (?\<sigma> q) \<and> r_Ballot r \<le> n_bal (?\<sigma> q)) \<and>
      (\<forall>s. 0 \<le> s \<and> s \<le> n_exec (?\<sigma> q) \<longrightarrow> (\<exists>r. n_log (?\<sigma> q) s = Some r \<and> r_Committed r))"
    proof (cases "q = i")
      case True
      have "\<exists>r. lg s = Some r \<and> r_Committed r" if "0 \<le> s" "s \<le> n_exec (\<sigma> i)" for s
        using q that ok(8) True by metis
      with True q ok(1,4) show ?thesis by auto
    qed (use q in simp)
  qed
  show ?thesis unfolding Inv_def
  proof (intro conjI)
    show "inv_ids N ?\<sigma>" using inv(1) ok(3) by (auto simp: inv_ids_def)
    show "inv_pkt N ?\<sigma>" using inv(2) by (simp add: inv_pkt_def)
    show "inv_prep N ?\<sigma>" using inv(3) ok(3) by (auto simp: inv_prep_def)
    show "inv_floor N ?\<sigma>"
      unfolding inv_floor_def set_log_ghosts
    proof (rule conjI [OF inv(4) [unfolded inv_floor_def, THEN conjunct1]], intro ballI impI)
      fix q p assume q: "q \<in> replicas N" "n_prep (?\<sigma> q)" "p \<in> n_sent (?\<sigma> q)" "p_Ballot p = n_bal (?\<sigma> q)"
      then have "n_prep (\<sigma> q)" "n_high (?\<sigma> q) = n_high (\<sigma> q)" using ok(2,3) by (auto split: if_splits)
      then show "(p_Kind p = packetPrepare \<longrightarrow> p_Floor p = n_exec (?\<sigma> q) + 1) \<and> (p_Kind p = packetPromise \<longrightarrow> p_High p = n_high (?\<sigma> q))"
        using inv(4) [unfolded inv_floor_def, THEN conjunct2] q by simp
    qed
    show "inv_uniq N ?\<sigma>" using uniq_step [OF inv(7) lead np] .
    show "inv_safe N ?\<sigma>" using safe_step [OF _ inv(8) np] by simp
    show "inv_ack N ?\<sigma>"
      by (rule ack_frame [OF _ inv(9) inv(2)]) (use ok(7) in \<open>auto split: if_splits\<close>)
    show "inv_com N ?\<sigma>"
      by (rule com_step [OF _ inv(10)]) (use ok(5) in \<open>auto split: if_splits\<close>)
    show "inv_votes N ?\<sigma>" by (rule votes_frame [OF _ inv(11)]) simp_all
    show "inv_snap N ?\<sigma>" using snap_frame [OF _ _ inv(12)] by simp
    show "inv_frz N ?\<sigma>" by (rule frz_frame [OF _ _ inv(13) inv(2)]) simp_all
    show "inv_pages N ?\<sigma>" by (rule pages_frame [OF _ _ inv(14)]) (use ok(3) in \<open>auto split: if_splits\<close>)
  qed (fact lead est log)+
qed

lemma set_log_same: "n_prep (\<sigma> i) = pr \<Longrightarrow> \<sigma>(i := (\<sigma> i)\<lparr>n_log := lg, n_high := h\<rparr>) = set_log i pr lg h \<sigma>"
  by (simp add: set_log_def fun_eq_iff)

lemma not_preparing:
  "Inv N \<sigma> \<Longrightarrow> i \<in> replicas N \<Longrightarrow> p \<in> soup N \<sigma> \<Longrightarrow> p_Kind p \<in> leader_kinds \<Longrightarrow> p_Ballot p = n_bal (\<sigma> i) \<Longrightarrow> \<not> n_prep (\<sigma> i)"
  using Inv_parts(3) unfolding inv_prep_def by blast

lemma leader_log:
  assumes "Inv N \<sigma>" "i \<in> replicas N" "n_lead (\<sigma> i) = i" "known N \<sigma> s (n_bal (\<sigma> i)) v"
  shows "\<exists>r. n_log (\<sigma> i) s = Some r \<and> r_Request r = v"
proof -
  have "n_bal (\<sigma> i) mod N = i" using Inv_parts(1) [OF assms(1)] assms(2,3) by (auto simp: inv_ids_def)
  with Inv_parts(6) [OF assms(1)] assms(4) show ?thesis unfolding inv_lead_def by (metis less_irrefl)
qed

lemma log_factsD:
  assumes "Inv N \<sigma>" "i \<in> replicas N" "n_log (\<sigma> i) s = Some r"
  shows "r_Slot r = s" "0 \<le> s" "s \<le> n_high (\<sigma> i)" "r_Ballot r \<le> n_bal (\<sigma> i)" "known N \<sigma> s (r_Ballot r) (r_Request r)"
  using Inv_parts(5) [OF assms(1)] assms(2,3) unfolding inv_log_def known_def by blast+

text \<open>Overwriting one slot.\<close>

lemma put_log_Inv:
  assumes "0 < N" "Inv N \<sigma>" and i: "i \<in> replicas N" and pr: "\<not> n_prep (\<sigma> i)"
    and r: "0 \<le> r_Slot r" "r_Ballot r = n_bal (\<sigma> i)" "r_Committed r \<longrightarrow> decided N \<sigma> r"
    and new: "known N \<sigma> (r_Slot r) (r_Ballot r) (r_Request r) \<or>
      n_lead (\<sigma> i) = i \<and> safe N \<sigma> (r_Slot r) (n_bal (\<sigma> i)) (r_Request r)"
    and old: "\<And>l. n_log (\<sigma> i) (r_Slot r) = Some l \<Longrightarrow>
      (r_Committed l \<longrightarrow> r_Committed r) \<and> (n_lead (\<sigma> i) = i \<longrightarrow> r_Request r = r_Request l)"
  shows "Inv N (\<sigma>(i := (\<sigma> i)\<lparr>n_log := (n_log (\<sigma> i))(r_Slot r \<mapsto> r), n_high := max (n_high (\<sigma> i)) (r_Slot r)\<rparr>))"
proof -
  let ?lg = "(n_log (\<sigma> i))(r_Slot r \<mapsto> r)" and ?h = "max (n_high (\<sigma> i)) (r_Slot r)"
  note f = log_factsD [OF assms(2) i]
  have "log_ok N \<sigma> i False ?lg ?h"
    unfolding log_ok_def
  proof (intro conjI allI impI)
    fix s x assume x: "?lg s = Some x"
    show "r_Slot x = s" "0 \<le> s" "s \<le> ?h" "r_Ballot x \<le> n_bal (\<sigma> i)"
      using x f [of s x] r by (auto split: if_splits)
    show "n_log (\<sigma> i) s = Some x \<or> decided N \<sigma> x" if "r_Committed x"
      using x r that by (auto split: if_splits)
    show "known N \<sigma> s (r_Ballot x) (r_Request x) \<or>
         \<not> False \<and> n_lead (\<sigma> i) = i \<and> r_Ballot x = n_bal (\<sigma> i) \<and> safe N \<sigma> s (n_bal (\<sigma> i)) (r_Request x)"
      using x new r(2) f(5) [of s x] by (auto split: if_splits)
  next
    fix s x assume x: "n_log (\<sigma> i) s = Some x"
    show "\<exists>r'. ?lg s = Some r' \<and>
        (r_Ballot x \<le> r_Ballot r' \<and> (r_Committed x \<longrightarrow> r_Committed r') \<or> n_bal (\<sigma> i) \<le> r_Ballot r') \<and>
        (r_Committed x \<longrightarrow> s \<le> n_exec (\<sigma> i) \<longrightarrow> r_Committed r') \<and>
        (\<not> n_prep (\<sigma> i) \<longrightarrow> n_lead (\<sigma> i) = i \<longrightarrow> r_Request r' = r_Request x)"
      using x old r(2) by (cases "s = r_Slot r") auto
  qed (use pr in auto)
  moreover have "inv_est N (set_log i False ?lg ?h \<sigma>)"
    by (rule est_frame [OF _ Inv_parts(15) [OF assms(2)]]) (use pr r(2) in \<open>auto split: if_splits\<close>)
  ultimately have "Inv N (set_log i False ?lg ?h \<sigma>)" using set_log_Inv assms(1,2) i by blast
  then show ?thesis using set_log_same [of \<sigma> i False ?h ?lg] pr by simp
qed

lemma install_Inv:
  assumes "0 < N" "Inv N \<sigma>" "i \<in> replicas N" and p: "p \<in> soup N \<sigma>" "p_Kind p \<in> {packetAccept, packetCommit}"
    "p_Ballot p = n_bal (\<sigma> i)" "r \<in> set (p_Records p)"
  shows "Inv N (\<sigma>(i := inst r (\<sigma> i)))"
proof (cases "case n_log (\<sigma> i) (r_Slot r) of Some old \<Rightarrow> r_Committed old | None \<Rightarrow> False")
  case True
  then show ?thesis using assms(2) by (simp add: inst_def)
next
  case False
  note inv = Inv_parts [OF assms(2)]
  note own = soup_owner [OF inv(2) p(1)]
  have r: "r_Ballot r = n_bal (\<sigma> i)" "0 \<le> r_Slot r" using own(6) p by auto
  have pr: "\<not> n_prep (\<sigma> i)" using not_preparing [OF assms(2,3) p(1)] p(2,3) by auto
  have k: "known N \<sigma> (r_Slot r) (n_bal (\<sigma> i)) (r_Request r)"
    using p r by (auto simp: known_def proposed_def)
  have "r_Committed r \<longrightarrow> decided N \<sigma> r" using inv(10) p unfolding inv_com_def by auto
  then have "Inv N (\<sigma>(i := (\<sigma> i)\<lparr>n_log := (n_log (\<sigma> i))(r_Slot r \<mapsto> r), n_high := max (n_high (\<sigma> i)) (r_Slot r)\<rparr>))"
    using leader_log [OF assms(2,3) _ k] False k r pr assms(1-3) by (intro put_log_Inv) auto
  then show ?thesis using False by (simp add: inst_def)
qed

lemma votes_chosen:
  assumes "Inv N \<sigma>" "i \<in> replicas N" "n_log (\<sigma> i) s = Some r" "r_Ballot r = n_bal (\<sigma> i)" "majority N (n_votes (\<sigma> i) s)"
  shows "chosen N \<sigma> s (n_bal (\<sigma> i)) (r_Request r)"
proof -
  note inv = Inv_parts [OF assms(1)]
  have ack: "acked \<sigma> q s (n_bal (\<sigma> i))" if "q \<in> n_votes (\<sigma> i) s" for q
    using inv(11) assms(2) that unfolding inv_votes_def by blast
  obtain q where "q \<in> n_votes (\<sigma> i) s" "q \<in> replicas N"
    using maj.quorum_nonempty [OF assms(5)] majority_sub [OF assms(5)] by blast
  then obtain v where "proposed N \<sigma> s (n_bal (\<sigma> i)) v" using inv(9) ack unfolding inv_ack_def by blast
  moreover have "v = r_Request r"
    using inv(7) calculation log_factsD(5) [OF assms(1-3)] assms(4) unfolding inv_uniq_def known_def by metis
  ultimately show ?thesis using ack assms(5) unfolding chosen_def by blast
qed

lemma commit_Inv:
  assumes "0 < N" "Inv N \<sigma>" "i \<in> replicas N" "\<not> n_prep (\<sigma> i)" and r: "n_log (\<sigma> i) s = Some r" "r_Ballot r = n_bal (\<sigma> i)"
    and "majority N (n_votes (\<sigma> i) s)"
  shows "Inv N (\<sigma>(i := (\<sigma> i)\<lparr>n_log := (n_log (\<sigma> i))(s \<mapsto> r\<lparr>r_Committed := True\<rparr>)\<rparr>))"
proof -
  let ?r = "r\<lparr>r_Committed := True\<rparr>"
  note f = log_factsD [OF assms(2,3) r(1)]
  have "decided N \<sigma> ?r"
    using votes_chosen [OF assms(2,3) r assms(7)] r(2) f(1) unfolding decided_def by auto
  then have "Inv N (\<sigma>(i := (\<sigma> i)\<lparr>n_log := (n_log (\<sigma> i))(r_Slot ?r \<mapsto> ?r), n_high := max (n_high (\<sigma> i)) (r_Slot ?r)\<rparr>))"
    using f r assms(1-4) by (intro put_log_Inv) auto
  then show ?thesis using f by (simp add: max_def)
qed

lemma flush_Inv:
  assumes "0 < N" "Inv N \<sigma>" "i \<in> replicas N" "\<not> n_prep (\<sigma> i)" "n_lead (\<sigma> i) = i"
  shows "Inv N (\<sigma>(i := (\<sigma> i)\<lparr>n_log := (n_log (\<sigma> i))(n_high (\<sigma> i) + 1 \<mapsto>
     \<lparr>r_Slot = n_high (\<sigma> i) + 1, r_Ballot = n_bal (\<sigma> i), r_Request = v, r_Committed = False\<rparr>),
     n_high := n_high (\<sigma> i) + 1\<rparr>))"
proof -
  let ?r = "\<lparr>r_Slot = n_high (\<sigma> i) + 1, r_Ballot = n_bal (\<sigma> i), r_Request = v, r_Committed = False\<rparr>"
  have "safe N \<sigma> (n_high (\<sigma> i) + 1) (n_bal (\<sigma> i)) v"
    using Inv_parts(15) [OF assms(2)] assms(3-5) unfolding inv_est_def safe_def by auto
  moreover have "-1 \<le> n_high (\<sigma> i)" using Inv_parts(5) [OF assms(2)] assms(3) by (simp add: inv_log_def)
  ultimately have "Inv N (\<sigma>(i := (\<sigma> i)\<lparr>n_log := (n_log (\<sigma> i))(r_Slot ?r \<mapsto> ?r), n_high := max (n_high (\<sigma> i)) (r_Slot ?r)\<rparr>))"
    using assms log_factsD(3) [OF assms(2,3)] by (intro put_log_Inv) fastforce+
  then show ?thesis by simp
qed

subsection \<open>Recovery\<close>

lemma promised:
  assumes "Inv N \<sigma>" "i \<in> replicas N" "n_prep (\<sigma> i)" "q \<in> n_prom (\<sigma> i)"
  obtains H vs where "q \<in> replicas N" "n_bal (\<sigma> i) \<le> n_bal (\<sigma> q)" "set vs \<subseteq> all_records (\<sigma> i)"
    "\<exists>p k. n_pages (\<sigma> i) q k = Some p \<and> p_High p = H"
    "\<And>s b. n_exec (\<sigma> i) < s \<Longrightarrow> b < n_bal (\<sigma> i) \<Longrightarrow> acked \<sigma> q s b \<Longrightarrow>
       s \<le> H \<and> (\<exists>r\<in>set vs. r_Slot r = s \<and> (b \<le> r_Ballot r \<or> r_Committed r))"
proof -
  note inv = Inv_parts [OF assms(1)]
  obtain H vs where c: "complete_from \<sigma> i q H vs"
    using inv(14) assms(2-4) unfolding inv_pages_def by blast
  have page: "n_pages (\<sigma> i) q (int k) = Some (promise_page q (n_bal (\<sigma> i)) (n_exec (\<sigma> i) + 1) H vs k)"
    if "k < page_count (length vs)" for k
    using c that by (simp add: complete_from_def)
  have q: "q \<in> replicas N" using inv_pages_cases(1) [OF inv(14) assms(2,3) page [of 0]] by simp
  have "set vs \<subseteq> all_records (\<sigma> i)"
  proof
    fix r assume "r \<in> set vs"
    then obtain k where k: "k < page_count (length vs)" "r \<in> set (take 128 (drop (k * 128) vs))"
      using pages_union [of vs] by blast
    show "r \<in> all_records (\<sigma> i)"
      unfolding all_records_def using assms(4) page [OF k(1)] k(2) by fastforce
  qed
  moreover have "\<exists>p k. n_pages (\<sigma> i) q k = Some p \<and> p_High p = H" 
    using page [of 0] promise_page_simps(5) by (metis page_count_pos)
  ultimately show thesis using that [OF q] c unfolding complete_from_def snap_ok_def by auto
qed

lemma all_records_promised:
  assumes "Inv N \<sigma>" "i \<in> replicas N" "n_prep (\<sigma> i)" "r \<in> all_records (\<sigma> i)"
  shows "proposed N \<sigma> (r_Slot r) (r_Ballot r) (r_Request r)" "r_Committed r \<Longrightarrow> decided N \<sigma> r"
proof -
  note inv = Inv_parts [OF assms(1)]
  obtain q k p where p: "n_pages (\<sigma> i) q k = Some p" "r \<in> set (p_Records p)"
    using assms(4) by (auto simp: all_records_def)
  note pc = inv_pages_cases [OF inv(14) assms(2,3) p(1)]
  have soup: "p \<in> soup N \<sigma>" using soupI pc(1,2) by blast
  then show "proposed N \<sigma> (r_Slot r) (r_Ballot r) (r_Request r)"
    using p(2) pc(3) by (auto simp: proposed_def)
  show "r_Committed r \<Longrightarrow> decided N \<sigma> r" using inv(10) soup p(2) pc(3) unfolding inv_com_def by auto
qed

lemma recover_safe:
  assumes "Inv N \<sigma>" "i \<in> replicas N" "n_prep (\<sigma> i)" "majority N (n_prom (\<sigma> i))" "n_exec (\<sigma> i) < s"
    and sel: "selects (all_records (\<sigma> i)) s sel"
  shows "safe N \<sigma> s (n_bal (\<sigma> i)) (r_Request (refilled (n_bal (\<sigma> i)) s sel))"
  unfolding safe_def
proof (intro allI impI)
  fix b assume b: "b < n_bal (\<sigma> i)"
  note inv = Inv_parts [OF assms(1)]
  let ?v = "r_Request (refilled (n_bal (\<sigma> i)) s sel)"
  show "dead N \<sigma> s b \<or> proposed N \<sigma> s b ?v"
  proof (cases "\<exists>q\<in>n_prom (\<sigma> i). acked \<sigma> q s b")
    case False
    have "b < n_bal (\<sigma> q)" if "q \<in> n_prom (\<sigma> i)" for q using promised [OF assms(1-3) that] b by (metis less_le_trans)
    with False assms(4) show ?thesis unfolding dead_def by blast
  next
    case True
    then obtain q where q: "q \<in> n_prom (\<sigma> i)" "acked \<sigma> q s b" by blast
    then obtain r' where r': "r' \<in> all_records (\<sigma> i)" "r_Slot r' = s" "b \<le> r_Ballot r' \<or> r_Committed r'"
      using promised [OF assms(1-3) q(1)] b assms(5) by (metis subsetD)
    then obtain r where r: "sel = Some r" "r \<in> all_records (\<sigma> i)" "r_Slot r = s" "r_Ballot r' \<le> r_Ballot r"
      using sel by (cases sel) (auto simp: selects_def)
    have v: "?v = r_Request r" using r(1) by (simp add: refilled_def)
    have kr: "known N \<sigma> s (r_Ballot r) ?v" and pr: "proposed N \<sigma> s (r_Ballot r) ?v"
      using all_records_promised(1) [OF assms(1-3) r(2)] r(3) v by (simp_all add: known_def)
    obtain w where w: "proposed N \<sigma> s b w" using inv(9) q promised [OF assms(1-3) q(1)] unfolding inv_ack_def by metis
    consider "b < r_Ballot r" | "b = r_Ballot r" | "r_Ballot r < b" "r_Committed r'" using r(4) r'(3) by linarith
    then show ?thesis
    proof cases
      case 1
      with kr inv(8) show ?thesis unfolding inv_safe_def safe_def by blast
    next
      case 2
      with pr show ?thesis by simp
    next
      case 3
      then obtain b1 where b1: "b1 \<le> r_Ballot r'" "chosen N \<sigma> s b1 (r_Request r')"
        using all_records_promised(2) [OF assms(1-3) r'(1)] r'(2) by (auto simp: decided_def)
      have "?v = r_Request r'" using chosen_forces [OF inv(8,7) b1(2) kr] b1(1) r(4) by simp
      moreover have "w = r_Request r'"
        using chosen_forces [OF inv(8,7) b1(2), of b w] w b1(1) r(4) 3 by (simp add: known_def)
      ultimately show ?thesis using w by simp
    qed
  qed
qed

lemma recover_high:
  assumes "Inv N \<sigma>" "i \<in> replicas N" "n_prep (\<sigma> i)" "i \<in> n_prom (\<sigma> i)"
    and "\<forall>q\<in>n_prom (\<sigma> i). \<forall>k p. n_pages (\<sigma> i) q k = Some p \<longrightarrow> p_High p \<le> h"
  shows "n_high (\<sigma> i) \<le> h"
proof -
  note inv = Inv_parts [OF assms(1)]
  obtain p k where p: "n_pages (\<sigma> i) i k = Some p" using promised [OF assms(1-4)] by metis
  note pc = inv_pages_cases [OF inv(14) assms(2,3) p]
  have "p_High p = n_high (\<sigma> i)"
    using inv(4) [unfolded inv_floor_def, THEN conjunct2, rule_format, OF assms(2,3) pc(2,4)] pc(3) by simp
  with assms(4,5) p show ?thesis by force
qed

lemma recover_Inv:
  assumes "0 < N" "Inv N \<sigma>" "i \<in> replicas N" and prep: "n_prep (\<sigma> i)" "i \<in> n_prom (\<sigma> i)" "majority N (n_prom (\<sigma> i))"
    and h: "n_exec (\<sigma> i) \<le> h" "\<forall>q\<in>n_prom (\<sigma> i). \<forall>k p. n_pages (\<sigma> i) q k = Some p \<longrightarrow> p_High p \<le> h"
    and sel: "\<forall>s. n_exec (\<sigma> i) < s \<and> s \<le> h \<longrightarrow> selects (all_records (\<sigma> i)) s (sel s)"
    and lg: "lg = (\<lambda>s. if n_exec (\<sigma> i) < s \<and> s \<le> h then Some (refilled (n_bal (\<sigma> i)) s (sel s)) else n_log (\<sigma> i) s)"
  shows "Inv N (set_log i False lg h \<sigma>)"
proof (rule set_log_Inv [OF assms(1-3)])
  note inv = Inv_parts [OF assms(2)] and f = log_factsD [OF assms(2,3)]
  have high: "n_high (\<sigma> i) \<le> h" using recover_high [OF assms(2,3) prep(1,2) h(2)] .
  have lead: "n_lead (\<sigma> i) = i" using inv(1) assms(3) prep(1) by (auto simp: inv_ids_def)
  have exec: "-1 \<le> n_exec (\<sigma> i)" using inv(5) assms(3) by (auto simp: inv_log_def)
  have slot: "r_Slot (refilled b s (sel s)) = s" if "n_exec (\<sigma> i) < s" "s \<le> h" for b s
    using sel that by (cases "sel s") (auto simp: refilled_def selects_def noop_record_def)
  show "log_ok N \<sigma> i False lg h"
    unfolding log_ok_def
  proof (intro conjI allI impI)
    fix s x assume x: "lg s = Some x"
    show "r_Slot x = s" "0 \<le> s" "s \<le> h" "r_Ballot x \<le> n_bal (\<sigma> i)" "r_Committed x \<Longrightarrow> n_log (\<sigma> i) s = Some x \<or> decided N \<sigma> x"
      using x f [of s x] slot exec high by (auto simp: lg refilled_def split: if_splits)
    show "known N \<sigma> s (r_Ballot x) (r_Request x) \<or>
         \<not> False \<and> n_lead (\<sigma> i) = i \<and> r_Ballot x = n_bal (\<sigma> i) \<and> safe N \<sigma> s (n_bal (\<sigma> i)) (r_Request x)"
      using x f(5) [of s x] lead recover_safe [OF assms(2,3) prep(1,3), of s "sel s"] sel
      by (auto simp: lg refilled_def split: if_splits)
  next
    fix s x assume x: "n_log (\<sigma> i) s = Some x"
    show "\<exists>r'. lg s = Some r' \<and>
        (r_Ballot x \<le> r_Ballot r' \<and> (r_Committed x \<longrightarrow> r_Committed r') \<or> n_bal (\<sigma> i) \<le> r_Ballot r') \<and>
        (r_Committed x \<longrightarrow> s \<le> n_exec (\<sigma> i) \<longrightarrow> r_Committed r') \<and>
        (\<not> n_prep (\<sigma> i) \<longrightarrow> n_lead (\<sigma> i) = i \<longrightarrow> r_Request r' = r_Request x)"
      using x prep(1) by (cases "n_exec (\<sigma> i) < s \<and> s \<le> h") (auto simp: lg refilled_def)
  qed (use high prep in auto)
  have bal: "n_bal (\<sigma> i) \<le> n_bal (\<sigma> q)" if "q \<in> n_prom (\<sigma> i)" for q
    using promised [OF assms(2,3) prep(1) that] by metis
  have "dead N \<sigma> s b" if "h < s" "b < n_bal (\<sigma> i)" for s b
  proof -
    have "\<not> acked \<sigma> q s b" if q: "q \<in> n_prom (\<sigma> i)" for q
      using promised [OF assms(2,3) prep(1) q] h q \<open>h < s\<close> \<open>b < n_bal (\<sigma> i)\<close> by (smt (verit, best))
    with bal that(2) prep(3) show ?thesis unfolding dead_def by (meson less_le_trans)
  qed
  moreover have "r_Ballot x = n_bal (\<sigma> i) \<or> r_Committed x" if "lg s = Some x" for s x
  proof (cases "n_exec (\<sigma> i) < s \<and> s \<le> h")
    case True
    with that show ?thesis by (auto simp: lg refilled_def)
  next
    case False
    with that have l: "n_log (\<sigma> i) s = Some x" by (simp add: lg del: not_less)
    with False f [OF l] high have "0 \<le> s \<and> s \<le> n_exec (\<sigma> i)" by linarith
    with l inv(5) assms(3) show ?thesis unfolding inv_log_def by force
  qed
  moreover have "(\<exists>Q. majority N Q \<and> (\<forall>q\<in>Q. n_bal (\<sigma> j) \<le> n_bal (\<sigma> q))) \<and>
     (\<forall>s r. n_log (\<sigma> j) s = Some r \<longrightarrow> r_Ballot r = n_bal (\<sigma> j) \<or> r_Committed r) \<and>
     (\<forall>s b. n_high (\<sigma> j) < s \<longrightarrow> b < n_bal (\<sigma> j) \<longrightarrow> dead N \<sigma> s b)"
    if "j \<in> replicas N" "\<not> n_prep (\<sigma> j)" "n_lead (\<sigma> j) = j" for j
    using inv(15) that unfolding inv_est_def by blast
  ultimately show "inv_est N (set_log i False lg h \<sigma>)"
    unfolding inv_est_def using prep(3) bal by simp blast
qed

subsection \<open>Moving to a higher ballot\<close>

definition bump :: "int \<Rightarrow> int \<Rightarrow> int \<Rightarrow> bool \<Rightarrow> (int \<Rightarrow> int \<rightharpoonup> packet) \<Rightarrow> int set \<Rightarrow> packet set \<Rightarrow> net \<Rightarrow> net" where
  "bump i b l pr pg pm S \<sigma> = \<sigma>(i := (\<sigma> i)\<lparr>n_bal := b, n_lead := l, n_prep := pr, n_pages := pg, n_prom := pm,
     n_votes := (\<lambda>_. {}), n_sent := S\<rparr>)"

lemma bump_simps [simp]:
  "n_bal (bump i b l pr pg pm S \<sigma> q) = (if q = i then b else n_bal (\<sigma> q))"
  "n_lead (bump i b l pr pg pm S \<sigma> q) = (if q = i then l else n_lead (\<sigma> q))"
  "n_prep (bump i b l pr pg pm S \<sigma> q) = (if q = i then pr else n_prep (\<sigma> q))"
  "n_high (bump i b l pr pg pm S \<sigma> q) = n_high (\<sigma> q)" "n_exec (bump i b l pr pg pm S \<sigma> q) = n_exec (\<sigma> q)"
  "n_log (bump i b l pr pg pm S \<sigma> q) = n_log (\<sigma> q)"
  "n_votes (bump i b l pr pg pm S \<sigma> q) = (if q = i then (\<lambda>_. {}) else n_votes (\<sigma> q))"
  "n_pages (bump i b l pr pg pm S \<sigma> q) = (if q = i then pg else n_pages (\<sigma> q))"
  "n_prom (bump i b l pr pg pm S \<sigma> q) = (if q = i then pm else n_prom (\<sigma> q))"
  "n_frz (bump i b l pr pg pm S \<sigma> q) = n_frz (\<sigma> q)" "n_frzB (bump i b l pr pg pm S \<sigma> q) = n_frzB (\<sigma> q)"
  "n_frzF (bump i b l pr pg pm S \<sigma> q) = n_frzF (\<sigma> q)"
  "n_sent (bump i b l pr pg pm S \<sigma> q) = (if q = i then S else n_sent (\<sigma> q))"
  by (simp_all add: bump_def)

definition bumpable :: "net \<Rightarrow> int \<Rightarrow> int \<Rightarrow> packet set \<Rightarrow> bool" where
  "bumpable \<sigma> i b S \<longleftrightarrow> n_bal (\<sigma> i) < b \<and> n_sent (\<sigma> i) \<subseteq> S \<and> (\<forall>p\<in>S. p \<in> n_sent (\<sigma> i) \<or> p_Kind p = packetPrepare)"

lemma bump_acked:
  assumes "bumpable \<sigma> i b S"
  shows "acked (bump i b l pr pg pm S \<sigma>) = acked \<sigma>"
proof (intro ext)
  have "p \<in> S \<longleftrightarrow> p \<in> n_sent (\<sigma> i)" if "p_Kind p = packetAck" for p
    using assms that by (auto simp: bumpable_def)
  then show "acked (bump i b l pr pg pm S \<sigma>) q s b' = acked \<sigma> q s b'" for q s b'
    by (cases "q = i") (auto simp: acked_def)
qed

lemma bump_evolves: "bumpable \<sigma> i b S \<Longrightarrow> evolves N \<sigma> (bump i b l pr pg pm S \<sigma>)"
  using bump_acked [of \<sigma> i b S] by (auto simp: evolves_def bumpable_def)

lemma bump_no_promise: "bumpable \<sigma> i b S \<Longrightarrow> no_new_promises N \<sigma> (bump i b l pr pg pm S \<sigma>)"
  by (auto simp: no_new_promises_def bumpable_def)

lemma bump_soup:
  assumes "bumpable \<sigma> i b S" "p \<in> soup N (bump i b l pr pg pm S \<sigma>)"
  shows "p \<in> soup N \<sigma> \<or> p \<in> S \<and> p_Kind p = packetPrepare"
  using assms by (auto simp: soup_def bumpable_def split: if_splits)

lemma bump_known:
  assumes "bumpable \<sigma> i b S" "known N (bump i b l pr pg pm S \<sigma>) s b' v"
  shows "known N \<sigma> s b' v"
proof -
  have "proposed N \<sigma> s b' v" if "proposed N (bump i b l pr pg pm S \<sigma>) s b' v"
    using that bump_soup [OF assms(1)] unfolding proposed_def by fastforce
  with assms(2) show ?thesis by (auto simp: known_def)
qed

lemma bump_Inv:
  assumes N: "0 < N" and inv: "Inv N \<sigma>" and b: "bumpable \<sigma> i b S" and i: "i \<in> replicas N"
    and rest: "inv_ids N (bump i b l pr pg pm S \<sigma>)" "inv_pkt N (bump i b l pr pg pm S \<sigma>)" "inv_prep N (bump i b l pr pg pm S \<sigma>)"
      "inv_floor N (bump i b l pr pg pm S \<sigma>)"
    and pages: "pr \<longrightarrow> pg = (\<lambda>_. Map.empty) \<and> pm = {}" and est: "\<not> pr \<longrightarrow> l \<noteq> i"
  shows "Inv N (bump i b l pr pg pm S \<sigma>)" (is "Inv N ?\<sigma>")
proof -
  note inv' = Inv_parts [OF inv] and ev = bump_evolves [OF b] and np = bump_no_promise [OF b]
  have new: "new_proposals N \<sigma> ?\<sigma> i" using bump_known [OF b] unfolding new_proposals_def by blast
  have less: "n_bal (\<sigma> i) < b" using b by (simp add: bumpable_def)
  then have "keeps_leaders N \<sigma> ?\<sigma>" by (auto simp: keeps_leaders_def)
  then have lead: "inv_lead N ?\<sigma>" using lead_step N inv'(1,6) new by blast
  show ?thesis unfolding Inv_def
  proof (intro conjI)
    show "inv_log N ?\<sigma>" using inv'(5) less by (fastforce simp: inv_log_def)
    show "inv_uniq N ?\<sigma>" using uniq_step [OF inv'(7) lead new] .
    show "inv_safe N ?\<sigma>" using safe_step [OF ev inv'(8) new] .
    show "inv_ack N ?\<sigma>" by (rule ack_frame [OF ev inv'(9) inv'(2)]) (simp_all add: bump_acked [OF b])
    show "inv_com N ?\<sigma>" by (rule com_step [OF ev inv'(10)]) (use bump_soup [OF b] in fastforce)+
    show "inv_votes N ?\<sigma>" by (rule votes_frame [OF ev inv'(11)]) simp
    show "inv_snap N ?\<sigma>" using snap_frame [OF ev np inv'(12)] .
    show "inv_frz N ?\<sigma>" by (rule frz_frame [OF ev np inv'(13) inv'(2)]) simp
    show "inv_pages N ?\<sigma>" by (rule pages_frame [OF ev np inv'(14)]) (use pages in auto)
    show "inv_est N ?\<sigma>" by (rule est_frame [OF ev inv'(15)]) (use est in \<open>auto split: if_splits\<close>)
  qed (fact lead rest)+
qed

lemma bump_ids:
  assumes "0 < N" "Inv N \<sigma>" "bumpable \<sigma> i b S" "i \<in> replicas N" "l = b mod N" "l = i \<or> b \<le> n_bal (\<sigma> l)" "pr \<longrightarrow> l = i"
  shows "inv_ids N (bump i b l pr pg pm S \<sigma>)"
  unfolding inv_ids_def
proof (intro ballI)
  fix q assume q: "q \<in> replicas N"
  note old = Inv_parts(1) [OF assms(2), unfolded inv_ids_def, rule_format]
  have less: "n_bal (\<sigma> i) < b" using assms(3) by (simp add: bumpable_def)
  have mono: "n_bal (\<sigma> j) \<le> n_bal (bump i b l pr pg pm S \<sigma> j)" for j using less by simp
  show "0 \<le> n_bal (bump i b l pr pg pm S \<sigma> q) \<and> n_lead (bump i b l pr pg pm S \<sigma> q) = n_bal (bump i b l pr pg pm S \<sigma> q) mod N \<and>
     n_bal (bump i b l pr pg pm S \<sigma> q) \<le> n_bal (bump i b l pr pg pm S \<sigma> (n_bal (bump i b l pr pg pm S \<sigma> q) mod N)) \<and>
     (n_prep (bump i b l pr pg pm S \<sigma> q) \<longrightarrow> n_lead (bump i b l pr pg pm S \<sigma> q) = q)"
  proof (cases "q = i")
    case True
    with assms(5-7) less old [OF assms(4)] show ?thesis by auto
  next
    case False
    with old [OF q] mono [of "n_bal (\<sigma> q) mod N"] show ?thesis by auto
  qed
qed

lemma bump_prep:
  assumes "Inv N \<sigma>" "bumpable \<sigma> i b S" "i \<in> replicas N" "pr \<longrightarrow> b mod N = i"
  shows "inv_prep N (bump i b l pr pg pm S \<sigma>)" (is "inv_prep N ?\<sigma>")
proof -
  note inv = Inv_parts [OF assms(1)]
  have less: "n_bal (\<sigma> i) < b" using assms(2) by (simp add: bumpable_def)
  have none: "\<not> (p \<in> soup N \<sigma> \<and> p_Kind p \<in> owned_kinds \<and> p_Ballot p = b)" if pr for p
    using soup_owner(4,5) [OF inv(2), of p] less assms(4) that by fastforce
  have fetch: "\<exists>p'\<in>soup N \<sigma>. p_Kind p' \<in> {packetAccept, packetReady} \<and> p_Ballot p' = p_Ballot p" if "p \<in> soup N \<sigma>" "p_Kind p = packetFetch" for p
    using inv(3) that unfolding inv_prep_def by blast
  show ?thesis unfolding inv_prep_def
  proof (intro conjI ballI impI)
    fix q p assume q: "q \<in> replicas N" "n_prep (?\<sigma> q)" and p: "p \<in> soup N ?\<sigma>" "p_Ballot p = n_bal (?\<sigma> q)"
    show "p_Kind p \<notin> leader_kinds"
    proof
      assume k: "p_Kind p \<in> leader_kinds"
      then have s: "p \<in> soup N \<sigma>" using bump_soup [OF assms(2) p(1)] by auto
      show False
      proof (cases "q = i")
        case True
        then have pr "p_Ballot p = b" using q p by auto
        then show False using none [of p] none fetch [OF s] k s by fastforce
      next
        case False
        then show False using inv(3) q p(2) s k unfolding inv_prep_def by fastforce
      qed
    qed
  next
    fix p assume p: "p \<in> soup N ?\<sigma>" "p_Kind p = packetFetch"
    then have "p \<in> soup N \<sigma>" using bump_soup [OF assms(2) p(1)] by auto
    from fetch [OF this p(2)] show "\<exists>p'\<in>soup N ?\<sigma>. p_Kind p' \<in> {packetAccept, packetReady} \<and> p_Ballot p' = p_Ballot p"
      using ev_soup [OF bump_evolves [OF assms(2)]] by blast
  qed
qed

lemma bump_pkt:
  assumes "inv_pkt N \<sigma>" "n_bal (\<sigma> i) < b" "\<forall>p\<in>S. p \<in> n_sent (\<sigma> i) \<or> pkt_ok N i b p"
  shows "inv_pkt N (bump i b l pr pg pm S \<sigma>)"
  unfolding inv_pkt_def
proof (intro ballI)
  fix q p assume q: "q \<in> replicas N" "p \<in> n_sent (bump i b l pr pg pm S \<sigma> q)"
  show "pkt_ok N q (n_bal (bump i b l pr pg pm S \<sigma> q)) p"
  proof (cases "q = i")
    case True
    with q assms have "pkt_ok N i b p \<or> pkt_ok N i (n_bal (\<sigma> i)) p" by (auto simp: inv_pkt_def)
    with True assms(2) show ?thesis using pkt_ok_mono [of N i _ p b] by auto
  qed (use q assms(1) in \<open>auto simp: inv_pkt_def\<close>)
qed

lemma adopt_Inv:
  assumes "0 < N" "Inv N \<sigma>" "i \<in> replicas N" and p: "p \<in> soup N \<sigma>" "p_Kind p \<in> {packetPrepare, packetReady}" "n_bal (\<sigma> i) < p_Ballot p"
  shows "Inv N (\<sigma>(i := (\<sigma> i)\<lparr>n_bal := p_Ballot p, n_lead := p_From p, n_prep := False, n_votes := (\<lambda>_. {})\<rparr>))"
proof -
  note inv = Inv_parts [OF assms(2)]
  note own = soup_owner [OF inv(2) p(1)]
  let ?\<sigma> = "bump i (p_Ballot p) (p_From p) False (n_pages (\<sigma> i)) (n_prom (\<sigma> i)) (n_sent (\<sigma> i)) \<sigma>"
  have b: "bumpable \<sigma> i (p_Ballot p) (n_sent (\<sigma> i))" using p(3) by (simp add: bumpable_def)
  have ne: "p_From p \<noteq> i" using own(4) p(3) by auto
  have soup: "soup N ?\<sigma> = soup N \<sigma>" by (auto simp: soup_def split: if_splits)
  have "Inv N ?\<sigma>"
  proof (rule bump_Inv [OF assms(1,2) b assms(3)])
    show "inv_ids N ?\<sigma>" using bump_ids [OF assms(1,2) b assms(3)] own(4,5) p(2) by auto
    show "inv_prep N ?\<sigma>" using bump_prep [OF assms(2) b assms(3)] by simp
    show "inv_pkt N ?\<sigma>" using bump_pkt [OF inv(2) p(3)] by simp
    show "inv_floor N ?\<sigma>"
      unfolding inv_floor_def soup
    proof (rule conjI [OF inv(4) [unfolded inv_floor_def, THEN conjunct1]], intro ballI impI)
      fix q p' assume q: "q \<in> replicas N" "n_prep (?\<sigma> q)" "p' \<in> n_sent (?\<sigma> q)" "p_Ballot p' = n_bal (?\<sigma> q)"
      then show "(p_Kind p' = packetPrepare \<longrightarrow> p_Floor p' = n_exec (?\<sigma> q) + 1) \<and> (p_Kind p' = packetPromise \<longrightarrow> p_High p' = n_high (?\<sigma> q))"
        using inv(4) [unfolded inv_floor_def, THEN conjunct2, rule_format, of q p'] by (cases "q = i") auto
    qed
  qed (use ne in auto)
  then show ?thesis by (simp add: bump_def)
qed

lemma next_ballot:
  assumes "0 < N" "i \<in> replicas N"
  shows "(b div N + 1) * N + i > b" "((b div N + 1) * N + i) mod N = i"
proof -
  have i: "0 \<le> i" "i < N" using assms(2) by (auto simp: replicas_def)
  have "b < (b div N + 1) * N" using assms(1) by (metis add.commute add_less_cancel_left mult.commute
      mult_div_mod_eq pos_mod_bound ring_class.ring_distribs(2) mult_1)
  with i show "(b div N + 1) * N + i > b" by linarith
  show "((b div N + 1) * N + i) mod N = i" using i by simp
qed

lemma begin_Inv:
  assumes N: "0 < N" and "Inv N \<sigma>" and i: "i \<in> replicas N" and b: "b = (n_bal (\<sigma> i) div N + 1) * N + i"
    and p: "p = (Packet packetPrepare i b)\<lparr>p_Floor := n_exec (\<sigma> i) + 1\<rparr>"
  shows "Inv N (\<sigma>(i := (\<sigma> i)\<lparr>n_bal := b, n_lead := i, n_prep := True, n_pages := (\<lambda>_. Map.empty), n_prom := {},
     n_votes := (\<lambda>_. {}), n_sent := insert p (n_sent (\<sigma> i))\<rparr>))"
proof -
  note inv = Inv_parts [OF assms(2)]
  let ?S = "insert p (n_sent (\<sigma> i))"
  let ?\<sigma> = "bump i b i True (\<lambda>_. Map.empty) {} ?S \<sigma>"
  note nb = next_ballot [OF N i, of "n_bal (\<sigma> i)", folded b]
  have pk: "p_Kind p = packetPrepare" "p_From p = i" "p_Ballot p = b" "p_Floor p = n_exec (\<sigma> i) + 1"
    by (simp_all add: p Packet_def)
  have bp: "bumpable \<sigma> i b ?S" using nb pk by (auto simp: bumpable_def)
  have none: "p_Ballot p' \<noteq> b" if "p' \<in> n_sent (\<sigma> i)" for p'
    using inv(2) i that nb(1) by (fastforce simp: inv_pkt_def pkt_ok_def)
  have fresh: "p_Ballot p' \<noteq> b" if "p' \<in> soup N \<sigma>" "p_Kind p' = packetPrepare" for p'
    using soup_owner(2,5) [OF inv(2) that(1)] that nb(2) none by (metis kind_mem(2))
  have "Inv N ?\<sigma>"
  proof (rule bump_Inv [OF N assms(2) bp i])
    show "inv_ids N ?\<sigma>" using bump_ids [OF N assms(2) bp i] nb(2) by simp
    show "inv_prep N ?\<sigma>" using bump_prep [OF assms(2) bp i] nb(2) by simp
    have "0 \<le> b" using nb(1) inv(1) i by (fastforce simp: inv_ids_def)
    then have "pkt_ok N i b p" using nb pk by (simp add: pkt_ok_def)
    then show "inv_pkt N ?\<sigma>" using bump_pkt [OF inv(2) nb(1)] by simp
    show "inv_floor N ?\<sigma>"
      unfolding inv_floor_def
    proof (rule conjI; intro ballI impI)
      fix p1 p2 assume p12: "p1 \<in> soup N ?\<sigma>" "p2 \<in> soup N ?\<sigma>" "p_Kind p1 = packetPrepare" "p_Kind p2 = packetPrepare" "p_Ballot p1 = p_Ballot p2"
      then have "p1 = p \<or> p1 \<in> soup N \<sigma>" "p2 = p \<or> p2 \<in> soup N \<sigma>" using bump_soup [OF bp] soupI [OF i] by blast+
      then show "p_Floor p1 = p_Floor p2"
        using fresh p12(3-5) pk(3) inv(4) [unfolded inv_floor_def, THEN conjunct1] by metis
    next
      fix q p' assume q: "q \<in> replicas N" "n_prep (?\<sigma> q)" "p' \<in> n_sent (?\<sigma> q)" "p_Ballot p' = n_bal (?\<sigma> q)"
      show "(p_Kind p' = packetPrepare \<longrightarrow> p_Floor p' = n_exec (?\<sigma> q) + 1) \<and> (p_Kind p' = packetPromise \<longrightarrow> p_High p' = n_high (?\<sigma> q))"
        using q none pk inv(4) [unfolded inv_floor_def, THEN conjunct2, rule_format, of q p'] by (cases "q = i") auto
    qed
  qed simp_all
  then show ?thesis by (simp add: bump_def)
qed

subsection \<open>Promising\<close>

definition add_promises :: "int \<Rightarrow> packet list \<Rightarrow> int \<Rightarrow> net \<Rightarrow> net" where
  "add_promises i snap F \<sigma> = \<sigma>(i := (\<sigma> i)\<lparr>n_frz := snap, n_frzB := n_bal (\<sigma> i), n_frzF := F, n_sent := n_sent (\<sigma> i) \<union> set snap\<rparr>)"

lemma add_promises_simps [simp]:
  "n_bal (add_promises i snap F \<sigma> q) = n_bal (\<sigma> q)" "n_lead (add_promises i snap F \<sigma> q) = n_lead (\<sigma> q)"
  "n_prep (add_promises i snap F \<sigma> q) = n_prep (\<sigma> q)" "n_high (add_promises i snap F \<sigma> q) = n_high (\<sigma> q)"
  "n_exec (add_promises i snap F \<sigma> q) = n_exec (\<sigma> q)" "n_log (add_promises i snap F \<sigma> q) = n_log (\<sigma> q)"
  "n_votes (add_promises i snap F \<sigma> q) = n_votes (\<sigma> q)" "n_pages (add_promises i snap F \<sigma> q) = n_pages (\<sigma> q)"
  "n_prom (add_promises i snap F \<sigma> q) = n_prom (\<sigma> q)"
  "n_frz (add_promises i snap F \<sigma> q) = (if q = i then snap else n_frz (\<sigma> q))"
  "n_frzB (add_promises i snap F \<sigma> q) = (if q = i then n_bal (\<sigma> i) else n_frzB (\<sigma> q))"
  "n_frzF (add_promises i snap F \<sigma> q) = (if q = i then F else n_frzF (\<sigma> q))"
  "n_sent (add_promises i snap F \<sigma> q) = (if q = i then n_sent (\<sigma> i) \<union> set snap else n_sent (\<sigma> q))"
  by (simp_all add: add_promises_def)

lemma suffix_of_mem:
  "r \<in> set (suffix_of nd F) \<longleftrightarrow> (\<exists>s. F \<le> s \<and> s \<le> n_high nd \<and> n_log nd s = Some r)"
  by (force simp: suffix_of_def List.map_filter_def)

lemma promise_page_record:
  assumes "p \<in> set (promise_pages q b F H vs)" "r \<in> set (p_Records p)"
  shows "r \<in> set vs"
proof -
  obtain k where "p = promise_page q b F H vs k" using assms(1) by (auto simp: in_promise_pages)
  then have "r \<in> set (take 128 (drop (k * 128) vs))" using assms(2) by simp
  then show ?thesis using in_set_takeD in_set_dropD by metis
qed

lemma promises_shape:
  assumes "p \<in> set (promise_pages q b F H vs)"
  shows "p_Kind p = packetPromise" "p_From p = q" "p_Ballot p = b" "p_High p = H"
  using assms by (auto simp: in_promise_pages)

text \<open>The snapshot of a replica that has not promised its ballot yet.\<close>

definition fresh_snapshot :: "int \<Rightarrow> net \<Rightarrow> int \<Rightarrow> int \<Rightarrow> packet list \<Rightarrow> bool" where
  "fresh_snapshot N \<sigma> i F snap \<longleftrightarrow> snap = promise_pages i (n_bal (\<sigma> i)) F (n_high (\<sigma> i)) (suffix_of (\<sigma> i) F) \<and>
     (\<exists>p\<in>soup N \<sigma>. p_Kind p = packetPrepare \<and> p_Ballot p = n_bal (\<sigma> i) \<and> p_Floor p = F) \<and>
     (\<forall>p\<in>n_sent (\<sigma> i). p_Kind p = packetPromise \<longrightarrow> p_Ballot p \<noteq> n_bal (\<sigma> i))"

lemma fresh_shape:
  assumes "fresh_snapshot N \<sigma> i F snap" "p \<in> set snap"
  shows "p_Kind p = packetPromise" "p_From p = i" "p_Ballot p = n_bal (\<sigma> i)" "p_High p = n_high (\<sigma> i)"
    "\<And>r. r \<in> set (p_Records p) \<Longrightarrow> \<exists>s. n_log (\<sigma> i) s = Some r"
proof -
  let ?vs = "suffix_of (\<sigma> i) F"
  have p: "p \<in> set (promise_pages i (n_bal (\<sigma> i)) F (n_high (\<sigma> i)) ?vs)" using assms by (simp add: fresh_snapshot_def)
  show "p_Kind p = packetPromise" "p_From p = i" "p_Ballot p = n_bal (\<sigma> i)" "p_High p = n_high (\<sigma> i)"
    using promises_shape [OF p] by auto
  show "\<exists>s. n_log (\<sigma> i) s = Some r" if "r \<in> set (p_Records p)" for r
    using promise_page_record [OF p that] suffix_of_mem by blast
qed

lemma fresh_acked:
  assumes "fresh_snapshot N \<sigma> i F snap"
  shows "acked (add_promises i snap F \<sigma>) = acked \<sigma>"
  using fresh_shape(1) [OF assms] by (fastforce simp: acked_def fun_eq_iff)

lemma fresh_evolves: "fresh_snapshot N \<sigma> i F snap \<Longrightarrow> evolves N \<sigma> (add_promises i snap F \<sigma>)"
  using fresh_acked [of N \<sigma> i F snap] by (auto simp: evolves_def)

lemma fresh_soup:
  assumes "i \<in> replicas N"
  shows "soup N (add_promises i snap F \<sigma>) = soup N \<sigma> \<union> set snap"
  using assms by (auto simp: soup_def split: if_splits)

lemma fresh_snap_new:
  assumes "Inv N \<sigma>" "i \<in> replicas N" "fresh_snapshot N \<sigma> i F snap"
  shows "snap_ok (add_promises i snap F \<sigma>) i (n_bal (\<sigma> i)) F (n_high (\<sigma> i)) (suffix_of (\<sigma> i) F)"
  unfolding snap_ok_def fresh_acked [OF assms(3)]
proof (intro conjI ballI allI impI)
  fix p assume "p \<in> n_sent (add_promises i snap F \<sigma> i)" "p_Kind p = packetPromise" "p_Ballot p = n_bal (\<sigma> i)"
  then show "p \<in> set (promise_pages i (n_bal (\<sigma> i)) F (n_high (\<sigma> i)) (suffix_of (\<sigma> i) F))"
    using assms(3) by (auto simp: fresh_snapshot_def)
next
  fix s b assume *: "F \<le> s" "b < n_bal (\<sigma> i)" "acked \<sigma> i s b"
  obtain r where r: "n_log (\<sigma> i) s = Some r" "b \<le> r_Ballot r \<or> r_Committed r"
    using Inv_parts(9) [OF assms(1)] assms(2) *(3) unfolding inv_ack_def by blast
  note f = log_factsD [OF assms(1,2) r(1)]
  show "s \<le> n_high (\<sigma> i)" using f by simp
  show "\<exists>r\<in>set (suffix_of (\<sigma> i) F). r_Slot r = s \<and> (b \<le> r_Ballot r \<or> r_Committed r)"
    using r f *(1) suffix_of_mem by blast
qed simp

lemma fresh_snap_old:
  assumes "fresh_snapshot N \<sigma> i F snap" "q \<in> replicas N" "snap_ok \<sigma> q b F' H vs" "q \<noteq> i \<or> b \<noteq> n_bal (\<sigma> i)"
  shows "snap_ok (add_promises i snap F \<sigma>) q b F' H vs"
  by (rule ev_snap [OF fresh_evolves [OF assms(1)] assms(2,3)])
    (use assms(4) fresh_shape(3) [OF assms(1)] in \<open>auto split: if_splits\<close>)

lemma fresh_frz:
  assumes "Inv N \<sigma>" "i \<in> replicas N" "fresh_snapshot N \<sigma> i F snap"
  shows "inv_frz N (add_promises i snap F \<sigma>)" (is "inv_frz N ?\<sigma>")
  unfolding inv_frz_def
proof (intro ballI)
  fix q assume q: "q \<in> replicas N"
  note f = Inv_parts(13) [OF assms(1), unfolded inv_frz_def, rule_format, OF q]
  note mono = ev_soup [OF fresh_evolves [OF assms(3)]]
  show "(\<forall>p\<in>n_sent (?\<sigma> q). p_Kind p = packetPromise \<longrightarrow> p_Ballot p = n_bal (?\<sigma> q) \<longrightarrow> n_frz (?\<sigma> q) \<noteq> [] \<and> n_frzB (?\<sigma> q) = n_bal (?\<sigma> q)) \<and>
     (n_frz (?\<sigma> q) \<noteq> [] \<longrightarrow> n_frzB (?\<sigma> q) \<le> n_bal (?\<sigma> q)) \<and>
     (n_frz (?\<sigma> q) \<noteq> [] \<longrightarrow> n_frzB (?\<sigma> q) = n_bal (?\<sigma> q) \<longrightarrow>
        (\<exists>p\<in>soup N ?\<sigma>. p_Kind p = packetPrepare \<and> p_Ballot p = n_bal (?\<sigma> q) \<and> p_Floor p = n_frzF (?\<sigma> q)) \<and>
        set (n_frz (?\<sigma> q)) \<subseteq> n_sent (?\<sigma> q) \<and>
        (\<exists>H vs. n_frz (?\<sigma> q) = promise_pages q (n_bal (?\<sigma> q)) (n_frzF (?\<sigma> q)) H vs \<and>
           snap_ok ?\<sigma> q (n_bal (?\<sigma> q)) (n_frzF (?\<sigma> q)) H vs))"
  proof (cases "q = i")
    case True
    have ne: "snap \<noteq> []"
      using assms(3) page_count_pos [of "length (suffix_of (\<sigma> i) F)"] by (auto simp: fresh_snapshot_def promise_pages_def)
    have "\<exists>p\<in>soup N ?\<sigma>. p_Kind p = packetPrepare \<and> p_Ballot p = n_bal (\<sigma> i) \<and> p_Floor p = F"
      using assms(3) mono unfolding fresh_snapshot_def by blast
    moreover have "\<exists>H vs. snap = promise_pages i (n_bal (\<sigma> i)) F H vs \<and> snap_ok ?\<sigma> i (n_bal (\<sigma> i)) F H vs"
      using fresh_snap_new [OF assms] assms(3) unfolding fresh_snapshot_def by blast
    ultimately show ?thesis using True ne by simp
  next
    case False
    have "\<exists>H vs. n_frz (\<sigma> q) = promise_pages q (n_bal (\<sigma> q)) (n_frzF (\<sigma> q)) H vs \<and> snap_ok ?\<sigma> q (n_bal (\<sigma> q)) (n_frzF (\<sigma> q)) H vs"
      if "n_frz (\<sigma> q) \<noteq> []" "n_frzB (\<sigma> q) = n_bal (\<sigma> q)"
      using f that fresh_snap_old [OF assms(3) q] False by meson
    moreover have "\<exists>p\<in>soup N ?\<sigma>. p_Kind p = packetPrepare \<and> p_Ballot p = n_bal (\<sigma> q) \<and> p_Floor p = n_frzF (\<sigma> q)"
      if "n_frz (\<sigma> q) \<noteq> []" "n_frzB (\<sigma> q) = n_bal (\<sigma> q)" using f that mono by meson
    ultimately show ?thesis using f False by simp
  qed
qed

lemma fresh_pages:
  assumes "Inv N \<sigma>" "i \<in> replicas N" "fresh_snapshot N \<sigma> i F snap"
  shows "inv_pages N (add_promises i snap F \<sigma>)" (is "inv_pages N ?\<sigma>")
  unfolding inv_pages_def
proof (intro ballI impI conjI allI)
  fix j assume j: "j \<in> replicas N" "n_prep (?\<sigma> j)"
  then have pj: "n_prep (\<sigma> j)" by simp
  note pc = inv_pages_cases [OF Inv_parts(14) [OF assms(1)] j(1) pj]
  { fix q k p assume "n_pages (?\<sigma> j) q k = Some p"
    then have p: "n_pages (\<sigma> j) q k = Some p" by simp
    from pc [OF p] show "q \<in> replicas N" "p \<in> n_sent (?\<sigma> q)" "p_Kind p = packetPromise" "p_Ballot p = n_bal (?\<sigma> j)" "p_Page p = k"
      by auto }
  fix q assume "q \<in> n_prom (?\<sigma> j)"
  then have "q \<in> n_prom (\<sigma> j)" by simp
  then obtain H vs where c: "complete_from \<sigma> j q H vs"
    using Inv_parts(14) [OF assms(1)] j(1) pj unfolding inv_pages_def by blast
  then obtain p where p: "n_pages (\<sigma> j) q 0 = Some p" by (simp add: complete_from_def)
  have "q \<noteq> i \<or> n_bal (\<sigma> j) \<noteq> n_bal (\<sigma> i)" using pc [OF p] assms(3) by (auto simp: fresh_snapshot_def)
  then have "complete_from ?\<sigma> j q H vs"
    using c fresh_snap_old [OF assms(3) pc(1) [OF p]] by (simp add: complete_from_def)
  then show "\<exists>H vs. complete_from ?\<sigma> j q H vs" by blast
qed

lemma fresh_floor:
  assumes "Inv N \<sigma>" "i \<in> replicas N" "fresh_snapshot N \<sigma> i F snap"
  shows "inv_floor N (add_promises i snap F \<sigma>)" (is "inv_floor N ?\<sigma>")
proof -
  note fl = Inv_parts(4) [OF assms(1), unfolded inv_floor_def] and sh = fresh_shape [OF assms(3)]
  have old: "p \<in> soup N \<sigma>" if "p \<in> soup N ?\<sigma>" "p_Kind p = packetPrepare" for p
    using that sh(1) fresh_soup [OF assms(2)] by fastforce
  show ?thesis unfolding inv_floor_def
  proof (rule conjI; intro ballI impI)
    fix p1 p2 assume "p1 \<in> soup N ?\<sigma>" "p2 \<in> soup N ?\<sigma>" "p_Kind p1 = packetPrepare" "p_Kind p2 = packetPrepare" "p_Ballot p1 = p_Ballot p2"
    then show "p_Floor p1 = p_Floor p2" using old fl by blast
  next
    fix q p assume q: "q \<in> replicas N" "n_prep (?\<sigma> q)" "p \<in> n_sent (?\<sigma> q)" "p_Ballot p = n_bal (?\<sigma> q)"
    then consider "q = i" "p \<in> set snap" | "p \<in> n_sent (\<sigma> q)" by (auto split: if_splits)
    then show "(p_Kind p = packetPrepare \<longrightarrow> p_Floor p = n_exec (?\<sigma> q) + 1) \<and> (p_Kind p = packetPromise \<longrightarrow> p_High p = n_high (?\<sigma> q))"
      by cases (use sh fl q in auto)
  qed
qed

lemma fresh_known:
  assumes "i \<in> replicas N" "Inv N \<sigma>" "fresh_snapshot N \<sigma> i F snap" "known N (add_promises i snap F \<sigma>) s b v"
  shows "known N \<sigma> s b v"
proof (cases "proposed N (add_promises i snap F \<sigma>) s b v")
  case True
  then obtain p r where p: "p \<in> soup N \<sigma> \<union> set snap" "p_Kind p \<in> record_kinds" "r \<in> set (p_Records p)"
    "r_Slot r = s" "r_Ballot r = b" "r_Request r = v" unfolding proposed_def fresh_soup [OF assms(1)] by blast
  show ?thesis
  proof (cases "p \<in> soup N \<sigma>")
    case False
    then obtain s' where "n_log (\<sigma> i) s' = Some r" using p fresh_shape(5) [OF assms(3)] by blast
    then show ?thesis using log_factsD [OF assms(2,1)] p(4-6) by metis
  qed (use p in \<open>auto simp: known_def proposed_def\<close>)
next
  case False
  then show ?thesis using assms(4) by (auto simp: known_def)
qed

lemma fresh_Inv:
  assumes N: "0 < N" and inv: "Inv N \<sigma>" and i: "i \<in> replicas N" and fr: "fresh_snapshot N \<sigma> i F snap"
  shows "Inv N (add_promises i snap F \<sigma>)" (is "Inv N ?\<sigma>")
proof -
  note inv' = Inv_parts [OF inv] and ev = fresh_evolves [OF fr] and sh = fresh_shape [OF fr]
  have new: "new_proposals N \<sigma> ?\<sigma> i" using fresh_known [OF i inv fr] unfolding new_proposals_def by blast
  have "keeps_leaders N \<sigma> ?\<sigma>" by (auto simp: keeps_leaders_def)
  then have lead: "inv_lead N ?\<sigma>" using lead_step N inv'(1,6) new by blast
  have soup: "p \<in> soup N \<sigma> \<or> p \<in> set snap" if "p \<in> soup N ?\<sigma>" for p using that fresh_soup [OF i] by blast
  show ?thesis unfolding Inv_def
  proof (intro conjI)
    show "inv_ids N ?\<sigma>" using inv'(1) by (auto simp: inv_ids_def)
    have "0 \<le> n_bal (\<sigma> i)" using inv'(1) i by (simp add: inv_ids_def)
    then have "pkt_ok N i (n_bal (\<sigma> i)) p" if "p \<in> set snap" for p using sh [OF that] by (simp add: pkt_ok_def)
    then show "inv_pkt N ?\<sigma>" using inv'(2) by (auto simp: inv_pkt_def)
    show "inv_prep N ?\<sigma>"
      using inv'(3) sh(1) unfolding inv_prep_def fresh_soup [OF i] by (auto dest: sh(1))
    show "inv_log N ?\<sigma>" using inv'(5) by (simp add: inv_log_def)
    show "inv_uniq N ?\<sigma>" using uniq_step [OF inv'(7) lead new] .
    show "inv_safe N ?\<sigma>" using safe_step [OF ev inv'(8) new] .
    show "inv_ack N ?\<sigma>" by (rule ack_frame [OF ev inv'(9) inv'(2)]) (simp_all add: fresh_acked [OF fr])
    show "inv_com N ?\<sigma>"
      by (rule com_step [OF ev inv'(10)])
        (simp, use soup sh(5) ev_decided [OF ev] inv'(10) i in \<open>unfold inv_com_def, blast\<close>)
    show "inv_votes N ?\<sigma>" by (rule votes_frame [OF ev inv'(11)]) simp
    show "inv_est N ?\<sigma>" by (rule est_frame [OF ev inv'(15)]) simp
    show "inv_snap N ?\<sigma>"
      unfolding inv_snap_def
    proof (intro ballI impI)
      fix q p assume q: "q \<in> replicas N" "p \<in> n_sent (?\<sigma> q)" "p_Kind p = packetPromise"
      show "\<exists>F H vs. snap_ok ?\<sigma> q (p_Ballot p) F H vs"
      proof (cases "q = i \<and> p_Ballot p = n_bal (\<sigma> i)")
        case True
        then show ?thesis using fresh_snap_new [OF inv i fr] by auto
      next
        case False
        then have "p \<in> n_sent (\<sigma> q)" using q sh(3) by (auto split: if_splits)
        with q inv'(12) False fresh_snap_old [OF fr q(1)] show ?thesis unfolding inv_snap_def by meson
      qed
    qed
  qed (use lead fresh_floor fresh_frz fresh_pages inv i fr in blast)+
qed

lemma freeze_Inv:
  assumes N: "0 < N" and inv: "Inv N \<sigma>" and i: "i \<in> replicas N"
    and p: "p \<in> soup N \<sigma>" "p_Kind p = packetPrepare" "p_Ballot p = n_bal (\<sigma> i)"
  shows "Inv N (\<sigma>(i := freeze i p (\<sigma> i)))"
proof -
  note f = Inv_parts(13) [OF inv, unfolded inv_frz_def, rule_format, OF i]
  have floor: "p_Floor p' = p_Floor p" if "p' \<in> soup N \<sigma>" "p_Kind p' = packetPrepare" "p_Ballot p' = n_bal (\<sigma> i)" for p'
    using Inv_parts(4) [OF inv, unfolded inv_floor_def, THEN conjunct1, rule_format, OF that(1) p(1)] that p by simp
  show ?thesis
  proof (cases "n_frz (\<sigma> i) \<noteq> [] \<and> n_frzB (\<sigma> i) = n_bal (\<sigma> i)")
    case True
    then have "n_frzF (\<sigma> i) = p_Floor p" "set (n_frz (\<sigma> i)) \<subseteq> n_sent (\<sigma> i)" using f floor by metis+
    then have "freeze i p (\<sigma> i) = \<sigma> i" using True p(3) by (simp add: freeze_def Un_absorb2)
    with inv show ?thesis by simp
  next
    case False
    let ?snap = "promise_pages i (n_bal (\<sigma> i)) (p_Floor p) (n_high (\<sigma> i)) (suffix_of (\<sigma> i) (p_Floor p))"
    have "fresh_snapshot N \<sigma> i (p_Floor p) ?snap"
      unfolding fresh_snapshot_def using f False p by blast
    from fresh_Inv [OF N inv i this] False p(3) show ?thesis
      by (auto simp: freeze_def add_promises_def Let_def)
  qed
qed

subsection \<open>The invariant holds\<close>

lemma init_Inv:
  assumes "0 < N" "L \<in> replicas N" and \<sigma>: "\<forall>q\<in>replicas N. \<sigma> q = init_node L"
  shows "Inv N \<sigma>"
proof -
  have maj: "majority N (replicas N)" using assms(1) by (simp add: majority_def)
  have node: "n_bal (\<sigma> q) = L" "n_lead (\<sigma> q) = L" "\<not> n_prep (\<sigma> q)" "n_high (\<sigma> q) = -1" "n_exec (\<sigma> q) = -1"
    "n_log (\<sigma> q) = Map.empty" "n_votes (\<sigma> q) = (\<lambda>_. {})" "n_sent (\<sigma> q) = {}" "n_frz (\<sigma> q) = []" if "q \<in> replicas N" for q
    using \<sigma> that by (simp_all add: init_node_def)
  have L: "0 \<le> L" "L mod N = L" using assms(2) by (simp_all add: replicas_def)
  have soup: "soup N \<sigma> = {}" using node(8) by (simp add: soup_def)
  have acked: "\<not> acked \<sigma> q s b" if "q \<in> replicas N" for q s b using node(8) [OF that] by (simp add: acked_def)
  have known: "\<not> known N \<sigma> s b v" for s b v using node(6) by (simp add: known_def proposed_def soup)
  have "dead N \<sigma> s b" if "b < L" for s b
    unfolding dead_def using maj that acked node(1) by (intro exI [of _ "replicas N"]) auto
  then have "inv_est N \<sigma>" unfolding inv_est_def using maj node by (auto intro!: exI [of _ "replicas N"])
  moreover have "inv_ids N \<sigma>" using node L assms(2) by (simp add: inv_ids_def)
  moreover have "inv_log N \<sigma>" "inv_votes N \<sigma>" using node by (simp_all add: inv_log_def inv_votes_def)
  moreover have "inv_ack N \<sigma>" using acked by (simp add: inv_ack_def)
  moreover have "inv_com N \<sigma>" "inv_pkt N \<sigma>" "inv_snap N \<sigma>" "inv_frz N \<sigma>" "inv_pages N \<sigma>" "inv_prep N \<sigma>" "inv_floor N \<sigma>"
    using node by (simp_all add: inv_com_def inv_pkt_def inv_snap_def inv_frz_def inv_pages_def inv_prep_def inv_floor_def soup)
  moreover have "inv_lead N \<sigma>" "inv_uniq N \<sigma>" "inv_safe N \<sigma>" using known by (simp_all add: inv_lead_def inv_uniq_def inv_safe_def)
  ultimately show ?thesis by (simp add: Inv_def)
qed

lemma mstep_Inv:
  assumes "0 < N" "Inv N \<sigma>" "i \<in> replicas N" "mstep N \<sigma> i nd"
  shows "Inv N (\<sigma>(i := nd))"
  using assms(4)
proof cases
  case (m_recover h sel lg)
  have "Inv N (set_log i False lg h \<sigma>)" using recover_Inv [OF assms(1-3) m_recover(2-)] .
  then have "Inv N ((set_log i False lg h \<sigma>)(i := (set_log i False lg h \<sigma> i)\<lparr>n_votes := (\<lambda>_. {})\<rparr>))" (is "Inv N ?\<sigma>")
  proof (rule quiet_Inv [rotated])
    show q: "quiet (set_log i False lg h \<sigma>) ?\<sigma>" by (rule quiet_upd) simp_all
    note inv = Inv_parts [OF \<open>Inv N (set_log i False lg h \<sigma>)\<close>]
    show "inv_floor N ?\<sigma>" by (rule quiet_floor [OF q _ inv(4)]) simp
    show "inv_log N ?\<sigma>" by (rule quiet_log [OF q _ inv(5)]) simp
    show "inv_votes N ?\<sigma>" by (rule quiet_votes [OF q _ inv(11)]) simp
    show "inv_pages N ?\<sigma>" by (rule quiet_pages [OF q _ _ _ inv(14)]) simp_all
  qed
  then show ?thesis by (simp add: m_recover(1) set_log_def)
next
  case (m_begin b p)
  then show ?thesis using begin_Inv [OF assms(1-3)] by simp
next
  case (m_adopt p)
  then show ?thesis using adopt_Inv [OF assms(1-3), of p] by simp
next
  case (m_emit p)
  then show ?thesis using emit_Inv [OF assms(1-3), of p] by (simp add: emit_to_def)
next
  case (m_freeze p)
  then show ?thesis using freeze_Inv [OF assms(1-3), of p] by simp
next
  case (m_install p r)
  then show ?thesis using install_Inv [OF assms(1-3), of p r] by simp
next
  case (m_vote p s)
  then show ?thesis using vote_Inv [OF assms(2,3), of p s] by simp
next
  case (m_commit s r)
  then show ?thesis using commit_Inv [OF assms(1-3), of s r] by simp
next
  case (m_exec r)
  then show ?thesis using exec_Inv [OF assms(2,3), of r] by simp
next
  case (m_page p)
  then show ?thesis using page_Inv [OF assms(2,3), of p] by simp
next
  case (m_prom np q H)
  then show ?thesis using prom_Inv [OF assms(2,3), of np q H] by simp
next
  case (m_flush h v)
  then show ?thesis using flush_Inv [OF assms(1-3), of v] by simp
qed

lemma net_steps_Inv:
  assumes "0 < N" "Inv N \<sigma>" "(net_step N)\<^sup>*\<^sup>* \<sigma> \<sigma>'"
  shows "Inv N \<sigma>'"
  using assms(3,2) by induction (auto simp: net_step_def mstep_Inv [OF assms(1)])

lemma Inv_agreement:
  assumes "Inv N \<sigma>" "i \<in> replicas N" "j \<in> replicas N"
    and "n_log (\<sigma> i) s = Some r" "r_Committed r" "n_log (\<sigma> j) s = Some r'" "r_Committed r'"
  shows "r_Request r = r_Request r'"
proof -
  note inv = Inv_parts [OF assms(1)]
  have "decided N \<sigma> r" "decided N \<sigma> r'" using inv(10) assms(2-) unfolding inv_com_def by blast+
  moreover have "r_Slot r = r_Slot r'" using log_factsD(1) [OF assms(1)] assms(2-) by metis
  ultimately show ?thesis using decided_agree inv(7,8) by blast
qed

end
