(* ===== verification/PaxosRefine.thy ===== *)
theory PaxosRefine
  imports PaxosSafety
begin

text \<open>
  Every handler of the Paxos core is a sequence of steps of the abstract replicated log. \<open>view\<close>
  reads an abstract node off a core (its outbox gives the packets sent; frozen promise pages count
  as sent from the moment they are frozen). \<open>goes\<close> says that a handler's result is reached by
  abstract steps, keeps the invariant and the replayed state, and that a panic can only come from
  the state machine.
\<close>

definition packets_of :: "effect list \<Rightarrow> packet set" where
  "packets_of xs = {p. (\<exists>t. Send t p \<in> set xs) \<or> Broadcast p \<in> set xs \<or> Local p \<in> set xs}"

lemma packets_of_simps [simp]:
  "packets_of [] = {}" "packets_of (xs @ ys) = packets_of xs \<union> packets_of ys"
  "packets_of [Send t p] = {p}" "packets_of [Broadcast p] = {p}" "packets_of [Local p] = {p}"
  "packets_of [Reply r v] = {}"
  by (auto simp: packets_of_def)

definition view :: "'st core \<Rightarrow> node" where
  "view c = \<lparr>n_bal = c_ballot c, n_lead = c_leader c, n_prep = c_preparing c, n_high = c_high c,
     n_exec = c_executed c, n_log = map_of (c_log c), n_votes = (\<lambda>s. ids (mgetd 0 (c_votes c) s)),
     n_pages = (\<lambda>q. map_of (mgetd [] (c_pages c) q)), n_prom = dom (map_of (c_promises c)),
     n_frz = c_frozen c, n_frzB = c_frozenBallot c, n_frzF = c_frozenFloor c,
     n_sent = packets_of (c_out c) \<union> set (c_frozen c)\<rparr>"

lemma view_simps [simp]:
  "n_bal (view c) = c_ballot c" "n_lead (view c) = c_leader c" "n_prep (view c) = c_preparing c"
  "n_high (view c) = c_high c" "n_exec (view c) = c_executed c" "n_log (view c) = map_of (c_log c)"
  "n_votes (view c) = (\<lambda>s. ids (mgetd 0 (c_votes c) s))" "n_pages (view c) = (\<lambda>q. map_of (mgetd [] (c_pages c) q))"
  "n_prom (view c) = dom (map_of (c_promises c))" "n_frz (view c) = c_frozen c" "n_frzB (view c) = c_frozenBallot c"
  "n_frzF (view c) = c_frozenFloor c" "n_sent (view c) = packets_of (c_out c) \<union> set (c_frozen c)"
  by (simp_all add: view_def)

subsection \<open>The replicated state machine\<close>

type_synonym 'st exec = "command \<Rightarrow> 'st \<Rightarrow> (bytes \<times> 'st) option"

definition replay_one :: "'st exec \<Rightarrow> request \<Rightarrow> 'st \<times> (request_id \<rightharpoonup> bytes) \<Rightarrow> 'st \<times> (request_id \<rightharpoonup> bytes)" where
  "replay_one X r sv = (case sv of (st, vals) \<Rightarrow>
     if vals (req_ID r) = None \<and> Op (req_Command r) \<noteq> NONE
     then (case X (req_Command r) st of Some (v, st') \<Rightarrow> (st', vals(req_ID r \<mapsto> v)) | None \<Rightarrow> (st, vals))
     else (st, vals))"

text \<open>Executing the requests of slots 0..k in order, each request once.\<close>

definition replay :: "'st exec \<Rightarrow> 'st \<Rightarrow> (int \<rightharpoonup> request) \<Rightarrow> int \<Rightarrow> 'st \<times> (request_id \<rightharpoonup> bytes)" where
  "replay X a0 lg k = fold (\<lambda>s. replay_one X (the (lg s))) [0..k] (a0, Map.empty)"

definition requests :: "'st core \<Rightarrow> int \<rightharpoonup> request" where
  "requests c s = map_option r_Request (mget (c_log c) s)"

text \<open>Every reply sent is the recorded result of its request.\<close>

definition answers :: "'st core \<Rightarrow> bool" where
  "answers c \<longleftrightarrow> (\<forall>r v. Reply r v \<in> set (c_out c) \<longrightarrow> mget (c_values c) (req_ID r) = Some v)"

definition replayed :: "'st exec \<Rightarrow> 'st \<Rightarrow> 'st core \<Rightarrow> bool" where
  "replayed X a0 c \<longleftrightarrow> -1 \<le> c_executed c \<and> (c_app c, map_of (c_values c)) = replay X a0 (requests c) (c_executed c) \<and> answers c"

lemma replay_cong: "(\<And>s. 0 \<le> s \<Longrightarrow> s \<le> k \<Longrightarrow> lg s = lg' s) \<Longrightarrow> replay X a0 lg k = replay X a0 lg' k"
  unfolding replay_def by (rule fold_cong) auto

lemma replay_step: "-1 \<le> k \<Longrightarrow> replay X a0 lg (k + 1) = replay_one X (the (lg (k + 1))) (replay X a0 lg k)"
  using upto_rec2 [of 0 "k + 1"] by (simp add: replay_def)

lemma replayed_frame:
  assumes "replayed X a0 c" "c_executed c' = c_executed c" "c_app c' = c_app c" "map_of (c_values c') = map_of (c_values c)"
    and "\<And>s. 0 \<le> s \<Longrightarrow> s \<le> c_executed c \<Longrightarrow> requests c' s = requests c s"
    and "\<And>r v. Reply r v \<in> set (c_out c') \<Longrightarrow> Reply r v \<in> set (c_out c)"
  shows "replayed X a0 c'"
  using assms replay_cong [of "c_executed c" "requests c'" "requests c" X a0] by (simp add: replayed_def answers_def)

subsection \<open>Runs of a handler\<close>

definition nreach :: "int \<Rightarrow> net \<Rightarrow> int \<Rightarrow> node \<Rightarrow> node \<Rightarrow> bool" where
  "nreach N \<sigma> i = (\<lambda>a b. mstep N (\<sigma>(i := a)) i b)\<^sup>*\<^sup>*"

record 'st world =
  w_N :: int
  w_net :: net
  w_id :: int
  w_exec :: "'st exec"
  w_app :: 'st

definition around :: "'st world \<Rightarrow> 'st core \<Rightarrow> net" where
  "around w c = (w_net w)(w_id w := view c)"

definition good :: "'st world \<Rightarrow> 'st core \<Rightarrow> bool" where
  "good w c \<longleftrightarrow> 3 \<le> w_N w \<and> w_N w \<le> 63 \<and> w_id w \<in> replicas (w_N w) \<and> c_id c = w_id w \<and> c_n c = w_N w \<and>
     Inv (w_N w) (around w c) \<and> replayed (w_exec w) (w_app w) c"

definition goes :: "'st world \<Rightarrow> 'st core \<Rightarrow> 'st core option \<Rightarrow> bool" where
  "goes w c res \<longleftrightarrow> (good w c \<longrightarrow> (case res of
     None \<Rightarrow> \<exists>cmd st. w_exec w cmd st = None
   | Some c' \<Rightarrow> good w c' \<and> nreach (w_N w) (w_net w) (w_id w) (view c) (view c')))"

lemma goesI: "(good w c \<Longrightarrow> goes w c res) \<Longrightarrow> goes w c res"
  by (simp add: goes_def)

lemma goes_Some: "goes w c (Some c') \<Longrightarrow> good w c \<Longrightarrow> good w c' \<and> nreach (w_N w) (w_net w) (w_id w) (view c) (view c')"
  by (simp add: goes_def)

lemma goes_refl [simp, intro]: "goes w c (Some c)"
  by (simp add: goes_def nreach_def)

lemma goes_trans:
  assumes "goes w c (Some c')" "good w c' \<Longrightarrow> goes w c' res"
  shows "goes w c res"
  using assms unfolding goes_def nreach_def by (fastforce split: option.splits intro: rtranclp_trans)

lemma goes_bind:
  assumes "goes w c res" "\<And>c'. res = Some c' \<Longrightarrow> good w c' \<Longrightarrow> goes w c' (f c')"
  shows "goes w c (Option.bind res f)"
proof (cases res)
  case None
  with assms(1) show ?thesis by (simp add: goes_def)
next
  case (Some c')
  with assms show ?thesis using goes_trans [of w c c' "f c'"] by simp
qed

lemma goes_view:
  assumes "view c' = view c" "c_id c' = c_id c" "c_n c' = c_n c" "c_app c' = c_app c" "map_of (c_values c') = map_of (c_values c)"
    "\<And>r v. Reply r v \<in> set (c_out c') \<Longrightarrow> Reply r v \<in> set (c_out c)"
  shows "goes w c (Some c')"
proof -
  have eq: "c_executed c' = c_executed c" "map_of (c_log c') = map_of (c_log c)" using assms(1) by (simp_all add: view_def)
  have "replayed X a0 c'" if "replayed X a0 c" for X a0
    using replayed_frame [OF that eq(1) assms(4,5) _ assms(6)] eq(2) by (simp add: requests_def)
  then show ?thesis using assms by (simp add: goes_def good_def around_def nreach_def)
qed

lemma goes_step:
  assumes "good w c \<Longrightarrow> mstep (w_N w) (around w c) (w_id w) (view c')"
    and "c_id c' = c_id c" "c_n c' = c_n c"
    and "good w c \<Longrightarrow> replayed (w_exec w) (w_app w) c'"
  shows "goes w c (Some c')"
proof (rule goesI)
  assume g: "good w c"
  have "Inv (w_N w) ((around w c)(w_id w := view c'))"
    using mstep_Inv [of "w_N w" "around w c" "w_id w" "view c'"] assms(1) [OF g] g by (simp add: good_def)
  then have "good w c'" using g assms(2,3) assms(4) [OF g] by (simp add: good_def around_def)
  moreover have "nreach (w_N w) (w_net w) (w_id w) (view c) (view c')"
    unfolding nreach_def using assms(1) [OF g] by (intro r_into_rtranclp) (simp add: around_def)
  ultimately show ?thesis by (simp add: goes_def)
qed

lemma good_facts:
  assumes "good w c"
  shows "3 \<le> w_N w" "w_N w \<le> 63" "w_id w \<in> replicas (w_N w)" "c_id c = w_id w" "c_n c = w_N w"
    "Inv (w_N w) (around w c)" "around w c (w_id w) = view c"
  using assms by (simp_all add: good_def around_def)

definition in_soup :: "'st world \<Rightarrow> 'st core \<Rightarrow> packet \<Rightarrow> bool" where
  "in_soup w c p \<longleftrightarrow> p \<in> soup (w_N w) (around w c)"

lemma in_soup_own:
  assumes "good w c" "p \<in> packets_of (c_out c) \<union> set (c_frozen c)"
  shows "in_soup w c p"
  using soupI [of "w_id w" "w_N w" p "around w c"] assms by (simp add: good_def around_def in_soup_def)

lemma in_soup_mono:
  assumes "in_soup w c p" "packets_of (c_out c) \<union> set (c_frozen c) \<subseteq> packets_of (c_out c') \<union> set (c_frozen c')"
  shows "in_soup w c' p"
  using assms by (auto simp: in_soup_def soup_def around_def split: if_splits)

lemma mstep_sent: "mstep N \<sigma> i nd \<Longrightarrow> n_sent (\<sigma> i) \<subseteq> n_sent nd"
  by (induction rule: mstep.induct) (auto simp: freeze_def inst_def Let_def)

lemma nreach_sent: "nreach N \<sigma> i a b \<Longrightarrow> n_sent a \<subseteq> n_sent b"
  unfolding nreach_def
proof (induction rule: rtranclp_induct)
  case (step y z)
  then show ?case using mstep_sent [of N "\<sigma>(i := y)" i z] by simp
qed simp

lemma goes_in_soup: "goes w c (Some c') \<Longrightarrow> good w c \<Longrightarrow> in_soup w c p \<Longrightarrow> in_soup w c' p"
  using goes_Some nreach_sent in_soup_mono by (metis view_simps(13))

subsection \<open>Handlers that keep the ballot\<close>

definition role :: "'st core \<Rightarrow> int \<times> int \<times> bool \<times> (int, bool) gomap \<times> packet list" where
  "role c = (c_ballot c, c_leader c, c_preparing c, c_promises c, c_frozen c)"

definition keeps :: "'st core \<Rightarrow> 'st core \<Rightarrow> bool" where
  "keeps c c' \<longleftrightarrow> role c' = role c \<and> packets_of (c_out c) \<subseteq> packets_of (c_out c')"

text \<open>
  A run that also relates the first and the last core by some relation; the lemmas hold for every
  reflexive and transitive relation.
\<close>

definition runs :: "('st core \<Rightarrow> 'st core \<Rightarrow> bool) \<Rightarrow> 'st world \<Rightarrow> 'st core \<Rightarrow> 'st core option \<Rightarrow> bool" where
  "runs R w c res \<longleftrightarrow> goes w c res \<and> (\<forall>c'. good w c \<longrightarrow> res = Some c' \<longrightarrow> R c c')"

locale run_relation =
  fixes R :: "'st core \<Rightarrow> 'st core \<Rightarrow> bool"
  assumes R_refl: "R c c" and R_trans: "R c c' \<Longrightarrow> R c' c'' \<Longrightarrow> R c c''"
begin

lemma runsI: "(good w c \<Longrightarrow> runs R w c res) \<Longrightarrow> runs R w c res"
  by (simp add: runs_def goes_def)

lemma runs_refl: "runs R w c (Some c)"
  by (simp add: runs_def R_refl)

lemma runs_good: "runs R w c (Some c') \<Longrightarrow> good w c \<Longrightarrow> good w c' \<and> R c c'"
  using goes_Some by (auto simp: runs_def)

lemma runs_trans:
  assumes "runs R w c (Some c')" "good w c' \<Longrightarrow> R c c' \<Longrightarrow> runs R w c' res"
  shows "runs R w c res"
proof (rule runsI)
  assume g: "good w c"
  note c' = runs_good [OF assms(1) g]
  have s: "runs R w c' res" using assms(2) c' by blast
  then have "goes w c res" using assms(1) goes_trans by (auto simp: runs_def)
  moreover have "R c c''" if "res = Some c''" for c''
    using s c' that R_trans by (auto simp: runs_def)
  ultimately show ?thesis by (simp add: runs_def)
qed

lemma runs_bind:
  assumes "runs R w c res" "\<And>c'. res = Some c' \<Longrightarrow> good w c' \<Longrightarrow> R c c' \<Longrightarrow> runs R w c' (f c')"
  shows "runs R w c (Option.bind res f)"
proof (cases res)
  case None
  with assms(1) show ?thesis by (simp add: runs_def)
next
  case (Some c')
  with assms show ?thesis using runs_trans [of w c c' "f c'"] by simp
qed

end

lemma keeps_refl [simp]: "keeps c c"
  by (simp add: keeps_def)

lemma keepsD:
  "keeps c c' \<Longrightarrow> c_ballot c' = c_ballot c" "keeps c c' \<Longrightarrow> c_leader c' = c_leader c"
  "keeps c c' \<Longrightarrow> c_preparing c' = c_preparing c" "keeps c c' \<Longrightarrow> c_promises c' = c_promises c"
  "keeps c c' \<Longrightarrow> c_frozen c' = c_frozen c"
  by (simp_all add: keeps_def role_def)

lemma keeps_trans: "keeps c c' \<Longrightarrow> keeps c' c'' \<Longrightarrow> keeps c c''"
  by (auto simp: keeps_def)

interpretation kp: run_relation keeps
  by unfold_locales (simp, rule keeps_trans)

abbreviation stays :: "'st world \<Rightarrow> 'st core \<Rightarrow> 'st core option \<Rightarrow> bool" where
  "stays \<equiv> runs keeps"

lemmas staysI = kp.runsI and stays_good = kp.runs_good and stays_trans = kp.runs_trans and stays_bind = kp.runs_bind

declare kp.runs_refl [simp, intro]

text \<open>
  Collecting promises: ballot, leader and frozen snapshot stay; the replica may stop preparing, and
  while it prepares it loses no promise.
\<close>

definition advances :: "'st core \<Rightarrow> 'st core \<Rightarrow> bool" where
  "advances c c' \<longleftrightarrow> c_ballot c' = c_ballot c \<and> c_leader c' = c_leader c \<and> c_frozen c' = c_frozen c \<and>
     packets_of (c_out c) \<subseteq> packets_of (c_out c') \<and>
     (c_preparing c' \<longrightarrow> c_preparing c \<and> dom (map_of (c_promises c)) \<subseteq> dom (map_of (c_promises c')))"

interpretation ad: run_relation advances
  by unfold_locales (simp add: advances_def, simp add: advances_def, blast)

abbreviation moves :: "'st world \<Rightarrow> 'st core \<Rightarrow> 'st core option \<Rightarrow> bool" where
  "moves \<equiv> runs advances"

lemma keeps_advances: "keeps c c' \<Longrightarrow> advances c c'"
  by (simp add: keeps_def advances_def role_def)

lemma stays_moves: "stays w c res \<Longrightarrow> moves w c res"
  using keeps_advances by (auto simp: runs_def)

lemma stays_view:
  assumes "view c' = view c" "c_id c' = c_id c" "c_n c' = c_n c" "c_app c' = c_app c" "map_of (c_values c') = map_of (c_values c)"
    "\<And>r v. Reply r v \<in> set (c_out c') \<Longrightarrow> Reply r v \<in> set (c_out c)"
    "c_promises c' = c_promises c" "packets_of (c_out c) \<subseteq> packets_of (c_out c')"
  shows "stays w c (Some c')"
proof -
  have "role c' = role c" using assms(1,7) by (simp add: view_def role_def)
  with goes_view [OF assms(1-6)] assms(8) show ?thesis by (simp add: runs_def keeps_def)
qed

lemma stays_soup: "keeps c c' \<Longrightarrow> in_soup w c p \<Longrightarrow> in_soup w c' p"
  by (rule in_soup_mono) (auto simp: keeps_def role_def)

text \<open>Sending a packet.\<close>

definition carries :: "effect \<Rightarrow> packet \<Rightarrow> bool" where
  "carries x p \<longleftrightarrow> packets_of [x] = {p}"

lemma carries_simps [simp]: "carries (Send t p) p" "carries (Broadcast p) p" "carries (Local p) p"
  by (simp_all add: carries_def)

lemma carries_no_reply [simp]: "\<not> carries (Reply r v) p"
  by (simp add: carries_def)

lemma emit_fields [simp]:
  "c_id (emit x c) = c_id c" "c_n (emit x c) = c_n c" "c_app (emit x c) = c_app c" "c_values (emit x c) = c_values c"
  "c_promises (emit x c) = c_promises c" "c_ballot (emit x c) = c_ballot c" "c_leader (emit x c) = c_leader c"
  "c_preparing (emit x c) = c_preparing c" "c_executed (emit x c) = c_executed c" "c_log (emit x c) = c_log c"
  "c_frozen (emit x c) = c_frozen c" "c_high (emit x c) = c_high c" "c_out (emit x c) = c_out c @ [x]"
  "requests (emit x c) = requests c" "c_active (emit x c) = c_active c" "c_pages (emit x c) = c_pages c"
  "c_votes (emit x c) = c_votes c" "c_frozenBallot (emit x c) = c_frozenBallot c" "c_frozenFloor (emit x c) = c_frozenFloor c"
  by (simp_all add: emit_def requests_def fun_eq_iff)

lemma view_emit: "carries x p \<Longrightarrow> view (emit x c) = (view c)\<lparr>n_sent := insert p (n_sent (view c))\<rparr>"
  by (simp add: view_def emit_def carries_def)

lemma stays_emit:
  assumes "carries x p" "good w c \<Longrightarrow> emittable (w_N w) (around w c) (w_id w) p"
  shows "stays w c (Some (emit x c))"
proof -
  have "goes w c (Some (emit x c))"
  proof (rule goes_step)
    assume g: "good w c"
    show "mstep (w_N w) (around w c) (w_id w) (view (emit x c))"
      using m_emit [OF assms(2) [OF g]] g by (simp add: view_emit [OF assms(1)] good_facts(7))
    show "replayed (w_exec w) (w_app w) (emit x c)"
      by (rule replayed_frame [of _ _ c]) (use g assms(1) in \<open>auto simp: good_def\<close>)
  qed simp_all
  then show ?thesis by (simp add: runs_def keeps_def role_def)
qed

lemma stays_emit_known:
  assumes "carries x p" "p \<in> packets_of (c_out c) \<union> set (c_frozen c)"
  shows "stays w c (Some (emit x c))"
  by (rule stays_view) (use assms in \<open>auto simp: view_emit insert_absorb\<close>)

lemma stays_reply:
  assumes "mget (c_values c) (req_ID r) = Some v"
  shows "stays w c (Some (emit (Reply r v) c))"
proof -
  have eq: "view (emit (Reply r v) c) = view c" by (simp add: view_def emit_def)
  have "replayed X a0 (emit (Reply r v) c)" if "replayed X a0 c" for X a0
    using that assms by (auto simp: replayed_def answers_def)
  then show ?thesis by (simp add: eq runs_def goes_def good_def around_def nreach_def keeps_def role_def)
qed

text \<open>Fields that safety does not depend on.\<close>

lemma view_irrelevant [simp]:
  "view (c\<lparr>c_pending := x1\<rparr>) = view c" "view (c\<lparr>c_queue := x2\<rparr>) = view c" "view (c\<lparr>c_queued := x3\<rparr>) = view c"
  "view (c\<lparr>c_resume := x4\<rparr>) = view c" "view (c\<lparr>c_lastSend := x5\<rparr>) = view c" "view (c\<lparr>c_lastFetch := x6\<rparr>) = view c"
  "view (c\<lparr>c_active := x7\<rparr>) = view c" "view (c\<lparr>c_assigned := x8\<rparr>) = view c" "view (c\<lparr>c_recoveryEnd := x9\<rparr>) = view c"
  "view (c\<lparr>c_gapAccepts := x10\<rparr>) = view c" "view (c\<lparr>c_fetchRequests := x11\<rparr>) = view c"
  "view (c\<lparr>c_fetchSuppressed := x12\<rparr>) = view c" "view (c\<lparr>c_replayReplies := x13\<rparr>) = view c"
  "view (c\<lparr>c_recoveries := x14\<rparr>) = view c" "view (c\<lparr>c_app := x15\<rparr>) = view c" "view (c\<lparr>c_values := x16\<rparr>) = view c"
  by (simp_all add: view_def)

end
