(* ===== verification/PaxosHandlers.thy ===== *)
theory PaxosHandlers
  imports PaxosRefine
begin

text \<open>
  The handlers of the Paxos core, one by one, as runs of the abstract replicated log: \<open>stays\<close> for
  the handlers that keep ballot, leader and role, \<open>goes\<close> for those that change them.
\<close>

subsection \<open>Submitting and executing\<close>

lemma emittable_simple:
  assumes "good w c" "p_From p = w_id w" "p_Ballot p = c_ballot c" "p_Kind p = packetForward"
  shows "emittable (w_N w) (around w c) (w_id w) p"
  using assms by (simp add: emittable_def good_facts(7))

lemma submit_stays: "stays w c (Some (submit r c))"
proof (rule staysI)
  assume g: "good w c"
  show ?thesis
  proof (cases "mget (c_values c) (req_ID r)")
    case None
    define c1 where "c1 = c\<lparr>c_pending := mput (req_ID r) r (c_pending c)\<rparr>"
    have 1: "stays w c (Some c1)" unfolding c1_def by (rule stays_view) simp_all
    have 2: "stays w c1 (Some (submit r c))"
    proof (cases "\<not> c_active c1 \<or> c_leader c1 = c_id c1")
      case True
      have "submit r c = (if c_active c1 then enqueue r c1 else c1)"
        using True None by (auto simp: submit_def c1_def)
      then show ?thesis by (auto simp: enqueue_def intro!: stays_view)
    next
      case False
      then have "submit r c = emit (Send (c_leader c1) ((Packet packetForward (c_id c1) (c_ballot c1))\<lparr>p_Requests := [r]\<rparr>)) c1"
        using None by (simp add: submit_def c1_def)
      then show ?thesis
        using stays_emit [OF carries_simps(1) emittable_simple, of w c1] by (simp add: Packet_def good_facts(4))
    qed
    from stays_trans [OF 1 2] show ?thesis .
  next
    case (Some v)
    then have "submit r c = emit (Reply r v) (c\<lparr>c_replayReplies := c_replayReplies c + 1\<rparr>)" by (simp add: submit_def)
    moreover have "stays w c (Some (c\<lparr>c_replayReplies := c_replayReplies c + 1\<rparr>))" by (rule stays_view) simp_all
    moreover have "stays w (c\<lparr>c_replayReplies := c_replayReplies c + 1\<rparr>) (Some (submit r c))"
      using calculation(1) stays_reply [of "c\<lparr>c_replayReplies := c_replayReplies c + 1\<rparr>" r v w] Some by simp
    ultimately show ?thesis using stays_trans by metis
  qed
qed

lemma submits_stay: "stays w c (Some (fold submit rs c))"
proof (induction rs arbitrary: c)
  case (Cons r rs)
  show ?case using stays_trans [OF submit_stays [of w c r]] Cons by simp
qed simp

lemma apply_one_stays:
  assumes X: "execute e = w_exec w" and r: "mget (c_log c) (c_executed c + 1) = Some r" "r_Committed r" and np: "\<not> c_preparing c"
  shows "stays w c (apply_one e r c)"
proof (rule staysI)
  assume g: "good w c"
  show ?thesis
  proof (cases "apply_one e r c")
    case None
    then show ?thesis using X by (auto simp: apply_one_def runs_def goes_def split: Option.bind_splits if_splits)
  next
    case (Some c')
    have slot: "r_Slot r = c_executed c + 1"
      using log_factsD(1) [of "w_N w" "around w c" "w_id w" "c_executed c + 1" r] good_facts [OF g] r by simp
    have rq: "requests c (c_executed c + 1) = Some (r_Request r)" using r by (simp add: requests_def)
    have same: "c_id c' = c_id c" "c_n c' = c_n c" "c_log c' = c_log c" "c_executed c' = c_executed c + 1" "role c' = role c"
      "packets_of (c_out c) \<subseteq> packets_of (c_out c')"
      "view c' = (view c)\<lparr>n_exec := c_executed c + 1, n_votes := (n_votes (view c))(r_Slot r := {})\<rparr>"
      using Some by (auto simp: apply_one_def emit_def role_def view_def fun_eq_iff mgetd_def split: Option.bind_splits if_splits)
    have "goes w c (Some c')"
    proof (rule goes_step)
      show "mstep (w_N w) (around w c) (w_id w) (view c')" using m_exec [of "around w c" "w_id w" r "w_N w"] np r good_facts(7) [OF g] same by simp
      have old: "replayed (w_exec w) (w_app w) c" using g by (simp add: good_def)
      have "(c_app c', map_of (c_values c')) = replay_one (w_exec w) (r_Request r) (c_app c, map_of (c_values c))"
        using Some X by (auto simp: apply_one_def emit_def replay_one_def split: Option.bind_splits if_splits)
      moreover have "requests c' = requests c" using same(3) by (simp add: requests_def fun_eq_iff)
      moreover have "answers c'"
        using old Some by (fastforce simp: replayed_def answers_def apply_one_def emit_def split: Option.bind_splits if_splits)
      ultimately show "replayed (w_exec w) (w_app w) c'"
        using old same(4) rq replay_step [of "c_executed c" "w_exec w" "w_app w" "requests c"] by (simp add: replayed_def)
    qed (use same in auto)
    then show ?thesis using Some same by (simp add: runs_def keeps_def)
  qed
qed

lemma apply_log_stays:
  assumes "execute e = w_exec w" "\<not> c_preparing c"
  shows "stays w c (apply_log e c)"
  using assms
proof (induction e c rule: apply_log.induct)
  case (1 e c)
  show ?case
  proof (cases "\<exists>r. mget (c_log c) (c_executed c + 1) = Some r \<and> r_Committed r")
    case False
    then show ?thesis by (subst apply_log.simps) (auto split: option.split)
  next
    case True
    then obtain r where r: "mget (c_log c) (c_executed c + 1) = Some r" "r_Committed r" by blast
    have "apply_log e c = Option.bind (apply_one e r c) (apply_log e)"
      by (subst apply_log.simps) (simp add: r split: option.split)
    then show ?thesis
      using stays_bind [OF apply_one_stays [OF "1.prems"(1) r "1.prems"(2)]] "1.IH" [OF r(1)] r(2) "1.prems" keepsD(3) by fastforce
  qed
qed

subsection \<open>Acknowledgements\<close>

text \<open>A packet of the current ballot that some replica has sent.\<close>

definition arrived :: "'st world \<Rightarrow> 'st core \<Rightarrow> kind \<Rightarrow> packet \<Rightarrow> bool" where
  "arrived w c k p \<longleftrightarrow> in_soup w c p \<and> p_Kind p = k \<and> p_Ballot p = c_ballot c"

lemma arrived_keeps: "arrived w c k p \<Longrightarrow> keeps c c' \<Longrightarrow> arrived w c' k p"
  using stays_soup keepsD(1) by (fastforce simp: arrived_def)

lemma arrived_owner:
  assumes "good w c" "in_soup w c p"
  shows "p_From p \<in> replicas (w_N w)" "in_range (p_From p)"
proof -
  show r: "p_From p \<in> replicas (w_N w)"
    using soup_owner(1) [OF Inv_parts(2) [OF good_facts(6) [OF assms(1)]]] assms(2) by (simp add: in_soup_def)
  then show "in_range (p_From p)" using good_facts(2) [OF assms(1)] by (simp add: in_range_def replicas_def)
qed

definition vote_on :: "int \<Rightarrow> logrec \<Rightarrow> 'st core \<Rightarrow> 'st core" where
  "vote_on from a c = c\<lparr>c_votes := mput (r_Slot a) (With (mgetd 0 (c_votes c) (r_Slot a)) from) (c_votes c)\<rparr>"

definition commit_on :: "int \<Rightarrow> logrec \<Rightarrow> 'st core \<Rightarrow> 'st core" where
  "commit_on s r c = c\<lparr>c_log := mput s (r\<lparr>r_Committed := True\<rparr>) (c_log c)\<rparr>"

lemma vote_on_simps [simp]:
  "c_log (vote_on from a c) = c_log c" "c_n (vote_on from a c) = c_n c" "c_id (vote_on from a c) = c_id c"
  "role (vote_on from a c) = role c" "c_out (vote_on from a c) = c_out c" "requests (vote_on from a c) = requests c"
  "c_executed (vote_on from a c) = c_executed c" "c_app (vote_on from a c) = c_app c" "c_values (vote_on from a c) = c_values c"
  by (simp_all add: vote_on_def role_def requests_def fun_eq_iff)

lemma commit_on_simps [simp]:
  "c_log (commit_on s r c) = mput s (r\<lparr>r_Committed := True\<rparr>) (c_log c)" "c_n (commit_on s r c) = c_n c" "c_id (commit_on s r c) = c_id c"
  "role (commit_on s r c) = role c" "c_out (commit_on s r c) = c_out c"
  "c_executed (commit_on s r c) = c_executed c" "c_app (commit_on s r c) = c_app c" "c_values (commit_on s r c) = c_values c"
  by (simp_all add: commit_on_def role_def)

lemma ack_loop_cases:
  obtains (skip) "ack_loop from (a # as) c = ack_loop from as c"
  | (vote) "ack_loop from (a # as) c = ack_loop from as (vote_on from a c)"
  | (commit) r where "mget (c_log c) (r_Slot a) = Some r" "r_Ballot r = c_ballot c" "\<not> r_Committed r"
      "go_div (c_n c) 2 + 1 \<le> Size (mgetd 0 (c_votes (vote_on from a c)) (r_Slot a))"
      "ack_loop from (a # as) c =
        (fst (ack_loop from as (commit_on (r_Slot a) r (vote_on from a c))),
         r\<lparr>r_Committed := True\<rparr> # snd (ack_loop from as (commit_on (r_Slot a) r (vote_on from a c))))"
proof (cases "r_Slot a \<le> c_executed c")
  case False
  show ?thesis
  proof (cases "\<exists>r. mget (c_log c) (r_Slot a) = Some r \<and> r_Ballot r = c_ballot c \<and> \<not> r_Committed r \<and>
      go_div (c_n c) 2 + 1 \<le> Size (mgetd 0 (c_votes (vote_on from a c)) (r_Slot a))")
    case True
    then obtain r where r: "mget (c_log c) (r_Slot a) = Some r" "r_Ballot r = c_ballot c" "\<not> r_Committed r"
      "go_div (c_n c) 2 + 1 \<le> Size (mgetd 0 (c_votes (vote_on from a c)) (r_Slot a))" by blast
    show ?thesis
      by (rule that(3) [OF r]) (use False r in \<open>simp add: vote_on_def commit_on_def Let_def case_prod_beta\<close>)
  next
    case nocommit: False
    show ?thesis
      by (rule that(2)) (use False nocommit in \<open>auto simp: vote_on_def Let_def split: option.split\<close>)
  qed
qed (use that in simp)

declare ack_loop.simps(2) [simp del]

lemma vote_stays:
  assumes "good w c" "arrived w c packetAck p" "a \<in> set (p_Records p)"
  shows "stays w c (Some (vote_on (p_From p) a c))"
proof -
  note g = good_facts [OF assms(1)]
  have "view (vote_on (p_From p) a c) =
    (view c)\<lparr>n_votes := (n_votes (view c))(r_Slot a := insert (p_From p) (n_votes (view c) (r_Slot a)))\<rparr>"
    using arrived_owner(2) [OF assms(1)] assms(2) by (auto simp: vote_on_def view_def ids_With arrived_def fun_eq_iff)
  then have "mstep (w_N w) (around w c) (w_id w) (view (vote_on (p_From p) a c))"
    using m_vote [of p "w_N w" "around w c" "w_id w" "r_Slot a"] assms g(7) by (simp add: arrived_def in_soup_def)
  then have "goes w c (Some (vote_on (p_From p) a c))"
    using assms(1) by (intro goes_step) (auto simp: good_def intro: replayed_frame)
  then show ?thesis by (simp add: runs_def keeps_def)
qed

lemma votes_majority:
  assumes "good w c" "go_div (c_n c) 2 + 1 \<le> Size (mgetd 0 (c_votes c) s)"
  shows "majority (w_N w) (n_votes (view c) s)"
proof -
  note g = good_facts [OF assms(1)]
  have "n_votes (view c) s \<subseteq> replicas (w_N w)"
    using Inv_parts(11) [OF g(6)] g(3,7) unfolding inv_votes_def by fastforce
  then show ?thesis using rs.count_majority [of "mgetd 0 (c_votes c) s" "w_N w"] assms(2) g(1,5) by simp
qed

lemma commit_stays:
  assumes "good w c" and role: "\<not> c_preparing c" "c_leader c = c_id c"
    and r: "mget (c_log c) s = Some r" "r_Ballot r = c_ballot c" and v: "go_div (c_n c) 2 + 1 \<le> Size (mgetd 0 (c_votes c) s)"
  shows "stays w c (Some (commit_on s r c))"
proof -
  note g = good_facts [OF assms(1)]
  have eq: "view (commit_on s r c) = (view c)\<lparr>n_log := (n_log (view c))(s \<mapsto> r\<lparr>r_Committed := True\<rparr>)\<rparr>" by (simp add: view_def commit_on_def)
  have "mstep (w_N w) (around w c) (w_id w) ((view c)\<lparr>n_log := (n_log (view c))(s \<mapsto> r\<lparr>r_Committed := True\<rparr>)\<rparr>)"
    using m_commit [of "around w c" "w_id w" s r "w_N w"] votes_majority [OF assms(1) v] role r g(4,7) by simp
  moreover have "requests (commit_on s r c) = requests c" using r by (auto simp: requests_def)
  ultimately have "goes w c (Some (commit_on s r c))"
    using assms(1) unfolding eq [symmetric] by (intro goes_step) (auto simp: good_def intro: replayed_frame)
  then show ?thesis by (simp add: runs_def keeps_def)
qed

lemma ack_loop_committed:
  "mget (c_log c) s = Some r \<Longrightarrow> r_Committed r \<Longrightarrow> mget (c_log (fst (ack_loop from as c))) s = Some r"
proof (induction as arbitrary: c)
  case (Cons a as)
  show ?case
  proof (rule ack_loop_cases [of "from" a as c])
    fix l assume l: "mget (c_log c) (r_Slot a) = Some l" "\<not> r_Committed l"
    then have "s \<noteq> r_Slot a" using Cons.prems by auto
    moreover assume "ack_loop from (a # as) c = (fst (ack_loop from as (commit_on (r_Slot a) l (vote_on from a c))),
         l\<lparr>r_Committed := True\<rparr> # snd (ack_loop from as (commit_on (r_Slot a) l (vote_on from a c))))"
    ultimately show ?thesis using Cons.IH [of "commit_on (r_Slot a) l (vote_on from a c)"] Cons.prems by simp
  qed (use Cons in auto)
qed simp

definition acking :: "'st world \<Rightarrow> packet \<Rightarrow> 'st core \<Rightarrow> bool" where
  "acking w p c \<longleftrightarrow> good w c \<and> arrived w c packetAck p \<and> \<not> c_preparing c \<and> c_leader c = c_id c"

lemma acking_stays: "acking w p c \<Longrightarrow> stays w c (Some c') \<Longrightarrow> acking w p c'"
  using stays_good arrived_keeps keepsD(2,3) good_facts(4) unfolding acking_def by metis

lemma ack_loop_stays:
  assumes "acking w p c" "set as \<subseteq> set (p_Records p)"
  shows "stays w c (Some (fst (ack_loop (p_From p) as c))) \<and>
    (\<forall>r\<in>set (snd (ack_loop (p_From p) as c)). mget (c_log (fst (ack_loop (p_From p) as c))) (r_Slot r) = Some r \<and>
       r_Committed r \<and> r_Ballot r = c_ballot c)"
  using assms
proof (induction as arbitrary: c)
  case (Cons a as)
  let ?f = "p_From p"
  have s1: "stays w c (Some (vote_on ?f a c))" using vote_stays [of w c p a] Cons.prems by (simp add: acking_def)
  note a1 = acking_stays [OF Cons.prems(1) s1]
  have b1: "c_ballot (vote_on ?f a c) = c_ballot c" by (simp add: vote_on_def)
  show ?case
  proof (rule ack_loop_cases [of ?f a as c])
    assume "ack_loop ?f (a # as) c = ack_loop ?f as (vote_on ?f a c)"
    then show ?thesis using Cons.IH [OF a1] Cons.prems(2) stays_trans [OF s1] b1 by simp
  next
    fix r
    let ?c2 = "commit_on (r_Slot a) r (vote_on ?f a c)"
    assume r: "mget (c_log c) (r_Slot a) = Some r" "r_Ballot r = c_ballot c"
      "go_div (c_n c) 2 + 1 \<le> Size (mgetd 0 (c_votes (vote_on ?f a c)) (r_Slot a))"
      and eq: "ack_loop ?f (a # as) c = (fst (ack_loop ?f as ?c2), r\<lparr>r_Committed := True\<rparr> # snd (ack_loop ?f as ?c2))"
    have s2: "stays w (vote_on ?f a c) (Some ?c2)" using a1 r b1 by (intro commit_stays) (simp_all add: acking_def)
    have b2: "c_ballot ?c2 = c_ballot c" using b1 by (simp add: commit_on_def)
    have slot: "r_Slot r = r_Slot a"
      using log_factsD(1) [of "w_N w" "around w c" "w_id w" "r_Slot a" r] good_facts [of w c] r Cons.prems by (simp add: acking_def)
    have "mget (c_log (fst (ack_loop ?f as ?c2))) (r_Slot a) = Some (r\<lparr>r_Committed := True\<rparr>)"
      by (rule ack_loop_committed) simp_all
    then show ?thesis
      using eq stays_trans [OF s1 stays_trans [OF s2]] Cons.IH [OF acking_stays [OF a1 s2]] Cons.prems(2) b2 slot r by simp
  qed (use Cons in simp)
qed simp

text \<open>An Ack of the current ballot: votes, commits, the broadcast of the decisions, execution.\<close>

lemma ack_stays:
  assumes "execute e = w_exec w" "arrived w c packetAck p"
  shows "stays w c (ack e p c)"
proof (rule staysI)
  assume g: "good w c"
  show ?thesis
  proof (cases "c_preparing c \<or> c_id c \<noteq> c_leader c")
    case True
    then show ?thesis by (simp add: ack_def)
  next
    case False
    define c1 rs where "c1 = fst (ack_loop (p_From p) (p_Records p) c)" and "rs = snd (ack_loop (p_From p) (p_Records p) c)"
    have L: "stays w c (Some c1)" "\<forall>r\<in>set rs. mget (c_log c1) (r_Slot r) = Some r \<and> r_Committed r \<and> r_Ballot r = c_ballot c"
      using ack_loop_stays [of w p c "p_Records p"] assms(2) False g by (auto simp: c1_def rs_def acking_def)
    have k1: "good w c1" "keeps c c1" using L(1) g stays_good by blast+
    have np1: "\<not> c_preparing c1" "c_leader c1 = c_id c1"
      using False keepsD [OF k1(2)] good_facts(4) [OF g] good_facts(4) [OF k1(1)] by auto
    define c2 where "c2 = (if c_id c1 = c_leader c1 \<and> rs \<noteq> []
       then emit (Broadcast ((Packet packetCommit (c_id c1) (c_ballot c1))\<lparr>p_Records := rs\<rparr>)) c1 else c1)"
    have "emittable (w_N w) (around w c1) (w_id w) ((Packet packetCommit (c_id c1) (c_ballot c1))\<lparr>p_Records := rs\<rparr>)"
      using L(2) np1 keepsD(1) [OF k1(2)] good_facts [OF k1(1)] by (simp add: emittable_def Packet_def)
    then have s2: "stays w c1 (Some c2)" unfolding c2_def by (auto intro: stays_emit [OF carries_simps(2)])
    then have k2: "good w c2" "keeps c1 c2" using k1 stays_good by blast+
    have "ack e p c = apply_log e c2"
      using False by (simp add: ack_def c1_def rs_def c2_def split: prod.split)
    then show ?thesis
      using stays_trans [OF L(1) stays_trans [OF s2 apply_log_stays]] assms(1) np1 keepsD(3) [OF k2(2)] by simp
  qed
qed

subsection \<open>Accepting records\<close>

definition offered :: "'st world \<Rightarrow> 'st core \<Rightarrow> logrec \<Rightarrow> bool" where
  "offered w c r \<longleftrightarrow> (\<exists>p k. arrived w c k p \<and> k \<in> {packetAccept, packetCommit} \<and> r \<in> set (p_Records p))"

lemma offered_keeps: "offered w c r \<Longrightarrow> keeps c c' \<Longrightarrow> offered w c' r"
  using arrived_keeps unfolding offered_def by blast

lemma offered_facts:
  assumes "good w c" "offered w c r"
  shows "r_Ballot r = c_ballot c" "0 \<le> r_Slot r" "known (w_N w) (around w c) (r_Slot r) (c_ballot c) (r_Request r)"
proof -
  obtain p k where p: "p \<in> soup (w_N w) (around w c)" "p_Kind p \<in> {packetAccept, packetCommit}" "p_Ballot p = c_ballot c" "r \<in> set (p_Records p)"
    using assms(2) by (auto simp: offered_def arrived_def in_soup_def)
  then show "r_Ballot r = c_ballot c" "0 \<le> r_Slot r"
    using soup_owner(6) [OF Inv_parts(2) [OF good_facts(6) [OF assms(1)]] p(1)] by auto
  then show "known (w_N w) (around w c) (r_Slot r) (c_ballot c) (r_Request r)"
    using p by (auto simp: known_def proposed_def)
qed

text \<open>The panic \<open>conflicting decision\<close> of \<open>install\<close> is unreachable.\<close>

lemma no_conflict:
  assumes "good w c" "offered w c r" "mget (c_log c) (r_Slot r) = Some old" "r_Committed old"
  shows "r_Request old = r_Request r"
proof -
  note g = good_facts [OF assms(1)]
  note old = log_factsD [OF g(6,3), of "r_Slot r" old]
  have "decided (w_N w) (around w c) old"
    using Inv_parts(10) [OF g(6)] g(3,7) assms(3,4) unfolding inv_com_def by fastforce
  then obtain b where b: "b \<le> r_Ballot old" "chosen (w_N w) (around w c) (r_Slot old) b (r_Request old)" by (auto simp: decided_def)
  then show ?thesis
    using chosen_forces [OF Inv_parts(8,7) [OF g(6)], of "r_Slot r" b "r_Request old" "c_ballot c" "r_Request r"]
      offered_facts(3) [OF assms(1,2)] old assms(3) g(7) by simp
qed

definition put_record :: "logrec \<Rightarrow> 'st core \<Rightarrow> 'st core" where
  "put_record r c = c\<lparr>c_log := mput (r_Slot r) r (c_log c), c_assigned := mput (req_ID (r_Request r)) (r_Slot r) (c_assigned c),
     c_high := (if r_Slot r > c_high c then r_Slot r else c_high c)\<rparr>"

lemma install_cases:
  assumes "good w c" "offered w c r"
  obtains (kept) old where "install r c = Some c" "mget (c_log c) (r_Slot r) = Some old" "r_Committed old" "r_Request old = r_Request r"
  | (fresh) "install r c = Some (put_record r c)" "\<And>old. mget (c_log c) (r_Slot r) = Some old \<Longrightarrow> \<not> r_Committed old"
proof (cases "\<exists>old. mget (c_log c) (r_Slot r) = Some old \<and> r_Committed old")
  case True
  then show ?thesis using no_conflict [OF assms] kept by (auto simp: install_def Let_def)
next
  case False
  then show ?thesis by (intro fresh) (auto simp: install_def put_record_def Let_def split: option.split)
qed

lemma executed_committed:
  assumes "good w c" "0 \<le> s" "s \<le> c_executed c"
  shows "\<exists>l. mget (c_log c) s = Some l \<and> r_Committed l"
proof -
  note g = good_facts [OF assms(1)]
  have "\<forall>s. 0 \<le> s \<and> s \<le> n_exec (around w c (w_id w)) \<longrightarrow> (\<exists>r. n_log (around w c (w_id w)) s = Some r \<and> r_Committed r)"
    using Inv_parts(5) [OF g(6)] g(3) unfolding inv_log_def by blast
  then show ?thesis using assms(2,3) g(7) by simp
qed

lemma put_record_stays:
  assumes "good w c" "offered w c r" "\<And>old. mget (c_log c) (r_Slot r) = Some old \<Longrightarrow> \<not> r_Committed old"
  shows "stays w c (Some (put_record r c))"
proof -
  note g = good_facts [OF assms(1)]
  have inst: "view (put_record r c) = inst r (view c)"
    using assms(3) by (auto simp: view_def put_record_def inst_def max_def split: option.split)
  have rq: "requests (put_record r c) s = requests c s" if "0 \<le> s" "s \<le> c_executed c" for s
  proof -
    have "s \<noteq> r_Slot r" using executed_committed [OF assms(1) that] assms(3) by auto
    then show ?thesis by (simp add: requests_def put_record_def)
  qed
  have "replayed (w_exec w) (w_app w) c" using assms(1) by (simp add: good_def)
  then have rep: "replayed (w_exec w) (w_app w) (put_record r c)"
    by (rule replayed_frame [OF _ _ _ _ rq]) (simp_all add: put_record_def)
  obtain p where p: "p \<in> soup (w_N w) (around w c)" "p_Kind p \<in> {packetAccept, packetCommit}" "p_Ballot p = c_ballot c" "r \<in> set (p_Records p)"
    using assms(2) by (auto simp: offered_def arrived_def in_soup_def)
  have "mstep (w_N w) (around w c) (w_id w) (view (put_record r c))"
    unfolding inst using m_install [OF p(1,2) _ p(4), of "w_id w"] p(3) g(7) by simp
  then have "goes w c (Some (put_record r c))"
    using rep by (intro goes_step) (simp_all add: put_record_def)
  then show ?thesis by (simp add: runs_def keeps_def role_def put_record_def)
qed

definition holds :: "int \<Rightarrow> 'st core \<Rightarrow> bool" where
  "holds s c \<longleftrightarrow> (\<exists>l. mget (c_log c) s = Some l \<and> (r_Ballot l = c_ballot c \<or> r_Committed l))"

lemma install_stays:
  assumes "good w c" "offered w c r"
  shows "\<exists>c'. install r c = Some c' \<and> stays w c (Some c') \<and> holds (r_Slot r) c' \<and> (\<forall>s. holds s c \<longrightarrow> holds s c') \<and>
    (\<exists>l. mget (c_log c') (r_Slot r) = Some l \<and> (r_Committed r \<longrightarrow> r_Committed l))"
proof (cases rule: install_cases [OF assms])
  case (1 old)
  then show ?thesis by (auto simp: holds_def)
next
  case fresh: 2
  have "holds s (put_record r c)" if "holds s c \<or> s = r_Slot r" for s
    using offered_facts(1) [OF assms] that by (auto simp: holds_def put_record_def)
  then show ?thesis using fresh put_record_stays [OF assms fresh(2)] by (auto simp: put_record_def)
qed

lemma accept_loop_stays:
  assumes "good w c" "\<forall>r\<in>set rs. offered w c r" "b = c_ballot c"
  shows "\<exists>gap' c'. accept_loop b rs (gap, c) = Some (gap', c') \<and> stays w c (Some c') \<and>
    (\<forall>r\<in>set rs. holds (r_Slot r) c') \<and> (\<forall>s. holds s c \<longrightarrow> holds s c')"
  using assms
proof (induction rs arbitrary: gap c)
  case (Cons r rs)
  define missing where "missing \<longleftrightarrow> r_Slot r > 0 \<and> mget (c_log c) (r_Slot r - 1) = None"
  define c1 where "c1 = (if missing then c\<lparr>c_gapAccepts := c_gapAccepts c + 1\<rparr> else c)"
  have s1: "stays w c (Some c1)" unfolding c1_def by (auto intro!: stays_view)
  have k1: "good w c1" "keeps c c1" using stays_good [OF s1 Cons.prems(1)] by auto
  have h1: "holds s c1 = holds s c" for s by (simp add: holds_def c1_def)
  have o1: "offered w c1 r" using Cons.prems(2) offered_keeps [OF _ k1(2)] by simp
  have same: "r\<lparr>r_Ballot := b\<rparr> = r"
    using offered_facts(1) [OF k1(1) o1] keepsD(1) [OF k1(2)] Cons.prems(3) by simp
  obtain c2 where c2: "install r c1 = Some c2" "stays w c1 (Some c2)" "holds (r_Slot r) c2" "\<forall>s. holds s c1 \<longrightarrow> holds s c2"
    using install_stays [OF k1(1) o1] by blast
  have k2: "good w c2" "keeps c c2" using stays_good [OF c2(2) k1(1)] keeps_trans [OF k1(2)] by auto
  have "accept_loop b (r # rs) (gap, c) = accept_loop b rs (gap \<or> missing, c2)"
    using c2(1) same by (simp add: missing_def c1_def Let_def)
  moreover obtain gap' c' where "accept_loop b rs (gap \<or> missing, c2) = Some (gap', c')" "stays w c2 (Some c')"
    "\<forall>r\<in>set rs. holds (r_Slot r) c'" "\<forall>s. holds s c2 \<longrightarrow> holds s c'"
    using Cons.IH [of c2 "gap \<or> missing"] k2 Cons.prems offered_keeps [OF _ k2(2)] keepsD(1) [OF k2(2)] by auto
  ultimately show ?case using stays_trans [OF s1 stays_trans [OF c2(2)]] c2(3,4) h1 by auto
qed auto

lemma requestFetch_stays:
  assumes "arrived w c k p" "k \<in> {packetAccept, packetReady}"
  shows "stays w c (Some (requestFetch now c))" and "c_log (requestFetch now c) = c_log c"
proof -
  let ?p = "(Packet packetFetch (c_id c) (c_ballot c))\<lparr>p_Floor := c_executed c + 1\<rparr>"
  define c1 where "c1 = c\<lparr>c_lastFetch := now, c_fetchRequests := c_fetchRequests c + 1\<rparr>"
  show "c_log (requestFetch now c) = c_log c" by (simp add: requestFetch_def)
  show "stays w c (Some (requestFetch now c))"
  proof (cases "c_id c = c_leader c \<or> time_sub now (c_lastFetch c) < 100 * Millisecond")
    case True
    then show ?thesis by (auto simp: requestFetch_def intro!: stays_view)
  next
    case False
    have 1: "stays w c (Some c1)" unfolding c1_def by (rule stays_view) simp_all
    have 2: "stays w c1 (Some (emit (Send (c_leader c) ?p) c1))" if "keeps c c1"
    proof (rule stays_emit [OF carries_simps(1)])
      assume g: "good w c1"
      show "emittable (w_N w) (around w c1) (w_id w) ?p"
        using arrived_keeps [OF assms(1) that] assms(2) good_facts(4,7) [OF g]
        by (auto simp: emittable_def Packet_def arrived_def in_soup_def c1_def)
    qed
    have "requestFetch now c = emit (Send (c_leader c) ?p) c1" using False by (auto simp: requestFetch_def c1_def)
    then show ?thesis using stays_trans [OF 1 2] by simp
  qed
qed

text \<open>What a handler may assume of the local delivery of an Ack.\<close>

definition acks_stay :: "'st world \<Rightarrow> 'st deliver \<Rightarrow> bool" where
  "acks_stay w L \<longleftrightarrow> (\<forall>c p. arrived w c packetAck p \<longrightarrow> stays w c (L p c))"

lemma send_ack_stays:
  assumes "acks_stay w L" "p_Kind p = packetAck" "p_Ballot p = c_ballot c"
    and "good w c \<Longrightarrow> emittable (w_N w) (around w c) (w_id w) p"
  shows "stays w c (Transport_Send L to p c)"
proof (cases "to = c_id c")
  case True
  have 1: "stays w c (Some (emit (Local p) c))" using assms(4) by (rule stays_emit [OF carries_simps(3)])
  have "stays w (emit (Local p) c) (L p (emit (Local p) c))" if "good w (emit (Local p) c)"
    using assms(1-3) in_soup_own [OF that, of p] by (simp add: acks_stay_def arrived_def)
  then show ?thesis using True stays_trans [OF 1] by (simp add: Transport_Send_def)
next
  case False
  then show ?thesis using stays_emit [OF carries_simps(1) assms(4)] by (simp add: Transport_Send_def)
qed

lemma accept_stays:
  assumes "acks_stay w L" "arrived w c packetAccept p"
  shows "stays w c (accept L e p c)"
proof (rule staysI)
  assume g: "good w c"
  have off: "\<forall>r\<in>set (p_Records p). offered w c r" using assms(2) by (auto simp: offered_def)
  obtain gap c1 where c1: "accept_loop (p_Ballot p) (p_Records p) (False, c) = Some (gap, c1)" "stays w c (Some c1)"
    "\<forall>r\<in>set (p_Records p). holds (r_Slot r) c1"
    using accept_loop_stays [OF g off, of "p_Ballot p" False] assms(2) by (auto simp: arrived_def)
  have k1: "good w c1" "keeps c c1" using stays_good [OF c1(2) g] by auto
  define c2 where "c2 = (if gap then requestFetch (clock e) c1 else c1)"
  have s2: "stays w c1 (Some c2)" "c_log c2 = c_log c1"
    using requestFetch_stays [OF arrived_keeps [OF assms(2) k1(2)]] by (auto simp: c2_def)
  have k2: "good w c2" "keeps c1 c2" using stays_good [OF s2(1) k1(1)] by auto
  have arr: "arrived w c2 packetAccept p" using arrived_keeps assms(2) k1(2) k2(2) by blast
  have h2: "holds (r_Slot r) c2" if "r \<in> set (p_Records p)" for r
    using c1(3) that s2(2) keepsD(1) [OF k2(2)] by (auto simp: holds_def)
  let ?a = "(Packet packetAck (c_id c2) (c_ballot c2))\<lparr>p_Records := map (\<lambda>r. zero_record (r_Slot r)) (p_Records p)\<rparr>"
  have "emittable (w_N w) (around w c2) (w_id w) ?a"
    using h2 arr good_facts(4,7) [OF k2(1)]
    by (auto simp: emittable_def Packet_def zero_record_def arrived_def in_soup_def holds_def)
  then have s3: "stays w c2 (Transport_Send L (c_leader c2) ?a c2)"
    using send_ack_stays [OF assms(1), of ?a c2] by (simp add: Packet_def)
  have "accept L e p c = (if map (\<lambda>r. zero_record (r_Slot r)) (p_Records p) = [] then Some c2 else Transport_Send L (c_leader c2) ?a c2)"
    by (simp add: accept_def c1(1) c2_def Let_def)
  then show ?thesis using stays_trans [OF c1(2) stays_trans [OF s2(1)]] s3 by auto
qed

subsection \<open>Retransmission and decisions\<close>

lemma page_records_mem:
  assumes "good w c" "r \<in> set (page_records c lo hi)"
  obtains l where "mget (c_log c) (r_Slot r) = Some l" "r_Request r = r_Request l" "r_Ballot r = c_ballot c" "r_Committed r = r_Committed l"
proof -
  note g = good_facts [OF assms(1)]
  obtain s l where l: "mget (c_log c) s = Some l" "r = l\<lparr>r_Ballot := c_ballot c\<rparr>"
    using assms(2) by (auto simp: page_records_def map_filter_def)
  then have "r_Slot l = s" using log_factsD(1) [OF g(6,3), of s l] g(7) by simp
  then show ?thesis using l by (intro that) auto
qed

definition leading :: "'st world \<Rightarrow> 'st core \<Rightarrow> bool" where
  "leading w c \<longleftrightarrow> good w c \<and> \<not> c_preparing c \<and> c_leader c = c_id c"

lemma leading_keeps: "leading w c \<Longrightarrow> good w c' \<Longrightarrow> keeps c c' \<Longrightarrow> leading w c'"
  using keepsD(2,3) good_facts(4) unfolding leading_def by metis

lemma leading_stays: "stays w c (Some c') \<Longrightarrow> leading w c \<Longrightarrow> leading w c'"
  using stays_good [of w c c'] leading_keeps [of w c c'] by (simp add: leading_def)

lemma leader_emits:
  assumes "leading w c" "p_From p = c_id c" "p_Ballot p = c_ballot c"
    and "p_Kind p = packetReady \<or> p_Kind p \<in> {packetAccept, packetCommit} \<and>
      (\<forall>r\<in>set (p_Records p). \<exists>l. mget (c_log c) (r_Slot r) = Some l \<and> r_Request r = r_Request l \<and> r_Ballot r = c_ballot c \<and>
         (r_Committed r \<longrightarrow> r_Committed l) \<and> (p_Kind p = packetCommit \<longrightarrow> r_Committed r))"
    and "carries x p"
  shows "stays w c (Some (emit x c))"
proof (rule stays_emit [OF assms(5)])
  assume "good w c"
  note g = good_facts [OF this]
  show "emittable (w_N w) (around w c) (w_id w) p"
    using assms(1-4) g(4,7) by (fastforce simp: emittable_def leading_def)
qed

lemma page_emits:
  assumes "leading w c" "carries x p" "p_From p = c_id c" "p_Ballot p = c_ballot c" "p_Kind p = k" "k \<in> {packetAccept, packetCommit}"
    and "\<And>r. r \<in> set (p_Records p) \<Longrightarrow> \<exists>r'\<in>set (page_records c lo hi). r_Slot r = r_Slot r' \<and> r_Request r = r_Request r' \<and>
      r_Ballot r = r_Ballot r' \<and> (r_Committed r \<longrightarrow> r_Committed r') \<and> (k = packetCommit \<longrightarrow> r_Committed r)"
  shows "stays w c (Some (emit x c))"
proof (rule leader_emits [OF assms(1,3,4) _ assms(2)])
  have g: "good w c" using assms(1) by (simp add: leading_def)
  show "p_Kind p = packetReady \<or> p_Kind p \<in> {packetAccept, packetCommit} \<and>
      (\<forall>r\<in>set (p_Records p). \<exists>l. mget (c_log c) (r_Slot r) = Some l \<and> r_Request r = r_Request l \<and> r_Ballot r = c_ballot c \<and>
         (r_Committed r \<longrightarrow> r_Committed l) \<and> (p_Kind p = packetCommit \<longrightarrow> r_Committed r))"
    using assms(5-7) page_records_mem [OF g] by (metis insert_iff singletonD)
qed

lemma sendSuffix_loop_stays:
  assumes "acks_stay w L" "leading w c"
  shows "stays w c (sendSuffix_loop L e to fetch hi lo c)"
  using assms
proof (induction L e to fetch hi lo c rule: sendSuffix_loop.induct)
  case (1 L e to fetch hi lo c)
  define recs where "recs = page_records c lo (min (lo + PageSize - 1) hi)"
  let ?next = "sendSuffix_loop L e to fetch hi (lo + PageSize)"
  consider "lo > hi" | "lo \<le> hi" "recs = []" | "lo \<le> hi" "recs \<noteq> []" "fetch \<and> to \<noteq> c_id c" | "lo \<le> hi" "recs \<noteq> []" "\<not> (fetch \<and> to \<noteq> c_id c)"
    by linarith
  then show ?case
  proof cases
    case 3
    let ?p = "(Packet packetAccept (c_id c) (c_ballot c))\<lparr>p_Records := recs\<rparr>"
    let ?q = "(Packet packetCommit (c_id c) (c_ballot c))\<lparr>p_Records := filter r_Committed recs\<rparr>"
    define c1 where "c1 = emit (Send to ?p) c"
    define c2 where "c2 = (if filter r_Committed recs \<noteq> [] then emit (Send to ?q) c1 else c1)"
    have s1: "stays w c (Some c1)"
      unfolding c1_def by (rule page_emits [OF "1.prems"(2) carries_simps(1)]) (auto simp: Packet_def recs_def)
    have l1: "leading w c1" by (rule leading_stays [OF s1 "1.prems"(2)])
    have "page_records c1 lo hi' = page_records c lo hi'" for hi' by (simp add: page_records_def c1_def)
    then have "stays w c1 (Some (emit (Send to ?q) c1))"
      by (intro page_emits [OF l1 carries_simps(1), where lo = lo and hi = "min (lo + PageSize - 1) hi"])
        (auto simp: Packet_def recs_def c1_def)
    then have s2: "stays w c1 (Some c2)" by (simp add: c2_def)
    have l2: "leading w c2" by (rule leading_stays [OF s2 l1])
    have "sendSuffix_loop L e to fetch hi lo c = ?next c2"
      using 3 by (subst sendSuffix_loop.simps) (simp add: recs_def c1_def c2_def Let_def)
    then show ?thesis
      using stays_trans [OF s1 stays_trans [OF s2]] "1.IH"(2) [OF _ recs_def _ _ c1_def refl c2_def] 3 "1.prems"(1) l2 by auto
  next
    case 4
    define p where "p = (Packet packetAccept (c_id c) (c_ballot c))\<lparr>p_Records := map (\<lambda>r. r\<lparr>r_Committed := False\<rparr>) recs\<rparr>"
    define c1 where "c1 = emit (Broadcast p) c"
    have s1: "stays w c (Some c1)"
      unfolding c1_def by (rule page_emits [OF "1.prems"(2) carries_simps(2)]) (auto simp: p_def Packet_def recs_def)
    have g1: "good w c1" using stays_good [OF s1] "1.prems"(2) by (simp add: leading_def)
    have arr: "arrived w c1 packetAccept p"
      using in_soup_own [OF g1, of p] by (simp add: arrived_def p_def Packet_def c1_def)
    have s2: "stays w c1 (accept L e p c1)" by (rule accept_stays [OF "1.prems"(1) arr])
    have "stays w c2 (?next c2)" if "accept L e p c1 = Some c2" "good w c2" "keeps c1 c2" for c2
    proof -
      have "leading w c2"
        using that leading_keeps stays_good [OF s1] "1.prems"(2) keeps_trans by (metis leading_def)
      then show ?thesis using "1.IH"(3) [OF _ recs_def _ _ p_def] that(1) 4 "1.prems"(1) by (auto simp: c1_def)
    qed
    moreover have "sendSuffix_loop L e to fetch hi lo c = Option.bind (accept L e p c1) ?next"
      using 4 by (subst sendSuffix_loop.simps) (auto simp: recs_def c1_def p_def Let_def split: option.split)
    ultimately show ?thesis using stays_trans [OF s1 stays_bind [OF s2]] by simp
  next
    case 1
    then show ?thesis by (subst sendSuffix_loop.simps) simp
  next
    case 2
    then have "sendSuffix_loop L e to fetch hi lo c = ?next c"
      by (subst sendSuffix_loop.simps) (simp add: recs_def Let_def)
    then show ?thesis using "1.IH"(1) [OF _ recs_def] 2 "1.prems" by simp
  qed
qed

lemma sendSuffix_stays: "acks_stay w L \<Longrightarrow> leading w c \<Longrightarrow> stays w c (sendSuffix L e to start fetch c)"
  by (simp add: sendSuffix_def Let_def sendSuffix_loop_stays)

text \<open>Commit packets carry committed records only, so marking them again changes nothing.\<close>

lemma commit_loop_stays:
  assumes "good w c" "\<forall>r\<in>set rs. offered w c r \<and> r_Committed r"
  shows "stays w c (commit_loop rs c)"
  using assms
proof (induction rs arbitrary: c)
  case (Cons r rs)
  obtain c1 l where c1: "install r c = Some c1" "stays w c (Some c1)" "mget (c_log c1) (r_Slot r) = Some l" "r_Committed l"
    using install_stays [of w c r] Cons.prems by auto
  have k1: "good w c1" "keeps c c1" using stays_good [OF c1(2)] Cons.prems by auto
  define c2 where "c2 = c1\<lparr>c_log := mput (r_Slot r) (l\<lparr>r_Committed := True\<rparr>) (c_log c1)\<rparr>"
  have "l\<lparr>r_Committed := True\<rparr> = l" using c1(4) by simp
  then have "view c2 = view c1" using c1(3) by (auto simp: view_def c2_def)
  then have s2: "stays w c1 (Some c2)" by (rule stays_view) (simp_all add: c2_def)
  have k2: "good w c2" "keeps c c2" using stays_good [OF s2 k1(1)] keeps_trans k1(2) by auto
  have "stays w c2 (commit_loop rs c2)"
    using Cons.IH [OF k2(1)] Cons.prems(2) offered_keeps [OF _ k2(2)] by simp
  then show ?case using stays_trans [OF c1(2) stays_trans [OF s2]] c1(1,3) by (simp add: c2_def)
qed simp

end
