(* ===== verification/PaxosRecovery.thy ===== *)
theory PaxosRecovery
  imports PaxosHandlers
begin

text \<open>
  Elections: promises, the choice of the values of the suffix, and the handlers that tie everything
  together (\<open>receive\<close>, \<open>begin\<close>, \<open>flush\<close>, \<open>tick\<close>).
\<close>

subsection \<open>Choosing the values of the suffix\<close>

lemma selects_insert:
  assumes "selects R s (mget sel s)"
  shows "selects (insert r R) s (mget (case mget sel (r_Slot r) of
        None \<Rightarrow> mput (r_Slot r) r sel
      | Some old \<Rightarrow> if r_Ballot r > r_Ballot old then mput (r_Slot r) r sel else sel) s)"
  using assms by (fastforce simp: selects_def split: option.splits if_splits)

lemma select_records_selects:
  "(\<And>s. selects R s (mget sel s)) \<Longrightarrow> selects (R \<union> set rs) s (mget (select_records rs sel) s)"
proof (induction rs arbitrary: R sel)
  case (Cons r rs)
  show ?case using Cons.IH [OF selects_insert [OF Cons.prems, of r]] by simp
qed simp

lemma select_pages_selects:
  "(\<And>s. selects R s (mget sel s)) \<Longrightarrow>
     selects (R \<union> (\<Union>p\<in>set ps. set (p_Records p))) s (mget (fst (select_pages ps (sel, high))) s)"
proof (induction ps arbitrary: R sel high)
  case (Cons p ps)
  show ?case using Cons.IH [OF select_records_selects [OF Cons.prems, of "p_Records p"]] by (simp add: Un_assoc)
qed simp

lemma select_pages_high:
  "high \<le> snd (select_pages ps (sel, high)) \<and> (\<forall>p\<in>set ps. p_High p \<le> snd (select_pages ps (sel, high)))"
proof (induction ps arbitrary: sel high)
  case (Cons p ps)
  let ?h = "if p_High p > high then p_High p else high" and ?sel = "select_records (p_Records p) sel"
  have "?h \<le> snd (select_pages ps (?sel, ?h)) \<and> (\<forall>p\<in>set ps. p_High p \<le> snd (select_pages ps (?sel, ?h)))" by (rule Cons.IH)
  moreover have "high \<le> ?h" "p_High p \<le> ?h" by simp_all
  ultimately show ?case by (simp only: select_pages.simps list.set) (blast intro: order_trans)
qed simp

lemma set_promised_pages:
  "set (promised_pages e c) = {p. \<exists>q\<in>n_prom (view c). \<exists>k. n_pages (view c) q k = Some p}"
  by (force simp: promised_pages_def)

lemma promised_records: "(\<Union>p\<in>set (promised_pages e c). set (p_Records p)) = all_records (view c)"
  unfolding set_promised_pages all_records_def by blast

lemma refill_fold:
  "map_of (c_log (fold (refill_slot sel) ss c)) =
     (\<lambda>s. if s \<in> set ss then Some (refilled (c_ballot c) s (mget sel s)) else mget (c_log c) s) \<and>
   view (fold (refill_slot sel) ss c) = (view c)\<lparr>n_log := map_of (c_log (fold (refill_slot sel) ss c))\<rparr> \<and>
   role (fold (refill_slot sel) ss c) = role c \<and> c_out (fold (refill_slot sel) ss c) = c_out c \<and>
   c_id (fold (refill_slot sel) ss c) = c_id c \<and> c_n (fold (refill_slot sel) ss c) = c_n c \<and>
   c_app (fold (refill_slot sel) ss c) = c_app c \<and> c_values (fold (refill_slot sel) ss c) = c_values c \<and>
   c_high (fold (refill_slot sel) ss c) = c_high c"
proof (induction ss arbitrary: c)
  case (Cons s ss)
  let ?c = "refill_slot sel s c"
  have 1: "map_of (c_log ?c) = (map_of (c_log c))(s \<mapsto> refilled (c_ballot c) s (mget sel s))"
    by (auto simp: refill_slot_def refilled_def Let_def split: option.split)
  have 2: "view ?c = (view c)\<lparr>n_log := map_of (c_log ?c)\<rparr>" "role ?c = role c" "c_out ?c = c_out c" "c_id ?c = c_id c"
    "c_n ?c = c_n c" "c_app ?c = c_app c" "c_values ?c = c_values c" "c_ballot ?c = c_ballot c" "c_high ?c = c_high c"
    by (simp_all add: refill_slot_def view_def role_def Let_def)
  show ?case using Cons.IH [of ?c] 1 2 by (auto simp: fun_eq_iff)
qed (simp add: view_def)

definition recovery_choice :: "'st env \<Rightarrow> 'st core \<Rightarrow> (int, logrec) gomap \<times> int" where
  "recovery_choice e c = select_pages (promised_pages e c) ([], c_executed c)"

lemma recovery_choice_ok:
  "selects (all_records (view c)) s (mget (fst (recovery_choice e c)) s)"
  "c_executed c \<le> snd (recovery_choice e c)"
  "q \<in> n_prom (view c) \<Longrightarrow> n_pages (view c) q k = Some p \<Longrightarrow> p_High p \<le> snd (recovery_choice e c)"
proof -
  show "selects (all_records (view c)) s (mget (fst (recovery_choice e c)) s)"
    using select_pages_selects [of "{}" "[]" "promised_pages e c" s "c_executed c"] promised_records [of e c]
    by (simp add: recovery_choice_def selects_def)
  show "c_executed c \<le> snd (recovery_choice e c)" using select_pages_high by (simp add: recovery_choice_def)
  show "p_High p \<le> snd (recovery_choice e c)" if "q \<in> n_prom (view c)" "n_pages (view c) q k = Some p"
    using select_pages_high [of "c_executed c" "promised_pages e c" "[]"] set_promised_pages [of e c] that
    unfolding recovery_choice_def by blast
qed

lemma recover_view:
  fixes e c
  defines "sel \<equiv> fst (recovery_choice e c)" and "h \<equiv> snd (recovery_choice e c)"
  shows "view (recover e c) = (view c)\<lparr>n_prep := False,
      n_log := (\<lambda>s. if c_executed c < s \<and> s \<le> h then Some (refilled (c_ballot c) s (mget sel s)) else mget (c_log c) s),
      n_high := h, n_votes := (\<lambda>_. {})\<rparr>"
    and "c_id (recover e c) = c_id c" "c_n (recover e c) = c_n c" "c_app (recover e c) = c_app c" "c_values (recover e c) = c_values c"
    "c_out (recover e c) = c_out c" "c_leader (recover e c) = c_leader c" "c_ballot (recover e c) = c_ballot c"
    "\<not> c_preparing (recover e c)" "c_frozen (recover e c) = c_frozen c"
proof -
  define c1 where "c1 = c\<lparr>c_preparing := False, c_high := h, c_assigned := executed_assignments e c\<rparr>"
  define c2 where "c2 = fold (refill_slot sel) [c_executed c1 + 1..h] c1"
  note f = refill_fold [of sel "[c_executed c1 + 1..h]" c1, folded c2_def]
  have eq: "recover e c = c2\<lparr>c_recoveryEnd := c_high c2, c_votes := []\<rparr>"
    by (simp add: recover_def recovery_choice_def [symmetric] c1_def c2_def sel_def h_def Let_def case_prod_beta)
  have v1: "view c1 = (view c)\<lparr>n_prep := False, n_high := h\<rparr>" by (simp add: c1_def view_def)
  have lg: "map_of (c_log c2) = (\<lambda>s. if c_executed c < s \<and> s \<le> h then Some (refilled (c_ballot c) s (mget sel s)) else mget (c_log c) s)"
    using f by (auto simp: c1_def fun_eq_iff)
  have "view (recover e c) = (view c2)\<lparr>n_votes := (\<lambda>_. {})\<rparr>" by (simp add: eq view_def)
  also have "view c2 = (view c)\<lparr>n_prep := False, n_high := h, n_log := map_of (c_log c2)\<rparr>" using f v1 by simp
  finally show "view (recover e c) = (view c)\<lparr>n_prep := False,
      n_log := (\<lambda>s. if c_executed c < s \<and> s \<le> h then Some (refilled (c_ballot c) s (mget sel s)) else mget (c_log c) s),
      n_high := h, n_votes := (\<lambda>_. {})\<rparr>" by (simp add: lg)
  show "c_id (recover e c) = c_id c" "c_n (recover e c) = c_n c" "c_app (recover e c) = c_app c" "c_values (recover e c) = c_values c"
    "c_out (recover e c) = c_out c" "c_leader (recover e c) = c_leader c" "c_ballot (recover e c) = c_ballot c"
    "\<not> c_preparing (recover e c)" "c_frozen (recover e c) = c_frozen c"
    using f by (simp_all add: eq c1_def role_def)
qed

lemma recover_moves:
  assumes "c_preparing c" "c_id c \<in> dom (map_of (c_promises c))" "go_div (c_n c) 2 + 1 \<le> int (mlen (c_promises c))"
  shows "moves w c (Some (recover e c))"
proof (rule ad.runsI)
  assume gd: "good w c"
  note g = good_facts [OF gd] and rv = recover_view [of e c]
  have "n_prom (view c) \<subseteq> replicas (w_N w)"
  proof
    fix q assume q: "q \<in> n_prom (view c)"
    from promised [OF g(6,3)] q assms(1) g(7) show "q \<in> replicas (w_N w)" by (metis view_simps(3))
  qed
  then have maj: "majority (w_N w) (n_prom (view c))"
    using majority_half [of "w_N w" "n_prom (view c)"] assms(3) g(1,5) by (simp add: mlen_card)
  have "mstep (w_N w) (around w c) (w_id w) (view (recover e c))"
    unfolding rv(1) using m_recover [of "around w c" "w_id w" "w_N w" "snd (recovery_choice e c)" "mget (fst (recovery_choice e c))"]
      maj assms(1,2) recovery_choice_ok(1,2) [of c] recovery_choice_ok(3) [where c = c and e = e] g(4,7) by (simp cong: if_cong)
  moreover have rq: "requests (recover e c) s = requests c s" if "0 \<le> s" "s \<le> c_executed c" for s
    using arg_cong [OF rv(1), of n_log] that by (simp add: requests_def)
  have ex: "c_executed (recover e c) = c_executed c" using arg_cong [OF rv(1), of n_exec] by simp
  have "replayed (w_exec w) (w_app w) c" using gd by (simp add: good_def)
  then have "replayed (w_exec w) (w_app w) (recover e c)"
    by (rule replayed_frame [OF _ ex _ _ rq]) (simp_all add: rv(4,5,6))
  ultimately have "goes w c (Some (recover e c))"
    using rv by (intro goes_step) simp_all
  then show ?thesis using rv by (simp add: runs_def advances_def)
qed

subsection \<open>Collecting promises\<close>

lemma activate_stays: "leading w c \<Longrightarrow> stays w c (Some (activate e c))"
proof -
  assume l: "leading w c"
  define c1 where "c1 = c\<lparr>c_active := True\<rparr>"
  have s1: "stays w c (Some c1)" unfolding c1_def by (rule stays_view) simp_all
  have l1: "leading w c1" by (rule leading_stays [OF s1 l])
  let ?x = "Broadcast ((Packet packetReady (c_id c1) (c_ballot c1))\<lparr>p_High := c_executed c1, p_Floor := 1\<rparr>)"
  have s2: "stays w c1 (Some (emit ?x c1))"
    by (rule leader_emits [OF l1 _ _ _ carries_simps(2)]) (simp_all add: Packet_def)
  have s3: "stays w (emit ?x c1) (Some (activate e c))"
    by (rule stays_view) (simp_all add: activate_def schedulePending_def c1_def Let_def)
  show ?thesis using stays_trans [OF s1 stays_trans [OF s2 s3]] .
qed

text \<open>While a replica prepares it has its own promise, except while it is collecting that one.\<close>

definition own :: "'st core \<Rightarrow> bool" where
  "own c \<longleftrightarrow> (c_preparing c \<longrightarrow> c_id c \<in> dom (map_of (c_promises c)))"

definition store_page :: "packet \<Rightarrow> 'st core \<Rightarrow> 'st core" where
  "store_page p c = c\<lparr>c_pages := mput (p_From p) (mput (p_Page p) p (mgetd [] (c_pages c) (p_From p))) (c_pages c)\<rparr>"

definition add_promise :: "int \<Rightarrow> 'st core \<Rightarrow> 'st core" where
  "add_promise q c = c\<lparr>c_promises := mput q True (c_promises c)\<rparr>"

definition complete :: "packet \<Rightarrow> 'st core \<Rightarrow> bool" where
  "complete p c \<longleftrightarrow> pages_complete c p (mgetd [] (c_pages c) (p_From p))"

lemma promiseReply_eq:
  "promiseReply L e p c =
     (if \<not> c_preparing c \<or> c_leader c \<noteq> c_id c \<or> p_Pages p \<le> 0 \<or> p_Page p < 0 \<or> p_Page p \<ge> p_Pages p then Some c
      else if \<not> complete p (store_page p c) then Some (store_page p c)
      else let c' = add_promise (p_From p) (store_page p c)
        in if int (mlen (c_promises c')) < go_div (c_n c) 2 + 1 then Some c'
        else Option.bind (sendSuffix L e (c_id (recover e c')) (c_executed (recover e c') + 1) False (recover e c'))
          (\<lambda>c. Some (if c_executed c \<ge> c_recoveryEnd c then activate e c else c)))"
  by (simp add: promiseReply_def store_page_def add_promise_def complete_def pages_complete_def Let_def)

lemma store_page_moves:
  assumes "arrived w c packetPromise p"
  shows "moves w c (Some (store_page p c))"
proof (rule ad.runsI)
  assume gd: "good w c"
  have eq: "view (store_page p c) = (view c)\<lparr>n_pages := (n_pages (view c))(p_From p := (n_pages (view c) (p_From p))(p_Page p \<mapsto> p))\<rparr>"
    by (auto simp: view_def store_page_def fun_eq_iff)
  have "mstep (w_N w) (around w c) (w_id w) (view (store_page p c))"
    unfolding eq using m_page [of p "w_N w" "around w c" "w_id w"] assms good_facts(7) [OF gd] by (simp add: arrived_def in_soup_def)
  then have "goes w c (Some (store_page p c))"
    using gd by (intro goes_step) (auto simp: good_def store_page_def requests_def intro: replayed_frame)
  then show ?thesis by (simp add: runs_def advances_def store_page_def)
qed

lemma add_promise_moves:
  assumes "in_soup w c p" "complete p c" "0 < p_Pages p"
  shows "moves w c (Some (add_promise (p_From p) c))"
proof (rule ad.runsI)
  assume gd: "good w c"
  have eq: "view (add_promise (p_From p) c) = (view c)\<lparr>n_prom := insert (p_From p) (n_prom (view c))\<rparr>"
    by (auto simp: view_def add_promise_def)
  have pgs: "\<forall>k\<in>{0..<p_Pages p}. \<exists>v. n_pages (view c) (p_From p) k = Some v \<and> page_ok (view c) (p_Pages p) (p_High p) k v"
  proof
    fix k assume "k \<in> {0..<p_Pages p}"
    then have "case mget (mgetd [] (c_pages c) (p_From p)) k of None \<Rightarrow> False
      | Some v \<Rightarrow> p_Pages v = p_Pages p \<and> p_Floor v = c_executed c + 1 \<and> p_High v = p_High p"
      using assms(2) unfolding complete_def pages_complete_def by auto
    then show "\<exists>v. n_pages (view c) (p_From p) k = Some v \<and> page_ok (view c) (p_Pages p) (p_High p) k v"
      by (auto simp: page_ok_def split: option.splits)
  qed
  have "mstep (w_N w) (around w c) (w_id w) (view (add_promise (p_From p) c))"
    unfolding eq using m_prom [of "p_Pages p" "p_From p" "w_N w" "around w c" "w_id w" "p_High p"] assms(3) pgs
      arrived_owner(1) [OF gd assms(1)] good_facts(7) [OF gd] by simp
  then have "goes w c (Some (add_promise (p_From p) c))"
    using gd by (intro goes_step) (auto simp: good_def add_promise_def requests_def intro: replayed_frame)
  then show ?thesis by (auto simp: runs_def advances_def add_promise_def)
qed

lemma promiseReply_moves:
  assumes "acks_stay w L" "arrived w c packetPromise p" "p_From p = c_id c \<or> own c"
  shows "moves w c (promiseReply L e p c)"
proof -
  let ?s = "store_page p c" and ?c = "add_promise (p_From p) (store_page p c)"
  consider (ignore) "promiseReply L e p c = Some c" | (stored) "promiseReply L e p c = Some ?s"
    | (full) "c_preparing c" "c_leader c = c_id c" "0 < p_Pages p" "complete p ?s" "0 \<le> p_Page p" "p_Page p < p_Pages p"
  proof -
    have "promiseReply L e p c = Some c \<or> promiseReply L e p c = Some ?s \<or>
      c_preparing c \<and> c_leader c = c_id c \<and> 0 < p_Pages p \<and> complete p ?s \<and> 0 \<le> p_Page p \<and> p_Page p < p_Pages p"
      unfolding promiseReply_eq by simp
    then show thesis using that by blast
  qed
  then show ?thesis
  proof cases
    case full
    have 1: "moves w c (Some ?s)" by (rule store_page_moves [OF assms(2)])
    have "in_soup w ?s p" using assms(2) in_soup_mono [of w c p ?s] by (simp add: arrived_def store_page_def)
    then have 2: "moves w ?s (Some ?c)" using add_promise_moves full by blast
    show ?thesis
    proof (cases "int (mlen (c_promises ?c)) < go_div (c_n c) 2 + 1")
      case True
      then have "promiseReply L e p c = Some ?c" using full by (simp add: promiseReply_eq)
      then show ?thesis using ad.runs_trans [OF 1 2] by simp
    next
      case False
      then have quorum: "go_div (c_n c) 2 + 1 \<le> int (mlen (c_promises ?c))"
        "promiseReply L e p c = Option.bind (sendSuffix L e (c_id (recover e ?c)) (c_executed (recover e ?c) + 1) False (recover e ?c))
          (\<lambda>c. Some (if c_executed c \<ge> c_recoveryEnd c then activate e c else c))"
        using full by (simp_all add: promiseReply_eq Let_def)
      have own: "c_id ?c \<in> dom (map_of (c_promises ?c))" "c_preparing ?c" "c_leader ?c = c_id ?c"
        using assms(3) full by (auto simp: own_def add_promise_def store_page_def)
      have "c_n ?c = c_n c" by (simp add: add_promise_def store_page_def)
      then have 3: "moves w ?c (Some (recover e ?c))" using recover_moves [OF own(2,1)] quorum(1) by simp
      have 4: "stays w (recover e ?c) (promiseReply L e p c)" if g: "good w (recover e ?c)"
      proof -
        have l: "leading w (recover e ?c)" using g own(3) recover_view(2,7,9) [of e ?c] by (simp add: leading_def)
        show ?thesis unfolding quorum(2)
        proof (rule stays_bind [OF sendSuffix_stays [OF assms(1) l]])
          fix c' assume "good w c'" "keeps (recover e ?c) c'"
          then show "stays w c' (Some (if c_executed c' \<ge> c_recoveryEnd c' then activate e c' else c'))"
            using leading_keeps [OF l] activate_stays by auto
        qed
      qed
      show ?thesis using ad.runs_trans [OF 1 ad.runs_trans [OF 2 ad.runs_trans [OF 3 stays_moves [OF 4]]]] .
    qed
  next
    case stored
    then show ?thesis using store_page_moves [OF assms(2)] by simp
  qed (simp add: ad.runs_refl)
qed

subsection \<open>Promising\<close>

definition flushed :: "'st core \<Rightarrow> bool" where
  "flushed c \<longleftrightarrow> set (c_frozen c) \<subseteq> packets_of (c_out c)"

definition ready :: "'st core \<Rightarrow> bool" where
  "ready c \<longleftrightarrow> own c \<and> flushed c"

lemma own_advances: "good w c \<Longrightarrow> good w c' \<Longrightarrow> advances c c' \<Longrightarrow> own c \<Longrightarrow> own c'"
  using good_facts(4) [of w c] good_facts(4) [of w c'] by (auto simp: own_def advances_def)

lemma flushed_advances: "advances c c' \<Longrightarrow> flushed c \<Longrightarrow> flushed c'"
  by (auto simp: flushed_def advances_def)

definition promises_move :: "'st world \<Rightarrow> 'st deliver \<Rightarrow> bool" where
  "promises_move w L \<longleftrightarrow> (\<forall>c p. arrived w c packetPromise p \<longrightarrow> p_From p = c_id c \<longrightarrow> moves w c (L p c))"

lemma frozen_promise:
  assumes "good w c" "p \<in> set (c_frozen c)" "c_frozenBallot c = c_ballot c"
  shows "arrived w c packetPromise p" "p_From p = c_id c"
proof -
  note g = good_facts [OF assms(1)]
  have "n_frz (view c) \<noteq> []" using assms(2) by auto
  then obtain H vs where "n_frz (view c) = promise_pages (w_id w) (c_ballot c) (c_frozenFloor c) H vs"
    using Inv_parts(13) [OF g(6)] g(3,7) assms(3) unfolding inv_frz_def by (metis view_simps(1,11,12))
  then show "arrived w c packetPromise p" "p_From p = c_id c"
    using assms(2) promises_shape g(4) in_soup_own [OF assms(1), of p] by (auto simp: arrived_def)
qed

lemma send_pages_moves:
  assumes "promises_move w L" "\<And>c'. good w c' \<Longrightarrow> advances c c' \<Longrightarrow> (\<forall>p\<in>set ps. arrived w c' packetPromise p \<and> p_From p = c_id c' \<and> p \<in> set (c_frozen c'))"
  shows "moves w c (send_pages L to ps c) \<and> (\<forall>c'. good w c \<longrightarrow> send_pages L to ps c = Some c' \<longrightarrow> set ps \<subseteq> packets_of (c_out c'))"
  using assms
proof (induction ps arbitrary: c)
  case (Cons p ps)
  let ?e = "emit (if to = c_id c then Local p else Send to p) c"
  have 1: "moves w c (Some ?e)" if "good w c"
    using Cons.prems(2) [of c] that by (intro stays_moves [OF stays_emit_known [of _ p]]) (auto simp: ad.R_refl)
  have 2: "moves w ?e (Transport_Send L to p c) \<and> (\<forall>c'. Transport_Send L to p c = Some c' \<longrightarrow> p \<in> packets_of (c_out c'))" if "good w c"
  proof -
    note e = ad.runs_good [OF 1 [OF that] that]
    have "moves w ?e (Transport_Send L to p c)"
      using Cons.prems(1) Cons.prems(2) [of ?e] e by (auto simp: Transport_Send_def promises_move_def ad.runs_refl)
    moreover have "p \<in> packets_of (c_out ?e)" by simp
    ultimately show ?thesis using e by (fastforce simp: runs_def advances_def)
  qed
  have 3: "moves w c' (send_pages L to ps c') \<and> (\<forall>c''. send_pages L to ps c' = Some c'' \<longrightarrow> set (p # ps) \<subseteq> packets_of (c_out c''))"
    if g: "good w c" and c': "Transport_Send L to p c = Some c'" "good w c'" "advances c c'" for c'
  proof -
    have "p \<in> packets_of (c_out c')" using 2 [OF g] c' by blast
    moreover have m: "moves w c' (send_pages L to ps c') \<and> (\<forall>c''. good w c' \<longrightarrow> send_pages L to ps c' = Some c'' \<longrightarrow> set ps \<subseteq> packets_of (c_out c''))"
      by (rule Cons.IH [OF Cons.prems(1)]) (use Cons.prems(2) ad.R_trans [OF c'(3)] in auto)
    ultimately show ?thesis using c'(2) by (auto simp: runs_def advances_def)
  qed
  have m: "moves w c (Transport_Send L to p c)" by (rule ad.runsI) (use 1 2 ad.runs_trans in blast)
  have "moves w c (send_pages L to (p # ps) c)"
    by (rule ad.runsI, simp, rule ad.runs_bind [OF m]) (use 3 in blast)
  moreover have "set (p # ps) \<subseteq> packets_of (c_out c'')" if g: "good w c" and sp: "send_pages L to (p # ps) c = Some c''" for c''
  proof -
    obtain c' where c': "Transport_Send L to p c = Some c'" "send_pages L to ps c' = Some c''"
      using sp by (auto split: Option.bind_splits)
    then have "good w c'" "advances c c'" using m g ad.runs_good by auto
    then show ?thesis using 3 [OF g c'(1)] c'(2) by blast
  qed
  ultimately show ?case by blast
qed (simp add: ad.runs_refl)

text \<open>The frozen snapshot of the ballot, taken when the first Prepare of the ballot arrives.\<close>

definition frozen_for :: "packet \<Rightarrow> 'st core \<Rightarrow> 'st core" where
  "frozen_for p c = (if c_frozen c \<noteq> [] \<and> c_frozenBallot c = p_Ballot p \<and> c_frozenFloor c = p_Floor p then c
     else c\<lparr>c_frozen := snapshot c (p_Floor p), c_frozenBallot := p_Ballot p, c_frozenFloor := p_Floor p\<rparr>)"

lemma promise_eq: "promise L p c = send_pages L (p_From p) (c_frozen (frozen_for p c)) (frozen_for p c)"
  by (simp add: promise_def frozen_for_def Let_def)

lemma snapshot_pages: "snapshot c F = promise_pages (c_id c) (c_ballot c) F (c_high c) (suffix_of (view c) F)"
  by (simp add: snapshot_def promise_pages_def snapshot_values_def suffix_of_def snapshot_page_def promise_page_def Let_def)

lemma frozen_for_goes:
  assumes "flushed c" "arrived w c packetPrepare p"
  shows "goes w c (Some (frozen_for p c))"
proof (rule goesI)
  assume gd: "good w c"
  note g = good_facts [OF gd]
  have eq: "view (frozen_for p c) = freeze (w_id w) p (view c)"
    using assms(1) g(4) by (auto simp: view_def frozen_for_def freeze_def snapshot_pages flushed_def suffix_of_def Let_def)
  have "mstep (w_N w) (around w c) (w_id w) (view (frozen_for p c))"
    unfolding eq using m_freeze [of p "w_N w" "around w c" "w_id w"] assms(2) g(7) by (simp add: arrived_def in_soup_def)
  then show ?thesis
    using gd by (intro goes_step) (auto simp: good_def frozen_for_def requests_def intro: replayed_frame)
qed

lemma promise_goes:
  assumes "promises_move w L" "flushed c" "arrived w c packetPrepare p" "good w c"
  shows "goes w c (promise L p c)"
    and "promise L p c = Some c' \<Longrightarrow> flushed c' \<and> (own c \<longrightarrow> own c')"
proof -
  let ?c = "frozen_for p c"
  have 1: "goes w c (Some ?c)" by (rule frozen_for_goes [OF assms(2,3)])
  have g1: "good w ?c" using goes_Some [OF 1 assms(4)] by blast
  have b: "c_frozenBallot ?c = c_ballot ?c" "own ?c = own c"
    using assms(3) by (auto simp: frozen_for_def arrived_def own_def)
  have "\<forall>q\<in>set (c_frozen ?c). arrived w d packetPromise q \<and> p_From q = c_id d \<and> q \<in> set (c_frozen d)"
    if "good w d" "advances ?c d" for d
  proof
    fix q assume q: "q \<in> set (c_frozen ?c)"
    note a = frozen_promise [OF g1 q b(1)]
    have "arrived w d packetPromise q"
      using a(1) that(2) in_soup_mono [of w ?c q d] by (auto simp: arrived_def advances_def)
    then show "arrived w d packetPromise q \<and> p_From q = c_id d \<and> q \<in> set (c_frozen d)"
      using a(2) q that(2) good_facts(4) [OF g1] good_facts(4) [OF that(1)] by (simp add: advances_def)
  qed
  then have 2: "moves w ?c (promise L p c)" "\<And>c'. promise L p c = Some c' \<Longrightarrow> set (c_frozen ?c) \<subseteq> packets_of (c_out c')"
    using send_pages_moves [OF assms(1), of ?c "c_frozen ?c" "p_From p"] g1 unfolding promise_eq by blast+
  then show "goes w c (promise L p c)" using goes_trans [OF 1] by (simp add: runs_def)
  assume c': "promise L p c = Some c'"
  then have "good w c'" "advances ?c c'" using 2(1) ad.runs_good g1 by auto
  then show "flushed c' \<and> (own c \<longrightarrow> own c')"
    using 2(2) [OF c'] own_advances [OF g1] b(2) by (auto simp: flushed_def advances_def)
qed

subsection \<open>Receiving a packet\<close>

definition adopt :: "packet \<Rightarrow> 'st core \<Rightarrow> 'st core" where
  "adopt p c = c\<lparr>c_ballot := p_Ballot p, c_leader := p_From p, c_preparing := False, c_votes := []\<rparr>"

definition stays_ready :: "'st core \<Rightarrow> 'st core \<Rightarrow> bool" where
  "stays_ready c c' \<longleftrightarrow> (ready c \<longrightarrow> ready c')"

interpretation rd: run_relation stays_ready
  by unfold_locales (auto simp: stays_ready_def)

abbreviation serves :: "'st world \<Rightarrow> 'st core \<Rightarrow> 'st core option \<Rightarrow> bool" where
  "serves \<equiv> runs stays_ready"

lemma moves_serves: "moves w c res \<Longrightarrow> serves w c res"
  using own_advances flushed_advances goes_Some unfolding runs_def stays_ready_def ready_def by metis

lemma stays_serves: "stays w c res \<Longrightarrow> serves w c res"
  by (rule moves_serves [OF stays_moves])

lemma adopt_serves:
  assumes "in_soup w c p" "p_Kind p \<in> {packetPrepare, packetReady}" "c_ballot c < p_Ballot p"
  shows "serves w c (Some (adopt p c))"
proof (rule rd.runsI)
  assume gd: "good w c"
  note g = good_facts [OF gd]
  have eq: "view (adopt p c) = (view c)\<lparr>n_bal := p_Ballot p, n_lead := p_From p, n_prep := False, n_votes := (\<lambda>_. {})\<rparr>"
    by (simp add: view_def adopt_def)
  have "mstep (w_N w) (around w c) (w_id w) (view (adopt p c))"
    unfolding eq using m_adopt [of p "w_N w" "around w c" "w_id w"] assms g(7) by (simp add: in_soup_def)
  then have "goes w c (Some (adopt p c))"
    using gd by (intro goes_step) (auto simp: good_def adopt_def requests_def intro: replayed_frame)
  then show ?thesis by (auto simp: runs_def stays_ready_def ready_def own_def flushed_def adopt_def)
qed

lemma receive_body_ack:
  assumes "execute e = w_exec w" "arrived w c packetAck p"
  shows "stays w c (receive_body L e p c)"
  using ack_stays [OF assms] assms(2) by (simp add: receive_body_def arrived_def Let_def)

lemma receive_acks_stay:
  assumes "execute e = w_exec w"
  shows "acks_stay w (receive_ack e)" "acks_stay w (receive_promise e)" "acks_stay w (receive e)"
  using receive_body_ack [OF assms] by (auto simp: acks_stay_def receive_ack_def receive_promise_def receive_def)

lemma receive_promises_move:
  assumes "execute e = w_exec w"
  shows "promises_move w (receive_promise e)"
  unfolding promises_move_def
proof (intro allI impI)
  fix c p assume "arrived w c packetPromise p" "p_From p = c_id c"
  then show "moves w c (receive_promise e p c)"
    using promiseReply_moves [OF receive_acks_stay(1) [OF assms], of c p e]
    by (simp add: receive_promise_def receive_body_def arrived_def Let_def ad.runs_refl)
qed

text \<open>A Prepare of a ballot not below the replica's own.\<close>

lemma receive_prepare:
  assumes "execute e = w_exec w" "good w c" "flushed c" "in_soup w c p" "p_Kind p = packetPrepare"
  shows "goes w c (receive e p c)"
    and "receive e p c = Some c' \<Longrightarrow> flushed c' \<and> (own c \<longrightarrow> own c')"
proof -
  define c1 where "c1 = (if p_Ballot p > c_ballot c then adopt p c else c)\<lparr>c_active := False\<rparr>"
  have 1: "goes w c (Some (if p_Ballot p > c_ballot c then adopt p c else c))"
    using adopt_serves [OF assms(4)] assms(5) by (simp add: runs_def)
  then have 2: "goes w c (Some c1)"
    unfolding c1_def by (rule goes_trans) (rule goes_view, simp_all)
  have g1: "good w c1" using goes_Some [OF 2 assms(2)] by blast
  have f1: "flushed c1" "own c \<longrightarrow> own c1" using assms(3) by (auto simp: c1_def flushed_def own_def adopt_def)
  have s1: "in_soup w c1 p" by (rule goes_in_soup [OF 2 assms(2,4)])
  have "goes w c (receive e p c) \<and> (\<forall>c'. receive e p c = Some c' \<longrightarrow> flushed c' \<and> (own c \<longrightarrow> own c'))"
  proof (cases "p_From p < 0 \<or> p_From p \<ge> c_n c \<or> p_Ballot p < c_ballot c")
    case True
    then show ?thesis using assms(3,5) by (auto simp: receive_def receive_body_def)
  next
    case False
    then have b: "p_Ballot p = c_ballot c1" by (simp add: c1_def adopt_def)
    have "receive e p c = promise (receive_promise e) p c1"
      using False assms(5) by (simp add: receive_def receive_body_def c1_def adopt_def Let_def)
    moreover have "arrived w c1 packetPrepare p" using s1 b assms(5) by (simp add: arrived_def)
    ultimately show ?thesis
      using promise_goes [OF receive_promises_move [OF assms(1)] f1(1) _ g1] goes_trans [OF 2] f1(2) by metis
  qed
  then show "goes w c (receive e p c)" "receive e p c = Some c' \<Longrightarrow> flushed c' \<and> (own c \<longrightarrow> own c')" by blast+
qed

lemma commit_packet_serves:
  assumes "execute e = w_exec w" "good w c" "arrived w c packetCommit p"
  shows "stays w c (Option.bind (commit_loop (p_Records p) c) (apply_log e))"
proof (rule stays_bind)
  have np: "\<not> c_preparing c"
    using not_preparing [of "w_N w" "around w c" "w_id w" p] good_facts [OF assms(2)] assms(3) by (simp add: arrived_def in_soup_def)
  have "r_Committed r" if "r \<in> set (p_Records p)" for r
    using soup_owner(7) [OF Inv_parts(2) [OF good_facts(6) [OF assms(2)]], of p] assms(3) that by (simp add: arrived_def in_soup_def)
  then show "stays w c (commit_loop (p_Records p) c)"
    using commit_loop_stays [OF assms(2)] assms(3) by (auto simp: offered_def)
  show "stays w c' (apply_log e c')" if "keeps c c'" for c'
    using apply_log_stays [OF assms(1)] np keepsD(3) [OF that] by simp
qed

lemma ready_packet_stays:
  assumes "arrived w c packetReady p"
  shows "stays w c (Some (let c = (if p_Floor p = 1 \<and> \<not> c_active c then schedulePending e (c\<lparr>c_active := True\<rparr>) else c)
                in if p_High p > c_executed c then requestFetch (clock e) c else c))"
proof -
  define c1 where "c1 = (if p_Floor p = 1 \<and> \<not> c_active c then schedulePending e (c\<lparr>c_active := True\<rparr>) else c)"
  have 1: "stays w c (Some c1)" unfolding c1_def schedulePending_def by (auto intro!: stays_view)
  show ?thesis unfolding c1_def [symmetric] Let_def
    by (rule stays_trans [OF 1]) (use requestFetch_stays(1) [OF arrived_keeps [OF assms]] in auto)
qed

definition greet :: "packet \<Rightarrow> 'st core \<Rightarrow> 'st core" where
  "greet p c = (if p_Kind p = packetReady \<and> p_Ballot p > c_ballot c then (adopt p c)\<lparr>c_active := False\<rparr> else c)"

definition dispatch :: "'st deliver \<Rightarrow> 'st env \<Rightarrow> packet \<Rightarrow> 'st core \<Rightarrow> 'st core option" where
  "dispatch L e p c = (case p_Kind p of
      packetPromise \<Rightarrow> promiseReply L e p c
    | packetAccept \<Rightarrow> if p_From p = c_leader c then accept L e p c else Some c
    | packetAck \<Rightarrow> ack e p c
    | packetCommit \<Rightarrow> if p_From p \<noteq> c_leader c then Some c else Option.bind (commit_loop (p_Records p) c) (apply_log e)
    | packetReady \<Rightarrow> if p_From p \<noteq> c_leader c then Some c else
        Some (let c = (if p_Floor p = 1 \<and> \<not> c_active c then schedulePending e (c\<lparr>c_active := True\<rparr>) else c)
          in if p_High p > c_executed c then requestFetch (clock e) c else c)
    | packetFetch \<Rightarrow> if c_leader c = c_id c then sendSuffix L e (p_From p) (p_Floor p) True c else Some c
    | packetForward \<Rightarrow> if c_id c = c_leader c \<and> c_active c then Some (fold submit (p_Requests p) c) else Some c
    | _ \<Rightarrow> Some c)"

lemma receive_body_eq:
  assumes "p_Kind p \<noteq> packetPrepare" "0 \<le> p_From p" "p_From p < c_n c"
  shows "receive_body L e p c = (if p_Ballot p \<noteq> c_ballot (greet p c) then Some (greet p c) else dispatch L e p (greet p c))"
proof -
  have g: "greet p c = (if p_Kind p = packetReady \<and> p_Ballot p > c_ballot c
      then c\<lparr>c_ballot := p_Ballot p, c_leader := p_From p, c_preparing := False, c_active := False, c_votes := []\<rparr> else c)"
    by (simp add: greet_def adopt_def)
  show ?thesis
    unfolding receive_body_def g [symmetric] dispatch_def
    using assms by (cases "p_Kind p") (simp_all add: Let_def)
qed

lemma dispatch_serves:
  assumes "execute e = w_exec w" "arrived w c (p_Kind p) p" "ready c" "good w c" "acks_stay w L" "p_Kind p \<noteq> packetPrepare"
  shows "serves w c (dispatch L e p c)"
proof (cases "p_Kind p")
  case packetPromise
  then show ?thesis
    using promiseReply_moves [OF assms(5), of c p e] assms(2,3) by (simp add: moves_serves ready_def dispatch_def)
next
  case packetAccept
  then show ?thesis using accept_stays [OF assms(5), of c p e] assms(2) by (simp add: stays_serves rd.runs_refl dispatch_def)
next
  case packetAck
  then show ?thesis using ack_stays [OF assms(1), of c p] assms(2) by (simp add: stays_serves dispatch_def)
next
  case packetCommit
  then show ?thesis
    using commit_packet_serves [OF assms(1,4), of p] assms(2) by (simp add: stays_serves rd.runs_refl dispatch_def)
next
  case packetReady
  then show ?thesis using ready_packet_stays [of w c p e] assms(2) by (simp add: stays_serves rd.runs_refl dispatch_def)
next
  case packetFetch
  have "\<not> c_preparing c"
    using not_preparing [of "w_N w" "around w c" "w_id w" p] good_facts [OF assms(4)] assms(2) packetFetch by (simp add: arrived_def in_soup_def)
  then have "stays w c (sendSuffix L e (p_From p) (p_Floor p) True c)" if "c_leader c = c_id c"
    using sendSuffix_stays [OF assms(5)] assms(4) that by (simp add: leading_def)
  then show ?thesis using packetFetch by (simp add: stays_serves rd.runs_refl dispatch_def)
next
  case packetForward
  then show ?thesis using submits_stay [of w c "p_Requests p"] by (simp add: stays_serves rd.runs_refl dispatch_def)
qed (use assms(6) in \<open>simp_all add: rd.runs_refl dispatch_def\<close>)

lemma greet_serves: "in_soup w c p \<Longrightarrow> serves w c (Some (greet p c))"
proof (cases "p_Kind p = packetReady \<and> p_Ballot p > c_ballot c")
  case True
  assume "in_soup w c p"
  then have a: "serves w c (Some (adopt p c))" using adopt_serves [of w c p] True by simp
  have "stays w (adopt p c) (Some ((adopt p c)\<lparr>c_active := False\<rparr>))" by (rule stays_view) simp_all
  then show ?thesis using True rd.runs_trans [OF a stays_serves] by (simp add: greet_def)
qed (auto simp: greet_def rd.runs_refl)

lemma receive_serves:
  assumes "execute e = w_exec w" "in_soup w c p" "ready c"
  shows "serves w c (receive e p c)"
proof (rule rd.runsI)
  assume gd: "good w c"
  show ?thesis
  proof (cases "p_Kind p = packetPrepare")
    case True
    then show ?thesis
      using receive_prepare [OF assms(1) gd _ assms(2)] assms(3) by (auto simp: runs_def stays_ready_def ready_def)
  next
    case np: False
    let ?c = "greet p c"
    note 1 = greet_serves [OF assms(2)]
    have g1: "good w ?c" "ready ?c" using rd.runs_good [OF 1 gd] assms(3) by (auto simp: stays_ready_def)
    have s1: "in_soup w ?c p" using goes_in_soup [OF _ gd assms(2), of ?c] 1 by (simp add: runs_def)
    have "0 \<le> p_From p" "p_From p < c_n c"
      using arrived_owner(1) [OF gd assms(2)] good_facts(5) [OF gd] by (simp_all add: replicas_def)
    note eq = receive_body_eq [OF np this, of "receive_promise e" e]
    have "serves w ?c (dispatch (receive_promise e) e p ?c)" if "p_Ballot p = c_ballot ?c"
      by (rule dispatch_serves [OF assms(1) _ g1(2,1) receive_acks_stay(2) [OF assms(1)] np])
        (use s1 that in \<open>simp add: arrived_def\<close>)
    then have 2: "serves w ?c (receive e p c)" unfolding receive_def eq by (simp add: rd.runs_refl)
    show ?thesis using rd.runs_trans [OF 1 2] .
  qed
qed

end
