(* ===== verification/PaxosTimers.thy ===== *)
theory PaxosTimers
  imports PaxosRecovery
begin

text \<open>
  \<open>begin\<close>, \<open>flush\<close> and \<open>tick\<close>. A replica that starts an election sends itself its own promise before
  it does anything else, so that the recovered suffix covers its own log.
\<close>

subsection \<open>A candidate's own promise\<close>

definition own_page :: "'st core \<Rightarrow> int \<Rightarrow> logrec list \<Rightarrow> nat \<Rightarrow> packet" where
  "own_page c H vs k = promise_page (c_id c) (c_ballot c) (c_executed c + 1) H vs k"

definition collecting :: "int \<Rightarrow> logrec list \<Rightarrow> nat \<Rightarrow> 'st core \<Rightarrow> bool" where
  "collecting H vs k c \<longleftrightarrow> c_preparing c \<and> c_leader c = c_id c \<and> 3 \<le> c_n c \<and> 0 \<le> c_id c \<and> c_id c < c_n c \<and> c_promises c = [] \<and>
     map_of (mgetd [] (c_pages c) (c_id c)) = (\<lambda>j. if 0 \<le> j \<and> j < int k then Some (own_page c H vs (nat j)) else None)"

lemma own_page_stored:
  assumes "collecting H vs k c"
  shows "map_of (mgetd [] (c_pages (store_page (own_page c H vs k) c)) (c_id c)) =
    (\<lambda>j. if 0 \<le> j \<and> j < int (Suc k) then Some (own_page c H vs (nat j)) else None)"
  using assms by (auto simp: collecting_def store_page_def own_page_def fun_eq_iff)

lemma own_page_complete:
  assumes "collecting H vs k c" "k < page_count (length vs)"
  shows "complete (own_page c H vs k) (store_page (own_page c H vs k) c) \<longleftrightarrow> Suc k = page_count (length vs)"
proof -
  let ?c = "store_page (own_page c H vs k) c" and ?n = "page_count (length vs)"
  note st = own_page_stored [OF assms(1)]
  have from_id: "p_From (own_page c H vs k) = c_id c" "p_Pages (own_page c H vs k) = int ?n" by (simp_all add: own_page_def)
  have "dom (map_of (mgetd [] (c_pages ?c) (c_id c))) = {0..<int (Suc k)}" unfolding st by (auto split: if_splits)
  then have len: "mlen (mgetd [] (c_pages ?c) (c_id c)) = Suc k" by (simp add: mlen_card)
  have ex: "c_executed ?c = c_executed c" by (simp add: store_page_def)
  show ?thesis
    unfolding complete_def pages_complete_def from_id len ex st by (auto simp: own_page_def)
qed

lemma own_page_received:
  assumes "collecting H vs k c" "k < page_count (length vs)" "Transport_Send (receive_promise e) (c_id c) (own_page c H vs k) c = Some c'"
  shows "if Suc k = page_count (length vs) then c_id c' = c_id c \<and> c_id c \<in> dom (map_of (c_promises c'))
    else collecting H vs (Suc k) c' \<and> c_id c' = c_id c \<and> own_page c' = own_page c"
proof -
  let ?p = "own_page c H vs k"
  define d where "d = emit (Local ?p) c"
  have same: "own_page d = own_page c" "c_id d = c_id c" by (auto simp: own_page_def d_def fun_eq_iff)
  have col: "collecting H vs k d" using assms(1) same(1) by (simp add: collecting_def d_def cong: if_cong)
  have p: "p_Kind ?p = packetPromise" "p_From ?p = c_id d" "p_Page ?p = int k" "p_Pages ?p = int (page_count (length vs))" "p_Ballot ?p = c_ballot d"
    by (simp_all add: own_page_def d_def)
  have "receive_promise e ?p d = promiseReply (receive_ack e) e ?p d"
    unfolding receive_promise_def using receive_body_eq [of ?p d "receive_ack e" e] p col
    by (simp add: greet_def dispatch_def collecting_def)
  then have c': "promiseReply (receive_ack e) e ?p d = Some c'" using assms(3) by (simp add: Transport_Send_def d_def)
  have comp: "complete ?p (store_page ?p d) \<longleftrightarrow> Suc k = page_count (length vs)"
    using own_page_complete [OF col assms(2)] same by simp
  show ?thesis
  proof (cases "Suc k = page_count (length vs)")
    case True
    have "3 \<le> c_n d" using col by (simp add: collecting_def)
    then have "1 \<le> c_n d div 2" by linarith
    then have "c' = add_promise (c_id d) (store_page ?p d)"
      using c' comp True p col by (simp add: promiseReply_eq collecting_def add_promise_def store_page_def mlen_def mkeys_def Let_def)
    then show ?thesis using True same by (simp add: add_promise_def store_page_def)
  next
    case False
    then have d': "c' = store_page ?p d" using c' comp p col assms(2) by (simp add: promiseReply_eq collecting_def)
    have op: "own_page (store_page ?p d) = own_page d" by (simp add: own_page_def store_page_def fun_eq_iff)
    have pg: "map_of (mgetd [] (c_pages (store_page ?p d)) (c_id d)) =
        (\<lambda>j. if 0 \<le> j \<and> j < int (Suc k) then Some (own_page d H vs (nat j)) else None)"
      using own_page_stored [OF col] by (simp only: same(1))
    have "collecting H vs (Suc k) c'"
      using col pg op unfolding collecting_def d' by (simp add: store_page_def cong: if_cong)
    moreover have "own_page c' = own_page c" using same op d' by simp
    ultimately show ?thesis using False same by (simp add: d' store_page_def)
  qed
qed

lemma own_promise:
  assumes "collecting H vs k c" "k < page_count (length vs)"
    and "send_pages (receive_promise e) (c_id c) (map (own_page c H vs) [k..<page_count (length vs)]) c = Some c'"
  shows "c_id c \<in> dom (map_of (c_promises c'))"
  using assms
proof (induction "page_count (length vs) - k" arbitrary: k c)
  case (Suc d)
  let ?n = "page_count (length vs)"
  obtain c1 where c1: "Transport_Send (receive_promise e) (c_id c) (own_page c H vs k) c = Some c1"
    "send_pages (receive_promise e) (c_id c) (map (own_page c H vs) [Suc k..<?n]) c1 = Some c'"
    using Suc.prems by (auto simp: upt_conv_Cons split: Option.bind_splits)
  note r = own_page_received [OF Suc.prems(1,2) c1(1)]
  show ?case
  proof (cases "Suc k = ?n")
    case True
    then show ?thesis using r c1(2) by simp
  next
    case False
    then show ?thesis using r c1(2) Suc.hyps(1) [of "Suc k" c1] Suc.hyps(2) Suc.prems(2) by simp
  qed
qed simp

subsection \<open>Starting an election\<close>

lemma snapshot_nonempty: "snapshot c F \<noteq> []"
  using page_count_pos [of "length (snapshot_values F c)"] by (simp add: snapshot_def Let_def)

definition candidate :: "time \<Rightarrow> 'st core \<Rightarrow> 'st core" where
  "candidate now c = c\<lparr>c_ballot := (go_div (c_ballot c) (c_n c) + 1) * c_n c + c_id c, c_leader := c_id c,
     c_active := False, c_preparing := True, c_recoveries := c_recoveries c + 1, c_pages := [],
     c_promises := [], c_votes := [], c_lastSend := now\<rparr>"

definition prepare_packet :: "'st core \<Rightarrow> packet" where
  "prepare_packet c = (Packet packetPrepare (c_id c) (c_ballot c))\<lparr>p_Floor := c_executed c + 1\<rparr>"

lemma Begin_eq: "Begin e now c = receive e (prepare_packet (candidate now c)) (emit (Broadcast (prepare_packet (candidate now c))) (candidate now c))"
  by (simp add: Begin_def candidate_def prepare_packet_def Let_def)

lemma candidate_goes: "goes w c (Some (emit (Broadcast (prepare_packet (candidate now c))) (candidate now c)))"
proof (rule goesI)
  assume gd: "good w c"
  note g = good_facts [OF gd]
  let ?c = "emit (Broadcast (prepare_packet (candidate now c))) (candidate now c)"
  have "0 \<le> n_bal (around w c (w_id w))" using Inv_parts(1) [OF g(6)] g(3) unfolding inv_ids_def by blast
  then have b: "0 \<le> c_ballot c" using g(7) by simp
  define b where "b = (n_bal (view c) div w_N w + 1) * w_N w + w_id w"
  have eq: "view ?c = (view c)\<lparr>n_bal := b, n_lead := w_id w, n_prep := True, n_pages := (\<lambda>_. Map.empty), n_prom := {},
     n_votes := (\<lambda>_. {}), n_sent := insert ((Packet packetPrepare (w_id w) b)\<lparr>p_Floor := n_exec (view c) + 1\<rparr>) (n_sent (view c))\<rparr>"
    using b g(1,4,5) by (simp add: view_def emit_def candidate_def prepare_packet_def b_def)
  have "mstep (w_N w) (around w c) (w_id w) (view ?c)"
    unfolding eq using m_begin [OF refl refl, of "w_N w" "around w c" "w_id w"] g(7) by (simp add: b_def)
  then show ?thesis
    using gd by (intro goes_step) (auto simp: good_def candidate_def requests_def intro: replayed_frame)
qed

lemma Begin_serves:
  assumes "execute e = w_exec w" "ready c"
  shows "serves w c (Begin e now c)"
proof (rule rd.runsI)
  assume gd: "good w c"
  define d where "d = emit (Broadcast (prepare_packet (candidate now c))) (candidate now c)"
  define p where "p = prepare_packet (candidate now c)"
  have 1: "goes w c (Some d)" unfolding d_def by (rule candidate_goes)
  then have gd1: "good w d" using goes_Some gd by blast
  note g = good_facts [OF gd1]
  have d: "c_preparing d" "c_leader d = c_id d" "c_promises d = []" "c_pages d = []" "c_frozen d = c_frozen c" "c_out d = c_out c @ [Broadcast p]"
    by (simp_all add: d_def candidate_def p_def)
  have p: "p_Kind p = packetPrepare" "p_Ballot p = c_ballot d" "p_From p = c_id d" "p_Floor p = c_executed d + 1"
    by (simp_all add: p_def prepare_packet_def Packet_def d_def)
  have f: "flushed d" using assms(2) d by (auto simp: flushed_def ready_def)
  have s: "in_soup w d p" using in_soup_own [OF gd1, of p] d by simp
  note rp = receive_prepare [OF assms(1) gd1 f s p(1)]
  have eq: "Begin e now c = receive e p d" unfolding Begin_eq d_def p_def ..
  have "own c'" if c': "receive e p d = Some c'" for c'
  proof -
    define d1 where "d1 = d\<lparr>c_active := False\<rparr>"
    define d2 where "d2 = frozen_for p d1"
    have r: "receive e p d = send_pages (receive_promise e) (c_id d) (c_frozen d2) d2"
      using p g(3,4,5) by (simp add: receive_def receive_body_def d1_def [symmetric] promise_eq d2_def replicas_def)
    have 2: "goes w d (Some d1)" unfolding d1_def by (rule goes_view) simp_all
    have a1: "arrived w d1 packetPrepare p" using goes_in_soup [OF 2 gd1 s] p by (simp add: arrived_def d1_def)
    have "goes w d1 (Some d2)" unfolding d2_def by (rule frozen_for_goes [OF _ a1]) (use f in \<open>simp add: flushed_def d1_def\<close>)
    then have g2: "good w d2" using goes_Some goes_Some [OF 2 gd1] by blast
    note g' = good_facts [OF g2]
    have f2: "c_frozenBallot d2 = c_ballot d2" "c_frozenFloor d2 = c_executed d2 + 1" "c_frozen d2 \<noteq> []" "c_id d2 = c_id d"
      "collecting H vs 0 d2" for H vs
      using p d g(1,3,4,5) snapshot_nonempty by (auto simp: d2_def frozen_for_def d1_def collecting_def replicas_def)
    have "\<exists>H vs. n_frz (view d2) = promise_pages (w_id w) (c_ballot d2) (c_frozenFloor d2) H vs"
      using Inv_parts(13) [OF g'(6)] g'(3,7) f2(1,3) unfolding inv_frz_def by (metis view_simps(1,10,11,12))
    moreover have "own_page d2 H vs = promise_page (w_id w) (c_ballot d2) (c_frozenFloor d2) H vs" for H vs
      using f2(2) g'(4) by (simp add: own_page_def fun_eq_iff)
    ultimately obtain H vs where "c_frozen d2 = map (own_page d2 H vs) [0..<page_count (length vs)]"
      by (auto simp: promise_pages_def)
    then have "c_id d2 \<in> dom (map_of (c_promises c'))"
      using own_promise [OF f2(5), of vs e H c'] c' r f2(4) by simp
    moreover have "c_id c' = c_id d2" using goes_Some [OF rp(1)[unfolded c'] gd1] good_facts(4) g'(4) by metis
    ultimately show "own c'" by (simp add: own_def)
  qed
  then show ?thesis using goes_trans [OF 1 rp(1)] rp(2) unfolding eq by (auto simp: runs_def stays_ready_def ready_def)
qed

subsection \<open>Flushing the queue\<close>

definition new_record :: "request \<Rightarrow> 'st core \<Rightarrow> logrec" where
  "new_record r c = \<lparr>r_Slot = c_high c + 1, r_Ballot = c_ballot c, r_Request = r, r_Committed = False\<rparr>"

definition append_record :: "request \<Rightarrow> 'st core \<Rightarrow> 'st core" where
  "append_record r c = c\<lparr>c_high := c_high c + 1, c_log := mput (c_high c + 1) (new_record r c) (c_log c),
     c_assigned := mput (req_ID r) (c_high c + 1) (c_assigned c)\<rparr>"

lemma append_record_stays:
  assumes "leading w c" "good w c"
  shows "stays w c (Some (append_record r c))"
proof -
  note g = good_facts [OF assms(2)]
  have eq: "view (append_record r c) = (view c)\<lparr>n_log := (n_log (view c))(n_high (view c) + 1 \<mapsto>
      \<lparr>r_Slot = n_high (view c) + 1, r_Ballot = n_bal (view c), r_Request = r, r_Committed = False\<rparr>), n_high := n_high (view c) + 1\<rparr>"
    by (simp add: view_def append_record_def new_record_def)
  have step: "mstep (w_N w) (around w c) (w_id w) (view (append_record r c))"
    unfolding eq using m_flush [of "around w c" "w_id w" "n_high (view c) + 1" "w_N w" r] assms(1) g(4,7) by (simp add: leading_def)
  have rq: "requests (append_record r c) s = requests c s" if s: "0 \<le> s" "s \<le> c_executed c" for s
  proof -
    obtain l where "mget (c_log c) s = Some l" using executed_committed [OF assms(2) s] by blast
    then have "s \<le> c_high c" using log_factsD(3) [OF g(6,3), of s l] g(7) by simp
    then show ?thesis by (simp add: requests_def append_record_def)
  qed
  have "replayed (w_exec w) (w_app w) c" using assms(2) by (simp add: good_def)
  then have "replayed (w_exec w) (w_app w) (append_record r c)"
    by (rule replayed_frame [OF _ _ _ _ rq]) (simp_all add: append_record_def)
  then have "goes w c (Some (append_record r c))" using step by (intro goes_step) (simp_all add: append_record_def)
  then show ?thesis by (simp add: runs_def keeps_def role_def append_record_def)
qed

definition listed :: "logrec list \<Rightarrow> 'st core \<Rightarrow> bool" where
  "listed rs c \<longleftrightarrow> (\<forall>r\<in>set rs. mget (c_log c) (r_Slot r) = Some r \<and> r_Ballot r = c_ballot c)"

definition dequeue :: "request_id \<Rightarrow> request_id list \<Rightarrow> 'st core \<Rightarrow> 'st core" where
  "dequeue rid q c = c\<lparr>c_queue := q, c_queued := mdel rid (c_queued c)\<rparr>"

lemma dequeue_simps [simp]:
  "view (dequeue rid q c) = view c" "c_id (dequeue rid q c) = c_id c" "c_n (dequeue rid q c) = c_n c" "c_app (dequeue rid q c) = c_app c"
  "c_values (dequeue rid q c) = c_values c" "c_promises (dequeue rid q c) = c_promises c" "c_out (dequeue rid q c) = c_out c"
  "listed rs (dequeue rid q c) = listed rs c" "c_queue (dequeue rid q c) = q"
  by (simp_all add: dequeue_def listed_def)

lemma flush_loop_cases:
  obtains (stop) "flush_loop c rs = (c, rs)"
  | (skip) rid q where "c_queue c = rid # q" "flush_loop c rs = flush_loop (dequeue rid q c) rs"
  | (append) rid q r where "c_queue c = rid # q" "mget (c_pending c) rid = Some r"
      "flush_loop c rs = flush_loop ((append_record r (dequeue rid q c))\<lparr>c_assigned := mput rid (c_high c + 1) (c_assigned c)\<rparr>)
         (rs @ [new_record r (dequeue rid q c)])"
proof (cases "c_queue c")
  case Nil
  then have "flush_loop c rs = (c, rs)" by (subst flush_loop.simps) simp
  then show ?thesis by (rule stop)
next
  case (Cons rid q)
  show ?thesis
  proof (cases "int (length rs) < PageSize \<and> c_high c - c_executed c < AdmissionWindow")
    case False
    then have "flush_loop c rs = (c, rs)" using Cons by (subst flush_loop.simps) auto
    then show ?thesis by (rule stop)
  next
    case True
    show ?thesis
    proof (cases "mget (c_assigned c) rid = None \<and> mget (c_values c) rid = None \<and> mget (c_pending c) rid \<noteq> None")
      case False
      then have "flush_loop c rs = flush_loop (dequeue rid q c) rs"
        using True Cons by (subst flush_loop.simps) (auto simp: dequeue_def Let_def split: option.split)
      then show ?thesis by (rule skip [OF Cons])
    next
      case app: True
      then obtain r where r: "mget (c_pending c) rid = Some r" by blast
      then have "flush_loop c rs = flush_loop ((append_record r (dequeue rid q c))\<lparr>c_assigned := mput rid (c_high c + 1) (c_assigned c)\<rparr>)
         (rs @ [new_record r (dequeue rid q c)])"
        using True Cons app by (subst flush_loop.simps) (simp add: dequeue_def append_record_def new_record_def Let_def)
      then show ?thesis by (rule append [OF Cons r])
    qed
  qed
qed

lemma listed_append:
  assumes "good w c" "listed rs c"
  shows "listed (rs @ [new_record r c]) (append_record r c)"
proof -
  have "r_Slot l \<le> c_high c" if "l \<in> set rs" for l
    using assms(2) that log_factsD(3) [of "w_N w" "around w c" "w_id w" "r_Slot l" l] good_facts [OF assms(1)] by (simp add: listed_def)
  then show ?thesis using assms(2) by (fastforce simp: listed_def append_record_def new_record_def)
qed

lemma flush_loop_stays:
  assumes "leading w c" "listed rs c"
  shows "stays w c (Some (fst (flush_loop c rs))) \<and> listed (snd (flush_loop c rs)) (fst (flush_loop c rs))"
  using assms
proof (induction "length (c_queue c)" arbitrary: c rs)
  case 0
  then show ?case by (subst (1 2 3) flush_loop.simps) auto
next
  case (Suc n)
  show ?case
  proof (rule flush_loop_cases [of c rs])
    fix rid q assume q: "c_queue c = rid # q" and eq: "flush_loop c rs = flush_loop (dequeue rid q c) rs"
    have s: "stays w c (Some (dequeue rid q c))" by (rule stays_view) simp_all
    then have "leading w (dequeue rid q c)" using leading_stays Suc.prems(1) by blast
    then show ?thesis using Suc.hyps(1) [of "dequeue rid q c" rs] Suc.hyps(2) Suc.prems(2) q eq stays_trans [OF s] by simp
  next
    fix rid q r
    let ?d = "dequeue rid q c"
    let ?e = "(append_record r ?d)\<lparr>c_assigned := mput rid (c_high c + 1) (c_assigned c)\<rparr>"
    assume q: "c_queue c = rid # q" and eq: "flush_loop c rs = flush_loop ?e (rs @ [new_record r ?d])"
    have s1: "stays w c (Some ?d)" by (rule stays_view) simp_all
    have g1: "leading w ?d" by (rule leading_stays [OF s1 Suc.prems(1)])
    then have g2: "good w ?d" by (simp add: leading_def)
    have s2: "stays w ?d (Some (append_record r ?d))" by (rule append_record_stays [OF g1 g2])
    have s3: "stays w (append_record r ?d) (Some ?e)" by (rule stays_view) simp_all
    have s: "stays w c (Some ?e)" using stays_trans [OF s1 stays_trans [OF s2 s3]] .
    have l: "leading w ?e" by (rule leading_stays [OF s Suc.prems(1)])
    have "listed (rs @ [new_record r ?d]) (append_record r ?d)" using listed_append [OF g2, of rs r] Suc.prems(2) by simp
    then have "listed (rs @ [new_record r ?d]) ?e" by (simp add: listed_def)
    then show ?thesis
      using Suc.hyps(1) [OF _ l] Suc.hyps(2) q stays_trans [OF s] unfolding eq by (simp add: append_record_def dequeue_def)
  qed (use Suc.prems in simp)
qed

lemma flush_stays:
  assumes "acks_stay w L" "leading w c"
  shows "stays w c (flush L e c)"
proof -
  define c1 rs where "c1 = fst (flush_loop c [])" and "rs = snd (flush_loop c [])"
  have f: "stays w c (Some c1)" "listed rs c1" using flush_loop_stays [OF assms(2), of "[]"] by (auto simp: c1_def rs_def listed_def)
  have l1: "leading w c1" by (rule leading_stays [OF f(1) assms(2)])
  let ?p = "(Packet packetAccept (c_id c1) (c_ballot c1))\<lparr>p_Records := rs\<rparr>"
  have s2: "stays w c1 (Some (emit (Broadcast ?p) c1))"
    by (rule leader_emits [OF l1 _ _ _ carries_simps(2)]) (use f(2) in \<open>auto simp: Packet_def listed_def\<close>)
  have s3: "stays w (emit (Broadcast ?p) c1) (accept L e ?p (emit (Broadcast ?p) c1))" if g: "good w (emit (Broadcast ?p) c1)"
    by (rule accept_stays [OF assms(1)]) (use in_soup_own [OF g, of ?p] in \<open>simp add: arrived_def Packet_def\<close>)
  have "flush L e c = (if c_high c - c_executed c \<ge> AdmissionWindow then Some c else if rs = [] then Some c1
    else accept L e ?p (emit (Broadcast ?p) c1))"
    by (simp add: flush_def c1_def rs_def case_prod_beta Let_def)
  then show ?thesis using f(1) stays_trans [OF f(1) stays_trans [OF s2 s3]] by simp
qed

subsection \<open>The timer\<close>

lemma resume_loop_stays: "stays w c (Some (resume_loop k c))"
proof (induction k arbitrary: c)
  case (Suc k)
  show ?case
  proof (cases "c_resume c")
    case (Cons r rs)
    let ?c = "c\<lparr>c_resume := rs\<rparr>"
    have 1: "stays w c (Some ?c)" by (rule stays_view) simp_all
    have 2: "stays w ?c (Some (if mget (c_pending ?c) (req_ID r) \<noteq> None then submit r ?c else ?c))"
      using submit_stays by auto
    show ?thesis using stays_trans [OF 1 stays_trans [OF 2 Suc.IH]] Cons by (simp add: Let_def)
  qed simp
qed simp

lemma tick_leader_stays:
  assumes "execute e = w_exec w" "leading w c"
  shows "stays w c (tick_leader e now c)"
proof -
  note acks = receive_acks_stay(3) [OF assms(1)]
  define c1 where "c1 = (if \<not> c_active c \<and> c_executed c \<ge> c_recoveryEnd c then activate e c else c)"
  have s1: "stays w c (Some c1)" using activate_stays [OF assms(2)] by (simp add: c1_def)
  have l1: "leading w c1" by (rule leading_stays [OF s1 assms(2)])
  have s2: "stays w c1 (if c_active c1 then flush (receive e) e c1 else Some c1)" using flush_stays [OF acks l1] by simp
  have s3: "stays w c2 (if time_sub now (c_lastSend c2) \<ge> 200 * Millisecond
     then let c = c2\<lparr>c_lastSend := now\<rparr>; c = emit (Broadcast ((Packet packetReady (c_id c) (c_ballot c))
                 \<lparr>p_High := c_executed c, p_Floor := boolInt (c_active c)\<rparr>)) c
       in sendSuffix (receive e) e (c_id c) (c_executed c + 1) False c
     else Some c2)" if "good w c2" "keeps c1 c2" for c2
  proof -
    let ?d = "c2\<lparr>c_lastSend := now\<rparr>"
    let ?x = "Broadcast ((Packet packetReady (c_id ?d) (c_ballot ?d))\<lparr>p_High := c_executed ?d, p_Floor := boolInt (c_active ?d)\<rparr>)"
    have t1: "stays w c2 (Some ?d)" by (rule stays_view) simp_all
    have ld: "leading w ?d" using stays_good [OF t1 that(1)] leading_keeps [OF l1] keeps_trans [OF that(2)] by blast
    have t2: "stays w ?d (Some (emit ?x ?d))" by (rule leader_emits [OF ld _ _ _ carries_simps(2)]) (simp_all add: Packet_def)
    have le: "leading w (emit ?x ?d)" by (rule leading_stays [OF t2 ld])
    show ?thesis using stays_trans [OF t1 stays_trans [OF t2 sendSuffix_stays [OF acks le]]] by (simp add: Let_def)
  qed
  have "tick_leader e now c = Option.bind (if c_active c1 then flush (receive e) e c1 else Some c1)
    (\<lambda>c2. if time_sub now (c_lastSend c2) \<ge> 200 * Millisecond
     then let c = c2\<lparr>c_lastSend := now\<rparr>; c = emit (Broadcast ((Packet packetReady (c_id c) (c_ballot c))
                 \<lparr>p_High := c_executed c, p_Floor := boolInt (c_active c)\<rparr>)) c
       in sendSuffix (receive e) e (c_id c) (c_executed c + 1) False c
     else Some c2)"
    by (simp add: tick_leader_def c1_def Let_def)
  then show ?thesis using stays_trans [OF s1 stays_bind [OF s2 s3]] by simp
qed

lemma resend_prepare_serves:
  assumes "execute e = w_exec w" "ready c" "c_preparing c"
  shows "serves w c (let c = c\<lparr>c_lastSend := now\<rparr>; p = (Packet packetPrepare (c_id c) (c_ballot c))\<lparr>p_Floor := c_executed c + 1\<rparr>
          in receive e p (emit (Broadcast p) c))"
proof (rule rd.runsI)
  assume gd: "good w c"
  let ?c = "c\<lparr>c_lastSend := now\<rparr>"
  let ?p = "prepare_packet ?c"
  have 1: "stays w c (Some ?c)" by (rule stays_view) simp_all
  have g1: "good w ?c" using stays_good [OF 1 gd] by blast
  have "c_leader c = c_id c"
    using Inv_parts(1) [OF good_facts(6) [OF gd]] good_facts(3,4,7) [OF gd] assms(3) unfolding inv_ids_def by (metis view_simps(2,3))
  then have "emittable (w_N w) (around w ?c) (w_id w) ?p"
    using assms(3) good_facts(4,7) [OF g1] by (simp add: emittable_def prepare_packet_def Packet_def)
  then have 2: "stays w ?c (Some (emit (Broadcast ?p) ?c))" by (rule stays_emit [OF carries_simps(2)])
  have 3: "serves w c (Some (emit (Broadcast ?p) ?c))" using stays_serves [OF stays_trans [OF 1 2]] .
  have "in_soup w (emit (Broadcast ?p) ?c) ?p" if "good w (emit (Broadcast ?p) ?c)" using in_soup_own [OF that, of ?p] by simp
  then have "serves w (emit (Broadcast ?p) ?c) (receive e ?p (emit (Broadcast ?p) ?c))" if "good w (emit (Broadcast ?p) ?c)" "ready (emit (Broadcast ?p) ?c)"
    using receive_serves [OF assms(1)] that by blast
  then show ?thesis using rd.runs_trans [OF 3] assms(2) by (simp add: stays_ready_def prepare_packet_def Let_def)
qed

lemma tick_serves:
  assumes "execute e = w_exec w" "ready c" "int (length alive) = w_N w"
  shows "serves w c (tick e now alive c)"
proof (rule rd.runsI)
  assume gd: "good w c"
  note g = good_facts [OF gd]
  have "n_lead (around w c (w_id w)) = n_bal (around w c (w_id w)) mod w_N w" using Inv_parts(1) [OF g(6)] g(3) unfolding inv_ids_def by blast
  then have "c_leader c = c_ballot c mod w_N w" using g(7) by simp
  then have al: "slice_get alive (c_leader c) = Some (alive ! nat (c_leader c))" using g(1) assms(3) by (simp add: slice_get_def)
  define elect where "elect = (if \<not> alive ! nat (c_leader c) \<and> first_alive alive = c_id c \<and> \<not> c_preparing c then Begin e now c else Some c)"
  have 1: "serves w c elect" using Begin_serves [OF assms(1,2)] by (simp add: elect_def rd.runs_refl)
  have 2: "serves w c1 (let c = (if c_active c1 then resume_loop (nat PageSize) c1 else c1) in
     if c_preparing c then
       (if time_sub now (c_lastSend c) \<ge> Second
        then let c = c\<lparr>c_lastSend := now\<rparr>; p = (Packet packetPrepare (c_id c) (c_ballot c))\<lparr>p_Floor := c_executed c + 1\<rparr>
          in receive e p (emit (Broadcast p) c)
        else Some c)
     else if c_leader c = c_id c then tick_leader e now c
     else Some c)" if "good w c1" "ready c1" for c1
  proof -
    define c2 where "c2 = (if c_active c1 then resume_loop (nat PageSize) c1 else c1)"
    have s: "serves w c1 (Some c2)" by (simp add: c2_def rd.runs_refl stays_serves [OF resume_loop_stays])
    have c2: "good w c2" "ready c2" using rd.runs_good [OF s that(1)] that(2) by (auto simp: stays_ready_def)
    have "serves w c2 (tick_leader e now c2)" if "\<not> c_preparing c2" "c_leader c2 = c_id c2"
      using tick_leader_stays [OF assms(1)] that c2(1) by (intro stays_serves) (simp add: leading_def)
    then show ?thesis unfolding c2_def [symmetric] Let_def [of c2]
      using resend_prepare_serves [OF assms(1) c2(2), of now] by (intro rd.runs_trans [OF s]) (simp add: rd.runs_refl)
  qed
  have "tick e now alive c = Option.bind elect (\<lambda>c1. let c = (if c_active c1 then resume_loop (nat PageSize) c1 else c1) in
     if c_preparing c then
       (if time_sub now (c_lastSend c) \<ge> Second
        then let c = c\<lparr>c_lastSend := now\<rparr>; p = (Packet packetPrepare (c_id c) (c_ballot c))\<lparr>p_Floor := c_executed c + 1\<rparr>
          in receive e p (emit (Broadcast p) c)
        else Some c)
     else if c_leader c = c_id c then tick_leader e now c
     else Some c)"
    by (simp add: tick_def al elect_def Let_def)
  then show ?thesis
    by (simp only:) (rule rd.runs_bind [OF 1 2], use assms(2) in \<open>simp_all add: stays_ready_def\<close>)
qed

end
