(* ===== verification/PaxosSystem.thy ===== *)
theory PaxosSystem
  imports PaxosTimers
begin

text \<open>
  A cluster of Paxos replicas: every replica runs the core of \<open>src/paxos\<close>; the network may lose,
  duplicate, delay and reorder packets (a packet can be delivered at any time after it was sent, any
  number of times). The theorems hold in every reachable state of the cluster.
\<close>

type_synonym 'st cluster = "int \<Rightarrow> 'st core"

definition initial :: "int \<Rightarrow> int \<Rightarrow> 'st \<Rightarrow> 'st cluster \<Rightarrow> bool" where
  "initial N L a0 S \<longleftrightarrow> L \<in> replicas N \<and> (\<forall>i\<in>replicas N. newCore N i L a0 = Some (S i))"

definition sent_to :: "int \<Rightarrow> 'st core \<Rightarrow> packet set" where
  "sent_to i c = {p. Send i p \<in> set (c_out c) \<or> Broadcast p \<in> set (c_out c)}"

inductive sys_step :: "int \<Rightarrow> 'st exec \<Rightarrow> 'st cluster \<Rightarrow> 'st cluster \<Rightarrow> bool" for N X where
  deliver: "\<lbrakk>i \<in> replicas N; j \<in> replicas N; i \<noteq> j; p \<in> sent_to i (S j); execute e = X; receive e p (S i) = Some c\<rbrakk> \<Longrightarrow>
     sys_step N X S (S(i := c))"
| timer: "\<lbrakk>i \<in> replicas N; int (length alive) = N; execute e = X; tick e now alive (S i) = Some c\<rbrakk> \<Longrightarrow>
     sys_step N X S (S(i := c))"
| propose: "i \<in> replicas N \<Longrightarrow> sys_step N X S (S(i := submit r (S i)))"

inductive reachable :: "int \<Rightarrow> 'st exec \<Rightarrow> 'st \<Rightarrow> 'st cluster \<Rightarrow> bool" for N X a0 where
  reach_init: "initial N L a0 S \<Longrightarrow> reachable N X a0 S"
| reach_step: "reachable N X a0 S \<Longrightarrow> sys_step N X S S' \<Longrightarrow> reachable N X a0 S'"

definition views :: "'st cluster \<Rightarrow> net" where
  "views S = (\<lambda>i. view (S i))"

lemma views_upd: "views (S(i := c)) = (views S)(i := view c)"
  by (auto simp: views_def)

definition world_of :: "int \<Rightarrow> 'st exec \<Rightarrow> 'st \<Rightarrow> 'st cluster \<Rightarrow> int \<Rightarrow> 'st world" where
  "world_of N X a0 S i = \<lparr>w_N = N, w_net = views S, w_id = i, w_exec = X, w_app = a0\<rparr>"

lemma world_of_simps [simp]:
  "w_N (world_of N X a0 S i) = N" "w_net (world_of N X a0 S i) = views S" "w_id (world_of N X a0 S i) = i"
  "w_exec (world_of N X a0 S i) = X" "w_app (world_of N X a0 S i) = a0"
  by (simp_all add: world_of_def)

lemma around_world [simp]: "around (world_of N X a0 S i) c = views (S(i := c))"
  by (auto simp: around_def views_def)

definition SInv :: "int \<Rightarrow> 'st exec \<Rightarrow> 'st \<Rightarrow> 'st cluster \<Rightarrow> bool" where
  "SInv N X a0 S \<longleftrightarrow> (\<forall>i\<in>replicas N. good (world_of N X a0 S i) (S i) \<and> ready (S i))"

lemma replica_exists: "initial N L a0 S \<Longrightarrow> 0 \<in> replicas N \<and> 3 \<le> N \<and> N \<le> 63"
  by (auto simp: initial_def newCore_def replicas_def split: if_splits)

lemma initial_SInv:
  assumes "initial N L a0 S"
  shows "SInv N X a0 S"
proof -
  have c: "S i = \<lparr>c_n = N, c_id = i, c_leader = L, c_frozen = [], c_frozenBallot = 0,
        c_frozenFloor = 0, c_ballot = L, c_active = True, c_preparing = False, c_high = -1,
        c_executed = -1, c_log = [], c_values = [], c_assigned = [], c_pending = [], c_votes = [],
        c_pages = [], c_promises = [], c_queue = [], c_queued = [], c_recoveryEnd = -1,
        c_lastSend = 0, c_lastFetch = 0, c_recoveries = 0, c_replayReplies = 0, c_gapAccepts = 0,
        c_fetchRequests = 0, c_fetchSuppressed = 0, c_resume = [], c_app = a0, c_out = []\<rparr>" if "i \<in> replicas N" for i
    using assms that by (auto simp: initial_def newCore_def split: if_splits)
  have "views S i = init_node L" if "i \<in> replicas N" for i
    by (simp add: views_def c [OF that] view_def init_node_def)
  then have "Inv N (views S)"
    using init_Inv [of N L "views S"] replica_exists [OF assms] assms by (simp add: initial_def)
  moreover have "replayed X a0 (S i)" "ready (S i)" "c_id (S i) = i" "c_n (S i) = N" if "i \<in> replicas N" for i
    by (simp_all add: c [OF that] replayed_def replay_def answers_def ready_def own_def flushed_def)
  ultimately show ?thesis using replica_exists [OF assms] by (simp add: SInv_def good_def)
qed

lemma SInv_good:
  assumes "SInv N X a0 S" "i \<in> replicas N"
  shows "good (world_of N X a0 S i) (S i)" "ready (S i)" "Inv N (views S)" "3 \<le> N"
  using assms good_facts(1,6) [of "world_of N X a0 S i" "S i"] by (auto simp: SInv_def)

lemma nreach_net:
  assumes "nreach N \<sigma> i a b" "i \<in> replicas N"
  shows "(net_step N)\<^sup>*\<^sup>* (\<sigma>(i := a)) (\<sigma>(i := b))"
  using assms(1) unfolding nreach_def
proof (induction rule: rtranclp_induct)
  case (step y z)
  have "net_step N (\<sigma>(i := y)) (\<sigma>(i := z))"
    unfolding net_step_def using step.hyps(2) assms(2) by (intro bexI [of _ i]) auto
  then show ?case using step.IH by (rule rtranclp.rtrancl_into_rtrancl [rotated])
qed simp

text \<open>One handler run at one replica.\<close>

lemma replica_runs:
  assumes "SInv N X a0 S" "i \<in> replicas N" "serves (world_of N X a0 S i) (S i) (Some c)"
  shows "SInv N X a0 (S(i := c)) \<and> (net_step N)\<^sup>*\<^sup>* (views S) (views (S(i := c)))"
proof -
  let ?w = "world_of N X a0 S i"
  note g = SInv_good [OF assms(1,2)]
  have run: "good ?w c" "ready c" "nreach N (views S) i (view (S i)) (view c)"
    using assms(3) g(1,2) by (auto simp: runs_def goes_def stays_ready_def)
  have inv: "Inv N (views (S(i := c)))" using good_facts(6) [OF run(1)] by simp
  have "good (world_of N X a0 (S(i := c)) j) ((S(i := c)) j) \<and> ready ((S(i := c)) j)" if "j \<in> replicas N" for j
    using run(1,2) inv SInv_good(1,2) [OF assms(1) that] that fun_upd_triv [of "S(i := c)" j]
    by (cases "j = i") (simp_all add: good_def)
  moreover have "(net_step N)\<^sup>*\<^sup>* (views S) (views (S(i := c)))"
    using nreach_net [OF run(3) assms(2)] fun_upd_triv [of "views S" i] unfolding views_upd by (simp only: views_def)
  ultimately show ?thesis by (simp add: SInv_def)
qed

lemma sent_soup:
  assumes "p \<in> sent_to i (S j)" "j \<in> replicas N"
  shows "in_soup (world_of N X a0 S i) (S i) p"
proof -
  have "p \<in> n_sent (views S j)" using assms(1) by (auto simp: sent_to_def views_def packets_of_def)
  then show ?thesis using soupI [OF assms(2)] by (simp add: in_soup_def)
qed

lemma sys_step_runs:
  assumes "sys_step N X S S'" "SInv N X a0 S"
  shows "SInv N X a0 S' \<and> (net_step N)\<^sup>*\<^sup>* (views S) (views S')"
  using assms
proof cases
  case (deliver i j p e c)
  have "serves (world_of N X a0 S i) (S i) (receive e p (S i))"
    using receive_serves [OF _ sent_soup [of p i S j N, OF deliver(5,3)], of e] deliver(6) SInv_good(2) [OF assms(2) deliver(2)] by simp
  then show ?thesis using replica_runs [OF assms(2) deliver(2)] deliver(1,7) by simp
next
  case (timer i alive e now c)
  have "serves (world_of N X a0 S i) (S i) (tick e now alive (S i))"
    using tick_serves [of e "world_of N X a0 S i" "S i" alive now] timer SInv_good(2) [OF assms(2) timer(2)] by simp
  then show ?thesis using replica_runs [OF assms(2) timer(2)] timer(1,5) by simp
next
  case (propose i r)
  then show ?thesis using replica_runs [OF assms(2) propose(2) stays_serves [OF submit_stays]] by simp
qed

lemma reachable_SInv: "reachable N X a0 S \<Longrightarrow> SInv N X a0 S"
  by (induction rule: reachable.induct) (auto intro: initial_SInv dest: sys_step_runs)

subsection \<open>Executed prefixes\<close>

lemma replay_values_grow:
  assumes "-1 \<le> k" "k \<le> k'"
  shows "snd (replay X a0 lg k) \<subseteq>\<^sub>m snd (replay X a0 lg k')"
  using assms(2)
proof (induction k' rule: int_ge_induct)
  case (step k')
  have "snd sv \<subseteq>\<^sub>m snd (replay_one X r sv)" for r and sv :: "'a \<times> (request_id \<rightharpoonup> bytes)"
    by (auto simp: replay_one_def map_le_def split: prod.splits option.splits)
  then show ?case using step assms(1) map_le_trans by (simp add: replay_step) blast
qed simp

lemma executed_agree:
  assumes "SInv N X a0 S" "i \<in> replicas N" "j \<in> replicas N" "0 \<le> s" "s \<le> c_executed (S i)" "s \<le> c_executed (S j)"
  shows "requests (S i) s = requests (S j) s"
proof -
  obtain r where r: "mget (c_log (S i)) s = Some r" "r_Committed r"
    using executed_committed [OF SInv_good(1) [OF assms(1,2)] assms(4,5)] by blast
  obtain r' where r': "mget (c_log (S j)) s = Some r'" "r_Committed r'"
    using executed_committed [OF SInv_good(1) [OF assms(1,3)] assms(4,6)] by blast
  have "r_Request r = r_Request r'"
    using Inv_agreement [OF SInv_good(3) [OF assms(1,2)] assms(2,3), of s r r'] r r' by (simp add: views_def)
  then show ?thesis using r r' by (simp add: requests_def)
qed

lemma replica_state:
  assumes "SInv N X a0 S" "i \<in> replicas N" "j \<in> replicas N" "c_executed (S i) \<le> c_executed (S j)"
  shows "(c_app (S i), map_of (c_values (S i))) = replay X a0 (requests (S j)) (c_executed (S i))" "-1 \<le> c_executed (S i)"
proof -
  have "replayed X a0 (S i)" using SInv_good(1) [OF assms(1,2)] by (simp add: good_def)
  then show "(c_app (S i), map_of (c_values (S i))) = replay X a0 (requests (S j)) (c_executed (S i))" "-1 \<le> c_executed (S i)"
    using replay_cong [of "c_executed (S i)" "requests (S i)" "requests (S j)" X a0] executed_agree [OF assms(1-3)] assms(4)
    by (simp_all add: replayed_def)
qed

lemma results_agree:
  assumes "SInv N X a0 S" "i \<in> replicas N" "j \<in> replicas N" "c_executed (S i) \<le> c_executed (S j)"
  shows "map_of (c_values (S i)) \<subseteq>\<^sub>m map_of (c_values (S j))"
  using replica_state [OF assms] replica_state(1) [OF assms(1,3,3) order_refl]
    replay_values_grow [OF replica_state(2) [OF assms] assms(4), of X a0 "requests (S j)"] by (metis snd_conv)

subsection \<open>Executable runs\<close>

text \<open>A schedule of deliveries, timers and requests, run on a list of cores.\<close>

datatype action = Deliver nat nat nat | Timer nat time "bool list" | Propose nat request

fun packet_for :: "int \<Rightarrow> effect \<Rightarrow> packet option" where
  "packet_for i (Send t p) = (if t = i then Some p else None)"
| "packet_for i (Broadcast p) = Some p"
| "packet_for i _ = None"

definition perform :: "'st env \<Rightarrow> action \<Rightarrow> 'st core list \<Rightarrow> 'st core list option" where
  "perform e a cs = (case a of
     Deliver i j k \<Rightarrow>
       if i < length cs \<and> j < length cs \<and> i \<noteq> j \<and> k < length (c_out (cs ! j))
       then (case packet_for (int i) (c_out (cs ! j) ! k) of None \<Rightarrow> None
         | Some p \<Rightarrow> (case receive e p (cs ! i) of None \<Rightarrow> None | Some c \<Rightarrow> Some (cs[i := c])))
       else None
   | Timer i now alive \<Rightarrow>
       if i < length cs \<and> length alive = length cs
       then (case tick e now alive (cs ! i) of None \<Rightarrow> None | Some c \<Rightarrow> Some (cs[i := c])) else None
   | Propose i r \<Rightarrow> if i < length cs then Some (cs[i := submit r (cs ! i)]) else None)"

fun perform_all :: "'st env \<Rightarrow> action list \<Rightarrow> 'st core list \<Rightarrow> 'st core list option" where
  "perform_all e [] cs = Some cs"
| "perform_all e (a # as) cs = (case perform e a cs of None \<Rightarrow> None | Some cs' \<Rightarrow> perform_all e as cs')"

definition cluster_of :: "'st core list \<Rightarrow> 'st cluster" where
  "cluster_of cs i = cs ! nat i"

definition start :: "nat \<Rightarrow> int \<Rightarrow> 'st \<Rightarrow> 'st core list" where
  "start n L a0 = map (\<lambda>i. the (newCore (int n) (int i) L a0)) [0..<n]"

definition matches :: "int \<Rightarrow> 'st exec \<Rightarrow> 'st \<Rightarrow> 'st core list \<Rightarrow> bool" where
  "matches N X a0 cs \<longleftrightarrow> int (length cs) = N \<and> (\<exists>S. reachable N X a0 S \<and> (\<forall>j\<in>replicas N. S j = cluster_of cs j))"

lemma matches_step:
  assumes "matches N X a0 cs" "i < length cs"
    and "\<And>S. (\<forall>j\<in>replicas N. S j = cluster_of cs j) \<Longrightarrow> sys_step N X S (S(int i := c))"
  shows "matches N X a0 (cs[i := c])"
proof -
  obtain S where S: "reachable N X a0 S" "\<forall>j\<in>replicas N. S j = cluster_of cs j" "int (length cs) = N"
    using assms(1) by (auto simp: matches_def)
  have "reachable N X a0 (S(int i := c))" by (rule reach_step [OF S(1) assms(3) [OF S(2)]])
  moreover have "\<forall>j\<in>replicas N. (S(int i := c)) j = cluster_of (cs[i := c]) j"
    using S(2,3) assms(2) by (auto simp: cluster_of_def replicas_def nth_list_update)
  ultimately show ?thesis using S(3) by (auto simp: matches_def)
qed

lemma packet_for_sent: "packet_for i x = Some p \<Longrightarrow> x \<in> set (c_out c) \<Longrightarrow> p \<in> sent_to i c"
  by (cases x) (auto simp: sent_to_def split: if_splits)

lemma perform_matches:
  assumes "matches N X a0 cs" "perform e a cs = Some cs'" "execute e = X"
  shows "matches N X a0 cs'"
proof -
  have N: "int (length cs) = N" using assms(1) by (simp add: matches_def)
  show ?thesis
  proof (cases a)
    case (Deliver i j k)
    then obtain p c where p: "i < length cs" "j < length cs" "i \<noteq> j" "k < length (c_out (cs ! j))"
      "packet_for (int i) (c_out (cs ! j) ! k) = Some p" "receive e p (cs ! i) = Some c" "cs' = cs[i := c]"
      using assms(2) by (auto simp: perform_def split: if_splits option.splits)
    have "sys_step N X S (S(int i := c))" if "\<forall>j\<in>replicas N. S j = cluster_of cs j" for S
      using p that N assms(3) packet_for_sent [OF p(5) nth_mem [OF p(4)]]
      by (intro deliver [of "int i" N "int j" p]) (auto simp: replicas_def cluster_of_def)
    then show ?thesis using matches_step [OF assms(1) p(1)] p(7) by blast
  next
    case (Timer i now alive)
    then obtain c where p: "i < length cs" "length alive = length cs" "tick e now alive (cs ! i) = Some c" "cs' = cs[i := c]"
      using assms(2) by (auto simp: perform_def split: if_splits option.splits)
    have "sys_step N X S (S(int i := c))" if "\<forall>j\<in>replicas N. S j = cluster_of cs j" for S
      using p that N assms(3) by (intro timer [of "int i" N alive e X now]) (auto simp: replicas_def cluster_of_def)
    then show ?thesis using matches_step [OF assms(1) p(1)] p(4) by blast
  next
    case (Propose i r)
    then have p: "i < length cs" "cs' = cs[i := submit r (cs ! i)]" using assms(2) by (auto simp: perform_def split: if_splits)
    have "sys_step N X S (S(int i := submit r (cs ! i)))" if "\<forall>j\<in>replicas N. S j = cluster_of cs j" for S
      using propose [of "int i" N X S r] that p N by (auto simp: replicas_def cluster_of_def)
    then show ?thesis using matches_step [OF assms(1) p(1)] p(2) by blast
  qed
qed

lemma perform_all_matches:
  assumes "matches N X a0 cs" "perform_all e as cs = Some cs'" "execute e = X"
  shows "matches N X a0 cs'"
  using assms by (induction as arbitrary: cs) (auto split: option.splits intro: perform_matches)

lemma start_matches:
  assumes "3 \<le> n" "n \<le> 63" "odd n" "0 \<le> L" "L < int n"
  shows "matches (int n) X a0 (start n L a0)"
proof -
  have "int n mod 2 = 1" using assms(3) by presburger
  then have "initial (int n) L a0 (cluster_of (start n L a0))"
    using assms by (auto simp: initial_def cluster_of_def start_def newCore_def replicas_def)
  then show ?thesis using reach_init by (fastforce simp: matches_def start_def)
qed

text \<open>
  Three replicas, replica 0 leads. A client submits a write at replica 0; the timer of replica 0
  broadcasts it, replica 1 accepts, replica 0 commits and executes, replica 1 learns the decision.
\<close>

definition count_exec :: "nat exec" where
  "count_exec cmd st = Some (V cmd, Suc st)"

definition demo_env :: "nat env" where
  "demo_env = \<lparr>execute = count_exec, clock = 10 ^ 10, order = (\<lambda>_. [])\<rparr>"

definition demo_request :: request where
  "demo_request = \<lparr>req_ID = RequestID 5 1, req_Command = \<lparr>Op = PUT, K = 7, V = [42]\<rparr>\<rparr>"

definition demo :: "nat core list" where
  "demo = the (perform_all demo_env
     [Propose 0 demo_request, Timer 0 (10 ^ 10) [True, True, True], Deliver 1 0 0, Deliver 0 1 0, Deliver 1 0 5] (start 3 0 0))"

fun demo_facts :: "nat core list \<Rightarrow> bool" where
  "demo_facts cs \<longleftrightarrow>
     map_option r_Request (mget (c_log (cs ! 0)) 0) = Some demo_request \<and> map_option r_Committed (mget (c_log (cs ! 0)) 0) = Some True \<and>
     map_option r_Request (mget (c_log (cs ! 1)) 0) = Some demo_request \<and> map_option r_Committed (mget (c_log (cs ! 1)) 0) = Some True \<and>
     c_executed (cs ! 0) = 0 \<and> c_executed (cs ! 1) = 0 \<and> c_app (cs ! 0) = 1 \<and>
     Reply demo_request [42] \<in> set (c_out (cs ! 0)) \<and> Reply demo_request [42] \<in> set (c_out (cs ! 1)) \<and>
     (case c_out (cs ! 0) ! 2 of Broadcast p \<Rightarrow> p_Kind p = packetReady | _ \<Rightarrow> False) \<and> 2 < length (c_out (cs ! 0))"

lemma demo_facts: "demo_facts demo"
  by code_simp

lemma demo_exec: "execute demo_env = count_exec"
  by (simp add: demo_env_def)

lemma demo_ran: "perform_all demo_env
     [Propose 0 demo_request, Timer 0 (10 ^ 10) [True, True, True], Deliver 1 0 0, Deliver 0 1 0, Deliver 1 0 5] (start 3 0 0) = Some demo"
proof -
  have "perform_all demo_env
     [Propose 0 demo_request, Timer 0 (10 ^ 10) [True, True, True], Deliver 1 0 0, Deliver 0 1 0, Deliver 1 0 5] (start 3 0 0) \<noteq> None"
    by code_simp
  then show ?thesis by (auto simp: demo_def)
qed

lemma demo_reachable:
  obtains S where "reachable 3 count_exec 0 S" "S 0 = demo ! 0" "S 1 = demo ! 1" "0 \<in> replicas 3" "1 \<in> replicas 3"
proof -
  have "matches 3 count_exec 0 demo"
    using perform_all_matches [OF start_matches demo_ran demo_exec] by simp
  then show thesis using that by (auto simp: matches_def cluster_of_def replicas_def)
qed

subsection \<open>Properties\<close>

text \<open>C1 (agreement): in every reachable state of a Paxos cluster, whatever the network loses,
  duplicates or reorders and whatever elections happen, two replicas that have a committed record
  in the same slot have the same request there.\<close>

theorem paxos_agreement:
  assumes "reachable N X a0 S" "i \<in> replicas N" "j \<in> replicas N"
    and "mget (c_log (S i)) s = Some r" "r_Committed r" "mget (c_log (S j)) s = Some r'" "r_Committed r'"
  shows "r_Request r = r_Request r'"
  using Inv_agreement [OF SInv_good(3) [OF reachable_SInv [OF assms(1)] assms(2)] assms(2,3), of s r r'] assms(4-)
  by (simp add: views_def)

theorem paxos_agreement_witness:
  "r_Request (the (mget (c_log (demo ! 0)) 0)) = r_Request (the (mget (c_log (demo ! 1)) 0))"
proof -
  obtain S where S: "reachable 3 count_exec 0 S" "S 0 = demo ! 0" "S 1 = demo ! 1" "0 \<in> replicas 3" "1 \<in> replicas 3"
    by (rule demo_reachable)
  show ?thesis using paxos_agreement [OF S(1,4,5), of 0] demo_facts S(2,3) by auto
qed

text \<open>C3 (state machine safety): two replicas that have executed equally many slots have the same
  application state and the same table of results.\<close>

theorem paxos_same_state:
  assumes "reachable N X a0 S" "i \<in> replicas N" "j \<in> replicas N" "c_executed (S i) = c_executed (S j)"
  shows "c_app (S i) = c_app (S j) \<and> map_of (c_values (S i)) = map_of (c_values (S j))"
  using replica_state(1) [OF reachable_SInv [OF assms(1)] assms(2,3)]
    replica_state(1) [OF reachable_SInv [OF assms(1)] assms(3,3)] assms(4) by (metis order_refl prod.inject)

theorem paxos_same_state_witness:
  "c_app (demo ! 0) = c_app (demo ! 1) \<and> map_of (c_values (demo ! 0)) = map_of (c_values (demo ! 1))"
proof -
  obtain S where S: "reachable 3 count_exec 0 S" "S 0 = demo ! 0" "S 1 = demo ! 1" "0 \<in> replicas 3" "1 \<in> replicas 3"
    by (rule demo_reachable)
  show ?thesis using paxos_same_state [OF S(1,4,5)] demo_facts S(2,3) by simp
qed

text \<open>C2 (clients see one answer): replies for the same request identity, sent at any time by any
  two replicas, carry the same value.\<close>

theorem paxos_one_answer:
  assumes "reachable N X a0 S" "i \<in> replicas N" "j \<in> replicas N"
    and "Reply r v \<in> set (c_out (S i))" "Reply r' v' \<in> set (c_out (S j))" "req_ID r = req_ID r'"
  shows "v = v'"
proof -
  note inv = reachable_SInv [OF assms(1)]
  have "answers (S i)" "answers (S j)" using SInv_good(1) [OF inv] assms(2,3) by (auto simp: good_def replayed_def)
  then have "mget (c_values (S i)) (req_ID r) = Some v" "mget (c_values (S j)) (req_ID r) = Some v'"
    using assms(4-6) unfolding answers_def by metis+
  then show ?thesis
    using results_agree [OF inv assms(2,3)] results_agree [OF inv assms(3,2)] linear [of "c_executed (S i)" "c_executed (S j)"]
    by (metis domI map_le_def option.inject)
qed

theorem paxos_one_answer_witness:
  "\<exists>v v'. Reply demo_request v \<in> set (c_out (demo ! 0)) \<and> Reply demo_request v' \<in> set (c_out (demo ! 1)) \<and> v = v'"
proof -
  obtain S where S: "reachable 3 count_exec 0 S" "S 0 = demo ! 0" "S 1 = demo ! 1" "0 \<in> replicas 3" "1 \<in> replicas 3"
    by (rule demo_reachable)
  obtain v v' where v: "Reply demo_request v \<in> set (c_out (demo ! 0))" "Reply demo_request v' \<in> set (c_out (demo ! 1))"
    using demo_facts by auto
  then have "v = v'" using paxos_one_answer [OF S(1,4,5), of demo_request v demo_request v'] S(2,3) by simp
  then show ?thesis using v by blast
qed

text \<open>C4 (no panic): if the state machine executes every command, no handler of a reachable cluster
  panics: neither the \<open>conflicting decision\<close> panic of \<open>install\<close> nor any other is reachable by a
  delivered packet or a timer.\<close>

theorem paxos_no_panic:
  assumes "reachable N X a0 S" "\<forall>cmd st. X cmd st \<noteq> None" "execute e = X" "i \<in> replicas N"
  shows "(j \<in> replicas N \<and> p \<in> sent_to i (S j) \<longrightarrow> receive e p (S i) \<noteq> None) \<and>
    (int (length alive) = N \<longrightarrow> tick e now alive (S i) \<noteq> None)"
proof -
  note g = SInv_good [OF reachable_SInv [OF assms(1)] assms(4)]
  have ok: "res \<noteq> None" if "serves (world_of N X a0 S i) (S i) res" for res
    using that g(1) assms(2) by (cases res) (auto simp: runs_def goes_def)
  have "receive e p (S i) \<noteq> None" if "j \<in> replicas N" "p \<in> sent_to i (S j)"
    using ok [OF receive_serves [OF _ sent_soup [of p i S j N, OF that(2,1)], of e]] assms(3) g(2) by simp
  moreover have "tick e now alive (S i) \<noteq> None" if "int (length alive) = N"
    using ok [OF tick_serves [of e _ "S i" alive now]] that assms(3) g(2) by simp
  ultimately show ?thesis by blast
qed

theorem paxos_no_panic_witness:
  "(case c_out (demo ! 0) ! 2 of Broadcast p \<Rightarrow> receive demo_env p (demo ! 1) \<noteq> None | _ \<Rightarrow> False) \<and>
   tick demo_env 0 [False, True, True] (demo ! 1) \<noteq> None"
proof -
  obtain S where S: "reachable 3 count_exec 0 S" "S 0 = demo ! 0" "S 1 = demo ! 1" "0 \<in> replicas 3" "1 \<in> replicas 3"
    by (rule demo_reachable)
  have tot: "\<forall>cmd st. count_exec cmd st \<noteq> None" by (simp add: count_exec_def)
  obtain p where p: "c_out (demo ! 0) ! 2 = Broadcast p" "2 < length (c_out (demo ! 0))"
    using demo_facts by (auto split: effect.splits)
  then have "p \<in> sent_to 1 (S 0)" using S(2) nth_mem [OF p(2)] by (simp add: sent_to_def)
  then show ?thesis using paxos_no_panic [OF S(1) tot demo_exec S(5), of 0 p "[False, True, True]" 0] S(3,4) p by simp
qed

text \<open>C5 (refinement): every step of the cluster (delivery of a packet, a timer, a client request) is
  a sequence of steps of the abstract replicated log, and the invariant of the abstract log holds in
  every state it passes.\<close>

theorem paxos_refines_log:
  assumes "reachable N X a0 S" "sys_step N X S S'" "0 \<in> replicas N"
  shows "(net_step N)\<^sup>*\<^sup>* (views S) (views S') \<and> Inv N (views S) \<and> Inv N (views S')"
  using sys_step_runs [OF assms(2) reachable_SInv [OF assms(1)]] SInv_good(3) [of N X a0 S 0] SInv_good(3) [of N X a0 S' 0]
    reachable_SInv [OF assms(1)] assms(3) by blast

theorem paxos_refines_log_witness:
  "\<exists>S. S 1 = demo ! 1 \<and> (net_step 3)\<^sup>*\<^sup>* (views S) (views (S(1 := submit demo_request (demo ! 1))))"
proof -
  obtain S where S: "reachable 3 count_exec 0 S" "S 0 = demo ! 0" "S 1 = demo ! 1" "0 \<in> replicas 3" "1 \<in> replicas 3"
    by (rule demo_reachable)
  show ?thesis using paxos_refines_log [OF S(1) propose [OF S(5)] S(4), of demo_request] S(3) by auto
qed

text \<open>C6 (results survive): a replica that has executed at least as far as another holds every result
  the other holds, and every slot up to the executed one is committed with the same request.\<close>

theorem paxos_results_survive:
  assumes "reachable N X a0 S" "i \<in> replicas N" "j \<in> replicas N" "c_executed (S i) \<le> c_executed (S j)"
  shows "map_of (c_values (S i)) \<subseteq>\<^sub>m map_of (c_values (S j)) \<and>
    (\<forall>s\<in>{0..c_executed (S i)}. \<exists>r. mget (c_log (S i)) s = Some r \<and> r_Committed r \<and> requests (S j) s = Some (r_Request r))"
proof -
  note inv = reachable_SInv [OF assms(1)]
  have "\<exists>r. mget (c_log (S i)) s = Some r \<and> r_Committed r \<and> requests (S j) s = Some (r_Request r)" if "s \<in> {0..c_executed (S i)}" for s
    using executed_committed [OF SInv_good(1) [OF inv assms(2)], of s] executed_agree [OF inv assms(2,3), of s] that assms(4)
    by (fastforce simp: requests_def)
  then show ?thesis using results_agree [OF inv assms(2-4)] by blast
qed

theorem paxos_results_survive_witness:
  "map_of (c_values (demo ! 1)) \<subseteq>\<^sub>m map_of (c_values (demo ! 0)) \<and> (\<exists>r. mget (c_log (demo ! 1)) 0 = Some r \<and> r_Committed r)"
proof -
  obtain S where S: "reachable 3 count_exec 0 S" "S 0 = demo ! 0" "S 1 = demo ! 1" "0 \<in> replicas 3" "1 \<in> replicas 3"
    by (rule demo_reachable)
  show ?thesis using paxos_results_survive [OF S(1,5,4)] demo_facts S(2,3) by auto
qed

end
