(* ===== verification/PaxosLocal.thy ===== *)
theory PaxosLocal
  imports PaxosCore
begin

text \<open>
  \<open>Transport.Send\<close> delivers a packet a replica sends to itself at once, inside the handler that
  sends it, so \<open>receive\<close> is recursive in the code. The model bounds the nesting; here the bounded
  \<open>receive\<close> is shown to satisfy the code's own recursion equation.
\<close>

definition agree_on :: "kind \<Rightarrow> 'st deliver \<Rightarrow> 'st deliver \<Rightarrow> bool" where
  "agree_on k L L' \<longleftrightarrow> (\<forall>p c. p_Kind p = k \<longrightarrow> L p c = L' p c)"

lemma accept_local:
  assumes "agree_on packetAck L L'"
  shows "accept L e p c = accept L' e p c"
proof -
  have "Transport_Send L to ((Packet packetAck i b)\<lparr>p_Records := rs\<rparr>) c =
      Transport_Send L' to ((Packet packetAck i b)\<lparr>p_Records := rs\<rparr>) c" for to i b rs c
    using assms by (simp add: Transport_Send_def agree_on_def Packet_def)
  then show ?thesis unfolding accept_def Let_def by (simp only:)
qed

lemma sendSuffix_loop_local:
  assumes "agree_on packetAck L L'"
  shows "sendSuffix_loop L e to fetch hi lo c = sendSuffix_loop L' e to fetch hi lo c"
  using assms
proof (induction L e to fetch hi lo c rule: sendSuffix_loop.induct)
  case (1 L e to fetch hi lo c)
  let ?recs = "page_records c lo (min (lo + PageSize - 1) hi)"
  show ?case
  proof (cases "lo > hi \<or> ?recs = []")
    case True
    then show ?thesis using "1.IH"(1) [OF _ refl] "1.prems" by (subst (1 2) sendSuffix_loop.simps) (auto simp: Let_def)
  next
    case False
    show ?thesis
    proof (cases "fetch \<and> to \<noteq> c_id c")
      case True
      then show ?thesis
        using False "1.IH"(2) [OF _ refl _ _ refl refl refl] "1.prems"
        by (subst (1 2) sendSuffix_loop.simps) (simp add: Let_def)
    next
      case bc: False
      then show ?thesis
        using False "1.IH"(3) [OF _ refl _ _ refl] "1.prems" accept_local [OF "1.prems"]
        by (subst (1 2) sendSuffix_loop.simps) (auto simp: Let_def split: option.split)
    qed
  qed
qed

lemma sendSuffix_local: "agree_on packetAck L L' \<Longrightarrow> sendSuffix L = sendSuffix L'"
  by (intro ext) (simp add: sendSuffix_def sendSuffix_loop_local Let_def)

lemma promiseReply_local:
  assumes "agree_on packetAck L L'"
  shows "promiseReply L e p c = promiseReply L' e p c"
  by (simp only: promiseReply_def sendSuffix_local [OF assms])

lemma receive_body_local:
  assumes "agree_on packetAck L L'" "p_Kind p \<noteq> packetPrepare"
  shows "receive_body L e p c = receive_body L' e p c"
proof -
  have "accept L = accept L'" "promiseReply L = promiseReply L'" "sendSuffix L = sendSuffix L'"
    using accept_local [OF assms(1)] promiseReply_local [OF assms(1)] sendSuffix_local [OF assms(1)] by (auto intro!: ext)
  then show ?thesis using assms(2) by (simp only: receive_body_def if_False)
qed

lemma receive_body_ack_local:
  assumes "p_Kind p = packetAck"
  shows "receive_body L e p c = receive_body L' e p c"
  using assms by (simp add: receive_body_def)

lemma send_pages_local:
  assumes "agree_on packetPromise L L'" "\<forall>p\<in>set ps. p_Kind p = packetPromise"
  shows "send_pages L to ps c = send_pages L' to ps c"
  using assms(2)
proof (induction ps arbitrary: c)
  case (Cons p ps)
  then have "Transport_Send L to p c = Transport_Send L' to p c"
    using assms(1) by (simp add: Transport_Send_def agree_on_def)
  then show ?case using Cons by (auto intro: Option.bind_cong)
qed simp

lemma snapshot_kinds: "p \<in> set (snapshot c F) \<Longrightarrow> p_Kind p = packetPromise"
  by (auto simp: snapshot_def snapshot_page_def Packet_def Let_def)

lemma promise_local:
  assumes "agree_on packetPromise L L'" "\<forall>p\<in>set (c_frozen c). p_Kind p = packetPromise"
  shows "promise L p c = promise L' p c"
  using assms(2) by (simp add: promise_def send_pages_local [OF assms(1)] snapshot_kinds Let_def)

lemma levels_agree:
  "agree_on packetAck (receive_ack e) (receive_promise e)"
  "agree_on packetAck (receive_promise e) (receive e)"
  "agree_on packetPromise (receive_promise e) (receive e)"
proof -
  show acks: "agree_on packetAck (receive_ack e) (receive_promise e)"
    and "agree_on packetAck (receive_promise e) (receive e)"
    by (auto simp: agree_on_def receive_ack_def receive_promise_def receive_def intro: receive_body_ack_local)
  show "agree_on packetPromise (receive_promise e) (receive e)"
    unfolding agree_on_def
  proof (intro allI impI)
    fix p :: packet and c assume "p_Kind p = packetPromise"
    then show "receive_promise e p c = receive e p c"
      using receive_body_local [OF acks, of p e c] by (simp add: receive_def receive_promise_def)
  qed
qed

text \<open>C7 (local delivery): \<open>receive\<close> satisfies the recursion of the code, in which every packet a
  replica sends to itself is handled by \<open>receive\<close> again before the send returns; the recursion ends
  after two nested deliveries, so the bound of the model loses nothing.\<close>

theorem receive_fixpoint:
  assumes "\<forall>p\<in>set (c_frozen c). p_Kind p = packetPromise"
  shows "receive e p c = receive_body (receive e) e p c"
proof (cases "p_Kind p = packetPrepare")
  case True
  have "promise (receive_promise e) p d = promise (receive e) p d" if "c_frozen d = c_frozen c" for d
    using promise_local [OF levels_agree(3)] assms that by metis
  moreover have "receive e p c = receive_body (receive_promise e) e p c" by (simp add: receive_def)
  ultimately show ?thesis using True by (simp add: receive_body_def Let_def)
next
  case False
  then show ?thesis using receive_body_local [OF levels_agree(2) False] by (simp add: receive_def)
qed

theorem receive_fixpoint_witness:
  "\<forall>(e :: nat env) p. receive e p (the (newCore 3 0 0 0)) = receive_body (receive e) e p (the (newCore 3 0 0 0))"
  by (intro allI receive_fixpoint) (simp add: newCore_def)

end
