(* ===== verification/FastPaxosCore.thy ===== *)
theory FastPaxosCore
  imports Requests ReplicaSet
begin

text \<open>
  The core of package \<open>fastpaxos\<close>: \<open>src/fastpaxos/core.go\<close>, \<open>recovery.go\<close>, \<open>execute.go\<close>,
  \<open>defs.go\<close> and the message validation of \<open>wire.go\<close>. Outputs go to the queue \<open>c_out\<close> as in the
  code (the runtime drains it, self delivery included), client replies to \<open>c_replies\<close>;
  \<^const>\<open>None\<close> is a panic. Epochs are natural numbers; \<open>c_pending\<close>, which the code keeps as an index
  of the elements of \<open>forwardOrder\<close> by request, is that list itself.
\<close>

definition pageSize :: int where "pageSize = 128"
definition repairBudget :: int where "repairBudget = 32 * pageSize"
definition inflightWindow :: int where "inflightWindow = 16384"
definition fastWindow :: int where "fastWindow = 8192"
definition failureTimeout :: int where "failureTimeout = 3 * Second"

definition fastQuorumSize :: "int \<Rightarrow> int" where
  "fastQuorumSize n = go_div (3 * n) 4 + 1"

datatype kind = msgVote | msgPrepare | msgPromise | msgAccept | msgAccepted | msgCommit
  | msgHeartbeat | msgFetch | msgData | msgForward | msgNack | msgRecover | msgOther byte

record val =
  v_ID :: request_id
  v_Command :: command
  v_Noop :: bool

record entry =
  e_Slot :: int
  e_Epoch :: nat
  e_Round :: nat
  e_Value :: val
  e_Payload :: bool
  e_Decided :: bool

record message =
  m_Kind :: kind
  m_From :: int
  m_Epoch :: nat
  m_Start :: int
  m_High :: int
  m_Page :: int
  m_Pages :: int
  m_Entries :: "entry list"

definition zero_command :: command where
  "zero_command = \<lparr>Op = NONE, K = 0, V = []\<rparr>"

definition zero_val :: val where
  "zero_val = \<lparr>v_ID = RequestID 0 0, v_Command = zero_command, v_Noop = False\<rparr>"

definition noop_val :: val where
  "noop_val = zero_val\<lparr>v_Noop := True\<rparr>"

definition Entry :: "int \<Rightarrow> nat \<Rightarrow> nat \<Rightarrow> val \<Rightarrow> bool \<Rightarrow> entry" where
  "Entry s ep rd v pl = \<lparr>e_Slot = s, e_Epoch = ep, e_Round = rd, e_Value = v, e_Payload = pl, e_Decided = False\<rparr>"

definition Msg :: "kind \<Rightarrow> message" where
  "Msg k = \<lparr>m_Kind = k, m_From = 0, m_Epoch = 0, m_Start = 0, m_High = 0, m_Page = 0, m_Pages = 0, m_Entries = []\<rparr>"

definition sameValue :: "val \<Rightarrow> val \<Rightarrow> bool" where
  "sameValue a b \<longleftrightarrow> v_Noop a = v_Noop b \<and> (v_Noop a \<or> v_ID a = v_ID b)"

definition newer :: "entry \<Rightarrow> entry \<Rightarrow> bool" where
  "newer a b \<longleftrightarrow> e_Epoch a > e_Epoch b \<or> e_Epoch a = e_Epoch b \<and> e_Round a > e_Round b"

record slotState =
  s_accepted :: "entry option"
  s_proposed :: "entry option"
  s_chosen :: "entry option"
  s_votes :: "(int, entry) gomap"
  s_maxVotes :: int
  s_acks :: rset
  s_local :: "request_id option"
  s_deferred :: "entry option"

definition zero_slot :: slotState where
  "zero_slot = \<lparr>s_accepted = None, s_proposed = None, s_chosen = None, s_votes = [], s_maxVotes = 0,
     s_acks = 0, s_local = None, s_deferred = None\<rparr>"

record snapshot =
  sn_pages :: int
  sn_high :: int
  sn_parts :: "(int, entry list) gomap"

record 'st core =
  c_id :: int
  c_n :: int
  c_fastSize :: int
  c_promise :: nat
  c_active :: bool
  c_preparing :: bool
  c_start :: int
  c_high :: int
  c_next :: int
  c_executed :: int
  c_slots :: "(int, slotState) gomap"
  c_known :: "(request_id, val) gomap"
  c_forwardOrder :: "(request_id \<times> int) list"
  c_results :: "(request_id, bytes) gomap"
  c_assigned :: "(request_id, bool) gomap"
  c_queue :: "request_id list"
  c_snapshots :: "(int, snapshot) gomap"
  c_frozen :: "message list"
  c_frozenStart :: int
  c_out :: "(int \<times> message) list"
  c_heard :: "int list"
  c_now :: int
  c_lastProgress :: int
  c_lastBeat :: int
  c_lastRetry :: int
  c_lastRepair :: int
  c_retryCursor :: int
  c_stalled :: bool
  c_windowFallbacks :: "64 word"
  c_ageFallbacks :: "64 word"
  c_elections :: "64 word"
  c_fastCommits :: "64 word"
  c_classicCommits :: "64 word"
  c_repaired :: "64 word"
  c_app :: 'st
  c_replies :: "(request_id \<times> bytes) list"

datatype loop = Loop_snapshots | Loop_parts int | Loop_reports int | Loop_support int
  | Loop_values int | Loop_slots

record 'st env =
  execute :: "command \<Rightarrow> 'st \<Rightarrow> (bytes \<times> 'st) option"
  order :: "loop \<Rightarrow> nat list"

definition newCore :: "int \<Rightarrow> int \<Rightarrow> 'st \<Rightarrow> 'st core option" where
  "newCore i n app =
     (if n < 3 \<or> n > 63 \<or> n mod 2 = 0 \<or> i < 0 \<or> i \<ge> n then None
      else Some \<lparr>c_id = i, c_n = n, c_fastSize = fastQuorumSize n, c_promise = 0, c_active = False,
        c_preparing = False, c_start = 0, c_high = -1, c_next = 0, c_executed = -1, c_slots = [],
        c_known = [], c_forwardOrder = [], c_results = [], c_assigned = [], c_queue = [],
        c_snapshots = [], c_frozen = [], c_frozenStart = 0, c_out = [], c_heard = replicate (nat n) 0,
        c_now = 0, c_lastProgress = 0, c_lastBeat = 0, c_lastRetry = 0, c_lastRepair = 0,
        c_retryCursor = 0, c_stalled = False, c_windowFallbacks = 0, c_ageFallbacks = 0,
        c_elections = 0, c_fastCommits = 0, c_classicCommits = 0, c_repaired = 0, c_app = app,
        c_replies = []\<rparr>)"

subsection \<open>Slots, outputs and request bookkeeping\<close>

definition slot :: "int \<Rightarrow> 'st core \<Rightarrow> 'st core option" where
  "slot s c =
     (if s < 0 then None
      else
        let c = (if s > c_high c then c\<lparr>c_high := s\<rparr> else c)
        in Some (if mget (c_slots c) s = None then c\<lparr>c_slots := mput s zero_slot (c_slots c)\<rparr> else c))"

definition the_slot :: "'st core \<Rightarrow> int \<Rightarrow> slotState" where
  "the_slot c s = mgetd zero_slot (c_slots c) s"

definition set_slot :: "int \<Rightarrow> (slotState \<Rightarrow> slotState) \<Rightarrow> 'st core \<Rightarrow> 'st core" where
  "set_slot s f c = c\<lparr>c_slots := mput s (f (the_slot c s)) (c_slots c)\<rparr>"

definition send :: "int \<Rightarrow> message \<Rightarrow> 'st core \<Rightarrow> 'st core" where
  "send to m c = c\<lparr>c_out := c_out c @ [(to, m\<lparr>m_From := c_id c\<rparr>)]\<rparr>"

definition broadcast :: "message \<Rightarrow> 'st core \<Rightarrow> 'st core" where
  "broadcast m c = send (-1) m c"

definition owner :: "'st core \<Rightarrow> int" where
  "owner c = int (c_promise c mod nat (c_n c))"

definition remember :: "val \<Rightarrow> 'st core \<Rightarrow> 'st core option" where
  "remember v c =
     (if v_Noop v then Some c
      else case mget (c_known c) (v_ID v) of
        Some old \<Rightarrow> if v_Command old \<noteq> v_Command v then None else Some c
      | None \<Rightarrow> Some (c\<lparr>c_known := mput (v_ID v) v (c_known c)\<rparr>))"

definition is_pending :: "request_id \<Rightarrow> 'st core \<Rightarrow> bool" where
  "is_pending rid c \<longleftrightarrow> rid \<in> fst ` set (c_forwardOrder c)"

definition forgetPending :: "request_id \<Rightarrow> 'st core \<Rightarrow> 'st core" where
  "forgetPending rid c = c\<lparr>c_forwardOrder := filter (\<lambda>x. fst x \<noteq> rid) (c_forwardOrder c)\<rparr>"

definition enqueue :: "request_id \<Rightarrow> 'st core \<Rightarrow> 'st core" where
  "enqueue rid c =
     (if \<not> mgetd False (c_assigned c) rid
      then c\<lparr>c_assigned := mput rid True (c_assigned c), c_queue := c_queue c @ [rid]\<rparr> else c)"

subsection \<open>Execution\<close>

definition apply_value :: "'st env \<Rightarrow> val \<Rightarrow> 'st core \<Rightarrow> 'st core option" where
  "apply_value e v c =
     (case mget (c_known c) (v_ID v) of
        None \<Rightarrow> Some c
      | Some full \<Rightarrow> do {
          c \<leftarrow> (if mget (c_results c) (v_ID v) = None
            then do {
              (res, st) \<leftarrow> execute e (v_Command full) (c_app c);
              Some (c\<lparr>c_app := st, c_results := mput (v_ID v) res (c_results c),
                c_replies := c_replies c @ [(v_ID v, res)]\<rparr>)
            }
            else Some c);
          Some (forgetPending (v_ID v) c)
        })"

lemma apply_value_slots:
  "apply_value e v c = Some c' \<Longrightarrow> c_slots c' = c_slots c \<and> c_executed c' = c_executed c"
  by (auto simp: apply_value_def forgetPending_def split: option.splits Option.bind_splits if_splits)

function apply_log :: "'st env \<Rightarrow> 'st core \<Rightarrow> 'st core option" where
  "apply_log e c =
     (case mget (c_slots c) (c_executed c + 1) of
        None \<Rightarrow> Some c
      | Some s \<Rightarrow> (case s_chosen s of
          None \<Rightarrow> Some c
        | Some ch \<Rightarrow>
            if v_Noop (e_Value ch)
            then apply_log e (c\<lparr>c_executed := c_executed c + 1, c_lastProgress := c_now c\<rparr>)
            else if mget (c_known c) (v_ID (e_Value ch)) = None then Some c
            else (case apply_value e (e_Value ch) c of
                None \<Rightarrow> None
              | Some c' \<Rightarrow> apply_log e (c'\<lparr>c_executed := c_executed c' + 1, c_lastProgress := c_now c'\<rparr>))))"
  by pat_completeness auto
termination
proof (relation "measure (\<lambda>(e, c). card {s \<in> dom (map_of (c_slots c)). c_executed c < s})")
  have less: "card {s \<in> dom (map_of m). x + 1 < s} < card {s \<in> dom (map_of m). x < s}"
    if "mget m (x + 1) = Some y" for m :: "(int, slotState) gomap" and x y
    using that by (intro psubset_card_mono) (auto simp: finite_dom_map_of dest: domI)
  fix e :: "'st env" and c c' :: "'st core" and s ch
  assume s: "mget (c_slots c) (c_executed c + 1) = Some s"
  then show "((e, c\<lparr>c_executed := c_executed c + 1, c_lastProgress := c_now c\<rparr>), e, c)
      \<in> measure (\<lambda>(e, c). card {s \<in> dom (map_of (c_slots c)). c_executed c < s})"
    by (simp add: less)
  assume "apply_value e (e_Value ch) c = Some c'"
  then have "c_slots c' = c_slots c" "c_executed c' = c_executed c" using apply_value_slots by blast+
  with s show "((e, c'\<lparr>c_executed := c_executed c' + 1, c_lastProgress := c_now c'\<rparr>), e, c)
      \<in> measure (\<lambda>(e, c). card {s \<in> dom (map_of (c_slots c)). c_executed c < s})"
    by (simp add: less)
qed simp

declare apply_log.simps [simp del]

subsection \<open>Fast proposals and votes\<close>

definition vote :: "entry \<Rightarrow> 'st core \<Rightarrow> 'st core option" where
  "vote ent c =
     (if c_promise c \<noteq> 0 then Some c
      else do {
        c \<leftarrow> slot (e_Slot ent) c;
        if s_accepted (the_slot c (e_Slot ent)) \<noteq> None then Some c
        else if \<not> v_Noop (e_Value ent) \<and> mget (c_known c) (v_ID (e_Value ent)) = None
        then Some (broadcast ((Msg msgFetch)\<lparr>m_Entries := [ent]\<rparr>)
               (set_slot (e_Slot ent) (\<lambda>s. s\<lparr>s_deferred := Some ent\<rparr>) c))
        else
          let ent = (if v_Noop (e_Value ent) then ent
                else ent\<lparr>e_Value := mgetd zero_val (c_known c) (v_ID (e_Value ent))\<rparr>);
              ent = ent\<lparr>e_Payload := True\<rparr>;
              wire = ent\<lparr>e_Payload := False, e_Value := (e_Value ent)\<lparr>v_Command := zero_command\<rparr>\<rparr>
          in Some (broadcast ((Msg msgVote)\<lparr>m_Entries := [wire]\<rparr>)
               (set_slot (e_Slot ent) (\<lambda>s. s\<lparr>s_accepted := Some ent, s_deferred := None\<rparr>) c))
      })"

definition proposeFast :: "val \<Rightarrow> 'st core \<Rightarrow> 'st core option" where
  "proposeFast v c =
     (if c_next c - c_executed c - 1 \<ge> fastWindow
      then Some (c\<lparr>c_windowFallbacks := (if c_stalled c then c_windowFallbacks c else c_windowFallbacks c + 1),
             c_stalled := True\<rparr>)
      else do {
        let s = c_next c;
        c \<leftarrow> slot s (c\<lparr>c_next := c_next c + 1\<rparr>);
        vote (Entry s 0 1 v True) (set_slot s (\<lambda>x. x\<lparr>s_local := Some (v_ID v)\<rparr>) c)
      })"

definition submit :: "'st env \<Rightarrow> val \<Rightarrow> 'st core \<Rightarrow> 'st core option" where
  "submit e v c = do {
     c \<leftarrow> remember v c;
     c \<leftarrow> apply_log e c;
     case mget (c_results c) (v_ID v) of
       Some res \<Rightarrow> Some (c\<lparr>c_replies := c_replies c @ [(v_ID v, res)]\<rparr>)
     | None \<Rightarrow>
        if is_pending (v_ID v) c then Some c
        else
          let c = (if c_forwardOrder c = [] then c\<lparr>c_lastProgress := c_now c\<rparr> else c);
              c = c\<lparr>c_forwardOrder := c_forwardOrder c @ [(v_ID v, c_now c + failureTimeout)]\<rparr>
          in if c_promise c = 0 then proposeFast v c
             else if c_active c \<and> owner c = c_id c then Some (enqueue (v_ID v) c)
             else Some c
   }"

definition learn :: "'st env \<Rightarrow> entry \<Rightarrow> 'st core \<Rightarrow> 'st core option" where
  "learn e ent c = do {
     c \<leftarrow> slot (e_Slot ent) c;
     if (case s_chosen (the_slot c (e_Slot ent)) of Some ch \<Rightarrow> \<not> sameValue (e_Value ch) (e_Value ent) | None \<Rightarrow> False)
     then None
     else do {
       c \<leftarrow> (if e_Payload ent then remember (e_Value ent) c else Some c);
       let ent = ent\<lparr>e_Decided := True\<rparr>;
       let c = set_slot (e_Slot ent) (\<lambda>s. s\<lparr>s_chosen := Some ent\<rparr>) c;
       let c = (if v_Noop (e_Value ent) then c else forgetPending (v_ID (e_Value ent)) c);
       c \<leftarrow> apply_log e c;
       case s_local (the_slot c (e_Slot ent)) of
         None \<Rightarrow> Some c
       | Some l \<Rightarrow>
           if c_promise c = 0 \<and> \<not> sameValue (zero_val\<lparr>v_ID := l\<rparr>) (e_Value ent) \<and> is_pending l c
           then proposeFast (mgetd zero_val (c_known c) l)
                  (set_slot (e_Slot ent) (\<lambda>s. s\<lparr>s_local := None\<rparr>) c)
           else Some c
     }
   }"

lemma slot_queue: "slot s c = Some c' \<Longrightarrow> c_queue c' = c_queue c"
  by (auto simp: slot_def Let_def split: if_splits)

function flush_loop :: "'st core \<Rightarrow> entry list \<Rightarrow> ('st core \<times> entry list) option" where
  "flush_loop c batch =
     (case c_queue c of [] \<Rightarrow> Some (c, batch)
      | rid # q \<Rightarrow>
        if \<not> (int (length batch) < pageSize \<and> c_next c - c_executed c < inflightWindow) then Some (c, batch)
        else
          let c = c\<lparr>c_queue := q\<rparr>
          in if mget (c_results c) rid \<noteq> None then flush_loop c batch
          else
            let ent = Entry (c_next c) (c_promise c) 0 (mgetd zero_val (c_known c) rid) True
            in (case slot (e_Slot ent) (c\<lparr>c_next := c_next c + 1\<rparr>) of
                  None \<Rightarrow> None
                | Some c' \<Rightarrow> flush_loop
                    (set_slot (e_Slot ent) (\<lambda>s. s\<lparr>s_proposed := Some ent, s_acks := 0\<rparr>) c') (batch @ [ent])))"
  by pat_completeness auto
termination
  by (relation "measure (\<lambda>(c, _). length (c_queue c))")
    (auto simp: set_slot_def slot_queue)

declare flush_loop.simps [simp del]

definition flush :: "'st core \<Rightarrow> 'st core option" where
  "flush c =
     (if \<not> c_active c \<or> owner c \<noteq> c_id c then Some c
      else do {
        (c, batch) \<leftarrow> flush_loop c [];
        Some (if batch = [] then c
              else broadcast ((Msg msgAccept)\<lparr>m_Epoch := c_promise c, m_Entries := batch\<rparr>) c)
      })"

subsection \<open>Recovery\<close>

definition adopt :: "nat \<Rightarrow> 'st core \<Rightarrow> 'st core" where
  "adopt epoch c =
     (if epoch \<le> c_promise c then c
      else c\<lparr>c_promise := epoch, c_active := False, c_preparing := False, c_frozen := [],
        c_queue := [], c_assigned := []\<rparr>)"

definition begin_epoch :: "'st core \<Rightarrow> 'st core" where
  "begin_epoch c =
     (let ep = (c_promise c div nat (c_n c) + 1) * nat (c_n c) + nat (c_id c);
          c = adopt ep c;
          c = c\<lparr>c_preparing := True, c_start := c_executed c + 1, c_snapshots := [],
            c_elections := c_elections c + 1, c_lastRetry := c_now c\<rparr>
      in broadcast ((Msg msgPrepare)\<lparr>m_Epoch := ep, m_Start := c_start c\<rparr>) c)"

definition with_payload :: "'st core \<Rightarrow> entry \<Rightarrow> entry" where
  "with_payload c ent =
     (if v_Noop (e_Value ent) then ent
      else case mget (c_known c) (v_ID (e_Value ent)) of
        Some full \<Rightarrow> ent\<lparr>e_Value := full, e_Payload := True\<rparr>
      | None \<Rightarrow> ent)"

definition snapshot_entries :: "'st core \<Rightarrow> int \<Rightarrow> entry list" where
  "snapshot_entries c start = List.map_filter (\<lambda>s.
     (case mget (c_slots c) s of
        None \<Rightarrow> None
      | Some st \<Rightarrow> map_option (with_payload c) (if s_chosen st \<noteq> None then s_chosen st else s_accepted st)))
     [start..c_high c]"

definition page_count :: "nat \<Rightarrow> nat" where
  "page_count k = (let cnt = (k + 128 - 1) div 128 in if cnt = 0 then 1 else cnt)"

definition snapshot_pages :: "'st core \<Rightarrow> int \<Rightarrow> message list" where
  "snapshot_pages c start =
     (let es = snapshot_entries c start; pages = page_count (length es)
      in map (\<lambda>p. (Msg msgPromise)\<lparr>m_Epoch := c_promise c, m_Start := start, m_High := c_high c,
           m_Page := int p, m_Pages := int pages, m_Entries := take 128 (drop (p * 128) es)\<rparr>) [0..<pages])"

definition prepare :: "message \<Rightarrow> 'st core \<Rightarrow> 'st core" where
  "prepare m c =
     (if m_Epoch m = 0 \<or> int (m_Epoch m mod nat (c_n c)) \<noteq> m_From m then c
      else if m_Epoch m < c_promise c then send (m_From m) ((Msg msgNack)\<lparr>m_Epoch := c_promise c\<rparr>) c
      else
        let c = adopt (m_Epoch m) c
        in if c_frozen c \<noteq> [] \<and> c_frozenStart c \<noteq> m_Start m then c
        else
          let c = (if c_frozen c = []
                then c\<lparr>c_frozen := snapshot_pages c (m_Start m), c_frozenStart := m_Start m\<rparr> else c)
          in fold (send (m_From m)) (c_frozen c) c)"

text \<open>
  \<open>selectValue\<close>; \<open>o1\<close>, \<open>o2\<close> and \<open>o3\<close> are the orders of its three loops over maps. The result is
  \<^const>\<open>None\<close> for the panic.
\<close>

fun select_top :: "(int \<times> entry) list \<Rightarrow> entry option \<Rightarrow> val + entry option" where
  "select_top [] tp = Inr tp"
| "select_top ((_, ent) # es) tp =
     (if e_Decided ent then Inl (e_Value ent)
      else select_top es (case tp of None \<Rightarrow> Some ent | Some t \<Rightarrow> if newer ent t then Some ent else tp))"

fun select_support ::
  "entry \<Rightarrow> (int \<times> entry) list \<Rightarrow> (request_id, val) gomap \<times> (request_id, rset) gomap \<Rightarrow>
   val + ((request_id, val) gomap \<times> (request_id, rset) gomap)" where
  "select_support tp [] vs = Inr vs"
| "select_support tp ((i, ent) # es) (values, supports) =
     (if e_Epoch ent = e_Epoch tp \<and> e_Round ent = e_Round tp then
        (if v_Noop (e_Value ent) then Inl (e_Value ent)
         else let rid = v_ID (e_Value ent)
           in select_support tp es (mput rid (e_Value ent) values,
                mput rid (With (mgetd 0 supports rid) i) supports))
      else select_support tp es (values, supports))"

definition selectValue ::
  "nat list \<Rightarrow> nat list \<Rightarrow> nat list \<Rightarrow> (int, entry) gomap \<Rightarrow> rset \<Rightarrow> int \<Rightarrow> int \<Rightarrow> (val \<times> bool) option" where
  "selectValue o1 o2 o3 reports voters fastSize n =
     (case select_top (mrange o1 reports) None of
        Inl v \<Rightarrow> Some (v, True)
      | Inr None \<Rightarrow> Some (noop_val, False)
      | Inr (Some tp) \<Rightarrow>
          (case select_support tp (mrange o2 reports) ([], []) of
             Inl v \<Rightarrow> Some (v, True)
           | Inr (values, supports) \<Rightarrow>
               if mlen values = 1 then Some (e_Value tp, True)
               else if e_Epoch tp > 0 then None
               else
                 let minimum = fastSize + Size voters - n
                 in (case find (\<lambda>(rid, v). Size (mgetd 0 supports rid) \<ge> minimum) (mrange o3 values) of
                       Some (_, v) \<Rightarrow> Some (v, True)
                     | None \<Rightarrow> Some (noop_val, False))))"

definition sn_complete :: "snapshot \<Rightarrow> bool" where
  "sn_complete s \<longleftrightarrow> int (mlen (sn_parts s)) = sn_pages s"

definition voters_of :: "(int, snapshot) gomap \<Rightarrow> rset" where
  "voters_of sns = fold (\<lambda>i m. if sn_complete (the (map_of sns i)) then With m i else m) (mkeys sns) 0"

definition max_slot :: "(int, snapshot) gomap \<Rightarrow> int \<Rightarrow> int" where
  "max_slot sns start = fold (\<lambda>i h. let s = the (map_of sns i) in if sn_complete s \<and> sn_high s > h then sn_high s else h)
     (mkeys sns) (start - 1)"

definition reported :: "'st env \<Rightarrow> (int, snapshot) gomap \<Rightarrow> (int \<times> entry) list" where
  "reported e sns = concat (map
     (\<lambda>(i, s). if sn_complete s
        then concat (map (\<lambda>(_, es). map (Pair i) es) (mrange (order e (Loop_parts i)) (sn_parts s)))
        else [])
     (mrange (order e Loop_snapshots) sns))"

fun collect :: "(int \<times> entry) list \<Rightarrow> (int, (int, entry) gomap) gomap \<times> 'st core \<Rightarrow>
    ((int, (int, entry) gomap) gomap \<times> 'st core) option" where
  "collect [] (by_slot, c) = Some (by_slot, c)"
| "collect ((i, ent) # es) (by_slot, c) = do {
     c \<leftarrow> (if e_Payload ent then remember (e_Value ent) c else Some c);
     collect es (mput (e_Slot ent) (mput i ent (mgetd [] by_slot (e_Slot ent))) by_slot, c)
   }"

fun propose_slots :: "'st env \<Rightarrow> (int, (int, entry) gomap) gomap \<Rightarrow> rset \<Rightarrow> int list \<Rightarrow> 'st core \<Rightarrow> 'st core option" where
  "propose_slots e by_slot voters [] c = Some c"
| "propose_slots e by_slot voters (s # ss) c = do {
     (v, _) \<leftarrow> selectValue (order e (Loop_reports s)) (order e (Loop_support s)) (order e (Loop_values s))
       (mgetd [] by_slot s) voters (c_fastSize c) (c_n c);
     c \<leftarrow> slot s c;
     let c = set_slot s (\<lambda>x. x\<lparr>s_proposed := Some (Entry s (c_promise c) 0 v False), s_acks := 0\<rparr>) c;
     let c = (if v_Noop v then c else c\<lparr>c_assigned := mput (v_ID v) True (c_assigned c)\<rparr>);
     propose_slots e by_slot voters ss (c\<lparr>c_repaired := c_repaired c + 1\<rparr>)
   }"

fun resend_loop :: "nat \<Rightarrow> int \<Rightarrow> entry list \<Rightarrow> entry list \<Rightarrow> 'st core \<Rightarrow> entry list \<times> entry list \<times> 'st core" where
  "resend_loop 0 ceiling acc com c = (acc, com, c)"
| "resend_loop (Suc k) ceiling acc com c =
     (if c_retryCursor c > ceiling then (acc, com, c)
      else
        let cur = c_retryCursor c;
            c = c\<lparr>c_retryCursor := cur + 1\<rparr>;
            page = (\<lambda>acc com c.
              let (acc, c) = (if int (length acc) = pageSize
                    then ([], broadcast ((Msg msgAccept)\<lparr>m_Epoch := c_promise c, m_Entries := acc\<rparr>) c) else (acc, c));
                  (com, c) = (if int (length com) = pageSize
                    then ([], broadcast ((Msg msgCommit)\<lparr>m_Entries := com\<rparr>) c) else (com, c))
              in resend_loop k ceiling acc com c)
        in case mget (c_slots c) cur of
          None \<Rightarrow> resend_loop k ceiling acc com c
        | Some st \<Rightarrow>
           (case s_chosen st of
              Some ch \<Rightarrow> page acc (com @ [with_payload c ch]) c
            | None \<Rightarrow>
               (case s_proposed st of
                  None \<Rightarrow> page acc com c
                | Some pr \<Rightarrow>
                    if e_Epoch pr \<noteq> c_promise c then page acc com c
                    else if \<not> v_Noop (e_Value pr) \<and> mget (c_known c) (v_ID (e_Value pr)) = None
                    then resend_loop k ceiling acc com (broadcast ((Msg msgFetch)\<lparr>m_Entries := [pr]\<rparr>) c)
                    else page (acc @ [(with_payload c pr)\<lparr>e_Payload := True\<rparr>]) com c)))"

definition resend :: "'st core \<Rightarrow> 'st core" where
  "resend c =
     (if \<not> c_active c \<or> owner c \<noteq> c_id c then c
      else
        let flr = max (c_start c) (c_executed c + 1);
            ceiling = (if c_high c \<ge> flr + inflightWindow then flr + inflightWindow - 1 else c_high c);
            c = (if c_retryCursor c < flr \<or> c_retryCursor c > ceiling then c\<lparr>c_retryCursor := flr\<rparr> else c);
            (acc, com, c) = resend_loop (nat repairBudget) ceiling [] [] c;
            c = (if acc \<noteq> [] then broadcast ((Msg msgAccept)\<lparr>m_Epoch := c_promise c, m_Entries := acc\<rparr>) c else c)
        in if com \<noteq> [] then broadcast ((Msg msgCommit)\<lparr>m_Entries := com\<rparr>) c else c)"

definition promisePage :: "'st env \<Rightarrow> message \<Rightarrow> 'st core \<Rightarrow> 'st core option" where
  "promisePage e m c =
     (if \<not> c_preparing c \<or> m_Epoch m \<noteq> c_promise c \<or> m_Start m \<noteq> c_start c \<or> m_Pages m < 1
        \<or> m_Page m < 0 \<or> m_Page m \<ge> m_Pages m
      then Some c
      else
        let s = (case mget (c_snapshots c) (m_From m) of Some s \<Rightarrow> s
              | None \<Rightarrow> \<lparr>sn_pages = m_Pages m, sn_high = m_High m, sn_parts = []\<rparr>);
            c = c\<lparr>c_snapshots := mput (m_From m) s (c_snapshots c)\<rparr>
        in if sn_pages s \<noteq> m_Pages m \<or> sn_high s \<noteq> m_High m then Some c
        else
          let s = (if mget (sn_parts s) (m_Page m) = None
                then s\<lparr>sn_parts := mput (m_Page m) (m_Entries m) (sn_parts s)\<rparr> else s);
              c = c\<lparr>c_snapshots := mput (m_From m) s (c_snapshots c)\<rparr>;
              voters = voters_of (c_snapshots c);
              maxSlot = max_slot (c_snapshots c) (c_start c)
          in if Size voters < go_div (c_n c) 2 + 1 then Some c
          else do {
            (by_slot, c) \<leftarrow> collect (reported e (c_snapshots c)) ([], c);
            let c = c\<lparr>c_preparing := False, c_active := True, c_high := maxSlot, c_next := maxSlot + 1,
                  c_retryCursor := c_start c\<rparr>;
            c \<leftarrow> propose_slots e by_slot voters [c_start c..maxSlot] c;
            let c = fold enqueue (sort (map fst (c_forwardOrder c))) c;
            Some (resend c)
          })"

subsection \<open>Receiving a message\<close>

definition vote_entry :: "'st env \<Rightarrow> int \<Rightarrow> entry \<Rightarrow> 'st core \<Rightarrow> 'st core option" where
  "vote_entry e from ent c =
     (if e_Epoch ent \<noteq> 0 \<or> e_Round ent \<noteq> 1 \<or> v_Noop (e_Value ent) then Some c
      else do {
        c \<leftarrow> slot (e_Slot ent) c;
        let s = the_slot c (e_Slot ent);
        if s_chosen s \<noteq> None then Some c
        else if mget (s_votes s) from \<noteq> None then Some c
        else
          let vs = mput from ent (s_votes s);
              support = int (length (filter (\<lambda>i. sameValue (e_Value (the (mget vs i))) (e_Value ent)) (mkeys vs)));
              mx = (if support > s_maxVotes s then support else s_maxVotes s);
              c = set_slot (e_Slot ent) (\<lambda>s. s\<lparr>s_votes := vs, s_maxVotes := mx\<rparr>) c
          in if support \<ge> c_fastSize c
             then learn e ent (c\<lparr>c_fastCommits := c_fastCommits c + 1\<rparr>)
             else if mx + c_n c - int (mlen vs) < c_fastSize c then Some (c\<lparr>c_stalled := True\<rparr>)
             else Some c
      })"

fun for_entries :: "(entry \<Rightarrow> 'a \<Rightarrow> 'a option) \<Rightarrow> entry list \<Rightarrow> 'a \<Rightarrow> 'a option" where
  "for_entries f [] c = Some c"
| "for_entries f (x # xs) c = (case f x c of None \<Rightarrow> None | Some c' \<Rightarrow> for_entries f xs c')"

definition accept_entry :: "nat \<Rightarrow> entry \<Rightarrow> 'st core \<times> entry list \<Rightarrow> ('st core \<times> entry list) option" where
  "accept_entry epoch ent ca = (case ca of (c, acks) \<Rightarrow>
     (if e_Epoch ent \<noteq> epoch \<or> \<not> e_Payload ent then Some (c, acks)
      else do {
        c \<leftarrow> remember (e_Value ent) c;
        c \<leftarrow> slot (e_Slot ent) c;
        let s = the_slot c (e_Slot ent);
        if (case s_chosen s of Some ch \<Rightarrow> \<not> sameValue (e_Value ch) (e_Value ent) | None \<Rightarrow> False) then None
        else if (case s_accepted s of
              Some a \<Rightarrow> e_Epoch a = e_Epoch ent \<and> \<not> sameValue (e_Value a) (e_Value ent) | None \<Rightarrow> False) then None
        else Some (set_slot (e_Slot ent)
               (\<lambda>s. s\<lparr>s_accepted := Some (Entry (e_Slot ent) (e_Epoch ent) 0 (e_Value ent) True)\<rparr>) c,
             acks @ [Entry (e_Slot ent) (e_Epoch ent) 0 zero_val False])
      }))"

definition receive_accept :: "message \<Rightarrow> 'st core \<Rightarrow> 'st core option" where
  "receive_accept m c =
     (if m_Epoch m = 0 \<or> int (m_Epoch m mod nat (c_n c)) \<noteq> m_From m then Some c
      else if m_Epoch m < c_promise c then Some (send (m_From m) ((Msg msgNack)\<lparr>m_Epoch := c_promise c\<rparr>) c)
      else do {
        let c = (adopt (m_Epoch m) c)\<lparr>c_active := True\<rparr>;
        (c, acks) \<leftarrow> for_entries (accept_entry (m_Epoch m)) (m_Entries m) (c, []);
        Some (send (m_From m) ((Msg msgAccepted)\<lparr>m_Epoch := m_Epoch m, m_Entries := acks\<rparr>) c)
      })"

definition accepted_entry :: "'st env \<Rightarrow> message \<Rightarrow> entry \<Rightarrow> 'st core \<times> entry list \<Rightarrow> ('st core \<times> entry list) option" where
  "accepted_entry e m ent ca = (case ca of (c, chosen) \<Rightarrow>
     (case mget (c_slots c) (e_Slot ent) of
        None \<Rightarrow> Some (c, chosen)
      | Some s \<Rightarrow>
         (case s_proposed s of
            None \<Rightarrow> Some (c, chosen)
          | Some pr \<Rightarrow>
             if e_Epoch pr \<noteq> m_Epoch m \<or> s_chosen s \<noteq> None then Some (c, chosen)
             else
               let acks = With (s_acks s) (m_From m);
                   c = set_slot (e_Slot ent) (\<lambda>s. s\<lparr>s_acks := acks\<rparr>) c
               in if Size acks \<ge> go_div (c_n c) 2 + 1
                  then
                    let v = (if v_Noop (e_Value pr) then pr
                          else pr\<lparr>e_Value := mgetd zero_val (c_known c) (v_ID (e_Value pr))\<rparr>);
                        v = v\<lparr>e_Payload := True, e_Decided := True\<rparr>
                    in do {
                      c \<leftarrow> learn e v (c\<lparr>c_classicCommits := c_classicCommits c + 1\<rparr>);
                      Some (c, chosen @ [v])
                    }
                  else Some (c, chosen))))"

definition receive_accepted :: "'st env \<Rightarrow> message \<Rightarrow> 'st core \<Rightarrow> 'st core option" where
  "receive_accepted e m c =
     (if \<not> c_active c \<or> owner c \<noteq> c_id c \<or> m_Epoch m \<noteq> c_promise c then Some c
      else do {
        (c, chosen) \<leftarrow> for_entries (accepted_entry e m) (m_Entries m) (c, []);
        Some (if chosen = [] then c else broadcast ((Msg msgCommit)\<lparr>m_Entries := chosen\<rparr>) c)
      })"

fun fetch_loop :: "int \<Rightarrow> int list \<Rightarrow> entry list \<Rightarrow> 'st core \<Rightarrow> entry list \<times> 'st core" where
  "fetch_loop to [] ds c = (ds, c)"
| "fetch_loop to (i # is) ds c =
     (case mget (c_slots c) i of
        None \<Rightarrow> fetch_loop to is ds c
      | Some s \<Rightarrow>
         (case s_chosen s of
            None \<Rightarrow> fetch_loop to is ds c
          | Some ch \<Rightarrow>
             if \<not> v_Noop (e_Value ch) \<and> mget (c_known c) (v_ID (e_Value ch)) = None
             then fetch_loop to is ds c
             else
               let ds = ds @ [(with_payload c ch)\<lparr>e_Payload := True\<rparr>]
               in if int (length ds) = pageSize
                  then fetch_loop to is [] (send to ((Msg msgCommit)\<lparr>m_Entries := ds\<rparr>) c)
                  else fetch_loop to is ds c))"

definition receive_fetch :: "message \<Rightarrow> 'st core \<Rightarrow> 'st core" where
  "receive_fetch m c =
     (let es = List.map_filter (\<lambda>ent. map_option (\<lambda>v. Entry 0 0 0 v True) (mget (c_known c) (v_ID (e_Value ent))))
            (m_Entries m);
          c = (if es \<noteq> [] then send (m_From m) ((Msg msgData)\<lparr>m_Entries := es\<rparr>) c else c)
      in if m_Entries m \<noteq> [] then c
      else
        let (ds, c) = fetch_loop (m_From m) [m_Start m..min (m_High m) (m_Start m + repairBudget - 1)] [] c
        in if ds \<noteq> [] then send (m_From m) ((Msg msgCommit)\<lparr>m_Entries := ds\<rparr>) c else c)"

fun vote_deferred :: "int list \<Rightarrow> 'st core \<Rightarrow> 'st core option" where
  "vote_deferred [] c = Some c"
| "vote_deferred (s # ss) c =
     (case s_deferred (the_slot c s) of
        None \<Rightarrow> vote_deferred ss c
      | Some d \<Rightarrow> do { c \<leftarrow> vote d c; vote_deferred ss c })"

definition receive_data :: "'st env \<Rightarrow> message \<Rightarrow> 'st core \<Rightarrow> 'st core option" where
  "receive_data e m c = do {
     c \<leftarrow> for_entries (\<lambda>ent c. if e_Payload ent then remember (e_Value ent) c else Some c) (m_Entries m) c;
     c \<leftarrow> vote_deferred (map fst (mrange (order e Loop_slots) (c_slots c))) c;
     apply_log e c
   }"

definition receive :: "'st env \<Rightarrow> message \<Rightarrow> 'st core \<Rightarrow> 'st core option" where
  "receive e m c =
     (if m_From m < 0 \<or> m_From m \<ge> c_n c then Some c
      else
        let c = c\<lparr>c_heard := (c_heard c)[nat (m_From m) := c_now c]\<rparr>
        in case m_Kind m of
          msgVote \<Rightarrow> if c_promise c \<noteq> 0 then Some c else for_entries (vote_entry e (m_From m)) (m_Entries m) c
        | msgPrepare \<Rightarrow> Some (prepare m c)
        | msgPromise \<Rightarrow> promisePage e m c
        | msgAccept \<Rightarrow> receive_accept m c
        | msgAccepted \<Rightarrow> receive_accepted e m c
        | msgCommit \<Rightarrow> for_entries (learn e) (m_Entries m) c
        | msgHeartbeat \<Rightarrow>
            let c = (if m_Epoch m > c_promise c then adopt (m_Epoch m) c else c)
            in Some (if c_promise c > 0 \<and> m_From m = owner c \<and> m_High m > c_executed c
               then send (m_From m) ((Msg msgFetch)\<lparr>m_Start := c_executed c + 1, m_High := m_High m\<rparr>) c else c)
        | msgFetch \<Rightarrow> Some (receive_fetch m c)
        | msgData \<Rightarrow> receive_data e m c
        | msgForward \<Rightarrow>
            if c_promise c = 0 \<or> owner c \<noteq> c_id c \<or> \<not> c_active c then Some c
            else for_entries (\<lambda>ent c. if e_Payload ent then submit e (e_Value ent) c else Some c) (m_Entries m) c
        | msgNack \<Rightarrow> Some (if m_Epoch m > c_promise c then adopt (m_Epoch m) c else c)
        | msgRecover \<Rightarrow> Some (if c_promise c = 0 then c\<lparr>c_stalled := True\<rparr> else c)
        | msgOther _ \<Rightarrow> Some c)"

subsection \<open>Timers\<close>

definition alive_ids :: "int \<Rightarrow> int list \<Rightarrow> int list" where
  "alive_ids now heard = map int (filter (\<lambda>i. now - heard ! i < failureTimeout) [0..<length heard])"

definition alive_mask :: "int list \<Rightarrow> rset" where
  "alive_mask is = foldl With 0 is"

fun forward_loop :: "nat \<Rightarrow> int \<Rightarrow> entry list \<Rightarrow> 'st core \<Rightarrow> entry list \<times> 'st core" where
  "forward_loop 0 now batch c = (batch, c)"
| "forward_loop (Suc k) now batch c =
     (case c_forwardOrder c of
        [] \<Rightarrow> (batch, c)
      | (rid, retryAt) # rest \<Rightarrow>
          if retryAt > now then (batch, c)
          else
            let c = c\<lparr>c_forwardOrder := rest @ [(rid, now + failureTimeout)]\<rparr>;
                batch = batch @ [Entry 0 0 0 (mgetd zero_val (c_known c) rid) True]
            in if int (length batch) = pageSize
               then forward_loop k now [] (send (owner c) ((Msg msgForward)\<lparr>m_Entries := batch\<rparr>) c)
               else forward_loop k now batch c)"

definition tick_retry :: "int \<Rightarrow> 'st core \<Rightarrow> 'st core" where
  "tick_retry now c =
     (let c = c\<lparr>c_lastRetry := now\<rparr>;
          c = (case mget (c_slots c) (c_executed c + 1) of
              None \<Rightarrow> c
            | Some s \<Rightarrow> (case s_chosen s of
                None \<Rightarrow> c
              | Some ch \<Rightarrow>
                  if \<not> v_Noop (e_Value ch) \<and> mget (c_known c) (v_ID (e_Value ch)) = None
                  then broadcast ((Msg msgFetch)\<lparr>m_Entries := [ch]\<rparr>) c else c))
      in if c_promise c > 0 \<and> owner c \<noteq> c_id c \<and> c_forwardOrder c \<noteq> []
         then
           let (batch, c) = forward_loop (nat repairBudget) now [] c
           in if batch \<noteq> [] then send (owner c) ((Msg msgForward)\<lparr>m_Entries := batch\<rparr>) c else c
         else c)"

definition tick_need :: "int \<Rightarrow> rset \<Rightarrow> 'st core \<Rightarrow> bool" where
  "tick_need now alive c \<longleftrightarrow>
     (c_promise c = 0 \<and> (Size alive < c_fastSize c \<or> c_stalled c
        \<or> (c_forwardOrder c \<noteq> [] \<or> c_high c > c_executed c) \<and> now - c_lastProgress c > failureTimeout))
     \<or> (c_promise c > 0 \<and> \<not> Contains alive (owner c))"

definition tick :: "int \<Rightarrow> 'st core \<Rightarrow> 'st core option" where
  "tick now c = do {
     let c = c\<lparr>c_now := now, c_heard := (c_heard c)[nat (c_id c) := now]\<rparr>;
     let c = (if now - c_lastBeat c \<ge> 250 * Millisecond
           then (broadcast ((Msg msgHeartbeat)\<lparr>m_Epoch := c_promise c, m_High := c_executed c\<rparr>) c)\<lparr>c_lastBeat := now\<rparr>
           else c);
     let up = alive_ids now (c_heard c);
     let alive = alive_mask up;
     let candidate = (case up of [] \<Rightarrow> -1 | i # _ \<Rightarrow> i);
     let c = (if c_promise c = 0 \<and> \<not> c_stalled c \<and> c_forwardOrder c \<noteq> [] \<and> now \<ge> snd (hd (c_forwardOrder c))
           then c\<lparr>c_stalled := True, c_ageFallbacks := c_ageFallbacks c + 1\<rparr> else c);
     let need = tick_need now alive c;
     let c = (if need \<and> candidate = c_id c \<and> Size alive \<ge> go_div (c_n c) 2 + 1 then begin_epoch c else c);
     let c = (if need \<and> candidate \<ge> 0 \<and> candidate \<noteq> c_id c
           then send candidate ((Msg msgRecover)\<lparr>m_Epoch := c_promise c\<rparr>) c else c);
     let c = (if c_preparing c \<and> now - c_lastRetry c \<ge> Second
           then (broadcast ((Msg msgPrepare)\<lparr>m_Epoch := c_promise c, m_Start := c_start c\<rparr>) c)\<lparr>c_lastRetry := now\<rparr>
           else c);
     c \<leftarrow> (if c_active c \<and> owner c = c_id c
       then do {
         c \<leftarrow> flush c;
         Some (if now - c_lastRepair c \<ge> 100 * Millisecond then (resend c)\<lparr>c_lastRepair := now\<rparr> else c)
       }
       else Some c);
     Some (if now - c_lastRetry c \<ge> Second then tick_retry now c else c)
   }"

subsection \<open>Message validation\<close>

datatype wire_error = InvalidMessage | NegativeSlot | InvalidPayload

fun kind_code :: "kind \<Rightarrow> nat" where
  "kind_code msgVote = 0" | "kind_code msgPrepare = 1" | "kind_code msgPromise = 2"
| "kind_code msgAccept = 3" | "kind_code msgAccepted = 4" | "kind_code msgCommit = 5"
| "kind_code msgHeartbeat = 6" | "kind_code msgFetch = 7" | "kind_code msgData = 8"
| "kind_code msgForward = 9" | "kind_code msgNack = 10" | "kind_code msgRecover = 11"
| "kind_code (msgOther b) = unat b"

fun validate_entries :: "entry list \<Rightarrow> int \<Rightarrow> wire_error option" where
  "validate_entries [] tot = None"
| "validate_entries (ent # es) tot =
     (if e_Slot ent < 0 then Some NegativeSlot
      else if e_Payload ent \<and> \<not> v_Noop (e_Value ent) then
        let len = int (length (V (v_Command (e_Value ent)))); tot = tot + len
        in if Op (v_Command (e_Value ent)) > SCAN \<or> len > 16 * 2 ^ 20 \<or> tot > 32 * 2 ^ 20
           then Some InvalidPayload else validate_entries es tot
      else validate_entries es tot)"

definition validateProtoMessage :: "message \<Rightarrow> wire_error option" where
  "validateProtoMessage m =
     (if kind_code (m_Kind m) > 11 \<or> int (length (m_Entries m)) > pageSize then Some InvalidMessage
      else validate_entries (m_Entries m) 0)"

end
