(* ===== verification/FastPaxosRecovery.thy ===== *)
theory FastPaxosRecovery
  imports FastPaxosCore
begin

text \<open>
  The value selection of Fast Paxos recovery (\<open>selectValue\<close> of \<open>src/fastpaxos/recovery.go\<close>): a new
  coordinator that has heard from a majority proposes the value that a fast quorum or a classic majority may
  already have chosen, whatever order the maps are ranged over.
\<close>

subsection \<open>The loops of the selection\<close>

lemma select_top_Inl: "select_top es tp = Inl v \<Longrightarrow> \<exists>i ent. (i, ent) \<in> set es \<and> e_Decided ent \<and> e_Value ent = v"
  by (induction es tp rule: select_top.induct) (auto split: if_splits)

lemma newer_trans: "\<not> newer b a \<Longrightarrow> newer c a \<Longrightarrow> \<not> newer b c"
  by (auto simp: newer_def)

lemma not_newer_trans: "\<not> newer b a \<Longrightarrow> \<not> newer a c \<Longrightarrow> \<not> newer b c"
  by (auto simp: newer_def)

lemma newer_irrefl [simp]: "\<not> newer a a"
  by (simp add: newer_def)

text \<open>The top entry is one of the reports and none is newer.\<close>

lemma select_top_open: "select_top es tp = Inr t \<Longrightarrow> (i, ent) \<in> set es \<Longrightarrow> \<not> e_Decided ent"
  by (induction es tp rule: select_top.induct) (auto split: if_splits)

lemma select_top_Some:
  "select_top es (Some u) = Inr t \<Longrightarrow> \<exists>x. t = Some x \<and> (x = u \<or> x \<in> snd ` set es) \<and> \<not> newer u x \<and> (\<forall>y \<in> snd ` set es. \<not> newer y x)"
proof (induction es arbitrary: u)
  case (Cons p es)
  obtain i ent where p: "p = (i, ent)" by (cases p)
  let ?w = "if newer ent u then ent else u"
  have "select_top es (Some ?w) = Inr t" using Cons.prems by (auto simp: p split: if_splits)
  from Cons.IH [OF this] obtain x where x: "t = Some x" "x = ?w \<or> x \<in> snd ` set es" "\<not> newer ?w x" "\<forall>y \<in> snd ` set es. \<not> newer y x" by blast
  have "\<not> newer u x" "\<not> newer ent x" using x(3) not_newer_trans [of u ent x] not_newer_trans [of ent u x]
    by (auto simp: newer_def split: if_splits)
  then show ?case using x by (auto simp: p split: if_splits)
qed simp

lemma select_top_Inr:
  assumes "select_top es None = Inr t"
  shows "t = None \<longleftrightarrow> es = []" "t = Some x \<Longrightarrow> x \<in> snd ` set es" "t = Some x \<Longrightarrow> (i, y) \<in> set es \<Longrightarrow> \<not> newer y x"
  using assms select_top_Some [of "tl es" "snd (hd es)" t] by (cases es; force split: if_splits)+

lemma select_support_Inl:
  "select_support tp es vs = Inl v \<Longrightarrow> \<exists>ent \<in> snd ` set es. e_Epoch ent = e_Epoch tp \<and> e_Round ent = e_Round tp
     \<and> e_Value ent = v \<and> v_Noop v"
  by (induction tp es vs rule: select_support.induct) (auto simp: Let_def split: if_splits)

text \<open>The replicas that report a request at the level of the top entry.\<close>

definition supporters :: "entry \<Rightarrow> (int \<times> entry) list \<Rightarrow> request_id \<Rightarrow> int set" where
  "supporters tp es rid = {i. \<exists>ent. (i, ent) \<in> set es \<and> e_Epoch ent = e_Epoch tp \<and> e_Round ent = e_Round tp \<and> v_ID (e_Value ent) = rid}"

lemma supporters_Cons: "supporters tp ((i, ent) # es) rid =
    (if e_Epoch ent = e_Epoch tp \<and> e_Round ent = e_Round tp \<and> v_ID (e_Value ent) = rid then insert i (supporters tp es rid)
     else supporters tp es rid)"
  by (auto simp: supporters_def)

lemma supporters_Nil [simp]: "supporters tp [] rid = {}"
  by (simp add: supporters_def)

lemma select_support_Inr:
  assumes "select_support tp es (vs, su) = Inr (vs', su')" "\<forall>i \<in> fst ` set es. in_range i"
  shows "(\<forall>rid. ids (mgetd 0 su' rid) = ids (mgetd 0 su rid) \<union> supporters tp es rid) \<and>
    dom (map_of vs') = dom (map_of vs) \<union> {rid. supporters tp es rid \<noteq> {}} \<and>
    (\<forall>rid v. map_of vs' rid = Some v \<longrightarrow> map_of vs rid = Some v \<or> \<not> v_Noop v \<and> v_ID v = rid) \<and>
    (\<forall>ent \<in> snd ` set es. e_Epoch ent = e_Epoch tp \<and> e_Round ent = e_Round tp \<longrightarrow> \<not> v_Noop (e_Value ent))"
  using assms
proof (induction tp es "(vs, su)" arbitrary: vs su rule: select_support.induct)
  case (2 tp i ent es vs su)
  show ?case
  proof (cases "e_Epoch ent = e_Epoch tp \<and> e_Round ent = e_Round tp")
    case True
    then have nn: "\<not> v_Noop (e_Value ent)" using "2.prems" by (auto split: if_splits)
    let ?r = "v_ID (e_Value ent)"
    let ?vs = "mput ?r (e_Value ent) vs" and ?su = "mput ?r (With (mgetd 0 su ?r) i) su"
    have step: "select_support tp es (?vs, ?su) = Inr (vs', su')" using "2.prems" True nn by (simp add: Let_def)
    note IH = "2.hyps"(1) [OF True nn refl step]
    have r: "in_range i" "\<forall>i \<in> fst ` set es. in_range i" using "2.prems"(2) by auto
    note IH = IH [OF r(2)]
    show ?thesis
    proof (intro conjI allI impI)
      show "ids (mgetd 0 su' rid) = ids (mgetd 0 su rid) \<union> supporters tp ((i, ent) # es) rid" for rid
        using IH r True by (simp add: supporters_Cons ids_With)
      show "dom (map_of vs') = dom (map_of vs) \<union> {rid. supporters tp ((i, ent) # es) rid \<noteq> {}}"
        using IH True by (auto simp: supporters_Cons)
      show "map_of vs rid = Some v \<or> \<not> v_Noop v \<and> v_ID v = rid" if "map_of vs' rid = Some v" for rid v
        using IH that nn by (auto split: if_splits)
      show "\<forall>ent\<in>snd ` set ((i, ent) # es). e_Epoch ent = e_Epoch tp \<and> e_Round ent = e_Round tp \<longrightarrow> \<not> v_Noop (e_Value ent)"
        using IH nn by auto
    qed
  next
    case False
    then have "select_support tp es (vs, su) = Inr (vs', su')" using "2.prems" by (auto simp: Let_def)
    then show ?thesis using "2.hyps"(2) [OF False] "2.prems"(2) False by (auto simp: supporters_Cons)
  qed
qed (auto simp: supporters_def)

subsection \<open>Fast quorums\<close>

text \<open>A fast quorum and two majorities of it: the arithmetic behind \<open>fastQuorumSize\<close>.\<close>

lemma fastQuorumSize_bounds:
  assumes "3 \<le> n" "odd n"
  shows "fastQuorumSize n \<le> n" "2 * n < 2 * fastQuorumSize n + (n div 2 + 1)"
  using assms by (auto simp: fastQuorumSize_def go_div_def elim!: oddE)

text \<open>A fast quorum and the voters share more replicas than \<open>minimum\<close>, and fewer than \<open>minimum\<close> are left outside.\<close>

lemma fast_overlap:
  assumes "3 \<le> n" "odd n" "W \<subseteq> {0..<n}" "F \<subseteq> {0..<n}" "n div 2 + 1 \<le> int (card W)" "fastQuorumSize n \<le> int (card F)"
  shows "fastQuorumSize n + int (card W) - n \<le> int (card (F \<inter> W))" "int (card (W - F)) < fastQuorumSize n + int (card W) - n"
    "F \<inter> W \<noteq> {}"
proof -
  have fin: "finite W" "finite F" using assms finite_subset [of _ "{0..<n}"] by auto
  have "card (F \<union> W) \<le> card {0..<n}" using assms by (intro card_mono) auto
  then have u: "int (card (F \<union> W)) \<le> n" using assms by simp
  have s: "card F + card W = card (F \<union> W) + card (F \<inter> W)" by (rule card_Un_Int [OF fin(2,1)])
  have d: "card (W - F) = card W - card (F \<inter> W)" "card (F \<inter> W) \<le> card W"
    using fin by (simp_all add: card_Diff_subset_Int Int_commute card_mono)
  show o: "fastQuorumSize n + int (card W) - n \<le> int (card (F \<inter> W))" using u s assms by linarith
  show "int (card (W - F)) < fastQuorumSize n + int (card W) - n"
    using o d fastQuorumSize_bounds(2) [OF assms(1,2)] assms(5) by linarith
  have "0 < fastQuorumSize n + int (card W) - n" using fastQuorumSize_bounds(2) [OF assms(1,2)] assms(5) u s d(2) assms(6)
    using \<open>int (card (W - F)) < _\<close> by linarith
  then show "F \<inter> W \<noteq> {}" using o by auto
qed

subsection \<open>What the selection returns\<close>

lemma selectValue_cases:
  assumes sel: "selectValue u1 u2 u3 reports voters fastSize n = res" and ran: "dom (map_of reports) \<subseteq> Collect in_range"
  obtains (decided) i ent where "mget reports i = Some ent" "e_Decided ent" "res = Some (e_Value ent, True)"
  | (nothing) "reports = []" "res = Some (noop_val, False)"
  | (noop) tp i ent where "mget reports i = Some ent" "v_Noop (e_Value ent)" "res = Some (e_Value ent, True)"
      "e_Epoch ent = e_Epoch tp" "e_Round ent = e_Round tp" "\<And>j y. mget reports j = Some y \<Longrightarrow> \<not> newer y tp"
  | (counted) tp t vs su where "mget reports t = Some tp" "\<And>j y. mget reports j = Some y \<Longrightarrow> \<not> newer y tp"
      "\<And>rid. ids (mgetd 0 su rid) = supporters tp (mrange u2 reports) rid" "dom (map_of vs) = {rid. supporters tp (mrange u2 reports) rid \<noteq> {}}"
      "\<And>rid w. map_of vs rid = Some w \<Longrightarrow> \<not> v_Noop w \<and> v_ID w = rid"
      "\<And>j y. mget reports j = Some y \<Longrightarrow> e_Epoch y = e_Epoch tp \<Longrightarrow> e_Round y = e_Round tp \<Longrightarrow> \<not> v_Noop (e_Value y)"
      "res = (if mlen vs = 1 then Some (e_Value tp, True) else if e_Epoch tp > 0 then None
         else (case find (\<lambda>(rid, v). Size (mgetd 0 su rid) \<ge> fastSize + Size voters - n) (mrange u3 vs) of
                       Some (_, v) \<Rightarrow> Some (v, True) | None \<Rightarrow> Some (noop_val, False)))"
proof (cases "select_top (mrange u1 reports) None")
  case (Inl v)
  from select_top_Inl [OF this] obtain i ent where "mget reports i = Some ent" "e_Decided ent" "e_Value ent = v" by auto
  then show thesis using decided sel Inl by (auto simp: selectValue_def)
next
  case (Inr t)
  note top = select_top_Inr [OF Inr]
  show thesis
  proof (cases t)
    case None
    then have "mrange u1 reports = []" using top(1) by simp
    then have "reports = []" by (cases reports) (auto simp: mrange_def mkeys_def dest: arg_cong [of _ _ length] split: if_splits)
    moreover have "res = Some (noop_val, False)" using sel [symmetric] Inr None by (simp add: selectValue_def)
    ultimately show thesis by (rule nothing)
  next
    case (Some tp)
    obtain t0 where t0: "mget reports t0 = Some tp" using top(2) [OF Some] by auto
    have tp: "\<And>j y. mget reports j = Some y \<Longrightarrow> \<not> newer y tp" using top(3) [OF Some] by auto
    show thesis
    proof (cases "select_support tp (mrange u2 reports) ([], [])")
      case (Inl v)
      from select_support_Inl [OF this] obtain i ent where "mget reports i = Some ent" "e_Epoch ent = e_Epoch tp" "e_Round ent = e_Round tp" "e_Value ent = v" "v_Noop v"
        by auto
      then show thesis using noop [of i ent tp] sel Inr Some Inl tp by (auto simp: selectValue_def)
    next
      case (Inr p)
      obtain vs su where p: "p = (vs, su)" by (cases p)
      have "\<forall>i \<in> fst ` set (mrange u2 reports). in_range i" using ran by auto
      from select_support_Inr [OF Inr [unfolded p] this] show thesis
        using tp t0 sel Inr \<open>select_top _ _ = _\<close> Some by (intro counted [of t0 tp su vs]) (auto simp: selectValue_def p Let_def)
    qed
  qed
qed

text \<open>The replicas that report a request, among the voters.\<close>

lemma supporters_mrange:
  "supporters tp (mrange u reports) rid =
     {i. \<exists>ent. mget reports i = Some ent \<and> e_Epoch ent = e_Epoch tp \<and> e_Round ent = e_Round tp \<and> v_ID (e_Value ent) = rid}"
  by (auto simp: supporters_def)

lemma mlen_1: "mlen m = 1 \<Longrightarrow> a \<in> dom (map_of m) \<Longrightarrow> b \<in> dom (map_of m) \<Longrightarrow> a = b"
  by (metis card_1_singletonE mlen_card singletonD)

lemma find_mrange_Some:
  "find P (mrange u m) = Some (k, v) \<Longrightarrow> P (k, v) \<and> mget m k = Some v"
proof -
  assume "find P (mrange u m) = Some (k, v)"
  then have "P (k, v)" "(k, v) \<in> set (mrange u m)" unfolding find_Some_iff by (metis, metis nth_mem)
  then show ?thesis by simp
qed

lemma find_mrange_None: "find P (mrange u m) = None \<Longrightarrow> mget m k = Some v \<Longrightarrow> \<not> P (k, v)"
  by (auto simp: find_None_iff)

text \<open>C27 A value accepted by a fast quorum survives recovery: whatever majority answers the new coordinator and in
  whatever order it looks at the answers, it selects that value. As in an induction over epochs, the hypotheses on the answers are that the members of the
  fast quorum that answer report it (\<open>held\<close>), that entries reported as decided or of a later epoch carry it (\<open>later\<close>), and
  that entries of epoch zero are of its only round and no fillers (\<open>first\<close>).\<close>

theorem fastpaxos_fast_choice_recovered:
  assumes n: "3 \<le> n" "odd n" "n \<le> 63"
    and voters: "ids voters \<subseteq> {0..<n}" "n div 2 + 1 \<le> Size voters" "dom (map_of reports) \<subseteq> ids voters"
    and fast: "F \<subseteq> {0..<n}" "fastQuorumSize n \<le> int (card F)" "\<not> v_Noop v"
    and held: "\<And>i. i \<in> F \<Longrightarrow> i \<in> ids voters \<Longrightarrow> \<exists>ent. mget reports i = Some ent \<and> sameValue (e_Value ent) v"
    and later: "\<And>i ent. mget reports i = Some ent \<Longrightarrow> e_Decided ent \<or> 0 < e_Epoch ent \<Longrightarrow> sameValue (e_Value ent) v"
    and first: "\<And>i ent. mget reports i = Some ent \<Longrightarrow> e_Epoch ent = 0 \<Longrightarrow> e_Round ent = 1 \<and> \<not> v_Noop (e_Value ent)"
  shows "\<exists>w. selectValue u1 u2 u3 reports voters (fastQuorumSize n) n = Some (w, True) \<and> sameValue w v"
proof -
  have ran: "dom (map_of reports) \<subseteq> Collect in_range" using voters(3) ids_subset [of voters] by (force simp: in_range_def)
  note card = fast_overlap [OF n(1,2) voters(1) fast(1) voters(2) [unfolded Size_card] fast(2)]
  obtain m where m: "m \<in> F" "m \<in> ids voters" using card(3) by blast
  obtain ment where ment: "mget reports m = Some ment" "sameValue (e_Value ment) v" using held [OF m] by blast
  show ?thesis
  proof (rule selectValue_cases [OF refl ran, of u1 u2 u3 voters "fastQuorumSize n" n], goal_cases)
    case (4 tp t vs su)
    have id: "v_ID (e_Value y) = v_ID v" if "mget reports j = Some y" "0 < e_Epoch tp" "e_Epoch y = e_Epoch tp" for j y
      using later [OF that(1)] that fast(3) by (auto simp: sameValue_def)
    have all: "e_Epoch y = e_Epoch tp \<and> e_Round y = e_Round tp" if "mget reports j = Some y" "e_Epoch tp = 0" for j y
      using 4(2) [OF that(1)] first [OF that(1)] first [OF 4(1)] that(2) by (simp add: newer_def)
    have tpd: "v_ID (e_Value tp) \<in> dom (map_of vs)" using 4(1,4) by (auto simp: supporters_mrange)
    show ?thesis
    proof (cases "e_Epoch tp = 0")
      case False
      have "dom (map_of vs) = {v_ID v}" using 4(1,4) id False by (auto simp: supporters_mrange)
      then have "mlen vs = 1" by (simp add: mlen_card)
      then show ?thesis using 4(7) later [OF 4(1)] False by simp
    next
      case True
      have sup: "F \<inter> ids voters \<subseteq> ids (mgetd 0 su (v_ID v))"
        unfolding 4(3) supporters_mrange using held all [OF _ True] fast(3) by (fastforce simp: sameValue_def)
      then have vd: "v_ID v \<in> dom (map_of vs)" using 4(3,4) card(3) by auto
      have big: "fastQuorumSize n + Size voters - n \<le> Size (mgetd 0 su (v_ID v))"
        using card_mono [OF finite_ids sup] card(1) by (simp add: Size_card)
      show ?thesis
      proof (cases "mlen vs = 1")
        case one: True
        have "v_ID (e_Value tp) = v_ID v" using mlen_1 [OF one tpd vd] .
        then show ?thesis using 4(7) one fast(3) 4(6) [OF 4(1)] by (simp add: sameValue_def)
      next
        case many: False
        let ?P = "\<lambda>(rid, v :: val). Size (mgetd 0 su rid) \<ge> fastQuorumSize n + Size voters - n"
        obtain w0 where "mget vs (v_ID v) = Some w0" using vd by blast
        then obtain rid w where f: "find ?P (mrange u3 vs) = Some (rid, w)" using find_mrange_None [of ?P u3 vs "v_ID v" w0] big
          by (cases "find ?P (mrange u3 vs)") auto
        have fw: "fastQuorumSize n + Size voters - n \<le> Size (mgetd 0 su rid)" "mget vs rid = Some w" using find_mrange_Some [OF f] by auto
        have "rid = v_ID v"
        proof (rule ccontr)
          assume "rid \<noteq> v_ID v"
          then have "ids (mgetd 0 su rid) \<subseteq> ids voters - F"
            unfolding 4(3) supporters_mrange using held voters(3) fast(3) by (fastforce simp: sameValue_def)
          then have "Size (mgetd 0 su rid) \<le> int (card (ids voters - F))" by (simp add: Size_card card_mono)
          then show False using card(2) fw(1) by (simp add: Size_card)
        qed
        then show ?thesis using 4(5) [OF fw(2)] 4(7) f many True fast(3) by (simp add: sameValue_def)
      qed
    qed
  qed (use later first ment fast(3) in \<open>fastforce simp: sameValue_def newer_def\<close>)+
qed

definition demo_val :: "int \<Rightarrow> val" where
  "demo_val k = \<lparr>v_ID = RequestID 1 k, v_Command = \<lparr>Op = PUT, K = 7, V = []\<rparr>, v_Noop = False\<rparr>"

definition demo_reports :: "nat \<Rightarrow> (int, entry) gomap" where
  "demo_reports ep = [(0, Entry 4 ep 1 (demo_val 1) True), (1, Entry 4 ep 1 (demo_val 1) True), (2, Entry 4 0 1 (demo_val 2) True)]"

theorem fastpaxos_fast_choice_recovered_witness:
  "\<exists>w. selectValue [1] [2] [] (demo_reports 0) 7 (fastQuorumSize 5) 5 = Some (w, True) \<and> sameValue w (demo_val 1)"
proof (rule fastpaxos_fast_choice_recovered [where F = "{0, 1, 3, 4}"])
  show "fastQuorumSize 5 \<le> int (card {0 :: int, 1, 3, 4})" by (simp add: fastQuorumSize_def go_div_def)
qed (auto simp: demo_reports_def demo_val_def Entry_def sameValue_def ids_7 Size_card split: if_splits)

text \<open>Once one report of a classic epoch or a later one reaches the coordinator, the selection is that of the latest epoch.\<close>

lemma classic_report_selected:
  assumes voters: "dom (map_of reports) \<subseteq> ids voters"
    and heard: "mget reports m = Some ment" "0 < ep" "ep \<le> e_Epoch ment"
    and decided: "\<And>i ent. mget reports i = Some ent \<Longrightarrow> e_Decided ent \<or> ep \<le> e_Epoch ent \<Longrightarrow> sameValue (e_Value ent) v"
  shows "\<exists>w. selectValue u1 u2 u3 reports voters fastSize n = Some (w, True) \<and> sameValue w v"
proof -
  have ran: "dom (map_of reports) \<subseteq> Collect in_range" using voters ids_subset [of voters] by (force simp: in_range_def)
  have high: "ep \<le> e_Epoch tp" if "\<And>j y. mget reports j = Some y \<Longrightarrow> \<not> newer y tp" for tp
    using that [OF heard(1)] heard(3) by (auto simp: newer_def)
  show ?thesis
  proof (rule selectValue_cases [OF refl ran, of u1 u2 u3 voters fastSize n], goal_cases)
    case (3 tp i ent)
    then show ?case using decided [OF 3(1)] high [OF 3(6)] by auto
  next
    case (4 tp t vs su)
    have ep: "ep \<le> e_Epoch tp" using high [OF 4(2)] .
    have "sameValue (e_Value tp) v" "\<not> v_Noop (e_Value tp)" using decided [OF 4(1)] ep 4(6) [OF 4(1)] by auto
    moreover have "v_ID (e_Value y) = v_ID v" if "mget reports j = Some y" "e_Epoch y = e_Epoch tp" for j y
      using decided [OF that(1)] ep that(2) calculation by (auto simp: sameValue_def)
    ultimately have "dom (map_of vs) = {v_ID v}" using 4(1,4) by (auto simp: supporters_mrange)
    then have "mlen vs = 1" by (simp add: mlen_card)
    then show ?case using 4(7) \<open>sameValue (e_Value tp) v\<close> by simp
  qed (use decided heard(1) in auto)
qed

text \<open>C28 A value accepted by a majority \<open>M\<close> in a classic epoch \<open>ep\<close> survives recovery: whatever majority \<open>voters\<close> answers the new
  coordinator and in whatever order it looks at the answers, it selects that value, and the selection does not panic.
  As in an induction over epochs, the hypotheses on the answers are that a member of \<open>M\<close> reports an entry of its epoch
  \<open>ep\<close> or of a later one (\<open>kept\<close>), and that an entry reported as decided or accepted in epoch \<open>ep\<close> or later carries the
  value (\<open>later\<close>: the coordinators since then selected it). That some report of the epoch is heard follows from the
  intersection of the two majorities.\<close>

theorem fastpaxos_classic_choice_recovered:
  assumes voters: "0 < n" "ids voters \<subseteq> {0..<n}" "n div 2 + 1 \<le> Size voters" "dom (map_of reports) \<subseteq> ids voters"
    and chosen: "M \<subseteq> {0..<n}" "n div 2 + 1 \<le> int (card M)" "0 < ep"
    and kept: "\<And>i. i \<in> M \<Longrightarrow> i \<in> ids voters \<Longrightarrow> \<exists>ent. mget reports i = Some ent \<and> ep \<le> e_Epoch ent"
    and later: "\<And>i ent. mget reports i = Some ent \<Longrightarrow> e_Decided ent \<or> ep \<le> e_Epoch ent \<Longrightarrow> sameValue (e_Value ent) v"
  shows "\<exists>w. selectValue u1 u2 u3 reports voters fastSize n = Some (w, True) \<and> sameValue w v"
proof -
  have "n < int (card M + card (ids voters))" using voters(3) chosen(2) by (simp add: Size_card)
  then have "card {0..<n} < card M + card (ids voters)" using voters(1) by (simp add: nat_less_iff)
  then obtain m where "m \<in> M" "m \<in> ids voters" using card_overlap [OF _ chosen(1) voters(2)] by auto
  then obtain ment where "mget reports m = Some ment" "ep \<le> e_Epoch ment" using kept by blast
  then show ?thesis using classic_report_selected [OF voters(4) _ chosen(3)] later by blast
qed

theorem fastpaxos_classic_choice_recovered_witness:
  "\<exists>w. selectValue [1] [2] [] (demo_reports 3) 7 (fastQuorumSize 5) 5 = Some (w, True) \<and> sameValue w (demo_val 1)"
  by (rule fastpaxos_classic_choice_recovered [where ep = 3 and M = "{0, 1, 4}"])
    (auto simp: demo_reports_def demo_val_def Entry_def sameValue_def ids_7 Size_card split: if_splits)

end
