(* ===== verification/CurpConflicts.thy ===== *)
theory CurpConflicts
  imports Requests
begin

text \<open>
  \<open>src/curp/conflicts.go\<close>: the conflict index of CURP witnesses and leaders. Point operations are
  counted per key, scans are kept by identity, requests without an operation (\<open>NONE\<close>) are left out. The
  index is proved to answer exactly what the pairwise test \<open>state.Conflict\<close> answers between requests that have an
  operation, over the requests added and not removed (locale \<open>conflict_oracle\<close>, interpreted on \<open>add\<close>, \<open>remove\<close> and \<open>conflicts\<close>).
\<close>

record conflictIndex =
  x_all :: "(key, int) gomap"
  x_writes :: "(key, int) gomap"
  x_scans :: "(request_id, request) gomap"

definition newConflictIndex :: conflictIndex where
  "newConflictIndex = \<lparr>x_all = [], x_writes = [], x_scans = []\<rparr>"

abbreviation req_Op :: "request \<Rightarrow> operation" where "req_Op r \<equiv> Op (req_Command r)"
abbreviation req_K :: "request \<Rightarrow> key" where "req_K r \<equiv> K (req_Command r)"

definition incr :: "key \<Rightarrow> (key, int) gomap \<Rightarrow> (key, int) gomap" where
  "incr k m = mput k (mgetd 0 m k + 1) m"

definition decr :: "key \<Rightarrow> (key, int) gomap \<Rightarrow> (key, int) gomap" where
  "decr k m = (let m' = mput k (mgetd 0 m k - 1) m in if mgetd 0 m' k = 0 then mdel k m' else m')"

definition add :: "request \<Rightarrow> conflictIndex \<Rightarrow> conflictIndex" where
  "add r x =
     (if req_Op r = NONE then x
      else if req_Op r = SCAN then x\<lparr>x_scans := mput (req_ID r) r (x_scans x)\<rparr>
      else
        let x = x\<lparr>x_all := incr (req_K r) (x_all x)\<rparr>
        in if req_Op r = PUT then x\<lparr>x_writes := incr (req_K r) (x_writes x)\<rparr> else x)"

definition remove :: "request \<Rightarrow> conflictIndex \<Rightarrow> conflictIndex" where
  "remove r x =
     (if req_Op r = NONE then x
      else if req_Op r = SCAN then x\<lparr>x_scans := mdel (req_ID r) (x_scans x)\<rparr>
      else
        let x = x\<lparr>x_all := decr (req_K r) (x_all x)\<rparr>
        in if req_Op r = PUT then x\<lparr>x_writes := decr (req_K r) (x_writes x)\<rparr> else x)"

fun scans_conflict :: "request list \<Rightarrow> request \<Rightarrow> bool option" where
  "scans_conflict [] r = Some False"
| "scans_conflict (s # ss) r = do {
     hit \<leftarrow> Conflict (req_Command s) (req_Command r);
     if hit then Some True else scans_conflict ss r }"

text \<open>\<open>ord\<close> is the order of the loop over the scans; the loop over the written keys only asks
  whether one of them lies in the range.\<close>

definition conflicts :: "nat list \<Rightarrow> request \<Rightarrow> conflictIndex \<Rightarrow> bool option" where
  "conflicts ord r x =
     (if req_Op r = NONE then Some False
      else if req_Op r = GET then Some (mgetd 0 (x_writes x) (req_K r) > 0)
      else if req_Op r = PUT then
        (if mgetd 0 (x_all x) (req_K r) > 0 then Some True
         else scans_conflict (map snd (mrange ord (x_scans x))) r)
      else if req_Op r = SCAN then do {
        cnt \<leftarrow> Uint64 (V (req_Command r));
        Some (\<exists>k \<in> set (mkeys (x_writes x)). in_scan (req_K r) cnt k)
      }
      else Some False)"

subsection \<open>The requests an index stands for\<close>

text \<open>The commands the default \<open>CommandPolicy\<close> accepts: one of the four operations, a scan with its count. The
  receiver of \<open>src/replica\<close> checks every proposal of a client against this policy before the core sees it.\<close>

definition valid_request :: "request \<Rightarrow> bool" where
  "valid_request r \<longleftrightarrow> req_Op r \<in> {NONE, PUT, GET, SCAN} \<and> (req_Op r = SCAN \<longrightarrow> 8 \<le> length (V (req_Command r)))"

lemma valid_request_policy:
  assumes "Validate \<lparr>Operations = [], PolicyMaxValueBytes = lim\<rparr> (req_Command r) = None"
  shows "valid_request r"
proof -
  have "unat (req_Op r) \<le> 3" using assms by (simp add: Validate_def Let_def word_le_nat_alt split: if_splits)
  then have "unat (req_Op r) \<in> {0, 1, 2, 3}" by auto
  moreover have "req_Op r = w" if "unat (req_Op r) = unat w" for w using that by (simp add: unsigned_word_eqI)
  from this [of NONE] this [of PUT] this [of GET] this [of SCAN]
  have "unat (req_Op r) \<in> {0, 1, 2, 3} \<Longrightarrow> req_Op r \<in> {NONE, PUT, GET, SCAN}" by fastforce
  ultimately have "req_Op r \<in> {NONE, PUT, GET, SCAN}" by blast
  then show ?thesis using assms by (auto simp: Validate_def valid_request_def Let_def split: if_splits)
qed

definition points :: "request set \<Rightarrow> key \<Rightarrow> request set" where
  "points R k = {r \<in> R. req_Op r \<noteq> NONE \<and> req_Op r \<noteq> SCAN \<and> req_K r = k}"

definition puts :: "request set \<Rightarrow> key \<Rightarrow> request set" where
  "puts R k = {r \<in> R. req_Op r = PUT \<and> req_K r = k}"

definition represents :: "conflictIndex \<Rightarrow> request set \<Rightarrow> bool" where
  "represents x R \<longleftrightarrow> finite R \<and> inj_on req_ID R \<and> (\<forall>r\<in>R. valid_request r) \<and>
     (\<forall>k. mget (x_all x) k = (if points R k = {} then None else Some (int (card (points R k))))) \<and>
     (\<forall>k. mget (x_writes x) k = (if puts R k = {} then None else Some (int (card (puts R k))))) \<and>
     (\<forall>i r. mget (x_scans x) i = Some r \<longleftrightarrow> r \<in> R \<and> req_Op r = SCAN \<and> req_ID r = i)"

definition counts :: "(key, int) gomap \<Rightarrow> (key \<Rightarrow> request set) \<Rightarrow> bool" where
  "counts m S \<longleftrightarrow> (\<forall>k. finite (S k) \<and> mget m k = (if S k = {} then None else Some (int (card (S k)))))"

lemma counts_incr:
  assumes "counts m S" "r \<notin> S k"
  shows "counts (incr k m) (S(k := insert r (S k)))"
  using assms by (auto simp: counts_def incr_def mgetd_def)

lemma counts_decr:
  assumes "counts m S" "r \<in> S k"
  shows "counts (decr k m) (S(k := S k - {r}))"
proof -
  have fin: "finite (S k)" and m: "mget m k = Some (int (card (S k)))"
    using assms by (auto simp: counts_def)
  have card: "card (S k - {r}) = card (S k) - 1" "0 < card (S k)"
    using fin assms(2) by (auto simp: card_gt_0_iff)
  have one: "S k - {r} = {} \<longleftrightarrow> card (S k) = 1"
    using card card_0_eq [of "S k - {r}"] fin by auto
  have other: "finite (S j) \<and> mget m j = (if S j = {} then None else Some (int (card (S j))))" for j
    using assms by (simp add: counts_def)
  have "mget (decr k m) k = (if S k - {r} = {} then None else Some (int (card (S k - {r}))))"
    using card m one by (simp add: decr_def mgetd_def of_nat_diff)
  moreover have "mget (decr k m) j = mget m j" if "j \<noteq> k" for j
    using that by (simp add: decr_def Let_def)
  ultimately show ?thesis using other fin by (simp add: counts_def)
qed

lemma represents_counts:
  "represents x R \<longleftrightarrow> finite R \<and> inj_on req_ID R \<and> (\<forall>r\<in>R. valid_request r) \<and>
     counts (x_all x) (points R) \<and> counts (x_writes x) (puts R) \<and>
     (\<forall>i r. mget (x_scans x) i = Some r \<longleftrightarrow> r \<in> R \<and> req_Op r = SCAN \<and> req_ID r = i)"
  by (auto simp: represents_def counts_def points_def puts_def)

lemma represents_empty: "represents newConflictIndex {}"
  by (simp add: represents_def newConflictIndex_def points_def puts_def)

lemma points_insert: "req_Op r \<notin> {NONE, SCAN} \<Longrightarrow> points (insert r R) = (points R)(req_K r := insert r (points R (req_K r)))"
  and points_insert_scan: "req_Op r \<in> {NONE, SCAN} \<Longrightarrow> points (insert r R) = points R"
  and puts_insert: "req_Op r = PUT \<Longrightarrow> puts (insert r R) = (puts R)(req_K r := insert r (puts R (req_K r)))"
  and puts_insert_other: "req_Op r \<noteq> PUT \<Longrightarrow> puts (insert r R) = puts R"
  by (auto simp: points_def puts_def fun_eq_iff)

lemma points_remove: "req_Op r \<notin> {NONE, SCAN} \<Longrightarrow> points (R - {r}) = (points R)(req_K r := points R (req_K r) - {r})"
  and points_remove_scan: "req_Op r \<in> {NONE, SCAN} \<Longrightarrow> points (R - {r}) = points R"
  and puts_remove: "req_Op r = PUT \<Longrightarrow> puts (R - {r}) = (puts R)(req_K r := puts R (req_K r) - {r})"
  and puts_remove_other: "req_Op r \<noteq> PUT \<Longrightarrow> puts (R - {r}) = puts R"
  by (auto simp: points_def puts_def fun_eq_iff)

lemma add_represents:
  assumes x: "represents x R" and r: "valid_request r" "req_ID r \<notin> req_ID ` R"
  shows "represents (add r x) (insert r R)"
proof -
  have nR: "r \<notin> R" using r by auto
  have x': "counts (x_all x) (points R)" "counts (x_writes x) (puts R)" "finite R"
    "inj_on req_ID R" "\<forall>r\<in>R. valid_request r"
    and scans: "\<And>i r. mget (x_scans x) i = Some r \<longleftrightarrow> r \<in> R \<and> req_Op r = SCAN \<and> req_ID r = i"
    using x by (auto simp: represents_counts)
  have inj: "inj_on req_ID (insert r R)" using x'(4) r nR by simp
  have nP: "r \<notin> points R (req_K r)" "r \<notin> puts R (req_K r)" using nR by (auto simp: points_def puts_def)
  have "mget (x_scans (add r x)) i = Some s \<longleftrightarrow> s \<in> insert r R \<and> req_Op s = SCAN \<and> req_ID s = i" for i s
    using r scans by (auto simp: add_def Let_def valid_request_def image_iff)
  moreover have "counts (x_all (add r x)) (points (insert r R))"
    using r x'(1) counts_incr [OF x'(1) nP(1)]
    by (cases "req_Op r \<in> {NONE, SCAN}") (auto simp: add_def Let_def valid_request_def points_insert points_insert_scan)
  moreover have "counts (x_writes (add r x)) (puts (insert r R))"
    using r x'(2) counts_incr [OF x'(2) nP(2)]
    by (cases "req_Op r = PUT") (auto simp: add_def Let_def valid_request_def puts_insert puts_insert_other)
  ultimately show ?thesis using inj x'(3,5) r by (simp add: represents_counts)
qed

lemma remove_represents:
  assumes x: "represents x R" and r: "r \<in> R"
  shows "represents (remove r x) (R - {r})"
proof -
  have x': "counts (x_all x) (points R)" "counts (x_writes x) (puts R)" "finite R"
    "inj_on req_ID R" "\<forall>r\<in>R. valid_request r"
    and scans: "\<And>i r. mget (x_scans x) i = Some r \<longleftrightarrow> r \<in> R \<and> req_Op r = SCAN \<and> req_ID r = i"
    using x by (auto simp: represents_counts)
  have v: "valid_request r" using x'(5) r by blast
  have "mget (x_scans (remove r x)) i = Some s \<longleftrightarrow> s \<in> R - {r} \<and> req_Op s = SCAN \<and> req_ID s = i" for i s
    using v r scans inj_onD [OF x'(4), of s r] by (auto simp: remove_def Let_def valid_request_def)
  moreover have "counts (x_all (remove r x)) (points (R - {r}))"
  proof (cases "req_Op r \<in> {NONE, SCAN}")
    case True
    with x'(1) show ?thesis by (auto simp: remove_def points_remove_scan)
  next
    case False
    then have "r \<in> points R (req_K r)" using r by (simp add: points_def)
    from counts_decr [OF x'(1) this] False v show ?thesis
      by (auto simp: remove_def Let_def valid_request_def points_remove)
  qed
  moreover have "counts (x_writes (remove r x)) (puts (R - {r}))"
  proof (cases "req_Op r = PUT")
    case False
    with x'(2) v show ?thesis by (auto simp: remove_def Let_def valid_request_def puts_remove_other)
  next
    case True
    then have "r \<in> puts R (req_K r)" using r by (simp add: puts_def)
    from counts_decr [OF x'(2) this] True show ?thesis by (auto simp: remove_def Let_def puts_remove)
  qed
  ultimately show ?thesis using x'(3-5) by (auto simp: represents_counts inj_on_diff)
qed

subsection \<open>The index answers the pairwise test\<close>

definition clashes :: "request \<Rightarrow> request \<Rightarrow> bool" where
  "clashes s r \<longleftrightarrow> req_Op s \<noteq> NONE \<and> req_Op r \<noteq> NONE \<and> Conflict (req_Command s) (req_Command r) = Some True"

definition pairwise_conflict :: "request set \<Rightarrow> request \<Rightarrow> bool" where
  "pairwise_conflict R r \<longleftrightarrow> (\<exists>s\<in>R. clashes s r)"

lemma Uint64_valid: "valid_request s \<Longrightarrow> req_Op s = SCAN \<Longrightarrow> \<exists>cnt. Uint64 (V (req_Command s)) = Some cnt"
  by (simp add: valid_request_def Uint64_def)

lemma Conflict_defined: "valid_request s \<Longrightarrow> valid_request r \<Longrightarrow> Conflict (req_Command s) (req_Command r) \<noteq> None"
  using Uint64_valid [of s] Uint64_valid [of r] by (auto simp: Conflict_def)

lemma sint_between: "sint b \<le> sint a \<and> sint a \<le> sint b \<longleftrightarrow> a = (b :: key)"
  by (metis order.antisym order.refl signed_word_eqI)

lemma Conflict_with_get: "Op r = GET \<Longrightarrow> Conflict s r = Some True \<longleftrightarrow> Op s = PUT \<and> K s = K r"
  using sint_between [of "K r" "K s"]
  by (cases "Uint64 (V s)") (auto simp: Conflict_def)

lemma Conflict_with_put: "Op r = PUT \<Longrightarrow> Op s \<noteq> SCAN \<Longrightarrow> Conflict s r = Some True \<longleftrightarrow> K s = K r"
  using sint_between [of "K r" "K s"] by (auto simp: Conflict_def)

lemma Conflict_with_scan:
  "Op r = SCAN \<Longrightarrow> Uint64 (V r) = Some cnt \<Longrightarrow>
     Conflict s r = Some True \<longleftrightarrow> Op s = PUT \<and> in_scan (K r) cnt (K s)"
  by (auto simp: Conflict_def in_scan_def)

lemma scans_conflict_eq:
  assumes "\<forall>s\<in>set ss. Conflict (req_Command s) (req_Command r) \<noteq> None"
  shows "scans_conflict ss r = Some (\<exists>s\<in>set ss. Conflict (req_Command s) (req_Command r) = Some True)"
  using assms by (induction ss) auto

lemma conflicts_get:
  assumes "represents x R" "req_Op r = GET"
  shows "conflicts ord r x = Some (pairwise_conflict R r)"
proof -
  have "mgetd 0 (x_writes x) (req_K r) > 0 \<longleftrightarrow> puts R (req_K r) \<noteq> {}"
    using assms by (auto simp: represents_counts counts_def mgetd_def card_gt_0_iff)
  also have "\<dots> \<longleftrightarrow> pairwise_conflict R r"
    using assms by (force simp: puts_def pairwise_conflict_def clashes_def Conflict_with_get)
  finally show ?thesis using assms by (simp add: conflicts_def)
qed

lemma conflicts_put:
  assumes x: "represents x R" and r: "req_Op r = PUT" "valid_request r"
  shows "conflicts ord r x = Some (pairwise_conflict R r)"
proof -
  have valid: "\<And>s. s \<in> R \<Longrightarrow> valid_request s"
    and scans: "\<And>i r. mget (x_scans x) i = Some r \<longleftrightarrow> r \<in> R \<and> req_Op r = SCAN \<and> req_ID r = i"
    using x by (auto simp: represents_def)
  have set: "set (map snd (mrange ord (x_scans x))) = {s \<in> R. req_Op s = SCAN}"
    using scans by (auto simp: image_iff)
  have sc: "scans_conflict (map snd (mrange ord (x_scans x))) r =
      Some (\<exists>s\<in>{s \<in> R. req_Op s = SCAN}. Conflict (req_Command s) (req_Command r) = Some True)"
    unfolding set [symmetric] using set valid r Conflict_defined by (intro scans_conflict_eq) blast
  have all: "mgetd 0 (x_all x) (req_K r) > 0 \<longleftrightarrow> points R (req_K r) \<noteq> {}"
    using x by (auto simp: represents_counts counts_def mgetd_def card_gt_0_iff)
  have "pairwise_conflict R r \<longleftrightarrow> points R (req_K r) \<noteq> {} \<or>
      (\<exists>s\<in>{s \<in> R. req_Op s = SCAN}. Conflict (req_Command s) (req_Command r) = Some True)"
    using r Conflict_with_put [of "req_Command r"] by (force simp: pairwise_conflict_def clashes_def points_def)
  then show ?thesis using r all sc by (auto simp: conflicts_def)
qed

lemma conflicts_scan:
  assumes x: "represents x R" and r: "req_Op r = SCAN" "valid_request r"
  shows "conflicts ord r x = Some (pairwise_conflict R r)"
proof -
  obtain cnt where cnt: "Uint64 (V (req_Command r)) = Some cnt" using r Uint64_valid by blast
  have keys: "set (mkeys (x_writes x)) = {k. puts R k \<noteq> {}}"
    using x by (auto simp: represents_counts counts_def dom_def)
  have "pairwise_conflict R r \<longleftrightarrow> (\<exists>s\<in>R. req_Op s = PUT \<and> in_scan (req_K r) cnt (req_K s))"
    using Conflict_with_scan [OF r(1) cnt] r(1) by (force simp: pairwise_conflict_def clashes_def)
  also have "\<dots> \<longleftrightarrow> (\<exists>k\<in>{k. puts R k \<noteq> {}}. in_scan (req_K r) cnt k)"
    by (auto simp: puts_def)
  finally show ?thesis using r cnt keys by (simp add: conflicts_def)
qed

lemma conflicts_exact:
  assumes "represents x R" "valid_request r"
  shows "conflicts ord r x = Some (pairwise_conflict R r)"
proof (cases "req_Op r = NONE")
  case True
  then show ?thesis by (simp add: conflicts_def pairwise_conflict_def clashes_def)
next
  case False
  then show ?thesis using assms conflicts_get conflicts_put conflicts_scan by (auto simp: valid_request_def)
qed

subsection \<open>Contract\<close>

locale conflict_oracle =
  fixes empty :: 'x and ins :: "request \<Rightarrow> 'x \<Rightarrow> 'x" and del :: "request \<Rightarrow> 'x \<Rightarrow> 'x"
    and query :: "nat list \<Rightarrow> request \<Rightarrow> 'x \<Rightarrow> bool option" and rep :: "'x \<Rightarrow> request set \<Rightarrow> bool"
  assumes rep_empty: "rep empty {}"
    and rep_ins: "rep x R \<Longrightarrow> valid_request r \<Longrightarrow> req_ID r \<notin> req_ID ` R \<Longrightarrow> rep (ins r x) (insert r R)"
    and rep_del: "rep x R \<Longrightarrow> r \<in> R \<Longrightarrow> rep (del r x) (R - {r})"
    and query_exact: "rep x R \<Longrightarrow> valid_request r \<Longrightarrow> query ord r x = Some (pairwise_conflict R r)"
begin

text \<open>Taking a request out for the length of a query leaves the index as it was.\<close>

lemma query_without:
  assumes "rep x R" "old \<in> R" "valid_request r" "req_ID ` R \<subseteq> I" "inj_on req_ID R" "valid_request old"
  shows "query ord r (del old x) = Some (pairwise_conflict (R - {old}) r)"
    and "rep (ins old (del old x)) R"
proof -
  have d: "rep (del old x) (R - {old})" using assms(1,2) by (rule rep_del)
  then show "query ord r (del old x) = Some (pairwise_conflict (R - {old}) r)"
    using assms(3) by (rule query_exact)
  have "req_ID old \<notin> req_ID ` (R - {old})" using assms(2,5) by (auto dest: inj_onD)
  then have "rep (ins old (del old x)) (insert old (R - {old}))"
    using d assms(6) by (intro rep_ins)
  then show "rep (ins old (del old x)) R" using assms(2) by (simp add: insert_absorb)
qed

lemma no_conflict_commutes:
  assumes "rep x R" "valid_request r" "query ord r x = Some False" "s \<in> R"
  shows "\<not> clashes s r"
  using assms query_exact [of x R r ord] by (auto simp: pairwise_conflict_def)

end

interpretation ci: conflict_oracle newConflictIndex add remove conflicts represents
  by unfold_locales
    (simp_all add: represents_empty add_represents remove_represents conflicts_exact)

subsection \<open>The index against the pairwise test\<close>

lemma adds_represent:
  "represents x R \<Longrightarrow> \<forall>r\<in>set rs. valid_request r \<Longrightarrow> distinct (map req_ID rs) \<Longrightarrow> req_ID ` set rs \<inter> req_ID ` R = {} \<Longrightarrow>
     represents (fold add rs x) (set rs \<union> R)"
proof (induction rs arbitrary: x R)
  case (Cons r rs)
  have "represents (add r x) (insert r R)" using Cons.prems by (intro ci.rep_ins) auto
  from Cons.IH [OF this] show ?case using Cons.prems by auto
qed simp

lemma removes_represent: "represents x R \<Longrightarrow> set qs \<subseteq> R \<Longrightarrow> distinct qs \<Longrightarrow> represents (fold remove qs x) (R - set qs)"
proof (induction qs arbitrary: x R)
  case (Cons q qs)
  have "represents (remove q x) (R - {q})" using Cons.prems by (intro ci.rep_del) auto
  from Cons.IH [OF this] show ?case using Cons.prems by (auto simp: Diff_insert2 [of R q "set qs"])
qed simp

text \<open>C33 The conflict index decides as the pairwise test does: after adding requests with distinct identifiers and removing
  some of them again, \<open>conflicts\<close> does not panic and answers whether the new request and one of those that are left
  both have an operation and conflict. All requests are ones the default command policy accepts
  (\<open>valid_request_policy\<close>); a request with operation \<open>NONE\<close>, which has no effect, conflicts with nothing.\<close>

theorem curp_conflict_index_exact:
  assumes "distinct (map req_ID rs)" "\<And>s. s \<in> set rs \<Longrightarrow> valid_request s" "set qs \<subseteq> set rs" "distinct qs" "valid_request r"
  shows "conflicts ord r (fold remove qs (fold add rs newConflictIndex)) =
    Some (\<exists>s. s \<in> set rs \<and> s \<notin> set qs \<and> req_Op s \<noteq> NONE \<and> req_Op r \<noteq> NONE \<and>
      Conflict (req_Command s) (req_Command r) = Some True)"
proof -
  have "represents (fold add rs newConflictIndex) (set rs)" using adds_represent [OF represents_empty, of rs] assms(1,2) by simp
  from ci.query_exact [OF removes_represent [OF this assms(3,4)] assms(5)] show ?thesis
    by (auto simp: pairwise_conflict_def clashes_def)
qed

definition demo_request :: "int \<Rightarrow> operation \<Rightarrow> key \<Rightarrow> request" where
  "demo_request i op k = \<lparr>req_ID = RequestID 1 i, req_Command = \<lparr>Op = op, K = k, V = replicate 8 0\<rparr>\<rparr>"

theorem curp_conflict_index_exact_witness:
  "conflicts [] (demo_request 3 GET 5) (fold remove [demo_request 1 PUT 5]
      (fold add [demo_request 1 PUT 5, demo_request 2 GET 5, demo_request 4 NONE 5] newConflictIndex)) =
    Some (\<exists>s. s \<in> set [demo_request 1 PUT 5, demo_request 2 GET 5, demo_request 4 NONE 5] \<and> s \<notin> set [demo_request 1 PUT 5] \<and>
      req_Op s \<noteq> NONE \<and> req_Op (demo_request 3 GET 5) \<noteq> NONE \<and>
      Conflict (req_Command s) (req_Command (demo_request 3 GET 5)) = Some True)"
  by (rule curp_conflict_index_exact) (auto simp: demo_request_def valid_request_def)

text \<open>Requests without an operation are outside the index, though the pairwise test reports them. They leave the
  store alone, so that they commute with every command.\<close>

lemma none_no_effect: "Op a = NONE \<Longrightarrow> Execute tm a st = Some (NIL, st)"
  by (simp add: Execute_def)

lemma none_request_ignored:
  "conflicts [] (demo_request 2 NONE 5) (add (demo_request 1 PUT 5) newConflictIndex) = Some False \<and>
   Conflict (req_Command (demo_request 1 PUT 5)) (req_Command (demo_request 2 NONE 5)) = Some True"
  by code_simp

end
