(* ===== verification/CurpCore.thy ===== *)
theory CurpCore
  imports CurpConflicts ReplicaSet
begin

text \<open>
  The core of package \<open>curp\<close>: \<open>src/curp/core.go\<close>, \<open>recovery.go\<close>, \<open>execute.go\<close> and \<open>defs.go\<close>.
  CURP shares the shape of the Paxos core and differs in the witness records and their conflict
  indexes, in the speculative replies of the leader, in the all-to-all second phase (every replica
  counts acknowledgements) and in the recovery of witnessed requests. Conventions are those of
  \<open>PaxosCore\<close>: \<^const>\<open>None\<close> is a panic, callbacks are appended to \<open>c_out\<close>.
\<close>

definition PageSize :: int where "PageSize = 128"
definition AdmissionWindow :: int where "AdmissionWindow = 8192"

datatype kind = packetPrepare | packetPromise | packetAccept | packetAck | packetCommit
  | packetReady | packetFetch | packetForward | packetOther byte

record logrec =
  r_Slot :: int
  r_Ballot :: int
  r_Request :: request
  r_Committed :: bool

record packet =
  p_Kind :: kind
  p_From :: int
  p_Ballot :: int
  p_Floor :: int
  p_High :: int
  p_Page :: int
  p_Pages :: int
  p_Records :: "logrec list"
  p_Requests :: "request list"

definition Packet :: "kind \<Rightarrow> int \<Rightarrow> int \<Rightarrow> packet" where
  "Packet k from b = \<lparr>p_Kind = k, p_From = from, p_Ballot = b, p_Floor = 0, p_High = 0,
     p_Page = 0, p_Pages = 0, p_Records = [], p_Requests = []\<rparr>"

datatype effect = Send int packet | Broadcast packet | Local packet
  | Reply request bytes bool | ReplyRecord request bool

record 'st core =
  c_n :: int
  c_id :: int
  c_leader :: int
  c_frozen :: "packet list"
  c_frozenBallot :: int
  c_frozenFloor :: int
  c_ballot :: int
  c_active :: bool
  c_preparing :: bool
  c_high :: int
  c_executed :: int
  c_log :: "(int, logrec) gomap"
  c_values :: "(request_id, bytes) gomap"
  c_assigned :: "(request_id, int) gomap"
  c_pending :: "(request_id, request) gomap"
  c_witness :: "(request_id, request) gomap"
  c_recorded :: "(request_id, int) gomap"
  c_votes :: "(int, rset) gomap"
  c_pages :: "(int, (int, packet) gomap) gomap"
  c_promises :: "(int, bool) gomap"
  c_queue :: "request_id list"
  c_queued :: "(request_id, bool) gomap"
  c_recoveryEnd :: int
  c_lastSend :: time
  c_lastFetch :: time
  c_recoveries :: "64 word"
  c_gapAccepts :: "64 word"
  c_fetchRequests :: "64 word"
  c_fetchSuppressed :: "64 word"
  c_witnessIndex :: conflictIndex
  c_pendingIndex :: conflictIndex
  c_resume :: "request list"
  c_app :: 'st
  c_out :: "effect list"

text \<open>
  What a handler reads from its environment: the \<open>execute\<close> callback over the state machine
  \<open>c_app\<close>, the clock (\<open>time.Now()\<close>) and the order of each loop over a map.
\<close>

datatype loop = Loop_scans | Loop_pending | Loop_log | Loop_promises | Loop_pages int

record 'st env =
  execute :: "command \<Rightarrow> 'st \<Rightarrow> (bytes \<times> 'st) option"
  clock :: time
  order :: "loop \<Rightarrow> nat list"

definition newCore :: "int \<Rightarrow> int \<Rightarrow> int \<Rightarrow> 'st \<Rightarrow> 'st core option" where
  "newCore n i leader app =
     (if n < 3 \<or> n > 63 \<or> n mod 2 = 0 then None
      else Some \<lparr>c_n = n, c_id = i, c_leader = leader, c_frozen = [], c_frozenBallot = 0,
        c_frozenFloor = 0, c_ballot = leader, c_active = True, c_preparing = False, c_high = -1,
        c_executed = -1, c_log = [], c_values = [], c_assigned = [], c_pending = [], c_witness = [], c_recorded = [], c_votes = [],
        c_pages = [], c_promises = [], c_queue = [], c_queued = [], c_recoveryEnd = -1,
        c_lastSend = 0, c_lastFetch = 0, c_recoveries = 0, c_gapAccepts = 0,
        c_fetchRequests = 0, c_fetchSuppressed = 0, c_witnessIndex = newConflictIndex,
        c_pendingIndex = newConflictIndex, c_resume = [], c_app = app, c_out = []\<rparr>)"

definition emit :: "effect \<Rightarrow> 'st core \<Rightarrow> 'st core" where
  "emit x c = c\<lparr>c_out := c_out c @ [x]\<rparr>"

text \<open>\<open>Transport.Send\<close>: local delivery is synchronous and is recorded as \<open>Local\<close>.\<close>

type_synonym 'st deliver = "packet \<Rightarrow> 'st core \<Rightarrow> 'st core option"

definition Transport_Send :: "'st deliver \<Rightarrow> int \<Rightarrow> packet \<Rightarrow> 'st core \<Rightarrow> 'st core option" where
  "Transport_Send L to p c = (if to = c_id c then L p (emit (Local p) c) else Some (emit (Send to p) c))"

subsection \<open>Submitting requests\<close>

definition enqueue :: "request \<Rightarrow> 'st core \<Rightarrow> 'st core" where
  "enqueue r c =
     (if mget (c_values c) (req_ID r) \<noteq> None then c
      else if mget (c_assigned c) (req_ID r) \<noteq> None then c
      else if \<not> mgetd False (c_queued c) (req_ID r)
        then c\<lparr>c_queue := c_queue c @ [req_ID r], c_queued := mput (req_ID r) True (c_queued c)\<rparr>
      else c)"

definition record_witness :: "'st env \<Rightarrow> request \<Rightarrow> 'st core \<Rightarrow> 'st core option" where
  "record_witness e r c =
     (if mget (c_recorded c) (req_ID r) = Some (c_ballot c) then Some c
      else do {
        let old = mget (c_witness c) (req_ID r);
        let x = (case old of Some o' \<Rightarrow> remove o' (c_witnessIndex c) | None \<Rightarrow> c_witnessIndex c);
        hit \<leftarrow> conflicts (order e Loop_scans) r x;
        let x = (case old of Some o' \<Rightarrow> add o' x | None \<Rightarrow> x);
        let positive = (\<not> hit);
        let c = c\<lparr>c_witnessIndex := x, c_recorded := mput (req_ID r) (c_ballot c) (c_recorded c)\<rparr>;
        let c = (if positive
              then c\<lparr>c_witnessIndex := (if old = None then add r (c_witnessIndex c) else c_witnessIndex c),
                c_witness := mput (req_ID r) r (c_witness c)\<rparr>
              else c);
        Some (if c_id c \<noteq> c_leader c then emit (ReplyRecord r positive) c else c)
      })"

definition submit :: "'st env \<Rightarrow> request \<Rightarrow> 'st core \<Rightarrow> 'st core option" where
  "submit e r c = (case mget (c_values c) (req_ID r) of
     Some v \<Rightarrow> Some (emit (Reply r v False) c)
   | None \<Rightarrow>
      let c = c\<lparr>c_pending := mput (req_ID r) r (c_pending c)\<rparr> in
      if \<not> c_active c then Some c
      else do {
        c \<leftarrow> record_witness e r c;
        Some (if c_leader c = c_id c then enqueue r c else c)
      })"

fun submit_all :: "'st env \<Rightarrow> request list \<Rightarrow> 'st core \<Rightarrow> 'st core option" where
  "submit_all e [] c = Some c"
| "submit_all e (r # rs) c = (case submit e r c of None \<Rightarrow> None | Some c' \<Rightarrow> submit_all e rs c')"

subsection \<open>Executing the committed prefix\<close>

definition apply_one :: "'st env \<Rightarrow> logrec \<Rightarrow> 'st core \<Rightarrow> 'st core option" where
  "apply_one e r c = do {
     c \<leftarrow> (if mget (c_values c) (req_ID (r_Request r)) = None \<and> Op (req_Command (r_Request r)) \<noteq> NONE
       then do {
         (v, st) \<leftarrow> execute e (req_Command (r_Request r)) (c_app c);
         Some (emit (Reply (r_Request r) v False)
           (c\<lparr>c_app := st, c_values := mput (req_ID (r_Request r)) v (c_values c)\<rparr>))
       }
       else Some c);
     Some (c\<lparr>c_pending := mdel (req_ID (r_Request r)) (c_pending c),
       c_witnessIndex := (case mget (c_witness c) (req_ID (r_Request r)) of
           Some w \<Rightarrow> remove w (c_witnessIndex c) | None \<Rightarrow> c_witnessIndex c),
       c_witness := mdel (req_ID (r_Request r)) (c_witness c),
       c_pendingIndex := remove (r_Request r) (c_pendingIndex c),
       c_recorded := mdel (req_ID (r_Request r)) (c_recorded c),
       c_votes := mdel (r_Slot r) (c_votes c), c_executed := c_executed c + 1\<rparr>)
   }"

lemma curp_apply_one_log:
  assumes "apply_one e r c = Some c'"
  shows "c_log c' = c_log c" "c_executed c' = c_executed c + 1"
  using assms by (auto simp: apply_one_def emit_def split: Option.bind_splits if_splits)

function apply_log :: "'st env \<Rightarrow> 'st core \<Rightarrow> 'st core option" where
  "apply_log e c = (case mget (c_log c) (c_executed c + 1) of
     None \<Rightarrow> Some c
   | Some r \<Rightarrow> if \<not> r_Committed r then Some c
       else (case apply_one e r c of None \<Rightarrow> None | Some c' \<Rightarrow> apply_log e c'))"
  by pat_completeness auto
termination
proof (relation "measure (\<lambda>(e, c). card {s \<in> dom (map_of (c_log c)). c_executed c < s})")
  fix e :: "'st env" and c c' :: "'st core" and r
  assume r: "mget (c_log c) (c_executed c + 1) = Some r" and "apply_one e r c = Some c'"
  then have eq: "c_log c' = c_log c" "c_executed c' = c_executed c + 1"
    using curp_apply_one_log by blast+
  have "{s \<in> dom (map_of (c_log c)). c_executed c + 1 < s} \<subset> {s \<in> dom (map_of (c_log c)). c_executed c < s}"
    using r by (intro psubsetI) (auto dest: domI)
  then show "((e, c'), e, c) \<in> measure (\<lambda>(e, c). card {s \<in> dom (map_of (c_log c)). c_executed c < s})"
    by (simp add: eq psubset_card_mono finite_dom_map_of)
qed simp

declare apply_log.simps [simp del]

subsection \<open>Acknowledgements\<close>

fun ack_loop :: "int \<Rightarrow> logrec list \<Rightarrow> 'st core \<Rightarrow> 'st core \<times> logrec list" where
  "ack_loop from [] c = (c, [])"
| "ack_loop from (a # as) c =
     (if r_Slot a \<le> c_executed c then ack_loop from as c
      else
        let vs = With (mgetd 0 (c_votes c) (r_Slot a)) from;
            c = c\<lparr>c_votes := mput (r_Slot a) vs (c_votes c)\<rparr>
        in case mget (c_log c) (r_Slot a) of
          None \<Rightarrow> ack_loop from as c
        | Some r \<Rightarrow>
            if r_Ballot r \<noteq> c_ballot c \<or> r_Committed r \<or> Size vs < go_div (c_n c) 2 + 1
            then ack_loop from as c
            else let r' = r\<lparr>r_Committed := True\<rparr>;
                     (c', committed) = ack_loop from as (c\<lparr>c_log := mput (r_Slot a) r' (c_log c)\<rparr>)
                 in (c', r' # committed))"

definition ack :: "'st env \<Rightarrow> packet \<Rightarrow> 'st core \<Rightarrow> 'st core option" where
  "ack e p c =
     (if c_preparing c then Some c
      else let (c, committed) = ack_loop (p_From p) (p_Records p) c;
               c = (if c_id c = c_leader c \<and> committed \<noteq> []
                 then emit (Broadcast ((Packet packetCommit (c_id c) (c_ballot c))\<lparr>p_Records := committed\<rparr>)) c
                 else c)
           in apply_log e c)"

subsection \<open>Accepting records\<close>

definition install :: "logrec \<Rightarrow> 'st core \<Rightarrow> 'st core option" where
  "install r c =
     (let old = mget (c_log c) (r_Slot r);
          fresh = (let
            c = (case old of
                Some o' \<Rightarrow> if r_Slot r > c_executed c
                  then c\<lparr>c_pendingIndex := remove (r_Request o') (c_pendingIndex c)\<rparr> else c
              | None \<Rightarrow> c);
            c = (if r_Slot r > c_executed c
                then c\<lparr>c_pendingIndex := add (r_Request r) (c_pendingIndex c)\<rparr> else c)
          in Some (c\<lparr>c_log := mput (r_Slot r) r (c_log c),
               c_assigned := mput (req_ID (r_Request r)) (r_Slot r) (c_assigned c),
               c_high := (if r_Slot r > c_high c then r_Slot r else c_high c)\<rparr>))
      in case old of
        Some o' \<Rightarrow>
          if r_Committed o'
          then (if req_ID (r_Request o') \<noteq> req_ID (r_Request r) then None else Some c)
          else fresh
      | None \<Rightarrow> fresh)"

definition requestFetch :: "time \<Rightarrow> 'st core \<Rightarrow> 'st core" where
  "requestFetch now c =
     (if c_id c = c_leader c then c
      else if time_sub now (c_lastFetch c) < 100 * Millisecond
        then c\<lparr>c_fetchSuppressed := c_fetchSuppressed c + 1\<rparr>
      else emit (Send (c_leader c) ((Packet packetFetch (c_id c) (c_ballot c))\<lparr>p_Floor := c_executed c + 1\<rparr>))
        (c\<lparr>c_lastFetch := now, c_fetchRequests := c_fetchRequests c + 1\<rparr>))"

definition zero_record :: "int \<Rightarrow> logrec" where
  "zero_record slot = \<lparr>r_Slot = slot, r_Ballot = 0,
     r_Request = \<lparr>req_ID = RequestID 0 0, req_Command = \<lparr>Op = NONE, K = 0, V = []\<rparr>\<rparr>, r_Committed = False\<rparr>"

fun accept_loop :: "int \<Rightarrow> logrec list \<Rightarrow> bool \<times> 'st core \<Rightarrow> (bool \<times> 'st core) option" where
  "accept_loop b [] (gap, c) = Some (gap, c)"
| "accept_loop b (r # rs) (gap, c) =
     (let missing = (r_Slot r > 0 \<and> mget (c_log c) (r_Slot r - 1) = None);
          c = (if missing then c\<lparr>c_gapAccepts := c_gapAccepts c + 1\<rparr> else c)
      in do { c \<leftarrow> install (r\<lparr>r_Ballot := b\<rparr>) c; accept_loop b rs (gap \<or> missing, c) })"

text \<open>CURP's second phase is all to all: the acknowledgement is broadcast and counted locally.\<close>

definition accept :: "'st env \<Rightarrow> packet \<Rightarrow> 'st core \<Rightarrow> 'st core option" where
  "accept e p c = do {
     (gap, c) \<leftarrow> accept_loop (p_Ballot p) (p_Records p) (False, c);
     let c = (if gap then requestFetch (clock e) c else c);
     let accepted = map (\<lambda>r. zero_record (r_Slot r)) (p_Records p);
     if accepted = [] then Some c
     else
       let a = (Packet packetAck (c_id c) (c_ballot c))\<lparr>p_Records := accepted\<rparr>
       in ack e a (emit (Broadcast a) c)
   }"

subsection \<open>Retransmission of the suffix\<close>

definition page_records :: "'st core \<Rightarrow> int \<Rightarrow> int \<Rightarrow> logrec list" where
  "page_records c lo hi =
     List.map_filter (\<lambda>s. map_option (\<lambda>r. r\<lparr>r_Ballot := c_ballot c\<rparr>) (mget (c_log c) s)) [lo..hi]"

function sendSuffix_loop ::
  "'st env \<Rightarrow> int \<Rightarrow> bool \<Rightarrow> int \<Rightarrow> int \<Rightarrow> 'st core \<Rightarrow> 'st core option" where
  "sendSuffix_loop e to fetch hi lo c =
     (if lo > hi then Some c
      else
        let recs = page_records c lo (min (lo + PageSize - 1) hi) in
        if recs = [] then sendSuffix_loop e to fetch hi (lo + PageSize) c
        else if fetch \<and> to \<noteq> c_id c then
          let c1 = emit (Send to ((Packet packetAccept (c_id c) (c_ballot c))\<lparr>p_Records := recs\<rparr>)) c;
              decided = filter r_Committed recs;
              c2 = (if decided \<noteq> []
                then emit (Send to ((Packet packetCommit (c_id c) (c_ballot c))\<lparr>p_Records := decided\<rparr>)) c1
                else c1)
          in sendSuffix_loop e to fetch hi (lo + PageSize) c2
        else
          let p = (Packet packetAccept (c_id c) (c_ballot c))
                \<lparr>p_Records := map (\<lambda>r. r\<lparr>r_Committed := False\<rparr>) recs\<rparr>
          in (case accept e p (emit (Broadcast p) c) of
                None \<Rightarrow> None | Some c' \<Rightarrow> sendSuffix_loop e to fetch hi (lo + PageSize) c'))"
  by pat_completeness auto
termination
  by (relation "measure (\<lambda>(e, to, fetch, hi, lo, c). nat (hi - lo + 1))") (auto simp: PageSize_def)

declare sendSuffix_loop.simps [simp del]

definition sendSuffix :: "'st env \<Rightarrow> int \<Rightarrow> int \<Rightarrow> bool \<Rightarrow> 'st core \<Rightarrow> 'st core option" where
  "sendSuffix e to start fetch c =
     (let limit = start + 2048 - 1; hi = (if c_high c > limit then limit else c_high c)
      in sendSuffix_loop e to fetch hi start c)"

subsection \<open>Recovery\<close>

definition schedulePending :: "'st env \<Rightarrow> 'st core \<Rightarrow> 'st core" where
  "schedulePending e c = c\<lparr>c_resume := map snd (mrange (order e Loop_pending) (c_pending c))\<rparr>"

definition activate :: "'st env \<Rightarrow> 'st core \<Rightarrow> 'st core" where
  "activate e c =
     (let c = c\<lparr>c_active := True\<rparr>;
          c = emit (Broadcast ((Packet packetReady (c_id c) (c_ballot c))\<lparr>p_High := c_executed c, p_Floor := 1\<rparr>)) c
      in schedulePending e c)"

fun send_pages :: "'st deliver \<Rightarrow> int \<Rightarrow> packet list \<Rightarrow> 'st core \<Rightarrow> 'st core option" where
  "send_pages L to [] c = Some c"
| "send_pages L to (p # ps) c = do { c \<leftarrow> Transport_Send L to p c; send_pages L to ps c }"

definition snapshot_values :: "int \<Rightarrow> 'st core \<Rightarrow> logrec list" where
  "snapshot_values flr c = List.map_filter (mget (c_log c)) [flr..c_high c]"

definition snapshot_witness :: "'st core \<Rightarrow> request list" where
  "snapshot_witness c = map (\<lambda>i. the (mget (c_witness c) i)) (sort (mkeys (c_witness c)))"

definition page_count :: "nat \<Rightarrow> nat \<Rightarrow> nat" where
  "page_count k w = (let cnt = max ((k + 128 - 1) div 128) ((w + 128 - 1) div 128) in if cnt = 0 then 1 else cnt)"

definition snapshot_page :: "'st core \<Rightarrow> int \<Rightarrow> logrec list \<Rightarrow> request list \<Rightarrow> nat \<Rightarrow> packet" where
  "snapshot_page c flr vs ws page =
     (Packet packetPromise (c_id c) (c_ballot c))\<lparr>p_Floor := flr, p_High := c_high c,
        p_Page := int page, p_Pages := int (page_count (length vs) (length ws)),
        p_Records := take 128 (drop (page * 128) vs), p_Requests := take 128 (drop (page * 128) ws)\<rparr>"

definition snapshot :: "'st core \<Rightarrow> int \<Rightarrow> packet list" where
  "snapshot c flr =
     (let vs = snapshot_values flr c; ws = snapshot_witness c
      in map (snapshot_page c flr vs ws) [0..<page_count (length vs) (length ws)])"

definition promise :: "'st deliver \<Rightarrow> packet \<Rightarrow> 'st core \<Rightarrow> 'st core option" where
  "promise L p c = send_pages L (p_From p) (snapshot c (p_Floor p)) c"

text \<open>\<open>promiseReply\<close>: collecting pages, and choosing the values of the suffix.\<close>

definition pages_complete :: "'st core \<Rightarrow> packet \<Rightarrow> (int, packet) gomap \<Rightarrow> bool" where
  "pages_complete c p pgs \<longleftrightarrow>
     int (mlen pgs) = p_Pages p \<and>
     (\<forall>page \<in> set [0..p_Pages p - 1]. case mget pgs page of
        None \<Rightarrow> False
      | Some v \<Rightarrow> p_Pages v = p_Pages p \<and> p_Floor v = c_executed c + 1 \<and> p_High v = p_High p)"

fun select_records :: "logrec list \<Rightarrow> (int, logrec) gomap \<Rightarrow> (int, logrec) gomap" where
  "select_records [] sel = sel"
| "select_records (r # rs) sel = select_records rs
     (case mget sel (r_Slot r) of
        None \<Rightarrow> mput (r_Slot r) r sel
      | Some old \<Rightarrow> if r_Ballot r > r_Ballot old then mput (r_Slot r) r sel else sel)"

fun select_pages :: "packet list \<Rightarrow> (int, logrec) gomap \<times> int \<Rightarrow> (int, logrec) gomap \<times> int" where
  "select_pages [] (sel, high) = (sel, high)"
| "select_pages (p # ps) (sel, high) =
     select_pages ps (select_records (p_Records p) sel, if p_High p > high then p_High p else high)"

definition promised_pages :: "'st env \<Rightarrow> 'st core \<Rightarrow> packet list" where
  "promised_pages e c = concat (map
     (\<lambda>(peer, _). map snd (mrange (order e (Loop_pages peer)) (mgetd [] (c_pages c) peer)))
     (mrange (order e Loop_promises) (c_promises c)))"

definition noop_record :: "int \<Rightarrow> logrec" where
  "noop_record slot = \<lparr>r_Slot = slot, r_Ballot = 0,
     r_Request = \<lparr>req_ID = RequestID (-1) (int32 slot), req_Command = \<lparr>Op = NONE, K = 0, V = []\<rparr>\<rparr>,
     r_Committed = False\<rparr>"

definition refill_slot :: "(int, logrec) gomap \<Rightarrow> int \<Rightarrow> 'st core \<Rightarrow> 'st core" where
  "refill_slot sel slot c =
     (let r = (case mget sel slot of Some r \<Rightarrow> r | None \<Rightarrow> noop_record slot);
          r = r\<lparr>r_Ballot := c_ballot c, r_Committed := False\<rparr>
      in c\<lparr>c_log := mput slot r (c_log c), c_pendingIndex := add (r_Request r) (c_pendingIndex c),
           c_assigned := mput (req_ID (r_Request r)) slot (c_assigned c)\<rparr>)"

definition executed_assignments :: "'st env \<Rightarrow> 'st core \<Rightarrow> (request_id, int) gomap" where
  "executed_assignments e c =
     fold (\<lambda>(slot, r) m. if slot \<le> c_executed c then mput (req_ID (r_Request r)) slot m else m)
       (mrange (order e Loop_log) (c_log c)) []"

text \<open>The witnessed requests of the promised pages, with the replicas that witnessed them.\<close>

fun witness_votes :: "(int \<times> request) list \<Rightarrow> (request_id, request) gomap \<times> (request_id, rset) gomap \<Rightarrow>
    (request_id, request) gomap \<times> (request_id, rset) gomap" where
  "witness_votes [] wv = wv"
| "witness_votes ((peer, r) # rs) (w, votes) =
     witness_votes rs (mput (req_ID r) r w, mput (req_ID r) (With (mgetd 0 votes (req_ID r)) peer) votes)"

definition witnessed :: "'st env \<Rightarrow> 'st core \<Rightarrow> (int \<times> request) list" where
  "witnessed e c = concat (map
     (\<lambda>(peer, _). concat (map (\<lambda>(_, pg). map (Pair peer) (p_Requests pg))
        (mrange (order e (Loop_pages peer)) (mgetd [] (c_pages c) peer))))
     (mrange (order e Loop_promises) (c_promises c)))"

definition append_witnessed :: "(request_id, request) gomap \<Rightarrow> request_id \<Rightarrow> 'st core \<Rightarrow> 'st core" where
  "append_witnessed w rid c =
     (if mget (c_assigned c) rid \<noteq> None then c
      else if mget (c_values c) rid \<noteq> None then c
      else
        let h = c_high c + 1;
            r = \<lparr>r_Slot = h, r_Ballot = c_ballot c, r_Request = the (mget w rid), r_Committed = False\<rparr>
        in c\<lparr>c_high := h, c_log := mput h r (c_log c), c_pendingIndex := add (r_Request r) (c_pendingIndex c),
             c_assigned := mput rid h (c_assigned c)\<rparr>)"

definition recover :: "'st env \<Rightarrow> 'st core \<Rightarrow> 'st core" where
  "recover e c =
     (let (sel, high) = select_pages (promised_pages e c) ([], c_executed c);
          (w, votes) = witness_votes (witnessed e c) ([], []);
          c = c\<lparr>c_preparing := False, c_high := high, c_assigned := executed_assignments e c,
            c_pendingIndex := newConflictIndex\<rparr>;
          c = fold (refill_slot sel) [c_executed c + 1..high] c;
          threshold = go_div (go_div (c_n c) 2 + 1) 2 + 1;
          c = fold (append_witnessed w)
            (filter (\<lambda>rid. \<not> Size (mgetd 0 votes rid) < threshold) (sort (mkeys w))) c
      in c\<lparr>c_recoveryEnd := c_high c, c_votes := []\<rparr>)"

definition promiseReply :: "'st env \<Rightarrow> packet \<Rightarrow> 'st core \<Rightarrow> 'st core option" where
  "promiseReply e p c =
     (if \<not> c_preparing c \<or> c_leader c \<noteq> c_id c \<or> p_Pages p \<le> 0 \<or> p_Page p < 0 \<or> p_Page p \<ge> p_Pages p
      then Some c
      else
        let pgs = mput (p_Page p) p (mgetd [] (c_pages c) (p_From p));
            c = c\<lparr>c_pages := mput (p_From p) pgs (c_pages c)\<rparr>
        in if \<not> pages_complete c p pgs then Some c
        else
          let c = c\<lparr>c_promises := mput (p_From p) True (c_promises c)\<rparr>
          in if int (mlen (c_promises c)) < go_div (c_n c) 2 + 1 then Some c
          else do {
            let c = recover e c;
            c \<leftarrow> sendSuffix e (c_id c) (c_executed c + 1) False c;
            Some (if c_executed c \<ge> c_recoveryEnd c then activate e c else c)
          })"

subsection \<open>Receiving a packet\<close>

fun commit_loop :: "logrec list \<Rightarrow> 'st core \<Rightarrow> 'st core option" where
  "commit_loop [] c = Some c"
| "commit_loop (r # rs) c = do {
     c \<leftarrow> install r c;
     old \<leftarrow> mget (c_log c) (r_Slot r);
     commit_loop rs (c\<lparr>c_log := mput (r_Slot r) (old\<lparr>r_Committed := True\<rparr>) (c_log c)\<rparr>)
   }"

definition receive_body :: "'st deliver \<Rightarrow> 'st env \<Rightarrow> packet \<Rightarrow> 'st core \<Rightarrow> 'st core option" where
  "receive_body L e p c =
     (if p_From p < 0 \<or> p_From p \<ge> c_n c then Some c
      else if p_Kind p = packetPrepare then
        (if p_Ballot p < c_ballot c then Some c
         else let c = (if p_Ballot p > c_ballot c
                then c\<lparr>c_ballot := p_Ballot p, c_leader := p_From p, c_preparing := False, c_votes := []\<rparr>
                else c)
           in promise L p (c\<lparr>c_active := False\<rparr>))
      else
        let c = (if p_Kind p = packetReady \<and> p_Ballot p > c_ballot c
              then c\<lparr>c_ballot := p_Ballot p, c_leader := p_From p, c_preparing := False,
                c_active := False, c_votes := []\<rparr>
              else c)
        in if p_Ballot p \<noteq> c_ballot c then Some c
        else (case p_Kind p of
            packetPromise \<Rightarrow> promiseReply e p c
          | packetAccept \<Rightarrow> if p_From p = c_leader c then accept e p c else Some c
          | packetAck \<Rightarrow> ack e p c
          | packetCommit \<Rightarrow>
              if p_From p \<noteq> c_leader c then Some c
              else do { c \<leftarrow> commit_loop (p_Records p) c; apply_log e c }
          | packetReady \<Rightarrow>
              if p_From p \<noteq> c_leader c then Some c
              else
                let c = (if p_Floor p = 1 \<and> \<not> c_active c then schedulePending e (c\<lparr>c_active := True\<rparr>) else c)
                in Some (if p_High p > c_executed c then requestFetch (clock e) c else c)
          | packetFetch \<Rightarrow>
              if c_leader c = c_id c then sendSuffix e (p_From p) (p_Floor p) True c else Some c
          | packetForward \<Rightarrow>
              if c_id c = c_leader c \<and> c_active c then submit_all e (p_Requests p) c else Some c
          | _ \<Rightarrow> Some c))"

text \<open>
  Only a Promise is ever delivered to the replica itself through the transport, and handling it
  sends nothing to the replica itself.
\<close>

definition receive_promise :: "'st env \<Rightarrow> packet \<Rightarrow> 'st core \<Rightarrow> 'st core option" where
  "receive_promise e = receive_body (\<lambda>p c. None) e"

definition receive :: "'st env \<Rightarrow> packet \<Rightarrow> 'st core \<Rightarrow> 'st core option" where
  "receive e = receive_body (receive_promise e) e"

subsection \<open>Elections and timers\<close>

definition Begin :: "'st env \<Rightarrow> time \<Rightarrow> 'st core \<Rightarrow> 'st core option" where
  "Begin e now c =
     (let c = c\<lparr>c_ballot := (go_div (c_ballot c) (c_n c) + 1) * c_n c + c_id c, c_leader := c_id c,
            c_active := False, c_preparing := True, c_recoveries := c_recoveries c + 1, c_pages := [],
            c_promises := [], c_votes := [], c_lastSend := now\<rparr>;
          p = (Packet packetPrepare (c_id c) (c_ballot c))\<lparr>p_Floor := c_executed c + 1\<rparr>
      in receive e p (emit (Broadcast p) c))"

definition fast_reply :: "'st env \<Rightarrow> request \<Rightarrow> 'st core \<Rightarrow> 'st core option" where
  "fast_reply e r c =
     (if req_Op r = PUT then Some (emit (Reply r NIL True) c)
      else if req_Op r = GET then do {
        (v, st) \<leftarrow> execute e (req_Command r) (c_app c);
        Some (emit (Reply r v True) (c\<lparr>c_app := st\<rparr>))
      }
      else Some c)"

lemma fast_reply_queue: "fast_reply e r c = Some c' \<Longrightarrow> c_queue c' = c_queue c"
  by (auto simp: fast_reply_def emit_def split: if_splits Option.bind_splits)

function flush_loop :: "'st env \<Rightarrow> 'st core \<Rightarrow> logrec list \<Rightarrow> ('st core \<times> logrec list) option" where
  "flush_loop e c records =
     (case c_queue c of [] \<Rightarrow> Some (c, records)
      | rid # q \<Rightarrow>
        if \<not> (int (length records) < PageSize \<and> c_high c - c_executed c < AdmissionWindow) then Some (c, records)
        else
          let c = c\<lparr>c_queue := q, c_queued := mdel rid (c_queued c)\<rparr>
          in if mget (c_assigned c) rid \<noteq> None then flush_loop e c records
          else if mget (c_values c) rid \<noteq> None then flush_loop e c records
          else (case mget (c_pending c) rid of
              None \<Rightarrow> flush_loop e c records
            | Some r \<Rightarrow>
               (case (if mget (c_witness c) rid = None then Some False
                      else map_option Not (conflicts (order e Loop_scans) r (c_pendingIndex c))) of
                  None \<Rightarrow> None
                | Some fast \<Rightarrow>
                    let h = c_high c + 1;
                        rec = \<lparr>r_Slot = h, r_Ballot = c_ballot c, r_Request = r, r_Committed = False\<rparr>;
                        c = c\<lparr>c_high := h, c_log := mput h rec (c_log c),
                          c_pendingIndex := add r (c_pendingIndex c),
                          c_assigned := mput rid h (c_assigned c)\<rparr>
                    in (case (if fast then fast_reply e r c else Some c) of
                          None \<Rightarrow> None
                        | Some c' \<Rightarrow> flush_loop e c' (records @ [rec])))))"
  by pat_completeness auto
termination
  by (relation "measure (\<lambda>(e, c, _). length (c_queue c))")
    (auto simp: fast_reply_queue split: if_splits)

declare flush_loop.simps [simp del]

definition flush :: "'st env \<Rightarrow> 'st core \<Rightarrow> 'st core option" where
  "flush e c =
     (if c_high c - c_executed c \<ge> AdmissionWindow then Some c
      else do {
        (c, records) \<leftarrow> flush_loop e c [];
        if records = [] then Some c
        else
          let p = (Packet packetAccept (c_id c) (c_ballot c))\<lparr>p_Records := records\<rparr>
          in accept e p (emit (Broadcast p) c)
      })"

fun resume_loop :: "'st env \<Rightarrow> nat \<Rightarrow> 'st core \<Rightarrow> 'st core option" where
  "resume_loop e 0 c = Some c"
| "resume_loop e (Suc k) c = (case c_resume c of [] \<Rightarrow> Some c
     | r # rs \<Rightarrow>
        let c = c\<lparr>c_resume := rs\<rparr>
        in (case (if mget (c_pending c) (req_ID r) \<noteq> None then submit e r c else Some c) of
              None \<Rightarrow> None | Some c' \<Rightarrow> resume_loop e k c'))"

definition first_alive :: "bool list \<Rightarrow> int" where
  "first_alive alive = (case find (\<lambda>i. alive ! i) [0..<length alive] of None \<Rightarrow> -1 | Some i \<Rightarrow> int i)"

definition tick_leader :: "'st env \<Rightarrow> time \<Rightarrow> 'st core \<Rightarrow> 'st core option" where
  "tick_leader e now c = do {
     let c = (if \<not> c_active c \<and> c_executed c \<ge> c_recoveryEnd c then activate e c else c);
     c \<leftarrow> (if c_active c then flush e c else Some c);
     if time_sub now (c_lastSend c) \<ge> 200 * Millisecond
     then
       let c = c\<lparr>c_lastSend := now\<rparr>;
           c = emit (Broadcast ((Packet packetReady (c_id c) (c_ballot c))
                 \<lparr>p_High := c_executed c, p_Floor := boolInt (c_active c)\<rparr>)) c
       in sendSuffix e (c_id c) (c_executed c + 1) False c
     else Some c
   }"

definition tick :: "'st env \<Rightarrow> time \<Rightarrow> bool list \<Rightarrow> 'st core \<Rightarrow> 'st core option" where
  "tick e now alive c = do {
     leader_alive \<leftarrow> slice_get alive (c_leader c);
     c \<leftarrow> (if \<not> leader_alive \<and> first_alive alive = c_id c \<and> \<not> c_preparing c then Begin e now c else Some c);
     c \<leftarrow> (if c_active c then resume_loop e (nat PageSize) c else Some c);
     if c_preparing c then
       (if time_sub now (c_lastSend c) \<ge> Second
        then
          let c = c\<lparr>c_lastSend := now\<rparr>;
              p = (Packet packetPrepare (c_id c) (c_ballot c))\<lparr>p_Floor := c_executed c + 1\<rparr>
          in receive e p (emit (Broadcast p) c)
        else Some c)
     else if c_leader c = c_id c then tick_leader e now c
     else Some c
   }"

end
