(* ===== verification/CurpWitness.thy ===== *)
theory CurpWitness
  imports CurpCore
begin

text \<open>
  The witness table of CURP. A replica witnesses a request only when it commutes with everything it has
  witnessed and not yet executed; the test goes through the conflict index. \<open>WInv\<close> says that the index stands
  for the table and that the table holds no two conflicting requests; every handler of the replica keeps it.
  Requests with operation \<open>NONE\<close> have no effect, are in the table and outside the index, and conflict with nothing.
  \<open>F\<close> is the command a client sent under a request identifier: a run admits requests that the command policy accepts
  and that carry the command of their identifier (\<open>req_ok\<close>). The second part is the recovery: a request that
  a superquorum has witnessed is ordered by the new leader, and the requests that recovery orders by
  their witnesses commute.
\<close>

named_theorems keeps_witness "handlers that keep the witness table independent"

definition req_ok :: "(request_id \<Rightarrow> command) \<Rightarrow> request \<Rightarrow> bool" where
  "req_ok F r \<longleftrightarrow> valid_request r \<and> req_Command r = F (req_ID r)"

lemma req_ok_eq: "req_ok F r \<Longrightarrow> req_ok F s \<Longrightarrow> req_ID r = req_ID s \<Longrightarrow> r = s"
  by (simp add: req_ok_def)

definition table_ok :: "(request_id \<Rightarrow> command) \<Rightarrow> (request_id, request) gomap \<Rightarrow> bool" where
  "table_ok F w \<longleftrightarrow> (\<forall>i r. mget w i = Some r \<longrightarrow> req_ID r = i \<and> req_ok F r)"

definition independent :: "(request_id, request) gomap \<Rightarrow> bool" where
  "independent w \<longleftrightarrow> (\<forall>i j r s. mget w i = Some r \<longrightarrow> mget w j = Some s \<longrightarrow> i \<noteq> j \<longrightarrow> \<not> clashes r s)"

lemma clashes_sym: "clashes r s = clashes s r"
  by (auto simp: clashes_def Conflict_sym)

lemma not_clashes:
  assumes "\<not> clashes r s" "valid_request r" "valid_request s"
  shows "req_Op r = NONE \<or> req_Op s = NONE \<or> Conflict (req_Command r) (req_Command s) = Some False"
  using assms Conflict_defined [OF assms(2,3)] by (auto simp: clashes_def)

definition WInv :: "(request_id \<Rightarrow> command) \<Rightarrow> 'st core \<Rightarrow> bool" where
  "WInv F c \<longleftrightarrow> table_ok F (c_witness c) \<and> independent (c_witness c) \<and>
     represents (c_witnessIndex c) (ran (map_of (c_witness c))) \<and>
     (\<forall>r \<in> ran (map_of (c_pending c)). req_ok F r) \<and> (\<forall>r \<in> set (c_resume c). req_ok F r)"

lemma WInv_cong:
  "c_witness c = c_witness d \<Longrightarrow> c_witnessIndex c = c_witnessIndex d \<Longrightarrow> c_pending c = c_pending d \<Longrightarrow> c_resume c = c_resume d \<Longrightarrow>
     WInv F c = WInv F d"
  by (simp add: WInv_def)

lemma emit_WInv [simp]: "WInv F (emit x c) = WInv F c"
  by (simp add: WInv_def emit_def)

lemma table_same: "table_ok F w \<Longrightarrow> req_ok F r \<Longrightarrow> mget w (req_ID r) = Some s \<Longrightarrow> s = r"
  unfolding table_ok_def using req_ok_eq by metis

lemma ran_put:
  assumes "table_ok F w" "req_ok F r"
  shows "ran ((map_of w)(req_ID r \<mapsto> r)) = insert r (ran (map_of w))"
proof (cases "mget w (req_ID r)")
  case None
  then show ?thesis by simp
next
  case (Some s)
  then have "mget w (req_ID r) = Some r" using table_same [OF assms] by blast
  then show ?thesis by (simp add: fun_upd_idem ranI insert_absorb)
qed

lemma ran_del:
  assumes "table_ok F w" "mget w i = Some r"
  shows "ran ((map_of w)(i := None)) = ran (map_of w) - {r}"
proof -
  have one: "j = i" if "mget w j = Some r" for j using assms that by (auto simp: table_ok_def)
  have "ran ((map_of w)(i := None)) = {b. \<exists>a. a \<noteq> i \<and> mget w a = Some b}" by (auto simp: ran_def)
  also have "\<dots> = {b. \<exists>a. mget w a = Some b} - {r}" 
  proof -
    have "(\<exists>a. a \<noteq> i \<and> mget w a = Some b) \<longleftrightarrow> (\<exists>a. mget w a = Some b) \<and> b \<noteq> r" for b by (metis one assms(2) option.inject)
    then show ?thesis by blast
  qed
  finally show ?thesis by (simp add: ran_def)
qed

subsection \<open>The operations on the table\<close>

lemma witness_drop:
  assumes "table_ok F w" "independent w" "represents x (ran (map_of w))"
  shows "table_ok F (mdel i w)" "independent (mdel i w)"
    "represents (case mget w i of Some o' \<Rightarrow> remove o' x | None \<Rightarrow> x) (ran (map_of (mdel i w)))"
proof -
  show "table_ok F (mdel i w)" "independent (mdel i w)" using assms(1,2) by (auto simp: table_ok_def independent_def)
  show "represents (case mget w i of Some o' \<Rightarrow> remove o' x | None \<Rightarrow> x) (ran (map_of (mdel i w)))"
  proof (cases "mget w i")
    case None
    then have "(map_of w)(i := None) = map_of w" by auto
    then show ?thesis using assms(3) None by simp
  next
    case (Some r)
    then have "r \<in> ran (map_of w)" by (auto simp: ran_def)
    then show ?thesis using ci.rep_del [OF assms(3)] ran_del [OF assms(1) Some] Some by simp
  qed
qed

text \<open>A request that does not conflict with the others enters the table.\<close>

lemma witness_put:
  assumes "table_ok F w" "independent w" "req_ok F r" "\<not> pairwise_conflict (ran (map_of (mdel (req_ID r) w))) r"
  shows "table_ok F (mput (req_ID r) r w)" "independent (mput (req_ID r) r w)"
proof -
  show "table_ok F (mput (req_ID r) r w)" using assms(1,3) by (auto simp: table_ok_def)
  have "\<not> clashes s r" if "mget w i = Some s" "i \<noteq> req_ID r" for i s
  proof -
    have "s \<in> ran (map_of (mdel (req_ID r) w))" using that by (auto simp: ran_def)
    then show ?thesis using assms(4) by (auto simp: pairwise_conflict_def)
  qed
  then show "independent (mput (req_ID r) r w)"
    using assms(2) clashes_sym by (fastforce simp: independent_def)
qed

lemma record_witness_WInv:
  assumes "record_witness e r c = Some c'" "WInv F c" "req_ok F r"
  shows "WInv F c'"
proof (cases "mget (c_recorded c) (req_ID r) = Some (c_ballot c)")
  case True
  then show ?thesis using assms by (simp add: record_witness_def)
next
  case False
  let ?w = "c_witness c" and ?i = "req_ID r"
  define x where "x = (case mget ?w ?i of Some o' \<Rightarrow> remove o' (c_witnessIndex c) | None \<Rightarrow> c_witnessIndex c)"
  have inv: "table_ok F ?w" "independent ?w" "represents (c_witnessIndex c) (ran (map_of ?w))" using assms(2) by (auto simp: WInv_def)
  note drop = witness_drop [OF inv, of ?i, folded x_def]
  have valid: "valid_request r" using assms(3) by (simp add: req_ok_def)
  define hit where "hit = pairwise_conflict (ran (map_of (mdel ?i ?w))) r"
  have q: "conflicts (order e Loop_scans) r x = Some hit" using ci.query_exact [OF drop(3) valid] by (simp add: hit_def)
  have old: "o' = r" if "mget ?w ?i = Some o'" for o' using inv(1) that assms(3) req_ok_eq by (metis table_ok_def)
  have again: "represents (add r x) (ran (map_of (mput ?i r ?w)))"
  proof -
    have "?i \<notin> req_ID ` ran (map_of (mdel ?i ?w))" using inv(1) by (auto simp: ran_def table_ok_def)
    moreover have "insert r (ran (map_of (mdel ?i ?w))) = ran (map_of (mput ?i r ?w))"
      using ran_put [OF drop(1) assms(3)] by simp
    ultimately show ?thesis using ci.rep_ins [OF drop(3) valid] by simp
  qed
  have same: "represents (case mget ?w ?i of Some o' \<Rightarrow> add o' x | None \<Rightarrow> x) (ran (map_of ?w))"
  proof (cases "mget ?w ?i")
    case None
    then show ?thesis using inv(3) by (simp add: x_def)
  next
    case (Some o')
    then have "map_of (mput ?i r ?w) = map_of ?w" using old by auto
    then show ?thesis using again Some old by auto
  qed
  define y where "y = (case mget ?w ?i of Some o' \<Rightarrow> add o' x | None \<Rightarrow> x)"
  let ?d = "c\<lparr>c_witnessIndex := y, c_recorded := mput ?i (c_ballot c) (c_recorded c)\<rparr>"
  let ?e = "?d\<lparr>c_witnessIndex := (if mget ?w ?i = None then add r y else y), c_witness := mput ?i r ?w\<rparr>"
  have res: "c' = (let d = if hit then ?d else ?e in if c_id c \<noteq> c_leader c then emit (ReplyRecord r (\<not> hit)) d else d)"
    using assms(1) unfolding record_witness_def Let_def if_not_P [OF False] x_def [symmetric] y_def [symmetric] q Option.bind.simps
    by (cases hit; cases "c_id c = c_leader c"; cases "mget ?w ?i") simp_all
  have d: "WInv F ?d" using assms(2) same by (simp add: WInv_def y_def)
  have e: "WInv F ?e" if "\<not> hit"
  proof -
    have t: "table_ok F (mput ?i r ?w)" "independent (mput ?i r ?w)" using witness_put [OF inv(1,2) assms(3)] that by (simp_all add: hit_def)
    moreover have "represents (if mget ?w ?i = None then add r y else y) (ran (map_of (mput ?i r ?w)))"
      using again old by (cases "mget ?w ?i") (auto simp: y_def)
    ultimately show ?thesis using assms(2) by (simp add: WInv_def)
  qed
  show ?thesis unfolding res Let_def using d e by (simp del: if_split split: if_split)
qed

subsection \<open>The handlers keep the table\<close>

lemma apply_one_WInv:
  assumes "apply_one e r c = Some c'" "WInv F c"
  shows "WInv F c'"
proof -
  let ?i = "req_ID (r_Request r)"
  have c': "c_witness c' = mdel ?i (c_witness c)" "c_pending c' = mdel ?i (c_pending c)" "c_resume c' = c_resume c"
    "c_witnessIndex c' = (case mget (c_witness c) ?i of Some w \<Rightarrow> remove w (c_witnessIndex c) | None \<Rightarrow> c_witnessIndex c)"
    using assms(1) by (auto simp: apply_one_def emit_def split: Option.bind_splits if_splits option.splits)
  have "table_ok F (c_witness c)" "independent (c_witness c)" "represents (c_witnessIndex c) (ran (map_of (c_witness c)))" using assms(2) by (auto simp: WInv_def)
  note w = witness_drop [OF this, of ?i]
  have "ran (map_of (mdel ?i (c_pending c))) \<subseteq> ran (map_of (c_pending c))" by (auto simp: ran_def)
  then show ?thesis using assms(2) w c' by (auto simp: WInv_def)
qed

lemma apply_log_WInv: "apply_log e c = Some c' \<Longrightarrow> WInv F c \<Longrightarrow> WInv F c'"
proof (induction e c rule: apply_log.induct)
  case (1 e c)
  show ?case
  proof (cases "mget (c_log c) (c_executed c + 1)")
    case None
    then show ?thesis using 1 by (simp add: apply_log.simps)
  next
    case (Some r)
    then show ?thesis using 1 apply_one_WInv [of e r c]
      by (cases "apply_one e r c") (auto simp: apply_log.simps [of e c] split: if_splits)
  qed
qed

lemma enqueue_WInv [simp]: "WInv F (enqueue r c) = WInv F c"
  by (rule WInv_cong) (simp_all add: enqueue_def)

lemma submit_WInv: "submit e r c = Some c' \<Longrightarrow> WInv F c \<Longrightarrow> req_ok F r \<Longrightarrow> WInv F c'"
proof (cases "mget (c_values c) (req_ID r)")
  case None
  assume a: "submit e r c = Some c'" "WInv F c" "req_ok F r"
  let ?c = "c\<lparr>c_pending := mput (req_ID r) r (c_pending c)\<rparr>"
  have "ran (map_of (mput (req_ID r) r (c_pending c))) \<subseteq> insert r (ran (map_of (c_pending c)))" by (auto simp: ran_def)
  then have p: "WInv F ?c" using a(2,3) by (auto simp: WInv_def)
  show ?thesis
  proof (cases "c_active c")
    case False
    then show ?thesis using a p None by (simp add: submit_def)
  next
    case True
    then obtain d where d: "record_witness e r ?c = Some d" "c' = (if c_leader d = c_id d then enqueue r d else d)"
      using a None by (auto simp: submit_def Let_def split: Option.bind_splits)
    then show ?thesis using record_witness_WInv [OF d(1) p a(3)] by simp
  qed
qed (auto simp: submit_def)

lemma submit_all_WInv: "submit_all e rs c = Some c' \<Longrightarrow> WInv F c \<Longrightarrow> \<forall>r\<in>set rs. req_ok F r \<Longrightarrow> WInv F c'"
proof (induction rs arbitrary: c)
  case (Cons r rs)
  obtain d where d: "submit e r c = Some d" "submit_all e rs d = Some c'" using Cons.prems(1) by (auto split: option.splits)
  then show ?case using Cons.IH [OF d(2)] submit_WInv [OF d(1)] Cons.prems by simp
qed simp

lemma ack_loop_WInv: "ack_loop fr as c = (c', com) \<Longrightarrow> WInv F c \<Longrightarrow> WInv F c'"
proof (induction fr as c arbitrary: com rule: ack_loop.induct)
  case (2 fr a as c)
  let ?vs = "With (mgetd 0 (c_votes c) (r_Slot a)) fr"
  let ?d = "c\<lparr>c_votes := mput (r_Slot a) ?vs (c_votes c)\<rparr>"
  have d: "WInv F ?d" using "2.prems"(2) by (simp add: WInv_def)
  show ?case
  proof (cases "r_Slot a \<le> c_executed c")
    case True
    then show ?thesis using "2.prems" "2.IH"(1) [OF True] by simp
  next
    case False
    show ?thesis
    proof (cases "mget (c_log c) (r_Slot a)")
      case None
      then show ?thesis using "2.prems"(1) "2.IH"(2) [OF False refl refl] d False by (simp add: Let_def)
    next
      case (Some r)
      let ?e = "?d\<lparr>c_log := mput (r_Slot a) (r\<lparr>r_Committed := True\<rparr>) (c_log c)\<rparr>"
      have e: "WInv F ?e" using d by (simp add: WInv_def)
      show ?thesis
      proof (cases "r_Ballot r \<noteq> c_ballot c \<or> r_Committed r \<or> Size ?vs < go_div (c_n c) 2 + 1")
        case True
        then show ?thesis using "2.prems"(1) "2.IH"(3) [OF False refl refl] Some d False by (simp add: Let_def)
      next
        case go: False
        obtain c2 com2 where l: "ack_loop fr as ?e = (c2, com2)" by (cases "ack_loop fr as ?e")
        then have "c' = c2" using "2.prems"(1) Some False go by (simp add: Let_def)
        then show ?thesis using "2.IH"(4) [OF False refl refl] Some go e l by simp
      qed
    qed
  qed
qed simp

lemma ack_WInv: "ack e p c = Some c' \<Longrightarrow> WInv F c \<Longrightarrow> WInv F c'"
  by (auto simp: ack_def Let_def split: if_splits prod.splits dest!: apply_log_WInv ack_loop_WInv)

text \<open>The handlers that leave the table alone.\<close>

definition keepsW :: "'st core \<Rightarrow> 'st core \<Rightarrow> bool" where
  "keepsW c c' \<longleftrightarrow> c_witness c' = c_witness c \<and> c_witnessIndex c' = c_witnessIndex c \<and> c_pending c' = c_pending c \<and> c_resume c' = c_resume c"

lemma keepsW_WInv: "keepsW c c' \<Longrightarrow> WInv F c' = WInv F c"
  by (simp add: keepsW_def WInv_def)

lemma keepsW_trans: "keepsW a b \<Longrightarrow> keepsW b c \<Longrightarrow> keepsW a c"
  by (simp add: keepsW_def)

lemma install_keepsW: "install r c = Some c' \<Longrightarrow> keepsW c c'"
  by (auto simp: keepsW_def install_def Let_def split: option.splits if_splits)

lemma requestFetch_keepsW: "keepsW c (requestFetch now c)"
  by (simp add: keepsW_def requestFetch_def emit_def)

lemma accept_loop_keepsW: "accept_loop b rs (gap, c) = Some (gap', c') \<Longrightarrow> keepsW c c'"
proof (induction rs arbitrary: gap c)
  case (Cons r rs)
  define d where "d = (if r_Slot r > 0 \<and> mget (c_log c) (r_Slot r - 1) = None then c\<lparr>c_gapAccepts := c_gapAccepts c + 1\<rparr> else c)"
  obtain f g where f: "install (r\<lparr>r_Ballot := b\<rparr>) d = Some f" "accept_loop b rs (g, f) = Some (gap', c')"
    using Cons.prems by (auto simp: Let_def d_def [symmetric] split: Option.bind_splits)
  have "keepsW c d" by (simp add: d_def keepsW_def)
  then show ?case using keepsW_trans [OF _ keepsW_trans [OF install_keepsW [OF f(1)] Cons.IH [OF f(2)]]] by blast
qed (simp add: keepsW_def)

lemma accept_WInv:
  assumes "accept e p c = Some c'" "WInv F c"
  shows "WInv F c'"
proof -
  obtain gap d where d: "accept_loop (p_Ballot p) (p_Records p) (False, c) = Some (gap, d)"
    using assms(1) by (auto simp: accept_def split: Option.bind_splits)
  have "WInv F (if gap then requestFetch (clock e) d else d)"
    using assms(2) keepsW_WInv [OF accept_loop_keepsW [OF d]] by (simp add: keepsW_WInv [OF requestFetch_keepsW])
  then show ?thesis using assms(1) d by (auto simp: accept_def Let_def split: if_splits dest!: ack_WInv [where F = F])
qed

lemma sendSuffix_loop_WInv: "sendSuffix_loop e to fetch hi lo c = Some c' \<Longrightarrow> WInv F c \<Longrightarrow> WInv F c'"
proof (induction e to fetch hi lo c rule: sendSuffix_loop.induct)
  case (1 e to fetch hi lo c)
  let ?recs = "page_records c lo (min (lo + PageSize - 1) hi)"
  let ?p = "(Packet packetAccept (c_id c) (c_ballot c))\<lparr>p_Records := map (\<lambda>r. r\<lparr>r_Committed := False\<rparr>) ?recs\<rparr>"
  consider "lo > hi" | "lo \<le> hi" "?recs = []" | "lo \<le> hi" "?recs \<noteq> []" "fetch \<and> to \<noteq> c_id c" | "lo \<le> hi" "?recs \<noteq> []" "\<not> (fetch \<and> to \<noteq> c_id c)" by fastforce
  then show ?case
  proof cases
    case 3
    then show ?thesis using "1.IH"(2) [OF _ refl _ _ refl refl refl] "1.prems"(1) [unfolded sendSuffix_loop.simps [of e to fetch hi lo c] Let_def] "1.prems"(2) by simp
  next
    case 4
    then obtain d where d: "accept e ?p (emit (Broadcast ?p) c) = Some d" "sendSuffix_loop e to fetch hi (lo + PageSize) d = Some c'"
      using "1.prems"(1) by (auto simp: sendSuffix_loop.simps [of e to fetch hi lo] Let_def split: option.splits)
    have "WInv F d" using accept_WInv [OF d(1)] "1.prems"(2) by simp
    then show ?thesis using "1.IH"(3) [OF _ refl] 4 d by simp
  qed (use 1 in \<open>simp_all add: sendSuffix_loop.simps [of e to fetch hi lo] Let_def\<close>)
qed

lemma sendSuffix_WInv: "sendSuffix e to start fetch c = Some c' \<Longrightarrow> WInv F c \<Longrightarrow> WInv F c'"
  by (simp add: sendSuffix_def Let_def sendSuffix_loop_WInv)

lemma schedulePending_WInv: "WInv F c \<Longrightarrow> WInv F (schedulePending e c)"
  by (auto simp: WInv_def schedulePending_def ran_def)

lemma activate_WInv: "WInv F c \<Longrightarrow> WInv F (activate e c)"
  unfolding activate_def Let_def by (intro schedulePending_WInv) (simp add: WInv_def emit_def)

lemma send_pages_WInv:
  assumes "\<And>p c c'. L p c = Some c' \<Longrightarrow> p_Kind p = packetPromise \<Longrightarrow> WInv F c \<Longrightarrow> WInv F c'"
  shows "send_pages L to ps c = Some c' \<Longrightarrow> \<forall>p\<in>set ps. p_Kind p = packetPromise \<Longrightarrow> WInv F c \<Longrightarrow> WInv F c'"
proof (induction ps arbitrary: c)
  case (Cons p ps)
  obtain d where d: "Transport_Send L to p c = Some d" "send_pages L to ps d = Some c'" using Cons.prems(1) by (auto split: Option.bind_splits)
  have "WInv F d" using d(1) Cons.prems(2,3) by (auto simp: Transport_Send_def split: if_splits intro: assms)
  then show ?case using Cons.IH [OF d(2)] Cons.prems(2) by simp
qed simp

lemma promise_WInv:
  assumes "\<And>p c c'. L p c = Some c' \<Longrightarrow> p_Kind p = packetPromise \<Longrightarrow> WInv F c \<Longrightarrow> WInv F c'"
  shows "promise L p c = Some c' \<Longrightarrow> WInv F c \<Longrightarrow> WInv F c'"
  using send_pages_WInv [of L F "p_From p" "snapshot c (p_Floor p)" c c'] assms
  by (auto simp: promise_def snapshot_def snapshot_page_def Packet_def Let_def)

lemma fold_keepsW: "(\<And>x c. keepsW c (f x c)) \<Longrightarrow> keepsW c (fold f xs c)"
proof (induction xs arbitrary: c)
  case (Cons x xs)
  then show ?case using keepsW_trans by (metis fold_simps(2))
qed (simp add: keepsW_def)

lemma recover_keepsW: "keepsW c (recover e c)"
proof -
  have "keepsW c (refill_slot sel s c)" "keepsW c (append_witnessed w rid c)" for sel s w rid and c :: "'a core"
    by (simp_all add: keepsW_def refill_slot_def append_witnessed_def Let_def)
  note k = fold_keepsW [of "refill_slot _", OF this(1)] fold_keepsW [of "append_witnessed _", OF this(2)]
  have fin: "keepsW c (d\<lparr>c_recoveryEnd := y, c_votes := []\<rparr>)" if "keepsW c d" for d y and c :: "'a core" using that by (simp add: keepsW_def)
  have ini: "keepsW c (c\<lparr>c_preparing := False, c_high := h, c_assigned := a, c_pendingIndex := x\<rparr>)" for h a x and c :: "'a core" by (simp add: keepsW_def)
  show ?thesis unfolding recover_def Let_def split_beta by (rule fin keepsW_trans [OF keepsW_trans [OF ini k(1)] k(2)])+
qed

lemma promiseReply_WInv:
  assumes "promiseReply e p c = Some c'" "WInv F c"
  shows "WInv F c'"
proof -
  define d where "d = c\<lparr>c_pages := mput (p_From p) (mput (p_Page p) p (mgetd [] (c_pages c) (p_From p))) (c_pages c)\<rparr>"
  define f where "f = d\<lparr>c_promises := mput (p_From p) True (c_promises d)\<rparr>"
  have inv: "WInv F d" "WInv F f" using assms(2) by (simp_all add: d_def f_def WInv_def)
  note res = assms(1) [unfolded promiseReply_def Let_def, folded d_def, folded f_def]
  then consider "c' = c" | "c' = d" | "c' = f"
    | g where "sendSuffix e (c_id (recover e f)) (c_executed (recover e f) + 1) False (recover e f) = Some g" "c' = (if c_executed g \<ge> c_recoveryEnd g then activate e g else g)"
    by (auto split: if_splits Option.bind_splits)
  then show ?thesis
  proof cases
    case (4 g)
    have "WInv F (recover e f)" using inv(2) keepsW_WInv [OF recover_keepsW] by blast
    then show ?thesis using sendSuffix_WInv [OF 4(1)] 4(2) by (auto intro: activate_WInv)
  qed (use assms(2) inv in auto)
qed

lemma commit_loop_keepsW: "commit_loop rs c = Some c' \<Longrightarrow> keepsW c c'"
proof (induction rs arbitrary: c)
  case (Cons r rs)
  obtain d old where d: "install r c = Some d" "commit_loop rs (d\<lparr>c_log := mput (r_Slot r) (old\<lparr>r_Committed := True\<rparr>) (c_log d)\<rparr>) = Some c'"
    using Cons.prems by (auto split: Option.bind_splits)
  show ?case using install_keepsW [OF d(1)] Cons.IH [OF d(2)] by (simp add: keepsW_def)
qed (simp add: keepsW_def)

definition pkt_ok :: "(request_id \<Rightarrow> command) \<Rightarrow> packet \<Rightarrow> bool" where
  "pkt_ok F p \<longleftrightarrow> (p_Kind p = packetForward \<longrightarrow> (\<forall>r\<in>set (p_Requests p). req_ok F r))"

lemma receive_body_WInv:
  assumes L: "\<And>p c c'. L p c = Some c' \<Longrightarrow> p_Kind p = packetPromise \<Longrightarrow> WInv F c \<Longrightarrow> WInv F c'"
    and rec: "receive_body L e p c = Some c'" and ok: "pkt_ok F p" and inv: "WInv F c"
  shows "WInv F c'"
proof -
  define d where "d = (if p_Ballot p > c_ballot c then c\<lparr>c_ballot := p_Ballot p, c_leader := p_From p, c_preparing := False, c_votes := []\<rparr> else c)\<lparr>c_active := False\<rparr>"
  define f where "f = (if p_Kind p = packetReady \<and> p_Ballot p > c_ballot c
              then c\<lparr>c_ballot := p_Ballot p, c_leader := p_From p, c_preparing := False, c_active := False, c_votes := []\<rparr> else c)"
  have d: "WInv F d" and f: "WInv F f" using inv by (simp_all add: d_def f_def WInv_def)
  have ready: "WInv F (f\<lparr>c_active := True\<rparr>)" using f by (simp add: WInv_def)
  note fetch = keepsW_WInv [OF requestFetch_keepsW]
  note res = rec [unfolded receive_body_def Let_def, folded d_def f_def]
  consider (same) "p_From p < 0 \<or> p_From p \<ge> c_n c"
    | (old) "\<not> (p_From p < 0 \<or> p_From p \<ge> c_n c)" "p_Kind p = packetPrepare" "p_Ballot p < c_ballot c"
    | (prepare) "\<not> (p_From p < 0 \<or> p_From p \<ge> c_n c)" "p_Kind p = packetPrepare" "\<not> p_Ballot p < c_ballot c"
    | (stale) "\<not> (p_From p < 0 \<or> p_From p \<ge> c_n c)" "p_Kind p \<noteq> packetPrepare" "p_Ballot p \<noteq> c_ballot f"
    | (current) "\<not> (p_From p < 0 \<or> p_From p \<ge> c_n c)" "p_Kind p \<noteq> packetPrepare" "\<not> p_Ballot p \<noteq> c_ballot f" by blast
  then show ?thesis
  proof cases
    case same
    then show ?thesis using res inv by simp
  next
    case old
    then show ?thesis using res inv by simp
  next
    case prepare
    then have "promise L p d = Some c'" using res by simp
    then show ?thesis using promise_WInv [of L F p d c'] L d by blast
  next
    case stale
    then show ?thesis using res f by simp
  next
    case current
    note 3 = current(2) res [unfolded if_not_P [OF current(1)] if_not_P [OF current(2)] if_not_P [OF current(3)]]
    show ?thesis
    proof (cases "p_Kind p")
      case packetPromise
      then show ?thesis using 3(2) promiseReply_WInv [OF _ f] by simp
    next
      case packetAccept
      then show ?thesis using 3(2) f accept_WInv [OF _ f] by (simp split: if_splits)
    next
      case packetAck
      then show ?thesis using 3(2) ack_WInv [OF _ f] by simp
    next
      case packetCommit
      then consider "c' = f" | g where "commit_loop (p_Records p) f = Some g" "apply_log e g = Some c'"
        using 3(2) by (auto split: if_splits Option.bind_splits)
      then show ?thesis using f by cases (simp, metis keepsW_WInv commit_loop_keepsW apply_log_WInv)
    next
      case packetReady
      have "WInv F (if p_Floor p = 1 \<and> \<not> c_active f then schedulePending e (f\<lparr>c_active := True\<rparr>) else f)"
        using f schedulePending_WInv [OF ready] by simp
      then show ?thesis using 3(2) packetReady f by (auto simp: Let_def fetch split: if_splits)
    next
      case packetFetch
      then show ?thesis using 3(2) f sendSuffix_WInv [OF _ f] by (simp split: if_splits)
    next
      case packetForward
      then show ?thesis using 3(2) f submit_all_WInv [OF _ f] ok by (simp add: pkt_ok_def split: if_splits)
    qed (use 3 f in auto)
  qed
qed

lemma curp_receive_promise_WInv: "receive_promise e p c = Some c' \<Longrightarrow> p_Kind p = packetPromise \<Longrightarrow> WInv F c \<Longrightarrow> WInv F c'"
  unfolding receive_promise_def by (rule receive_body_WInv [of "\<lambda>p c. None"]) (auto simp: pkt_ok_def)

lemma curp_receive_WInv: "receive e p c = Some c' \<Longrightarrow> pkt_ok F p \<Longrightarrow> WInv F c \<Longrightarrow> WInv F c'"
  unfolding receive_def by (rule receive_body_WInv [OF curp_receive_promise_WInv])

lemma curp_prepare_ok [simp]: "pkt_ok F ((Packet packetPrepare i b)\<lparr>p_Floor := x\<rparr>)"
  by (simp add: pkt_ok_def Packet_def)

lemma Begin_WInv: "Begin e now c = Some c' \<Longrightarrow> WInv F c \<Longrightarrow> WInv F c'"
  unfolding Begin_def Let_def by (erule curp_receive_WInv) (simp_all, simp add: WInv_def)

lemma fast_reply_keepsW: "fast_reply e r c = Some c' \<Longrightarrow> keepsW c c'"
  by (auto simp: fast_reply_def keepsW_def emit_def split: if_splits Option.bind_splits)

lemma flush_loop_keepsW: "flush_loop e c recs = Some (c', recs') \<Longrightarrow> keepsW c c'"
proof (induction e c recs rule: flush_loop.induct)
  case (1 e c recs)
  show ?case
  proof (cases "c_queue c")
    case Nil
    then show ?thesis using "1.prems" by (simp add: flush_loop.simps [of e c] keepsW_def)
  next
    case (Cons rid q)
    let ?d = "c\<lparr>c_queue := q, c_queued := mdel rid (c_queued c)\<rparr>"
    have d: "keepsW c ?d" by (simp add: keepsW_def)
    show ?thesis
    proof (cases "int (length recs) < PageSize \<and> c_high c - c_executed c < AdmissionWindow")
      case False
      then show ?thesis using "1.prems" Cons by (simp add: flush_loop.simps [of e c] keepsW_def split: if_splits)
    next
      case room: True
      note res = "1.prems" [unfolded flush_loop.simps [of e c recs] Let_def]
      consider (assigned) "mget (c_assigned c) rid \<noteq> None" | (valued) "mget (c_assigned c) rid = None" "mget (c_values c) rid \<noteq> None"
        | (absent) "mget (c_assigned c) rid = None" "mget (c_values c) rid = None" "mget (c_pending c) rid = None"
        | (append) r where "mget (c_assigned c) rid = None" "mget (c_values c) rid = None" "mget (c_pending c) rid = Some r" by fastforce
      then show ?thesis
      proof cases
        case assigned
        then show ?thesis using res keepsW_trans [OF d "1.IH"(1) [OF Cons _ refl]] Cons room by simp
      next
        case valued
        then show ?thesis using res keepsW_trans [OF d "1.IH"(2) [OF Cons _ refl]] Cons room by simp
      next
        case absent
        then show ?thesis using res keepsW_trans [OF d "1.IH"(3) [OF Cons _ refl]] Cons room by simp
      next
        case (append r)
        let ?rec = "\<lparr>r_Slot = c_high c + 1, r_Ballot = c_ballot c, r_Request = r, r_Committed = False\<rparr>"
        let ?f = "?d\<lparr>c_high := c_high c + 1, c_log := mput (c_high c + 1) ?rec (c_log c),
             c_pendingIndex := add r (c_pendingIndex c), c_assigned := mput rid (c_high c + 1) (c_assigned c)\<rparr>"
        obtain fast g where g: "(if mget (c_witness c) rid = None then Some False else map_option Not (conflicts (order e Loop_scans) r (c_pendingIndex c))) = Some fast"
          "(if fast then fast_reply e r ?f else Some ?f) = Some g" "flush_loop e g (recs @ [?rec]) = Some (c', recs')"
        proof -
          have "(case (if mget (c_witness c) rid = None then Some False else map_option Not (conflicts (order e Loop_scans) r (c_pendingIndex c))) of None \<Rightarrow> None
             | Some fast \<Rightarrow> (case (if fast then fast_reply e r ?f else Some ?f) of None \<Rightarrow> None | Some c' \<Rightarrow> flush_loop e c' (recs @ [?rec]))) = Some (c', recs')"
            using res Cons room append
            by (cases "mget (c_witness c) rid"; cases "conflicts (order e Loop_scans) r (c_pendingIndex c)") (simp_all cong: if_cong option.case_cong)
          then show thesis using that by (auto split: option.splits)
        qed
        have f: "keepsW c ?f" by (simp add: keepsW_def)
        have "keepsW ?f ?f" by (simp add: keepsW_def)
        then have "keepsW ?f g" using g(2) by (cases fast) (auto intro: fast_reply_keepsW)
        then have "keepsW c g" using f keepsW_trans by blast
        moreover have "keepsW g c'" using "1.IH"(4) [OF Cons _ refl _ _ _ _ refl refl refl] g Cons room append by (simp cong: if_cong)
        ultimately show ?thesis using keepsW_trans by blast
      qed
    qed
  qed
qed

lemma flush_WInv:
  assumes "flush e c = Some c'" "WInv F c"
  shows "WInv F c'"
proof (cases "c_high c - c_executed c \<ge> AdmissionWindow")
  case True
  then show ?thesis using assms by (simp add: flush_def)
next
  case False
  obtain d recs where d: "flush_loop e c [] = Some (d, recs)" using assms(1) False by (auto simp: flush_def split: Option.bind_splits)
  have "WInv F d" using assms(2) keepsW_WInv [OF flush_loop_keepsW [OF d]] by blast
  then show ?thesis using assms(1) False d by (auto simp: flush_def Let_def split: if_splits intro: accept_WInv)
qed

lemma resume_loop_WInv: "resume_loop e k c = Some c' \<Longrightarrow> WInv F c \<Longrightarrow> WInv F c'"
proof (induction k arbitrary: c)
  case (Suc k)
  show ?case
  proof (cases "c_resume c")
    case Nil
    then show ?thesis using Suc.prems by simp
  next
    case (Cons r rs)
    let ?d = "c\<lparr>c_resume := rs\<rparr>"
    have d: "WInv F ?d" "req_ok F r" using Suc.prems(2) Cons by (auto simp: WInv_def)
    obtain f where f: "(if mget (c_pending c) (req_ID r) \<noteq> None then submit e r ?d else Some ?d) = Some f" "resume_loop e k f = Some c'"
      using Suc.prems(1) Cons by (auto simp: Let_def split: option.splits if_splits)
    have "WInv F f" using f(1) d submit_WInv [OF _ d] by (auto split: if_splits)
    then show ?thesis using Suc.IH [OF f(2)] by simp
  qed
qed simp

lemma tick_leader_WInv:
  assumes "tick_leader e now c = Some c'" "WInv F c"
  shows "WInv F c'"
proof -
  define d where "d = (if \<not> c_active c \<and> c_executed c \<ge> c_recoveryEnd c then activate e c else c)"
  have d: "WInv F d" using assms(2) by (simp add: d_def activate_WInv)
  obtain f where f: "(if c_active d then flush e d else Some d) = Some f" using assms(1) by (auto simp: tick_leader_def d_def [symmetric] Let_def split: Option.bind_splits)
  have i: "WInv F f" using f d flush_WInv [OF _ d] by (auto split: if_splits)
  then have "WInv F (f\<lparr>c_lastSend := now\<rparr>)" by (simp add: WInv_def)
  then show ?thesis using assms(1) f i
    by (auto simp: tick_leader_def d_def [symmetric] Let_def split: if_splits intro: sendSuffix_WInv)
qed

lemma curp_tick_WInv:
  assumes "tick e now alive c = Some c'" "WInv F c"
  shows "WInv F c'"
proof -
  obtain la d f where d: "(if \<not> la \<and> first_alive alive = c_id c \<and> \<not> c_preparing c then Begin e now c else Some c) = Some d"
    and f: "(if c_active d then resume_loop e (nat PageSize) d else Some d) = Some f"
    and res: "(if c_preparing f then (if time_sub now (c_lastSend f) \<ge> Second then let c = f\<lparr>c_lastSend := now\<rparr>; p = (Packet packetPrepare (c_id c) (c_ballot c))\<lparr>p_Floor := c_executed c + 1\<rparr>
          in receive e p (emit (Broadcast p) c) else Some f)
       else if c_leader f = c_id f then tick_leader e now f else Some f) = Some c'"
    using assms(1) unfolding tick_def by (auto split: Option.bind_splits)
  have "WInv F d" using d assms(2) Begin_WInv [OF _ assms(2)] by (auto split: if_splits)
  then have i: "WInv F f" using f resume_loop_WInv [of e "nat PageSize" d] by (auto split: if_splits)
  then have "WInv F (f\<lparr>c_lastSend := now\<rparr>)" by (simp add: WInv_def)
  then show ?thesis using res i by (auto simp: Let_def split: if_splits intro: tick_leader_WInv curp_receive_WInv)
qed

subsection \<open>Runs of a replica\<close>

text \<open>A replica starts fresh and handles client requests, packets and timer events in any order, in any environment.\<close>

inductive replica_run :: "(request_id \<Rightarrow> command) \<Rightarrow> 'st core \<Rightarrow> bool" for F where
  run_new: "newCore n i leader app = Some c \<Longrightarrow> replica_run F c"
| run_submit: "replica_run F c \<Longrightarrow> req_ok F r \<Longrightarrow> submit e r c = Some c' \<Longrightarrow> replica_run F c'"
| run_receive: "replica_run F c \<Longrightarrow> pkt_ok F p \<Longrightarrow> receive e p c = Some c' \<Longrightarrow> replica_run F c'"
| run_tick: "replica_run F c \<Longrightarrow> tick e now alive c = Some c' \<Longrightarrow> replica_run F c'"

lemma newCore_WInv: "newCore n i leader app = Some c \<Longrightarrow> WInv F c"
  by (auto simp: newCore_def WInv_def table_ok_def independent_def represents_empty split: if_splits)

lemma curp_run_WInv: "replica_run F c \<Longrightarrow> WInv F c"
  by (induction rule: replica_run.induct) (auto intro: newCore_WInv submit_WInv curp_receive_WInv curp_tick_WInv)

subsection \<open>Counting the witnesses of the promised pages\<close>

lemma witness_votes_ids:
  assumes "witness_votes rs (w, v) = (w', v')" "\<forall>i \<in> fst ` set rs. in_range i"
  shows "ids (mgetd 0 v' rid) = ids (mgetd 0 v rid) \<union> {i. \<exists>r. (i, r) \<in> set rs \<and> req_ID r = rid}"
  using assms
proof (induction rs "(w, v)" arbitrary: w v rule: witness_votes.induct)
  case (2 i r rs w v)
  then show ?case by (auto simp: ids_With)
qed auto

lemma witness_votes_map:
  assumes "witness_votes rs (w, v) = (w', v')"
  shows "map_of w' rid = Some r \<Longrightarrow> map_of w rid = Some r \<or> req_ID r = rid \<and> (\<exists>i. (i, r) \<in> set rs)"
    and "map_of w rid \<noteq> None \<or> rid \<in> req_ID ` snd ` set rs \<Longrightarrow> map_of w' rid \<noteq> None"
proof -
  have "(map_of w' rid = Some r \<longrightarrow> map_of w rid = Some r \<or> req_ID r = rid \<and> (\<exists>i. (i, r) \<in> set rs)) \<and>
      (map_of w rid \<noteq> None \<or> rid \<in> req_ID ` snd ` set rs \<longrightarrow> map_of w' rid \<noteq> None)" for r
    using assms
  proof (induction rs "(w, v)" arbitrary: w v rule: witness_votes.induct)
    case (2 i q rs w v)
    then show ?case by (auto split: if_splits)
  qed auto
  then show "map_of w' rid = Some r \<Longrightarrow> map_of w rid = Some r \<or> req_ID r = rid \<and> (\<exists>i. (i, r) \<in> set rs)"
    and "map_of w rid \<noteq> None \<or> rid \<in> req_ID ` snd ` set rs \<Longrightarrow> map_of w' rid \<noteq> None" by blast+
qed

definition witnessed_by :: "'st core \<Rightarrow> int \<Rightarrow> request \<Rightarrow> bool" where
  "witnessed_by c i r \<longleftrightarrow> i \<in> dom (map_of (c_promises c)) \<and>
     (\<exists>page pg. mget (mgetd [] (c_pages c) i) page = Some pg \<and> r \<in> set (p_Requests pg))"

lemma set_witnessed: "(i, r) \<in> set (witnessed e c) \<longleftrightarrow> witnessed_by c i r"
  by (force simp: witnessed_def witnessed_by_def)

subsection \<open>What recovery assigns\<close>

definition asg_ok :: "int \<Rightarrow> 'st core \<Rightarrow> bool" where
  "asg_ok b c \<longleftrightarrow> (\<forall>rid s. mget (c_assigned c) rid = Some s \<longrightarrow> s < b \<and> (\<exists>r. mget (c_log c) s = Some r \<and> req_ID (r_Request r) = rid))"

lemma executed_assignments_ok:
  assumes "mget (executed_assignments e c) rid = Some s"
  shows "s \<le> c_executed c \<and> (\<exists>r. mget (c_log c) s = Some r \<and> req_ID (r_Request r) = rid)"
proof -
  have "mget (fold (\<lambda>(slot, r) m. if slot \<le> c_executed c then mput (req_ID (r_Request r)) slot m else m) xs m) rid = Some s \<Longrightarrow>
      mget m rid = Some s \<or> s \<le> c_executed c \<and> (\<exists>r. (s, r) \<in> set xs \<and> req_ID (r_Request r) = rid)" for xs m
    by (induction xs arbitrary: m) (fastforce split: if_splits)+
  from this [of "mrange (order e Loop_log) (c_log c)" "[]"] show ?thesis using assms by (auto simp: executed_assignments_def)
qed

lemma refill_slot_asg: "asg_ok s c \<Longrightarrow> asg_ok (s + 1) (refill_slot sel s c)"
  by (fastforce simp: asg_ok_def refill_slot_def Let_def split: option.splits)

lemma refill_asg: "asg_ok a c \<Longrightarrow> a \<le> h + 1 \<Longrightarrow> asg_ok (h + 1) (fold (refill_slot sel) [a..h] c)"
proof (induction "nat (h + 1 - a)" arbitrary: a c)
  case (Suc k)
  have "[a..h] = a # [a + 1..h]" using Suc.hyps(2) by (intro upto_rec1) linarith
  then show ?case using Suc.hyps(1) [of "a + 1"] Suc.hyps(2) refill_slot_asg [OF Suc.prems(1)] by simp
qed simp

lemma fold_high: "c_high (fold (refill_slot sel) xs c) = c_high c" "c_executed (fold (refill_slot sel) xs c) = c_executed c"
    "c_values (fold (refill_slot sel) xs c) = c_values c" "c_ballot (fold (refill_slot sel) xs c) = c_ballot c" "c_n (fold (refill_slot sel) xs c) = c_n c"
  by (induction xs arbitrary: c) (simp_all add: refill_slot_def Let_def)

lemma append_asg: "asg_ok (c_high c + 1) c \<Longrightarrow> (\<And>r. mget w rid = Some r \<Longrightarrow> req_ID r = rid) \<Longrightarrow> mget w rid \<noteq> None \<Longrightarrow>
    asg_ok (c_high (append_witnessed w rid c) + 1) (append_witnessed w rid c)"
  by (fastforce simp: asg_ok_def append_witnessed_def Let_def)

lemma append_assigned: "mget (c_assigned (append_witnessed w rid c)) rid \<noteq> None \<or> mget (c_values (append_witnessed w rid c)) rid \<noteq> None"
  by (auto simp: append_witnessed_def Let_def)

lemma append_mono: "mget (c_assigned c) i \<noteq> None \<or> mget (c_values c) i \<noteq> None \<Longrightarrow>
    mget (c_assigned (append_witnessed w rid c)) i \<noteq> None \<or> mget (c_values (append_witnessed w rid c)) i \<noteq> None"
  by (auto simp: append_witnessed_def Let_def)

lemma fold_append:
  assumes "asg_ok (c_high c + 1) c" "\<And>rid r. mget w rid = Some r \<Longrightarrow> req_ID r = rid" "set rids \<subseteq> dom (map_of w)"
  shows "asg_ok (c_high (fold (append_witnessed w) rids c) + 1) (fold (append_witnessed w) rids c) \<and>
    (\<forall>i. i \<in> set rids \<or> mget (c_assigned c) i \<noteq> None \<or> mget (c_values c) i \<noteq> None \<longrightarrow>
       mget (c_assigned (fold (append_witnessed w) rids c)) i \<noteq> None \<or> mget (c_values (fold (append_witnessed w) rids c)) i \<noteq> None)"
  using assms
proof (induction rids arbitrary: c)
  case (Cons rid rids)
  let ?d = "append_witnessed w rid c"
  have sub: "set rids \<subseteq> dom (map_of w)" using Cons.prems(3) by simp
  have "asg_ok (c_high ?d + 1) ?d" using append_asg [OF Cons.prems(1), of w rid] Cons.prems(2,3) by auto
  note IH = Cons.IH [OF this Cons.prems(2) sub]
  show ?case
  proof (intro conjI allI impI)
    show "asg_ok (c_high (fold (append_witnessed w) (rid # rids) c) + 1) (fold (append_witnessed w) (rid # rids) c)" using IH by simp
    fix i
    assume "i \<in> set (rid # rids) \<or> mget (c_assigned c) i \<noteq> None \<or> mget (c_values c) i \<noteq> None"
    then have "i \<in> set rids \<or> mget (c_assigned ?d) i \<noteq> None \<or> mget (c_values ?d) i \<noteq> None"
      using append_assigned [of w rid c] append_mono [of c i w rid] by auto
    then show "mget (c_assigned (fold (append_witnessed w) (rid # rids) c)) i \<noteq> None \<or> mget (c_values (fold (append_witnessed w) (rid # rids) c)) i \<noteq> None"
      using IH unfolding fold_simps by blast
  qed
qed auto

lemma curp_select_pages_high: "h \<le> snd (select_pages ps (sel, h))"
  by (induction ps "(sel, h)" arbitrary: sel h rule: select_pages.induct) (auto split: if_splits)

text \<open>The slots above the selected ones hold witnessed requests, each under its own identifier.\<close>

definition app_ok :: "int \<Rightarrow> (request_id, request) gomap \<Rightarrow> request_id set \<Rightarrow> 'st core \<Rightarrow> bool" where
  "app_ok H w R c \<longleftrightarrow> (\<forall>s. H < s \<and> s \<le> c_high c \<longrightarrow>
     (\<exists>rid \<in> R. mget (c_assigned c) rid = Some s \<and> (\<exists>r. mget (c_log c) s = Some r \<and> r_Request r = the (mget w rid))))"

lemma append_app: "app_ok H w R c \<Longrightarrow> rid \<in> R \<Longrightarrow> app_ok H w R (append_witnessed w rid c)"
proof (cases "mget (c_assigned c) rid = None \<and> mget (c_values c) rid = None")
  case True
  assume a: "app_ok H w R c" "rid \<in> R"
  let ?d = "append_witnessed w rid c"
  have d: "c_high ?d = c_high c + 1" "map_of (c_assigned ?d) = (map_of (c_assigned c))(rid \<mapsto> c_high c + 1)"
    "map_of (c_log ?d) = (map_of (c_log c))(c_high c + 1 \<mapsto> \<lparr>r_Slot = c_high c + 1, r_Ballot = c_ballot c, r_Request = the (mget w rid), r_Committed = False\<rparr>)"
    using True by (simp_all add: append_witnessed_def Let_def)
  have "\<exists>j \<in> R. mget (c_assigned ?d) j = Some s \<and> (\<exists>r. mget (c_log ?d) s = Some r \<and> r_Request r = the (mget w j))" if s: "H < s" "s \<le> c_high ?d" for s
  proof (cases "s \<le> c_high c")
    case le: True
    then obtain j r where j: "j \<in> R" "mget (c_assigned c) j = Some s" "mget (c_log c) s = Some r" "r_Request r = the (mget w j)"
      using a(1) s(1) by (auto simp: app_ok_def)
    then have "j \<noteq> rid" using True by auto
    then show ?thesis using j le by (intro bexI [of _ j]) (auto simp: d)
  next
    case False
    then have "s = c_high c + 1" using s(2) d(1) by simp
    then show ?thesis using a(2) by (intro bexI [of _ rid]) (auto simp: d)
  qed
  then show ?thesis by (simp add: app_ok_def)
qed (auto simp: append_witnessed_def)

lemma fold_app: "app_ok H w R c \<Longrightarrow> set rids \<subseteq> R \<Longrightarrow> app_ok H w R (fold (append_witnessed w) rids c)"
  by (induction rids arbitrary: c) (auto intro: append_app)

definition superquorum :: "int \<Rightarrow> int" where
  "superquorum n = go_div n 2 + go_div (go_div n 2 + 1) 2 + 1"

definition recovery_threshold :: "int \<Rightarrow> int" where
  "recovery_threshold n = go_div (go_div n 2 + 1) 2 + 1"

definition recovered :: "int \<Rightarrow> (request_id, request) gomap \<Rightarrow> (request_id, rset) gomap \<Rightarrow> request_id set" where
  "recovered n w votes = {rid \<in> dom (map_of w). recovery_threshold n \<le> Size (mgetd 0 votes rid)}"

lemma recover_parts:
  obtains w votes where "witness_votes (witnessed e c) ([], []) = (w, votes)"
    "\<And>rid r. mget w rid = Some r \<Longrightarrow> req_ID r = rid \<and> (\<exists>i. witnessed_by c i r)" "\<And>i r. witnessed_by c i r \<Longrightarrow> mget w (req_ID r) \<noteq> None"
    "asg_ok (c_high (recover e c) + 1) (recover e c)"
    "app_ok (snd (select_pages (promised_pages e c) ([], c_executed c))) w (recovered (c_n c) w votes) (recover e c)"
    "\<And>rid. rid \<in> recovered (c_n c) w votes \<Longrightarrow> mget (c_assigned (recover e c)) rid \<noteq> None \<or> mget (c_values (recover e c)) rid \<noteq> None"
proof -
  obtain w votes where wv: "witness_votes (witnessed e c) ([], []) = (w, votes)" by (cases "witness_votes (witnessed e c) ([], [])")
  obtain sel high where sel: "select_pages (promised_pages e c) ([], c_executed c) = (sel, high)" by (cases "select_pages (promised_pages e c) ([], c_executed c)")
  have high: "c_executed c \<le> high" using curp_select_pages_high [of "c_executed c" "promised_pages e c" "[]"] sel by simp
  define a where "a = c\<lparr>c_preparing := False, c_high := high, c_assigned := executed_assignments e c, c_pendingIndex := newConflictIndex\<rparr>"
  define d where "d = fold (refill_slot sel) [c_executed c + 1..high] a"
  define rids where "rids = filter (\<lambda>rid. \<not> Size (mgetd 0 votes rid) < recovery_threshold (c_n c)) (sort (mkeys w))"
  have rec: "recover e c = (fold (append_witnessed w) rids d)\<lparr>c_recoveryEnd := c_high (fold (append_witnessed w) rids d), c_votes := []\<rparr>"
    unfolding recover_def sel wv Let_def prod.case using fold_high [of sel "[c_executed c + 1..high]" a]
    by (simp add: a_def [symmetric] d_def [symmetric] rids_def recovery_threshold_def) (simp add: d_def a_def)
  have rids: "set rids = recovered (c_n c) w votes" by (auto simp: rids_def recovered_def)
  have w: "req_ID r = rid \<and> (\<exists>i. witnessed_by c i r)" if "mget w rid = Some r" for rid r
    using witness_votes_map(1) [OF wv that] by (auto simp: set_witnessed)
  have "asg_ok (c_executed c + 1) a" using executed_assignments_ok [of e c] by (force simp: asg_ok_def a_def)
  from refill_asg [OF this, of high sel] have d: "asg_ok (c_high d + 1) d" "c_high d = high"
    using high fold_high(1) [of sel "[c_executed c + 1..high]" a] by (simp_all add: d_def a_def)
  have sub: "set rids \<subseteq> dom (map_of w)" using rids by (auto simp: recovered_def)
  have idw: "\<And>rid r. mget w rid = Some r \<Longrightarrow> req_ID r = rid" using w by blast
  note f = fold_append [of d w rids, OF d(1) idw sub]
  have "app_ok high w (set rids) d" using d(2) by (auto simp: app_ok_def)
  from fold_app [OF this order.refl] have app: "app_ok high w (set rids) (recover e c)" by (simp add: rec app_ok_def)
  show thesis
  proof (rule that [OF wv])
    show "mget w (req_ID r) \<noteq> None" if "witnessed_by c i r" for i r
    proof (rule witness_votes_map(2) [OF wv])
      have "(i, r) \<in> set (witnessed e c)" using that by (simp add: set_witnessed)
      then show "mget [] (req_ID r) \<noteq> None \<or> req_ID r \<in> req_ID ` snd ` set (witnessed e c)" by force
    qed
    show "asg_ok (c_high (recover e c) + 1) (recover e c)" using f by (simp add: rec asg_ok_def)
    show "app_ok (snd (select_pages (promised_pages e c) ([], c_executed c))) w (recovered (c_n c) w votes) (recover e c)"
      using app rids sel by simp
    show "mget (c_assigned (recover e c)) rid \<noteq> None \<or> mget (c_values (recover e c)) rid \<noteq> None" if "rid \<in> recovered (c_n c) w votes" for rid
      using f that by (simp add: rec rids)
  qed (use w in auto)
qed

lemma votes_witnessed:
  assumes "witness_votes (witnessed e c) ([], []) = (w, votes)" "dom (map_of (c_promises c)) \<subseteq> {0..<c_n c}" "c_n c \<le> 63"
  shows "ids (mgetd 0 votes rid) = {i. \<exists>r. witnessed_by c i r \<and> req_ID r = rid}"
proof -
  have "\<forall>i \<in> fst ` set (witnessed e c). in_range i"
    using assms(2,3) by (fastforce simp: set_witnessed witnessed_by_def in_range_def)
  from witness_votes_ids [OF assms(1) this] show ?thesis by (simp add: set_witnessed)
qed

subsection \<open>The properties\<close>

lemma witnessed_commute:
  assumes "replica_run F c" "mget (c_witness c) i = Some r" "mget (c_witness c) j = Some s" "i \<noteq> j"
  shows "req_Op r = NONE \<or> req_Op s = NONE \<or> Conflict (req_Command r) (req_Command s) = Some False"
proof -
  have "WInv F c" using curp_run_WInv assms(1) by blast
  then have "\<not> clashes r s" "req_ok F r" "req_ok F s"
    using assms(2-4) unfolding WInv_def independent_def table_ok_def by blast+
  then show ?thesis by (intro not_clashes) (simp_all add: req_ok_def)
qed

text \<open>C31 A replica never witnesses two requests that conflict: in every run, any two requests of the witness table
  commute by the pairwise test, or one of them has operation \<open>NONE\<close> and no effect (\<open>none_no_effect\<close>). The requests
  of a run are ones the default command policy accepts, with one command \<open>F\<close> per request identifier.\<close>

theorem curp_witness_independent:
  assumes "replica_run F c" "mget (c_witness c) i = Some r" "mget (c_witness c) j = Some s" "i \<noteq> j"
  shows "req_Op r = NONE \<or> req_Op s = NONE \<or> Conflict (req_Command r) (req_Command s) = Some False"
  using assms by (rule witnessed_commute)

text \<open>C29 A request that a client completed on the fast path is not lost by an election: when a superquorum has
  witnessed it and the members of the superquorum that answer the new leader report it, the new leader has
  executed it or puts it into the log, whatever majority answers.\<close>

theorem curp_fast_request_recovered:
  assumes n: "3 \<le> c_n c" "odd (c_n c)" "c_n c \<le> 63"
    and promises: "dom (map_of (c_promises c)) \<subseteq> {0..<c_n c}" "go_div (c_n c) 2 + 1 \<le> int (mlen (c_promises c))"
    and super: "S \<subseteq> {0..<c_n c}" "superquorum (c_n c) \<le> int (card S)"
    and told: "\<And>i. i \<in> S \<Longrightarrow> mget (c_promises c) i \<noteq> None \<Longrightarrow> witnessed_by c i r"
  shows "mget (c_values (recover e c)) (req_ID r) \<noteq> None \<or>
    (\<exists>s rec. mget (c_assigned (recover e c)) (req_ID r) = Some s \<and> mget (c_log (recover e c)) s = Some rec \<and> req_ID (r_Request rec) = req_ID r)"
proof -
  let ?P = "dom (map_of (c_promises c))" and ?n = "c_n c"
  obtain w votes where wv: "witness_votes (witnessed e c) ([], []) = (w, votes)" and
    wd: "\<And>i r. witnessed_by c i r \<Longrightarrow> mget w (req_ID r) \<noteq> None" and asg: "asg_ok (c_high (recover e c) + 1) (recover e c)" and
    got: "\<And>rid. rid \<in> recovered ?n w votes \<Longrightarrow> mget (c_assigned (recover e c)) rid \<noteq> None \<or> mget (c_values (recover e c)) rid \<noteq> None"
    by (rule recover_parts [of e c]) blast
  have fin: "finite ?P" "finite S" using finite_subset [OF super(1)] by (simp_all add: finite_dom_map_of)
  have "card (S \<union> ?P) \<le> card {0..<?n}" using promises(1) super(1) by (intro card_mono) auto
  then have "int (card S) + int (card ?P) - ?n \<le> int (card (S \<inter> ?P))"
    using card_Un_Int [OF fin(2,1)] n(1) by simp
  then have common: "recovery_threshold ?n \<le> int (card (S \<inter> ?P))"
    using promises(2) super(2) n by (auto simp: superquorum_def recovery_threshold_def mlen_card elim!: oddE)
  have "S \<inter> ?P \<subseteq> ids (mgetd 0 votes (req_ID r))" using told votes_witnessed [OF wv promises(1) n(3)] by blast
  from card_mono [OF finite_ids this] have many: "recovery_threshold ?n \<le> Size (mgetd 0 votes (req_ID r))"
    using common by (simp add: Size_card)
  have "0 < recovery_threshold ?n" using n by (auto simp: recovery_threshold_def)
  then obtain i where "i \<in> S" "mget (c_promises c) i \<noteq> None" using common by (cases "S \<inter> ?P = {}") auto
  then have "mget w (req_ID r) \<noteq> None" using told wd by blast
  then have "req_ID r \<in> recovered ?n w votes" using many by (auto simp: recovered_def)
  from got [OF this] show ?thesis using asg by (fastforce simp: asg_ok_def)
qed

lemma witnessed_req_ok: "replica_run F d \<Longrightarrow> mget (c_witness d) i = Some r \<Longrightarrow> req_ok F r"
  using curp_run_WInv unfolding WInv_def table_ok_def by blast

text \<open>C30 The requests that the new leader orders only because enough replicas witnessed them commute with each
  other, so that the order it gives them does not matter: the pairwise test calls any two of them independent, or one has
  operation \<open>NONE\<close> and no effect. Exactly a majority answers, and the hypothesis on an answer is that it was
  taken from a run of the answering replica: some state \<open>d\<close> of a run of replica \<open>i\<close>, with requests accepted by the policy and one command \<open>F\<close> per
  identifier, has every request of the pages of \<open>i\<close> in its witness table.\<close>

theorem curp_recovered_commute:
  fixes c :: "'st core"
  assumes n: "3 \<le> c_n c" "odd (c_n c)" "c_n c \<le> 63"
    and promises: "dom (map_of (c_promises c)) \<subseteq> {0..<c_n c}" "int (mlen (c_promises c)) = go_div (c_n c) 2 + 1"
    and told: "\<And>i. mget (c_promises c) i \<noteq> None \<Longrightarrow>
      \<exists>d :: 'st core. replica_run F d \<and> (\<forall>r. witnessed_by c i r \<longrightarrow> mget (c_witness d) (req_ID r) = Some r)"
    and high: "high = snd (select_pages (promised_pages e c) ([], c_executed c))"
    and slots: "high < s" "s \<le> c_high (recover e c)" "high < t" "t \<le> c_high (recover e c)" "s \<noteq> t"
    and logged: "mget (c_log (recover e c)) s = Some rs" "mget (c_log (recover e c)) t = Some rt"
  shows "req_Op (r_Request rs) = NONE \<or> req_Op (r_Request rt) = NONE \<or>
    Conflict (req_Command (r_Request rs)) (req_Command (r_Request rt)) = Some False"
proof -
  have run: "\<exists>d :: 'st core. replica_run F d \<and> (\<forall>r. witnessed_by c i r \<longrightarrow> mget (c_witness d) (req_ID r) = Some r)"
    if "witnessed_by c i q" for i q
    by (rule told) (use that in \<open>auto simp: witnessed_by_def\<close>)
  have same: "r = q" if "witnessed_by c i r" "witnessed_by c j q" "req_ID r = req_ID q" for i j r q
    using witnessed_req_ok run that req_ok_eq by metis
  let ?P = "dom (map_of (c_promises c))" and ?n = "c_n c"
  obtain w votes where wv: "witness_votes (witnessed e c) ([], []) = (w, votes)" and
    w: "\<And>rid r. mget w rid = Some r \<Longrightarrow> req_ID r = rid \<and> (\<exists>i. witnessed_by c i r)" and
    app: "app_ok high w (recovered ?n w votes) (recover e c)"
    by (rule recover_parts [of e c]) (use high in blast)
  obtain a b where a: "a \<in> recovered ?n w votes" "mget (c_assigned (recover e c)) a = Some s" "r_Request rs = the (mget w a)"
    and b: "b \<in> recovered ?n w votes" "mget (c_assigned (recover e c)) b = Some t" "r_Request rt = the (mget w b)"
    using app slots logged unfolding app_ok_def by (metis option.inject)
  have ab: "a \<noteq> b" using a b slots by auto
  let ?A = "ids (mgetd 0 votes a)" and ?B = "ids (mgetd 0 votes b)"
  have sub: "?A \<subseteq> ?P" "?B \<subseteq> ?P" unfolding votes_witnessed [OF wv promises(1) n(3)] by (auto simp: witnessed_by_def)
  have "card ?P < card ?A + card ?B"
    using a(1) b(1) promises(2) n by (auto simp: recovered_def recovery_threshold_def Size_card mlen_card elim!: oddE)
  from card_overlap [OF finite_dom_map_of sub this] obtain i ra rb where i: "witnessed_by c i ra" "req_ID ra = a" "witnessed_by c i rb" "req_ID rb = b"
    unfolding votes_witnessed [OF wv promises(1) n(3)] by blast
  have "the (mget w (req_ID q)) = q" if "req_ID q \<in> recovered ?n w votes" "witnessed_by c i q" for q
  proof -
    have "req_ID q \<in> dom (map_of w)" using that(1) by (simp add: recovered_def)
    then obtain q' where q': "mget w (req_ID q) = Some q'" by blast
    then show ?thesis using w [OF q'] same that(2) by auto
  qed
  then have eq: "r_Request rs = ra" "r_Request rt = rb" using i a b by auto
  obtain d :: "'st core" where d: "replica_run F d" "\<forall>r. witnessed_by c i r \<longrightarrow> mget (c_witness d) (req_ID r) = Some r"
    using run [OF i(1)] by blast
  then have "replica_run F d" "mget (c_witness d) a = Some ra" "mget (c_witness d) b = Some rb" using i by auto
  then show ?thesis unfolding eq using ab by (rule witnessed_commute)
qed

text \<open>The pages of a snapshot, put together in order, are the log suffix and the witness table.\<close>

lemma concat_pages: "length xs \<le> k * 128 \<Longrightarrow> concat (map (\<lambda>p. take 128 (drop (p * 128) xs)) [0..<k]) = xs"
proof (induction k arbitrary: xs)
  case (Suc k)
  have "[0..<Suc k] = 0 # map Suc [0..<k]" by (simp add: upt_conv_Cons map_Suc_upt del: upt_Suc)
  then have "concat (map (\<lambda>p. take 128 (drop (p * 128) xs)) [0..<Suc k]) =
      take 128 xs @ concat (map (\<lambda>p. take 128 (drop (p * 128) (drop 128 xs))) [0..<k])"
    by (simp add: comp_def add.commute del: upt_Suc)
  also have "\<dots> = xs" using Suc.IH [of "drop 128 xs"] Suc.prems by simp
  finally show ?case .
qed simp

lemma page_count_enough: "k \<le> page_count k w * 128" "w \<le> page_count k w * 128"
  by (auto simp: page_count_def Let_def max_def)

text \<open>C34 The promise pages are a faithful copy of the state: joined in order they give every record from the
  requested floor up to the highest slot, and every witnessed request; each page has at most 128 of either.\<close>

theorem curp_snapshot_complete:
  "concat (map p_Records (snapshot c flr)) = List.map_filter (mget (c_log c)) [flr..c_high c] \<and>
   set (concat (map p_Requests (snapshot c flr))) = ran (map_of (c_witness c)) \<and>
   list_all (\<lambda>p. length (p_Records p) \<le> 128 \<and> length (p_Requests p) \<le> 128 \<and> p_Pages p = int (length (snapshot c flr))) (snapshot c flr)"
proof (intro conjI)
  let ?vs = "snapshot_values flr c" and ?ws = "snapshot_witness c"
  let ?k = "page_count (length ?vs) (length ?ws)"
  have snap: "snapshot c flr = map (snapshot_page c flr ?vs ?ws) [0..<?k]" by (simp add: snapshot_def Let_def)
  have "concat (map p_Records (snapshot c flr)) = ?vs"
    using concat_pages [OF page_count_enough(1) [of "length ?vs" "length ?ws"]] by (simp add: snap comp_def snapshot_page_def)
  then show "concat (map p_Records (snapshot c flr)) = List.map_filter (mget (c_log c)) [flr..c_high c]" by (simp add: snapshot_values_def)
  have "concat (map p_Requests (snapshot c flr)) = ?ws"
    using concat_pages [OF page_count_enough(2) [of "length ?ws" "length ?vs"]] by (simp add: snap comp_def snapshot_page_def)
  moreover have "set ?ws = ran (map_of (c_witness c))" by (force simp: snapshot_witness_def ran_def)
  ultimately show "set (concat (map p_Requests (snapshot c flr))) = ran (map_of (c_witness c))" by simp
  show "list_all (\<lambda>p. length (p_Records p) \<le> 128 \<and> length (p_Requests p) \<le> 128 \<and> p_Pages p = int (length (snapshot c flr))) (snapshot c flr)"
    by (auto simp: list_all_iff snap snapshot_page_def)
qed

subsection \<open>Concrete instances\<close>

definition demo_F :: "request_id \<Rightarrow> command" where
  "demo_F rid = \<lparr>Op = PUT, K = word_of_int (Sequence rid), V = []\<rparr>"

definition demo_req :: "int \<Rightarrow> request" where
  "demo_req k = \<lparr>req_ID = RequestID 1 k, req_Command = demo_F (RequestID 1 k)\<rparr>"

definition demo_env :: "nat env" where
  "demo_env = \<lparr>execute = (\<lambda>cmd st. Some ([], st + 1)), clock = 0, order = (\<lambda>_. [])\<rparr>"

definition demo_follower :: "nat core" where
  "demo_follower = the (do { c \<leftarrow> newCore 3 1 0 (0 :: nat); c \<leftarrow> submit demo_env (demo_req 4) c; submit demo_env (demo_req 5) c })"

lemma demo_follower_run: "replica_run demo_F demo_follower"
proof -
  define a where "a = the (newCore 3 1 0 (0 :: nat))"
  define b where "b = the (submit demo_env (demo_req 4) a)"
  have a: "newCore 3 1 0 (0 :: nat) = Some a" unfolding a_def by code_simp
  have b: "submit demo_env (demo_req 4) a = Some b" unfolding b_def a_def by code_simp
  have "submit demo_env (demo_req 5) b \<noteq> None" unfolding b_def a_def by code_simp
  then have c: "submit demo_env (demo_req 5) b = Some demo_follower" by (auto simp: demo_follower_def a b)
  have "req_ok demo_F (demo_req 4)" "req_ok demo_F (demo_req 5)" by (auto simp: req_ok_def demo_req_def valid_request_def demo_F_def)
  then show ?thesis using run_submit [OF run_submit [OF run_new [OF a] _ b] _ c] by blast
qed

lemma demo_follower_table:
  "mget (c_witness demo_follower) (RequestID 1 4) = Some (demo_req 4)" "mget (c_witness demo_follower) (RequestID 1 5) = Some (demo_req 5)"
  by code_simp+

theorem curp_witness_independent_witness:
  "req_Op (demo_req 4) = NONE \<or> req_Op (demo_req 5) = NONE \<or> Conflict (req_Command (demo_req 4)) (req_Command (demo_req 5)) = Some False"
  by (rule curp_witness_independent [OF demo_follower_run demo_follower_table]) simp

definition demo_page :: "int \<Rightarrow> packet" where
  "demo_page i = (Packet packetPromise i 3)\<lparr>p_High := -1, p_Pages := 1, p_Requests := [demo_req 4, demo_req 5]\<rparr>"

definition demo_leader :: "nat core" where
  "demo_leader = (the (newCore 3 1 0 (0 :: nat)))\<lparr>c_leader := 1, c_ballot := 4, c_active := False, c_preparing := True,
     c_pages := [(1, [(0, demo_page 1)]), (2, [(0, demo_page 2)])], c_promises := [(1, True), (2, True)]\<rparr>"

lemma demo_leader_pages:
  "c_n demo_leader = 3" "c_promises demo_leader = [(1, True), (2, True)]" "witnessed_by demo_leader i r \<longleftrightarrow> i \<in> {1, 2} \<and> r \<in> {demo_req 4, demo_req 5}"
  by (auto simp: demo_leader_def newCore_def witnessed_by_def demo_page_def Packet_def mgetd_def split: if_splits option.splits)

theorem curp_fast_request_recovered_witness:
  "\<exists>s rec. mget (c_assigned (recover demo_env demo_leader)) (RequestID 1 4) = Some s \<and> mget (c_log (recover demo_env demo_leader)) s = Some rec \<and>
     req_ID (r_Request rec) = RequestID 1 4"
proof -
  have id: "req_ID (demo_req 4) = RequestID 1 4" by (simp add: demo_req_def)
  have "mget (c_values (recover demo_env demo_leader)) (req_ID (demo_req 4)) \<noteq> None \<or>
    (\<exists>s rec. mget (c_assigned (recover demo_env demo_leader)) (req_ID (demo_req 4)) = Some s \<and>
       mget (c_log (recover demo_env demo_leader)) s = Some rec \<and> req_ID (r_Request rec) = req_ID (demo_req 4))"
    by (rule curp_fast_request_recovered [where S = "{0, 1, 2}"])
      (auto simp: demo_leader_pages mlen_def mkeys_def superquorum_def split: if_splits)
  moreover have "mget (c_values (recover demo_env demo_leader)) (RequestID 1 4) = None" by code_simp
  ultimately show ?thesis by (simp add: id)
qed

theorem curp_recovered_commute_witness:
  "req_Op (demo_req 4) = NONE \<or> req_Op (demo_req 5) = NONE \<or> Conflict (req_Command (demo_req 4)) (req_Command (demo_req 5)) = Some False"
proof -
  define h where "h = snd (select_pages (promised_pages demo_env demo_leader) ([], c_executed demo_leader))"
  define r where "r = (\<lambda>s. the (mget (c_log (recover demo_env demo_leader)) s))"
  have h: "h = -1" unfolding h_def by code_simp
  have id: "req_ID (demo_req k) = RequestID 1 k" for k by (simp add: demo_req_def)
  have told: "\<exists>d :: nat core. replica_run demo_F d \<and> (\<forall>r. witnessed_by demo_leader i r \<longrightarrow> mget (c_witness d) (req_ID r) = Some r)" for i
    by (rule exI [of _ demo_follower]) (auto simp: demo_follower_run demo_leader_pages demo_follower_table id)
  have high: "c_high (recover demo_env demo_leader) = 1" by code_simp
  have logged: "mget (c_log (recover demo_env demo_leader)) 0 = Some (r 0)" "mget (c_log (recover demo_env demo_leader)) 1 = Some (r 1)"
    unfolding r_def by code_simp+
  have req: "r_Request (r 0) = demo_req 4" "r_Request (r 1) = demo_req 5" unfolding r_def by code_simp+
  have "req_Op (r_Request (r 0)) = NONE \<or> req_Op (r_Request (r 1)) = NONE \<or>
      Conflict (req_Command (r_Request (r 0))) (req_Command (r_Request (r 1))) = Some False"
    by (rule curp_recovered_commute [where s = 0 and t = 1 and e = demo_env and c = demo_leader, OF _ _ _ _ _ told h_def _ _ _ _ _ logged])
      (use h high in \<open>auto simp: demo_leader_pages mlen_def mkeys_def\<close>)
  then show ?thesis by (simp only: req)
qed

end
