(* ===== verification/CurpClient.thy ===== *)
theory CurpClient
  imports CurpWitness
begin

text \<open>
  The CURP client (\<open>src/curp/client.go\<close>) with the completion table of \<open>src/client/completion.go\<close>: it combines the
  speculative reply of the leader with the witness acknowledgements of one ballot. \<open>cl_replies\<close> is the channel of
  results handed to the workload. \<open>client_run\<close> records the messages the client has handled.
\<close>

definition go_rem :: "int \<Rightarrow> int \<Rightarrow> int" where
  "go_rem a b = sgn a * (\<bar>a\<bar> mod \<bar>b\<bar>)"

record completion =
  cp_votes :: rset
  cp_value :: bytes
  cp_leaderReply :: bool

record client =
  cl_ClientID :: int
  cl_N :: int
  cl_ballot :: int
  cl_pending :: "(request_id, completion) gomap"
  cl_completed :: "(request_id, unit) gomap"
  cl_replies :: "(request_id \<times> bytes) list"

datatype msg =
  MReply (m_Replica: int) (m_Ballot: int) (m_CmdId: request_id) (m_Rep: bytes) (m_Ok: byte)
| MRecordAck (m_Replica: int) (m_Ballot: int) (m_CmdId: request_id) (m_Ok: byte)
| MSyncReply (m_Replica: int) (m_Ballot: int) (m_CmdId: request_id) (m_Rep: bytes)

definition TRUE_byte :: byte where "TRUE_byte = 1"

definition zero_completion :: completion where
  "zero_completion = \<lparr>cp_votes = 0, cp_value = [], cp_leaderReply = False\<rparr>"

definition NewClient :: "int \<Rightarrow> int \<Rightarrow> client" where
  "NewClient i n = \<lparr>cl_ClientID = i, cl_N = n, cl_ballot = -1, cl_pending = [], cl_completed = [], cl_replies = []\<rparr>"

definition ReplyCompleted :: "request_id \<Rightarrow> client \<Rightarrow> bool" where
  "ReplyCompleted rid c \<longleftrightarrow> mget (cl_completed c) rid \<noteq> None"

text \<open>\<open>CompleteReply\<close>: claims the result once, runs the cleanup and delivers it.\<close>

definition CompleteReply :: "request_id \<Rightarrow> bytes \<Rightarrow> (client \<Rightarrow> client) \<Rightarrow> client \<Rightarrow> client" where
  "CompleteReply rid v before c =
     (if Client rid \<noteq> cl_ClientID c then c
      else if mget (cl_completed c) rid \<noteq> None then c
      else
        let c = before (c\<lparr>cl_completed := mput rid () (cl_completed c)\<rparr>)
        in c\<lparr>cl_replies := cl_replies c @ [(rid, v)]\<rparr>)"

definition evidence :: "request_id \<Rightarrow> int \<Rightarrow> int \<Rightarrow> client \<Rightarrow> client \<times> completion option" where
  "evidence rid ballot rep c =
     (if Client rid \<noteq> cl_ClientID c \<or> rep < 0 \<or> rep \<ge> cl_N c \<or> ballot < cl_ballot c then (c, None)
      else if ReplyCompleted rid c then (c, None)
      else
        let c = (if ballot > cl_ballot c then c\<lparr>cl_ballot := ballot, cl_pending := []\<rparr> else c)
        in case mget (cl_pending c) rid of
          Some p \<Rightarrow> (c, Some p)
        | None \<Rightarrow> (c\<lparr>cl_pending := mput rid zero_completion (cl_pending c)\<rparr>, Some zero_completion))"

definition finish :: "request_id \<Rightarrow> bytes \<Rightarrow> client \<Rightarrow> client" where
  "finish rid v c = CompleteReply rid v (\<lambda>c. c\<lparr>cl_pending := mdel rid (cl_pending c)\<rparr>) c"

text \<open>The completion \<open>p\<close> is a pointer into the table: a change of it is stored under \<open>rid\<close>.\<close>

definition tryFast :: "request_id \<Rightarrow> completion \<Rightarrow> client \<Rightarrow> client" where
  "tryFast rid p c = (let f = go_div (cl_N c) 2 in
     if cp_leaderReply p \<and> Size (cp_votes p) \<ge> f + go_div (f + 1) 2 + 1 then finish rid (cp_value p) c else c)"

definition store :: "request_id \<Rightarrow> completion \<Rightarrow> client \<Rightarrow> client" where
  "store rid p c = c\<lparr>cl_pending := mput rid p (cl_pending c)\<rparr>"

definition handleReply :: "int \<Rightarrow> int \<Rightarrow> request_id \<Rightarrow> bytes \<Rightarrow> byte \<Rightarrow> client \<Rightarrow> client" where
  "handleReply rep ballot rid v ok c =
     (case evidence rid ballot rep c of
        (c, None) \<Rightarrow> c
      | (c, Some p) \<Rightarrow>
          if ok \<noteq> TRUE_byte \<or> rep \<noteq> go_rem ballot (cl_N c) then c
          else
            let p = p\<lparr>cp_value := v, cp_leaderReply := True, cp_votes := With (cp_votes p) rep\<rparr>
            in tryFast rid p (store rid p c))"

definition handleRecordAck :: "int \<Rightarrow> int \<Rightarrow> request_id \<Rightarrow> byte \<Rightarrow> client \<Rightarrow> client" where
  "handleRecordAck rep ballot rid ok c =
     (case evidence rid ballot rep c of
        (c, None) \<Rightarrow> c
      | (c, Some p) \<Rightarrow>
          if ok \<noteq> TRUE_byte then c
          else
            let p = p\<lparr>cp_votes := With (cp_votes p) rep\<rparr>
            in tryFast rid p (store rid p c))"

definition handleSyncReply :: "int \<Rightarrow> int \<Rightarrow> request_id \<Rightarrow> bytes \<Rightarrow> client \<Rightarrow> client" where
  "handleSyncReply rep ballot rid v c =
     (case evidence rid ballot rep c of (c, None) \<Rightarrow> c | (c, Some p) \<Rightarrow> finish rid v c)"

fun handleMsgs :: "msg \<Rightarrow> client \<Rightarrow> client" where
  "handleMsgs (MReply rep b rid v ok) c = handleReply rep b rid v ok c"
| "handleMsgs (MRecordAck rep b rid ok) c = handleRecordAck rep b rid ok c"
| "handleMsgs (MSyncReply rep b rid v) c = handleSyncReply rep b rid v c"

subsection \<open>What a completion stands for\<close>

text \<open>A positive acknowledgement of one replica, and the reply of the leader of a ballot.\<close>

definition acked :: "msg set \<Rightarrow> int \<Rightarrow> request_id \<Rightarrow> int \<Rightarrow> bool" where
  "acked h b rid i \<longleftrightarrow> (\<exists>m \<in> h. \<not> is_MSyncReply m \<and> m_Replica m = i \<and> m_Ballot m = b \<and> m_CmdId m = rid \<and> m_Ok m = TRUE_byte)"

definition led :: "int \<Rightarrow> msg set \<Rightarrow> int \<Rightarrow> request_id \<Rightarrow> bytes \<Rightarrow> bool" where
  "led n h b rid v \<longleftrightarrow> MReply (go_rem b n) b rid v TRUE_byte \<in> h"

definition cp_ok :: "int \<Rightarrow> msg set \<Rightarrow> int \<Rightarrow> request_id \<Rightarrow> completion \<Rightarrow> bool" where
  "cp_ok n h b rid p \<longleftrightarrow> ids (cp_votes p) \<subseteq> {0..<n} \<and> (\<forall>i \<in> ids (cp_votes p). acked h b rid i) \<and>
     (cp_leaderReply p \<longrightarrow> led n h b rid (cp_value p))"

definition justified :: "int \<Rightarrow> msg set \<Rightarrow> request_id \<Rightarrow> bytes \<Rightarrow> bool" where
  "justified n h rid v \<longleftrightarrow> (\<exists>m \<in> h. is_MSyncReply m \<and> m_CmdId m = rid \<and> m_Rep m = v) \<or>
     (\<exists>b S. S \<subseteq> {0..<n} \<and> superquorum n \<le> int (card S) \<and> (\<forall>i\<in>S. acked h b rid i) \<and> led n h b rid v)"

definition CInv :: "msg set \<Rightarrow> client \<Rightarrow> bool" where
  "CInv h c \<longleftrightarrow> (\<forall>rid p. mget (cl_pending c) rid = Some p \<longrightarrow> cp_ok (cl_N c) h (cl_ballot c) rid p) \<and>
     (\<forall>(rid, v) \<in> set (cl_replies c). justified (cl_N c) h rid v \<and> mget (cl_completed c) rid \<noteq> None) \<and>
     distinct (map fst (cl_replies c))"

lemma cp_ok_zero [simp]: "cp_ok n h b rid zero_completion"
  by (simp add: cp_ok_def zero_completion_def)

lemma acked_mono: "acked h b rid i \<Longrightarrow> h \<subseteq> h' \<Longrightarrow> acked h' b rid i"
  unfolding acked_def by blast

lemma cp_ok_mono: "cp_ok n h b rid p \<Longrightarrow> h \<subseteq> h' \<Longrightarrow> cp_ok n h' b rid p"
  unfolding cp_ok_def led_def using acked_mono by blast

lemma justified_mono: "justified n h rid v \<Longrightarrow> h \<subseteq> h' \<Longrightarrow> justified n h' rid v"
  unfolding justified_def led_def by (meson acked_mono subsetD)

lemma CInv_mono: "CInv h c \<Longrightarrow> h \<subseteq> h' \<Longrightarrow> CInv h' c"
proof -
  assume a: "CInv h c" "h \<subseteq> h'"
  have "cp_ok (cl_N c) h' (cl_ballot c) rid p" if "mget (cl_pending c) rid = Some p" for rid p
    using that a(1) cp_ok_mono [OF _ a(2)] by (simp add: CInv_def)
  moreover have "justified (cl_N c) h' rid v \<and> mget (cl_completed c) rid \<noteq> None" if "(rid, v) \<in> set (cl_replies c)" for rid v
    using that a(1) justified_mono [OF _ a(2)] by (auto simp: CInv_def)
  ultimately show ?thesis using a(1) unfolding CInv_def by blast
qed

lemma evidence_CInv:
  assumes "evidence rid b rep c = (c', p)" "CInv h c"
  shows "CInv h c'" "cl_N c' = cl_N c" "p = Some q \<Longrightarrow> cl_ballot c' = b \<and> cp_ok (cl_N c) h b rid q \<and> 0 \<le> rep \<and> rep < cl_N c"
  using assms by (auto simp: evidence_def CInv_def Let_def split: if_splits option.splits)

lemma finish_CInv:
  assumes "CInv h c" "justified (cl_N c) h rid v"
  shows "CInv h (finish rid v c)"
  using assms by (auto simp: finish_def CompleteReply_def CInv_def Let_def split: if_splits)

lemma tryFast_CInv:
  assumes "CInv h c" "cp_ok (cl_N c) h b rid p"
  shows "CInv h (tryFast rid p c)"
proof (cases "cp_leaderReply p \<and> Size (cp_votes p) \<ge> superquorum (cl_N c)")
  case True
  then have "justified (cl_N c) h rid (cp_value p)"
    using assms(2) unfolding justified_def by (intro disjI2 exI [of _ b] exI [of _ "ids (cp_votes p)"]) (auto simp: cp_ok_def Size_card)
  then show ?thesis using finish_CInv [OF assms(1)] assms(1) by (simp add: tryFast_def Let_def)
next
  case False
  then show ?thesis using assms(1) by (auto simp: tryFast_def Let_def superquorum_def)
qed

lemma store_CInv: "CInv h c \<Longrightarrow> cp_ok (cl_N c) h (cl_ballot c) rid p \<Longrightarrow> CInv h (store rid p c)"
  by (auto simp: CInv_def store_def)

lemma vote_ok:
  assumes "cp_ok n h b rid p" "0 \<le> rep" "rep < n" "n \<le> 64" "acked h b rid rep"
  shows "cp_ok n h b rid (p\<lparr>cp_votes := With (cp_votes p) rep\<rparr>)"
  using assms by (auto simp: cp_ok_def ids_With in_range_def)

lemma handle_CInv:
  assumes "CInv h c" "cl_N c \<le> 64"
  shows "CInv (insert m h) (handleMsgs m c)"
proof -
  have inv: "CInv (insert m h) c" using CInv_mono [OF assms(1)] by blast
  show ?thesis
  proof (cases m)
    case (MReply rep b rid v ok)
    obtain d p where e: "evidence rid b rep c = (d, p)" by fastforce
    note ev = evidence_CInv [OF e inv]
    show ?thesis
    proof (cases "p = None \<or> ok \<noteq> TRUE_byte \<or> rep \<noteq> go_rem b (cl_N d)")
      case True
      then show ?thesis using ev(1) e MReply by (auto simp: handleReply_def split: option.splits)
    next
      case False
      then obtain q where q: "p = Some q" "ok = TRUE_byte" "rep = go_rem b (cl_N c)" using ev(2) by auto
      let ?q = "q\<lparr>cp_value := v, cp_leaderReply := True\<rparr>"
      have "acked (insert m h) b rid rep" using MReply q by (auto simp: acked_def)
      moreover have "cp_ok (cl_N c) (insert m h) b rid ?q" using ev(3) [OF q(1)] MReply q by (auto simp: cp_ok_def led_def)
      ultimately have ok: "cp_ok (cl_N c) (insert m h) b rid (?q\<lparr>cp_votes := With (cp_votes q) rep\<rparr>)"
        using vote_ok [of "cl_N c" _ b rid ?q rep] ev(3) [OF q(1)] assms(2) by simp
      then have "CInv (insert m h) (tryFast rid (?q\<lparr>cp_votes := With (cp_votes q) rep\<rparr>) (store rid (?q\<lparr>cp_votes := With (cp_votes q) rep\<rparr>) d))"
        using ev(1,2) ev(3) [OF q(1)] by (intro tryFast_CInv [where b = b] store_CInv) (simp_all add: store_def)
      then show ?thesis using e q MReply ev(2) by (simp add: handleReply_def Let_def)
    qed
  next
    case (MRecordAck rep b rid ok)
    obtain d p where e: "evidence rid b rep c = (d, p)" by fastforce
    note ev = evidence_CInv [OF e inv]
    show ?thesis
    proof (cases "p = None \<or> ok \<noteq> TRUE_byte")
      case True
      then show ?thesis using ev(1) e MRecordAck by (auto simp: handleRecordAck_def split: option.splits)
    next
      case False
      then obtain q where q: "p = Some q" "ok = TRUE_byte" by auto
      have "acked (insert m h) b rid rep" using MRecordAck q by (auto simp: acked_def)
      then have ok: "cp_ok (cl_N c) (insert m h) b rid (q\<lparr>cp_votes := With (cp_votes q) rep\<rparr>)"
        using vote_ok [of "cl_N c" _ b rid q rep] ev(3) [OF q(1)] assms(2) by simp
      then have "CInv (insert m h) (tryFast rid (q\<lparr>cp_votes := With (cp_votes q) rep\<rparr>) (store rid (q\<lparr>cp_votes := With (cp_votes q) rep\<rparr>) d))"
        using ev(1,2) ev(3) [OF q(1)] by (intro tryFast_CInv [where b = b] store_CInv) (simp_all add: store_def)
      then show ?thesis using e q MRecordAck by (simp add: handleRecordAck_def Let_def)
    qed
  next
    case (MSyncReply rep b rid v)
    obtain d p where e: "evidence rid b rep c = (d, p)" by fastforce
    note ev = evidence_CInv [OF e inv]
    have "justified (cl_N d) (insert m h) rid v" unfolding justified_def using MSyncReply by (intro disjI1 bexI [of _ m]) auto
    then show ?thesis using finish_CInv [OF ev(1)] ev(1) e MSyncReply by (auto simp: handleSyncReply_def split: option.splits)
  qed
qed

lemma evidence_N: "cl_N (fst (evidence rid b rep c)) = cl_N c"
  by (simp add: evidence_def Let_def split: option.split)

lemma finish_N [simp]: "cl_N (finish rid v c) = cl_N c"
  by (simp add: finish_def CompleteReply_def Let_def)

lemma tryFast_N [simp]: "cl_N (tryFast rid p c) = cl_N c"
  by (simp add: tryFast_def Let_def)

lemma store_N [simp]: "cl_N (store rid p c) = cl_N c"
  by (simp add: store_def)

lemma handle_N: "cl_N (handleMsgs m c) = cl_N c"
  using evidence_N [of "m_CmdId m" "m_Ballot m" "m_Replica m" c]
  by (cases "evidence (m_CmdId m) (m_Ballot m) (m_Replica m) c"; cases m)
    (simp_all add: handleReply_def handleRecordAck_def handleSyncReply_def Let_def split: option.split)

lemma handle_all: "CInv h c \<Longrightarrow> cl_N c \<le> 64 \<Longrightarrow> CInv (h \<union> set ms) (fold handleMsgs ms c)"
proof (induction ms arbitrary: h c)
  case (Cons m ms)
  then show ?case using Cons.IH [OF handle_CInv [OF Cons.prems(1,2)]] by (simp add: handle_N)
qed simp

text \<open>C32 The client hands out each result once, and only on evidence: a final reply of a replica for that request, or
  the speculative reply of a ballot's leader together with positive acknowledgements of the same ballot from a
  superquorum, whatever messages arrive in whatever order.\<close>

theorem curp_client_needs_superquorum:
  assumes "n \<le> 64" "c = fold handleMsgs ms (NewClient i n)"
  shows "distinct (map fst (cl_replies c)) \<and>
    (\<forall>rid v. (rid, v) \<in> set (cl_replies c) \<longrightarrow>
       (\<exists>m \<in> set ms. is_MSyncReply m \<and> m_CmdId m = rid \<and> m_Rep m = v) \<or>
       (\<exists>b S. S \<subseteq> {0..<n} \<and> superquorum n \<le> int (card S) \<and> (\<forall>j\<in>S. acked (set ms) b rid j) \<and> MReply (go_rem b n) b rid v TRUE_byte \<in> set ms))"
proof -
  have "CInv {} (NewClient i n)" "cl_N (NewClient i n) = n" by (simp_all add: CInv_def NewClient_def)
  from handle_all [OF this(1), of ms] this(2) assms(1) have inv: "CInv (set ms) c" by (simp add: assms(2))
  have "cl_N (fold handleMsgs ms d) = cl_N d" for d by (induction ms arbitrary: d) (simp_all add: handle_N)
  then have "cl_N c = n" by (simp add: assms(2) NewClient_def)
  then show ?thesis using inv by (auto simp: CInv_def justified_def led_def)
qed

definition demo_msgs :: "msg list" where
  "demo_msgs = [MRecordAck 1 0 (RequestID 9 1) 1, MReply 0 0 (RequestID 9 1) [5] 1, MRecordAck 2 0 (RequestID 9 1) 1]"

theorem curp_client_needs_superquorum_witness:
  "cl_replies (fold handleMsgs demo_msgs (NewClient 9 3)) = [(RequestID 9 1, [5])] \<and>
   (\<exists>b S. S \<subseteq> {0..<3 :: int} \<and> superquorum 3 \<le> int (card S) \<and> MReply (go_rem b 3) b (RequestID 9 1) [5] TRUE_byte \<in> set demo_msgs)"
proof -
  have r: "cl_replies (fold handleMsgs demo_msgs (NewClient 9 3)) = [(RequestID 9 1, [5])]" by code_simp
  have "\<not> is_MSyncReply m" if "m \<in> set demo_msgs" for m using that by (auto simp: demo_msgs_def)
  then show ?thesis using curp_client_needs_superquorum [of 3 _ demo_msgs 9, OF _ refl] r by auto
qed

end
