(* ===== verification/EpaxosCore.thy ===== *)
theory EpaxosCore
  imports Requests ReplicaSet
begin

text \<open>
  The core of package \<open>epaxos\<close>: \<open>src/epaxos/core.go\<close>, \<open>recovery.go\<close> and \<open>defs.go\<close> (the execution scheduler of
  \<open>execute.go\<close> is in \<open>EpaxosExecute\<close>). The instance space is a map from (replica, instance) to instances; an
  access outside the arrays, a read of a short slice and a read through a nil pointer panic, which is
  \<^const>\<open>None\<close>. A nil command slice is \<^const>\<open>None\<close>, an empty one is \<open>Some []\<close>. What the core asks of its ports
  (messages, client replies, requeued proposals) is appended to \<open>c_out\<close>; counters and the persistence
  hooks, which are inactive unless the replica is durable, are left out. Sequence numbers, instance numbers and ballots
  are \<open>int32\<close>: they are kept as integers, and the additions and subtractions that compute new ones wrap around through \<^const>\<open>int32\<close>
  (where the result indexes the instance space of \<open>MAX_INSTANCE\<close> cells the bound check comes first).
\<close>

definition NONE_st :: int where "NONE_st = 0"
definition PREACCEPTED :: int where "PREACCEPTED = 1"
definition PREACCEPTED_EQ :: int where "PREACCEPTED_EQ = 2"
definition ACCEPTED :: int where "ACCEPTED = 3"
definition COMMITTED :: int where "COMMITTED = 4"
definition EXECUTED :: int where "EXECUTED = 5"

lemmas status_defs = NONE_st_def PREACCEPTED_def PREACCEPTED_EQ_def ACCEPTED_def COMMITTED_def EXECUTED_def

definition MAX_INSTANCE :: int where "MAX_INSTANCE = 10 * 1024 * 1024"
definition MAX_BATCH :: int where "MAX_BATCH = 1000"
definition COMMIT_GRACE_PERIOD :: int where "COMMIT_GRACE_PERIOD = 3 * Second"
definition INITIAL_RECOVERY_BACKOFF :: int where "INITIAL_RECOVERY_BACKOFF = 3 * Second"
definition MAX_RECOVERY_BACKOFF :: int where "MAX_RECOVERY_BACKOFF = 6 * Second"
definition CHAN_BUFFER_SIZE :: int where "CHAN_BUFFER_SIZE = 2000000"

type_synonym instance_id = "int \<times> int"
type_synonym commands = "command list option"

record proposal =
  pr_Command :: command
  pr_context :: nat

record prepare_reply =
  pp_AcceptorId :: int
  pp_Replica :: int
  pp_Instance :: int
  pp_Ballot :: int
  pp_VBallot :: int
  pp_Status :: int
  pp_Command :: commands
  pp_Seq :: int
  pp_Deps :: "int list"

record bookkeeping =
  lb_clientProposals :: "proposal list option"
  lb_ballot :: int
  lb_allEqual :: bool
  lb_preAcceptOKs :: int
  lb_acceptOKs :: int
  lb_nacks :: int
  lb_originalDeps :: "int list"
  lb_committedDeps :: "int list"
  lb_prepareReplies :: "prepare_reply list"
  lb_preparing :: bool
  lb_tryingToPreAccept :: bool
  lb_possibleQuorum :: "bool list"
  lb_tpaReps :: int
  lb_tpaAccepted :: bool
  lb_lastTriedBallot :: int
  lb_cmds :: commands
  lb_status :: int
  lb_seq :: int
  lb_deps :: "int list"
  lb_leaderResponded :: bool
  lb_preVoters :: rset
  lb_acceptVoters :: rset
  lb_prepareVoters :: rset
  lb_phaseStarted :: time

record inst =
  i_Cmds :: commands
  i_bal :: int
  i_vbal :: int
  i_Status :: int
  i_Seq :: int
  i_Deps :: "int list"
  i_lb :: "bookkeeping option"
  i_Index :: int
  i_Lowlink :: int
  i_onStack :: bool

datatype msg =
  Prepare int int int int
| PreAccept int int int int commands int "int list"
| Accept int int int int int "int list" commands
| Commit int int int int commands int "int list"
| PrepareReplyMsg prepare_reply
| PreAcceptReply int int int int int "int list" "int list" int int
| AcceptReply int int int int
| TryPreAccept int int int int commands int "int list"
| TryPreAcceptReply int int int int int int int int
| RepairRequest int int

datatype effect =
  Send int msg
| Broadcast "int list option" int msg
| ReplyResult proposal bytes int
| RequeueProposal proposal
| ReplyBeacon
| BeaconTick

record recoveryAttempt =
  ra_nextAttempt :: time
  ra_backoff :: int

record 'st core =
  c_n :: int
  c_f :: int
  c_id :: int
  c_space :: "(instance_id, inst) gomap"
  c_crtInstance :: "int list"
  c_committedUpTo :: "int list"
  c_executedUpTo :: "int list"
  c_conflicts :: "(key, int \<times> int) gomap list"
  c_maxSeqPerKey :: "(key, int) gomap"
  c_maxSeq :: int
  c_instancesToRecover :: "instance_id list"
  c_isLeader :: bool
  c_maxRecvBallot :: int
  c_batchWait :: int
  c_transconf :: bool
  c_recoveryAttempts :: "(64 word, recoveryAttempt) gomap"
  c_deferMap :: "(64 word, 64 word) gomap"
  c_blocked :: "(64 word, time) gomap"
  c_active :: "(instance_id, bool) gomap"
  c_nextGapScan :: time
  c_cyclicPeers :: "int list"
  c_thrifty :: bool
  c_stack :: "instance_id list"
  c_app :: 'st
  c_out :: "effect list"
  c_history :: "instance_id list"

text \<open>
  \<open>c_history\<close> is a history variable: the instances in the order in which their status became \<open>EXECUTED\<close>. The
  environment holds the ports the core reads from and the order of the loops over maps.
\<close>

datatype loop = Loop_blocked | Loop_active

record 'st env =
  execute :: "command \<Rightarrow> 'st \<Rightarrow> (bytes \<times> 'st) option"
  clock :: time
  peerAlive :: "int \<Rightarrow> bool"
  preferredPeerOrder :: "int list"
  executeEnabled :: bool
  replyAfterExecution :: bool
  order :: "loop \<Rightarrow> nat list"

definition newCore :: "int \<Rightarrow> int \<Rightarrow> int \<Rightarrow> int \<Rightarrow> bool \<Rightarrow> 'st \<Rightarrow> 'st core" where
  "newCore n f i batchWait transconf app =
     \<lparr>c_n = n, c_f = f, c_id = i, c_space = [], c_crtInstance = replicate (nat n) (-1),
      c_committedUpTo = replicate (nat n) (-1), c_executedUpTo = replicate (nat n) (-1),
      c_conflicts = replicate (nat n) [], c_maxSeqPerKey = [], c_maxSeq = 0, c_instancesToRecover = [],
      c_isLeader = False, c_maxRecvBallot = -1, c_batchWait = batchWait, c_transconf = transconf,
      c_recoveryAttempts = [], c_deferMap = [], c_blocked = [], c_active = [], c_nextGapScan = 0,
      c_cyclicPeers = map (\<lambda>d. (i + d) mod n) [1..n - 1], c_thrifty = True, c_stack = [], c_app = app,
      c_out = [], c_history = []\<rparr>"

subsection \<open>Access\<close>

definition emit :: "effect \<Rightarrow> 'st core \<Rightarrow> 'st core" where
  "emit x c = c\<lparr>c_out := c_out c @ [x]\<rparr>"

definition slice_set :: "'a list \<Rightarrow> int \<Rightarrow> 'a \<Rightarrow> 'a list option" where
  "slice_set xs i v = (if 0 \<le> i \<and> i < int (length xs) then Some (xs[nat i := v]) else None)"

definition in_space :: "int \<Rightarrow> int \<Rightarrow> 'st core \<Rightarrow> bool" where
  "in_space q i c \<longleftrightarrow> 0 \<le> q \<and> q < c_n c \<and> 0 \<le> i \<and> i < MAX_INSTANCE"

definition inst_at :: "int \<Rightarrow> int \<Rightarrow> 'st core \<Rightarrow> inst option option" where
  "inst_at q i c = (if in_space q i c then Some (mget (c_space c) (q, i)) else None)"

definition put_inst :: "int \<Rightarrow> int \<Rightarrow> inst \<Rightarrow> 'st core \<Rightarrow> 'st core" where
  "put_inst q i x c = c\<lparr>c_space := mput (q, i) x (c_space c)\<rparr>"

definition newNilDeps :: "'st core \<Rightarrow> int list" where
  "newNilDeps c = replicate (nat (c_n c)) (-1)"

definition newInstance :: "commands \<Rightarrow> int \<Rightarrow> int \<Rightarrow> int \<Rightarrow> int \<Rightarrow> int list \<Rightarrow> inst" where
  "newInstance cmds cballot lballot status sq deps =
     \<lparr>i_Cmds = cmds, i_bal = cballot, i_vbal = lballot, i_Status = status, i_Seq = sq, i_Deps = deps,
      i_lb = None, i_Index = 0, i_Lowlink = 0, i_onStack = False\<rparr>"

definition newInstanceDefault :: inst where
  "newInstanceDefault = newInstance None (-1) (-1) NONE_st (-1) []"

definition newLeaderBookkeeping ::
  "'st env \<Rightarrow> 'st core \<Rightarrow> proposal list option \<Rightarrow> int list \<Rightarrow> int list \<Rightarrow> int list \<Rightarrow> int \<Rightarrow> commands \<Rightarrow> int \<Rightarrow> int \<Rightarrow> bookkeeping" where
  "newLeaderBookkeeping e c ps originalDeps committedDeps deps lastTriedBallot cmds status sq =
     \<lparr>lb_clientProposals = ps, lb_ballot = lastTriedBallot, lb_allEqual = True, lb_preAcceptOKs = 0, lb_acceptOKs = 0,
      lb_nacks = 0, lb_originalDeps = originalDeps, lb_committedDeps = committedDeps, lb_prepareReplies = [],
      lb_preparing = True, lb_tryingToPreAccept = False, lb_possibleQuorum = replicate (nat (c_n c)) True,
      lb_tpaReps = 0, lb_tpaAccepted = False, lb_lastTriedBallot = lastTriedBallot, lb_cmds = cmds,
      lb_status = status, lb_seq = sq, lb_deps = deps, lb_leaderResponded = False,
      lb_preVoters = With 0 (c_id c), lb_acceptVoters = With 0 (c_id c), lb_prepareVoters = 0,
      lb_phaseStarted = clock e\<rparr>"

definition newLeaderBookkeepingDefault :: "'st env \<Rightarrow> 'st core \<Rightarrow> bookkeeping" where
  "newLeaderBookkeepingDefault e c =
     newLeaderBookkeeping e c None (newNilDeps c) (newNilDeps c) (newNilDeps c) 0 None NONE_st (-1)"

definition maxBatchCommands :: "'st core \<Rightarrow> int" where
  "maxBatchCommands c = (if \<not> c_batchWait c > 0 then 1 else MAX_BATCH)"

definition isInitialBallot :: "int \<Rightarrow> int \<Rightarrow> bool" where
  "isInitialBallot ballot rep \<longleftrightarrow> ballot = rep"

definition FastQuorumSize :: "'st core \<Rightarrow> int" where
  "FastQuorumSize c = c_f c + go_div (c_f c + 1) 2"

definition SlowQuorumSize :: "'st core \<Rightarrow> int" where
  "SlowQuorumSize c = go_div (c_n c + 1) 2"

definition fastQuorumAvailable :: "'st env \<Rightarrow> 'st core \<Rightarrow> bool" where
  "fastQuorumAvailable e c \<longleftrightarrow> int (length (filter (peerAlive e) [0..c_n c - 1])) \<ge> FastQuorumSize c"

definition nextBallot :: "int \<Rightarrow> 'st core \<Rightarrow> int" where
  "nextBallot bal c =
     (let high = (if c_maxRecvBallot c > bal then c_maxRecvBallot c else bal)
      in int32 ((go_div high (c_n c) + 1) * c_n c + c_id c))"

text \<open>\<open>makeBallot\<close>: chooses a ballot of this replica above everything seen; a nil instance or bookkeeping panics.\<close>

definition makeBallot :: "int \<Rightarrow> int \<Rightarrow> 'st core \<Rightarrow> 'st core option" where
  "makeBallot rep i c = do {
     x \<leftarrow> inst_at rep i c;
     x \<leftarrow> x;
     lb \<leftarrow> i_lb x;
     Some (put_inst rep i (x\<lparr>i_lb := Some (lb\<lparr>lb_lastTriedBallot := nextBallot (i_bal x) c\<rparr>)\<rparr>) c)
   }"

function advance :: "(instance_id, inst) gomap \<Rightarrow> int \<Rightarrow> int \<Rightarrow> int option" where
  "advance sp q up =
     (if up + 1 < 0 \<or> up + 1 \<ge> MAX_INSTANCE then None
      else case mget sp (q, up + 1) of
        None \<Rightarrow> Some up
      | Some x \<Rightarrow> if i_Status x = COMMITTED \<or> i_Status x = EXECUTED then advance sp q (up + 1) else Some up)"
  by pat_completeness auto
termination by (relation "measure (\<lambda>(sp, q, up). nat (MAX_INSTANCE - up))") auto

declare advance.simps [simp del]

definition updateCommitted :: "int \<Rightarrow> 'st core \<Rightarrow> 'st core option" where
  "updateCommitted rep c = do {
     up \<leftarrow> slice_get (c_committedUpTo c) rep;
     up \<leftarrow> advance (c_space c) rep up;
     cu \<leftarrow> slice_set (c_committedUpTo c) rep up;
     Some (c\<lparr>c_committedUpTo := cu\<rparr>)
   }"

subsection \<open>Dependencies and sequence numbers\<close>

definition update_pair :: "int \<Rightarrow> command \<Rightarrow> (key, int \<times> int) gomap \<Rightarrow> (key, int \<times> int) gomap" where
  "update_pair i cmd tab = (case mget tab (K cmd) of
     Some (lt, lw) \<Rightarrow> mput (K cmd)
       (if lt < i then i else lt, if lw < i \<and> Op cmd \<noteq> GET then i else lw) tab
   | None \<Rightarrow> mput (K cmd) (i, if Op cmd \<noteq> GET then i else -1) tab)"

definition update_maxSeq :: "int \<Rightarrow> command \<Rightarrow> (key, int) gomap \<Rightarrow> (key, int) gomap" where
  "update_maxSeq sq cmd m = (case mget m (K cmd) of
     Some s \<Rightarrow> if s < sq then mput (K cmd) sq m else m
   | None \<Rightarrow> mput (K cmd) sq m)"

definition updateConflicts :: "command list \<Rightarrow> int \<Rightarrow> int \<Rightarrow> int \<Rightarrow> 'st core \<Rightarrow> 'st core option" where
  "updateConflicts cmds rep i sq c =
     (if cmds = [] then Some c
      else do {
        tab \<leftarrow> slice_get (c_conflicts c) rep;
        cf \<leftarrow> slice_set (c_conflicts c) rep (fold (update_pair i) cmds tab);
        Some (c\<lparr>c_conflicts := cf, c_maxSeqPerKey := fold (update_maxSeq sq) cmds (c_maxSeqPerKey c)\<rparr>)
      })"

text \<open>The loop over the commands of a batch stops at the first command that raises the dependency.\<close>

fun attr_cmds :: "'st core \<Rightarrow> int \<Rightarrow> int \<Rightarrow> int \<Rightarrow> command list \<Rightarrow> int \<times> int list \<times> bool \<Rightarrow> (int \<times> int list \<times> bool) option" where
  "attr_cmds c rep i q [] st = Some st"
| "attr_cmds c rep i q (cmd # cmds) (sq, deps, changed) = do {
     tab \<leftarrow> slice_get (c_conflicts c) q;
     case mget tab (K cmd) of
       None \<Rightarrow> attr_cmds c rep i q cmds (sq, deps, changed)
     | Some (lt, lw) \<Rightarrow>
         let d = (if Op cmd \<noteq> GET then lt else lw)
         in if q = rep \<and> d \<ge> i then attr_cmds c rep i q cmds (sq, deps, changed)
         else do {
           dq \<leftarrow> slice_get deps q;
           if d > dq
           then do {
             deps \<leftarrow> slice_set deps q d;
             x \<leftarrow> inst_at q d c;
             x \<leftarrow> x;
             Some (if sq \<le> i_Seq x then int32 (i_Seq x + 1) else sq, deps, True)
           }
           else attr_cmds c rep i q cmds (sq, deps, changed)
         }
   }"

fun attr_replicas :: "'st core \<Rightarrow> int \<Rightarrow> int \<Rightarrow> command list \<Rightarrow> int list \<Rightarrow> int \<times> int list \<times> bool \<Rightarrow> (int \<times> int list \<times> bool) option" where
  "attr_replicas c rep i cmds [] st = Some st"
| "attr_replicas c rep i cmds (q # qs) st =
     (if c_id c \<noteq> rep \<and> q = rep then attr_replicas c rep i cmds qs st
      else do { st \<leftarrow> attr_cmds c rep i q cmds st; attr_replicas c rep i cmds qs st })"

definition attr_seq :: "'st core \<Rightarrow> command \<Rightarrow> int \<times> bool \<Rightarrow> int \<times> bool" where
  "attr_seq c cmd st = (case mget (c_maxSeqPerKey c) (K cmd) of
     Some s \<Rightarrow> if fst st \<le> s then (int32 (s + 1), True) else st
   | None \<Rightarrow> st)"

definition updateAttributes :: "command list \<Rightarrow> int \<Rightarrow> int list \<Rightarrow> int \<Rightarrow> int \<Rightarrow> 'st core \<Rightarrow> (int \<times> int list \<times> bool) option" where
  "updateAttributes cmds sq deps rep i c = do {
     (sq, deps, changed) \<leftarrow> attr_replicas c rep i cmds [0..c_n c - 1] (sq, deps, False);
     let (sq, changed) = fold (attr_seq c) cmds (sq, changed);
     Some (sq, deps, changed)
   }"

definition mergeAttributes :: "int \<Rightarrow> int \<Rightarrow> int list \<Rightarrow> int \<Rightarrow> int list \<Rightarrow> (int \<times> int list \<times> bool) option" where
  "mergeAttributes n seq1 deps1 seq2 deps2 =
     (if int (length deps1) < n \<or> int (length deps2) < n then None
      else Some (max seq1 seq2,
        map2 max (take (nat n) deps1) (take (nat n) deps2) @ drop (nat n) deps1,
        seq1 = seq2 \<and> take (nat n) deps1 = take (nat n) deps2))"

subsection \<open>Broadcasts\<close>

text \<open>A broadcast reads the bookkeeping of the instance; a panic there is caught and nothing is sent.\<close>

definition with_lb :: "int \<Rightarrow> int \<Rightarrow> (bookkeeping \<Rightarrow> effect option) \<Rightarrow> 'st core \<Rightarrow> 'st core" where
  "with_lb rep i f c = (case do { x \<leftarrow> inst_at rep i c; x \<leftarrow> x; lb \<leftarrow> i_lb x; f lb } of
     None \<Rightarrow> c | Some x \<Rightarrow> emit x c)"

definition peers :: "'st env \<Rightarrow> 'st core \<Rightarrow> int list option" where
  "peers e c = (if int (length (preferredPeerOrder e)) < c_n c - 1 then None
     else Some (take (nat (c_n c - 1)) (preferredPeerOrder e)))"

definition bcastPrepare :: "int \<Rightarrow> int \<Rightarrow> 'st core \<Rightarrow> 'st core" where
  "bcastPrepare rep i c = with_lb rep i (\<lambda>lb.
     Some (Broadcast (Some (c_cyclicPeers c)) (c_n c - 1) (Prepare (c_id c) rep i (lb_lastTriedBallot lb)))) c"

definition bcastPreAccept :: "'st env \<Rightarrow> int \<Rightarrow> int \<Rightarrow> 'st core \<Rightarrow> 'st core" where
  "bcastPreAccept e rep i c = with_lb rep i (\<lambda>lb. do {
     ps \<leftarrow> peers e c;
     Some (Broadcast (Some ps) (if c_thrifty c then FastQuorumSize c - 1 else c_n c - 1)
       (PreAccept (c_id c) rep i (lb_lastTriedBallot lb) (lb_cmds lb) (lb_seq lb) (lb_deps lb)))
   }) c"

definition bcastTryPreAccept :: "int \<Rightarrow> int \<Rightarrow> 'st core \<Rightarrow> 'st core" where
  "bcastTryPreAccept rep i c = with_lb rep i (\<lambda>lb.
     Some (Broadcast None (c_n c - 1) (TryPreAccept (c_id c) rep i (lb_lastTriedBallot lb) (lb_cmds lb) (lb_seq lb) (lb_deps lb)))) c"

definition bcastAccept :: "'st env \<Rightarrow> int \<Rightarrow> int \<Rightarrow> 'st core \<Rightarrow> 'st core" where
  "bcastAccept e rep i c = with_lb rep i (\<lambda>lb. do {
     ps \<leftarrow> peers e c;
     Some (Broadcast (Some ps) (if c_thrifty c then go_div (c_n c) 2 else c_n c - 1)
       (Accept (c_id c) rep i (lb_lastTriedBallot lb) (lb_seq lb) (lb_deps lb) (lb_cmds lb)))
   }) c"

definition bcastCommit :: "'st env \<Rightarrow> int \<Rightarrow> int \<Rightarrow> 'st core \<Rightarrow> 'st core" where
  "bcastCommit e rep i c = with_lb rep i (\<lambda>lb. do {
     ps \<leftarrow> peers e c;
     Some (Broadcast (Some ps) (c_n c - 1) (Commit (c_id c) rep i (lb_ballot lb) (lb_cmds lb) (lb_seq lb) (lb_deps lb)))
   }) c"

subsection \<open>Recovery schedule\<close>

definition recoveryKey :: "int \<Rightarrow> int \<Rightarrow> 64 word" where
  "recoveryKey rep i = push_bit 32 (ucast (word_of_int rep :: 32 word)) OR ucast (word_of_int i :: 32 word)"

definition key_owner :: "64 word \<Rightarrow> int" where
  "key_owner k = sint (ucast (drop_bit 32 k) :: 32 word)"

definition key_slot :: "64 word \<Rightarrow> int" where
  "key_slot k = sint (ucast k :: 32 word)"

definition scheduleRecovery :: "int \<Rightarrow> int \<Rightarrow> time \<Rightarrow> 'st core \<Rightarrow> 'st core \<times> bool" where
  "scheduleRecovery rep i now c =
     (let k = recoveryKey rep i; attempt = mget (c_recoveryAttempts c) k
      in if (case attempt of Some a \<Rightarrow> now < ra_nextAttempt a | None \<Rightarrow> False) then (c, False)
      else
        let backoff = (case attempt of
              Some a \<Rightarrow> if ra_backoff a * 2 > MAX_RECOVERY_BACKOFF then MAX_RECOVERY_BACKOFF else ra_backoff a * 2
            | None \<Rightarrow> INITIAL_RECOVERY_BACKOFF);
            c = c\<lparr>c_recoveryAttempts := mput k \<lparr>ra_nextAttempt = now + backoff, ra_backoff = backoff\<rparr> (c_recoveryAttempts c)\<rparr>
        in if int (length (c_instancesToRecover c)) < CHAN_BUFFER_SIZE
           then (c\<lparr>c_instancesToRecover := c_instancesToRecover c @ [(rep, i)]\<rparr>, True)
           else (c, False))"

definition clearRecovery :: "int \<Rightarrow> int \<Rightarrow> 'st core \<Rightarrow> 'st core" where
  "clearRecovery rep i c = c\<lparr>c_recoveryAttempts := mdel (recoveryKey rep i) (c_recoveryAttempts c)\<rparr>"

definition recoveryCoordinator :: "'st env \<Rightarrow> int \<Rightarrow> 'st core \<Rightarrow> int" where
  "recoveryCoordinator e owner c =
     (if peerAlive e owner then owner
      else case find (peerAlive e) [0..c_n c - 1] of Some i \<Rightarrow> i | None \<Rightarrow> c_id c)"

definition blockedOn :: "'st env \<Rightarrow> int \<Rightarrow> int \<Rightarrow> time \<Rightarrow> 'st core \<Rightarrow> 'st core option" where
  "blockedOn e owner slot now c = do {
     crt \<leftarrow> slice_get (c_crtInstance c) owner;
     let c = (if slot > crt then c\<lparr>c_crtInstance := (c_crtInstance c)[nat owner := slot]\<rparr> else c);
     let k = recoveryKey owner slot;
     case mget (c_blocked c) k of
       None \<Rightarrow> Some (c\<lparr>c_blocked := mput k now (c_blocked c)\<rparr>)
     | Some first \<Rightarrow>
         if time_sub now first < COMMIT_GRACE_PERIOD then Some c
         else
           let c = c\<lparr>c_blocked := mput k now (c_blocked c)\<rparr>;
               target = recoveryCoordinator e owner c
           in Some (if target = c_id c then fst (scheduleRecovery owner slot now c)
                else emit (Send target (RepairRequest owner slot)) c)
   }"

subsection \<open>Proposing\<close>

definition beginProposalBatch :: "int \<Rightarrow> 'st core \<Rightarrow> ('st core \<times> int) option" where
  "beginProposalBatch proposalQueue c = do {
     let batchSize = (if proposalQueue + 1 > maxBatchCommands c then maxBatchCommands c else proposalQueue + 1);
     crt \<leftarrow> slice_get (c_crtInstance c) (c_id c);
     Some (c\<lparr>c_crtInstance := (c_crtInstance c)[nat (c_id c) := int32 (crt + 1)]\<rparr>, batchSize)
   }"

definition cmds_of :: "commands \<Rightarrow> command list" where
  "cmds_of cmds = (case cmds of None \<Rightarrow> [] | Some cs \<Rightarrow> cs)"

definition raise_crt :: "int \<Rightarrow> int \<Rightarrow> 'st core \<Rightarrow> 'st core option" where
  "raise_crt rep i c = do {
     crt \<leftarrow> slice_get (c_crtInstance c) rep;
     Some (if i > crt then c\<lparr>c_crtInstance := (c_crtInstance c)[nat rep := i]\<rparr> else c)
   }"

definition startPhase1 :: "'st env \<Rightarrow> commands \<Rightarrow> int \<Rightarrow> int \<Rightarrow> int \<Rightarrow> proposal list option \<Rightarrow> 'st core \<Rightarrow> 'st core option" where
  "startPhase1 e cmds rep i ballot ps c = do {
     let c = c\<lparr>c_active := mput (rep, i) True (c_active c)\<rparr>;
     c \<leftarrow> raise_crt rep i c;
     deps \<leftarrow> slice_set (newNilDeps c) rep (int32 (i - 1));
     (sq, deps, _) \<leftarrow> updateAttributes (cmds_of cmds) 0 deps rep i c;
     let lb = (newLeaderBookkeeping e c ps deps (newNilDeps c) deps ballot cmds PREACCEPTED sq)\<lparr>lb_preparing := False\<rparr>;
     let x = (newInstance cmds ballot ballot PREACCEPTED sq deps)\<lparr>i_lb := Some lb\<rparr>;
     _ \<leftarrow> inst_at rep i c;
     let c = put_inst rep i x c;
     c \<leftarrow> updateConflicts (cmds_of cmds) rep i sq c;
     let c = (if sq \<ge> c_maxSeq c then c\<lparr>c_maxSeq := sq\<rparr> else c);
     Some (bcastPreAccept e rep i c)
   }"

definition submit :: "'st env \<Rightarrow> proposal list \<Rightarrow> 'st core \<Rightarrow> 'st core option" where
  "submit e ps c = do {
     crt \<leftarrow> slice_get (c_crtInstance c) (c_id c);
     startPhase1 e (Some (map pr_Command ps)) (c_id c) crt (c_id c) (Some ps) c
   }"

subsection \<open>The normal case\<close>

definition raise_ballot :: "int \<Rightarrow> 'st core \<Rightarrow> 'st core" where
  "raise_ballot b c = (if b > c_maxRecvBallot c then c\<lparr>c_maxRecvBallot := b\<rparr> else c)"

text \<open>An empty cell is filled with the default instance before it is used.\<close>

definition fetch_inst :: "int \<Rightarrow> int \<Rightarrow> 'st core \<Rightarrow> (inst \<times> 'st core) option" where
  "fetch_inst rep i c = do {
     x \<leftarrow> inst_at rep i c;
     Some (case x of Some y \<Rightarrow> (y, c) | None \<Rightarrow> (newInstanceDefault, put_inst rep i newInstanceDefault c))
   }"

definition preAccept_reply :: "int \<Rightarrow> int \<Rightarrow> int \<Rightarrow> inst \<Rightarrow> 'st core \<Rightarrow> 'st core" where
  "preAccept_reply leader rep i x c = emit (Send leader
     (PreAcceptReply rep i (i_bal x) (i_vbal x) (i_Seq x) (i_Deps x) (c_committedUpTo c) (i_Status x) (c_id c))) c"

definition handlePreAccept :: "int \<Rightarrow> int \<Rightarrow> int \<Rightarrow> int \<Rightarrow> commands \<Rightarrow> int \<Rightarrow> int list \<Rightarrow> 'st core \<Rightarrow> 'st core option" where
  "handlePreAccept leader rep i ballot cmds sq deps c = do {
     let c = (if sq \<ge> c_maxSeq c then c\<lparr>c_maxSeq := int32 (sq + 1)\<rparr> else c);
     c \<leftarrow> raise_crt rep i (raise_ballot ballot c);
     (x, c) \<leftarrow> fetch_inst rep i c;
     if ballot < i_bal x then Some c
     else
       let x = x\<lparr>i_bal := ballot\<rparr>; c = put_inst rep i x c
       in if i_Status x \<ge> ACCEPTED then
         (if i_Cmds x = None
          then do {
            let x = x\<lparr>i_Cmds := cmds\<rparr>;
            c \<leftarrow> updateConflicts (cmds_of cmds) rep i sq (put_inst rep i x c);
            Some (preAccept_reply leader rep i x c)
          }
          else Some (preAccept_reply leader rep i x c))
       else if i_vbal x \<noteq> ballot \<or> i_Status x = NONE_st then do {
         (seq', deps', changed) \<leftarrow> updateAttributes (cmds_of cmds) sq deps rep i c;
         let x = x\<lparr>i_Cmds := cmds, i_Seq := seq', i_Deps := deps', i_vbal := ballot,
               i_Status := (if changed then PREACCEPTED else PREACCEPTED_EQ)\<rparr>;
         c \<leftarrow> updateConflicts (cmds_of cmds) rep i sq (put_inst rep i x c);
         Some (preAccept_reply leader rep i x c)
       }
       else Some (preAccept_reply leader rep i x c)
   }"

fun reply_all :: "proposal list \<Rightarrow> 'st core \<Rightarrow> 'st core" where
  "reply_all [] c = c"
| "reply_all (p # ps) c = reply_all ps (emit (ReplyResult p NIL (-1)) c)"

definition reply_committed :: "'st env \<Rightarrow> bookkeeping \<Rightarrow> 'st core \<Rightarrow> 'st core" where
  "reply_committed e lb c = (case lb_clientProposals lb of
     Some ps \<Rightarrow> if replyAfterExecution e then c else reply_all ps c
   | None \<Rightarrow> c)"

text \<open>The instance takes the attributes of the bookkeeping and the status \<open>st\<close>.\<close>

definition adopt_lb :: "int \<Rightarrow> bookkeeping \<Rightarrow> inst \<Rightarrow> inst" where
  "adopt_lb st lb x = x\<lparr>i_lb := Some (lb\<lparr>lb_status := st\<rparr>), i_Status := st, i_bal := lb_ballot lb, i_Cmds := lb_cmds lb,
     i_Deps := lb_deps lb, i_Seq := lb_seq lb\<rparr>"

definition merge_committed :: "'st core \<Rightarrow> inst \<Rightarrow> int list \<Rightarrow> bookkeeping \<Rightarrow> (bookkeeping \<times> bool) option" where
  "merge_committed c x cd lb =
     (let n = nat (c_n c) in
      if \<not> c_n c > 7 then Some (lb, True)
      else if length (lb_committedDeps lb) < n \<or> length cd < n \<or> length (c_committedUpTo c) < n \<or> length (i_Deps x) < n then None
      else
        let cds = map2 max (map2 max (take n (lb_committedDeps lb)) (take n cd)) (take n (c_committedUpTo c))
        in Some (lb\<lparr>lb_committedDeps := cds @ drop n (lb_committedDeps lb)\<rparr>,
             \<not> list_ex (\<lambda>(a, b). a < b) (zip cds (take n (i_Deps x)))))"

definition handlePreAcceptReply ::
  "'st env \<Rightarrow> int \<Rightarrow> int \<Rightarrow> int \<Rightarrow> int \<Rightarrow> int \<Rightarrow> int list \<Rightarrow> int list \<Rightarrow> int \<Rightarrow> int \<Rightarrow> 'st core \<Rightarrow> 'st core option" where
  "handlePreAcceptReply e rep i ballot vballot sq deps cd status acceptor c = do {
     x \<leftarrow> inst_at rep i c;
     case x of
       None \<Rightarrow> Some c
     | Some x \<Rightarrow> (case i_lb x of
         None \<Rightarrow> Some c
       | Some lb \<Rightarrow>
          if lb_preparing lb \<or> lb_tryingToPreAccept lb \<or> i_bal x \<noteq> lb_lastTriedBallot lb then Some c
          else
            let c = raise_ballot ballot c in
            if lb_lastTriedBallot lb > ballot then Some c
            else if lb_lastTriedBallot lb < ballot then
              (let lb = lb\<lparr>lb_nacks := lb_nacks lb + 1\<rparr>; c = put_inst rep i (x\<lparr>i_lb := Some lb\<rparr>) c
               in if lb_nacks lb + 1 > c_n c div 2 \<and> c_isLeader c
                  then do { c \<leftarrow> makeBallot rep i c; Some (bcastPrepare rep i c) } else Some c)
            else if lb_status lb \<noteq> PREACCEPTED \<and> lb_status lb \<noteq> PREACCEPTED_EQ then Some c
            else if acceptor < 0 \<or> acceptor \<ge> c_n c \<or> \<not> snd (Add (lb_preVoters lb) acceptor) then Some c
            else do {
              let lb = lb\<lparr>lb_preVoters := fst (Add (lb_preVoters lb) acceptor), lb_preAcceptOKs := lb_preAcceptOKs lb + 1\<rparr>;
              let lb = (if vballot > lb_ballot lb
                    then lb\<lparr>lb_ballot := vballot, lb_seq := sq, lb_deps := deps, lb_status := status\<rparr> else lb);
              (mseq, mdeps, same) \<leftarrow> mergeAttributes (c_n c) (lb_seq lb) (lb_deps lb) sq deps;
              let lb = lb\<lparr>lb_deps := mdeps\<rparr>;
              let lb = (if c_n c \<le> 3 \<and> c_thrifty c then lb else lb\<lparr>lb_allEqual := lb_allEqual lb \<and> same\<rparr>);
              (lb, allCommitted) \<leftarrow> merge_committed c x cd lb;
              let lb = (if lb_status lb \<le> PREACCEPTED_EQ then lb\<lparr>lb_seq := mseq\<rparr> else lb);
              let precondition = (lb_allEqual lb \<and> allCommitted \<and> isInitialBallot (lb_lastTriedBallot lb) rep);
              if lb_preAcceptOKs lb \<ge> FastQuorumSize c - 1 \<and> precondition
              then do {
                let c = put_inst rep i (adopt_lb COMMITTED lb x) c;
                c \<leftarrow> updateCommitted rep c;
                Some (bcastCommit e rep i (reply_committed e lb (clearRecovery rep i c)))
              }
              else if lb_preAcceptOKs lb \<ge> go_div (c_n c) 2 \<and> (\<not> precondition \<or> \<not> fastQuorumAvailable e c)
              then Some (bcastAccept e rep i (put_inst rep i (adopt_lb ACCEPTED lb x) c))
              else Some (put_inst rep i (x\<lparr>i_lb := Some lb\<rparr>) c)
            })
   }"

definition handleAccept :: "int \<Rightarrow> int \<Rightarrow> int \<Rightarrow> int \<Rightarrow> int \<Rightarrow> int list \<Rightarrow> commands \<Rightarrow> 'st core \<Rightarrow> 'st core option" where
  "handleAccept leader rep i ballot sq deps cmds c = do {
     c \<leftarrow> raise_crt rep i (raise_ballot ballot c);
     (x, c) \<leftarrow> fetch_inst rep i c;
     (x, c) \<leftarrow> (if ballot < i_bal x \<or> i_Status x \<ge> COMMITTED then Some (x, c)
       else do {
         let x = x\<lparr>i_Deps := deps, i_Seq := sq, i_bal := ballot, i_vbal := ballot, i_Status := ACCEPTED, i_Cmds := cmds\<rparr>;
         c \<leftarrow> updateConflicts (cmds_of cmds) rep i sq (put_inst rep i x c);
         Some (x, c)
       });
     Some (emit (Send leader (AcceptReply rep i (i_bal x) (c_id c))) c)
   }"

definition handleAcceptReply :: "'st env \<Rightarrow> int \<Rightarrow> int \<Rightarrow> int \<Rightarrow> int \<Rightarrow> 'st core \<Rightarrow> 'st core option" where
  "handleAcceptReply e rep i ballot acceptor c = do {
     x \<leftarrow> inst_at rep i c;
     case x of
       None \<Rightarrow> Some c
     | Some x \<Rightarrow> (case i_lb x of
         None \<Rightarrow> Some c
       | Some lb \<Rightarrow>
          if lb_preparing lb \<or> i_bal x \<noteq> lb_lastTriedBallot lb then Some c
          else
            let c = raise_ballot ballot c in
            if lb_status lb \<noteq> ACCEPTED \<or> lb_lastTriedBallot lb \<noteq> ballot then Some c
            else if acceptor < 0 \<or> acceptor \<ge> c_n c \<or> \<not> snd (Add (lb_acceptVoters lb) acceptor) then Some c
            else
              let lb = lb\<lparr>lb_acceptVoters := fst (Add (lb_acceptVoters lb) acceptor), lb_acceptOKs := lb_acceptOKs lb + 1\<rparr>
              in if lb_acceptOKs lb + 1 > go_div (c_n c) 2
                 then do {
                   let c = put_inst rep i (x\<lparr>i_lb := Some (lb\<lparr>lb_status := COMMITTED\<rparr>), i_Status := COMMITTED\<rparr>) c;
                   c \<leftarrow> updateCommitted rep c;
                   Some (bcastCommit e rep i (reply_committed e lb (clearRecovery rep i c)))
                 }
                 else Some (put_inst rep i (x\<lparr>i_lb := Some lb\<rparr>) c))
   }"

fun requeue_all :: "proposal list \<Rightarrow> 'st core \<Rightarrow> 'st core" where
  "requeue_all [] c = c"
| "requeue_all (p # ps) c = requeue_all ps (emit (RequeueProposal p) c)"

definition handleCommit :: "int \<Rightarrow> int \<Rightarrow> int \<Rightarrow> commands \<Rightarrow> int \<Rightarrow> int list \<Rightarrow> 'st core \<Rightarrow> 'st core option" where
  "handleCommit rep i ballot cmds sq deps c = do {
     _ \<leftarrow> inst_at rep i c;
     c \<leftarrow> raise_crt rep i c;
     let c = raise_ballot ballot c;
     (x, c) \<leftarrow> fetch_inst rep i c;
     if i_Status x \<ge> COMMITTED then Some c
     else do {
       let (x, c) = (if rep = c_id c \<and> map Op (cmds_of cmds) = [NONE]
             then (case i_lb x of
                 Some lb \<Rightarrow> (case lb_clientProposals lb of
                     Some ps \<Rightarrow> (x\<lparr>i_lb := Some (lb\<lparr>lb_clientProposals := None\<rparr>)\<rparr>, requeue_all ps c)
                   | None \<Rightarrow> (x, c))
               | None \<Rightarrow> (x, c))
             else (x, c));
       let x = x\<lparr>i_bal := (if i_bal x < ballot then ballot else i_bal x), i_vbal := ballot, i_Cmds := cmds, i_Seq := sq,
             i_Deps := deps, i_Status := COMMITTED\<rparr>;
       c \<leftarrow> updateConflicts (cmds_of cmds) rep i sq (put_inst rep i x c);
       c \<leftarrow> updateCommitted rep c;
       Some (clearRecovery rep i c)
     }
   }"

subsection \<open>Recovery\<close>

definition prepare_reply_of :: "int \<Rightarrow> int \<Rightarrow> inst \<Rightarrow> 'st core \<Rightarrow> prepare_reply" where
  "prepare_reply_of rep i x c = \<lparr>pp_AcceptorId = c_id c, pp_Replica = rep, pp_Instance = i, pp_Ballot = i_bal x,
     pp_VBallot = i_vbal x, pp_Status = i_Status x, pp_Command = i_Cmds x, pp_Seq = i_Seq x, pp_Deps = i_Deps x\<rparr>"

definition startRecoveryForInstance :: "'st env \<Rightarrow> int \<Rightarrow> int \<Rightarrow> 'st core \<Rightarrow> 'st core option" where
  "startRecoveryForInstance e rep i c = do {
     let c = c\<lparr>c_active := mput (rep, i) True (c_active c)\<rparr>;
     x \<leftarrow> inst_at rep i c;
     if (case x of Some y \<Rightarrow> i_Status y \<ge> COMMITTED \<and> i_Cmds y \<noteq> None | None \<Rightarrow> False)
     then Some (clearRecovery rep i c)
     else
       let x = (case x of Some y \<Rightarrow> y | None \<Rightarrow> newInstanceDefault);
           ps = (case i_lb x of Some lb \<Rightarrow> lb_clientProposals lb | None \<Rightarrow> None);
           lb = (newLeaderBookkeepingDefault e c)\<lparr>lb_clientProposals := ps, lb_ballot := i_vbal x, lb_seq := i_Seq x,
                 lb_cmds := i_Cmds x, lb_deps := i_Deps x, lb_status := i_Status x,
                 lb_lastTriedBallot := nextBallot (i_bal x) c\<rparr>;
           x = x\<lparr>i_bal := lb_lastTriedBallot lb\<rparr>;
           lb = lb\<lparr>lb_prepareVoters := fst (Add 0 (c_id c)), lb_prepareReplies := [prepare_reply_of rep i x c],
                 lb_leaderResponded := (c_id c = rep)\<rparr>
       in Some (bcastPrepare rep i (put_inst rep i (x\<lparr>i_lb := Some lb\<rparr>) c))
   }"

definition handlePrepare :: "int \<Rightarrow> int \<Rightarrow> int \<Rightarrow> int \<Rightarrow> 'st core \<Rightarrow> 'st core option" where
  "handlePrepare leader rep i ballot c = do {
     _ \<leftarrow> inst_at rep i c;
     let c = raise_ballot ballot c;
     (x, c) \<leftarrow> fetch_inst rep i c;
     let x = (if i_bal x < ballot then x\<lparr>i_bal := ballot\<rparr> else x);
     Some (emit (Send leader (PrepareReplyMsg (prepare_reply_of rep i x c))) (put_inst rep i x c))
   }"

text \<open>The strongest evidence among the replies; the loop ends at the first committed reply.\<close>

fun choose_reply :: "int \<Rightarrow> prepare_reply list \<Rightarrow> prepare_reply option \<times> bool \<Rightarrow> prepare_reply option \<times> bool" where
  "choose_reply rep [] st = st"
| "choose_reply rep (r # rs) (chosen, responded) =
     (let responded = (responded \<or> pp_AcceptorId r = rep)
      in if pp_Status r \<ge> COMMITTED then (Some r, responded)
      else if pp_Status r = NONE_st then choose_reply rep rs (chosen, responded)
      else choose_reply rep rs
        (case chosen of
           None \<Rightarrow> Some r
         | Some b \<Rightarrow> if pp_VBallot r > pp_VBallot b \<or> pp_VBallot r = pp_VBallot b \<and> pp_Status r > pp_Status b then Some r else chosen,
         responded))"

definition sameCommands :: "commands \<Rightarrow> commands \<Rightarrow> bool" where
  "sameCommands a b \<longleftrightarrow> cmds_of a = cmds_of b"

definition pre_accepted :: "int \<Rightarrow> bool" where
  "pre_accepted st \<longleftrightarrow> st = PREACCEPTED \<or> st = PREACCEPTED_EQ"

definition same_reply :: "prepare_reply \<Rightarrow> prepare_reply \<Rightarrow> bool" where
  "same_reply b r \<longleftrightarrow> pp_VBallot r = pp_VBallot b \<and> pp_Seq r = pp_Seq b \<and> pp_Deps r = pp_Deps b \<and> sameCommands (pp_Command r) (pp_Command b)"

fun conflict_scan :: "'st core \<Rightarrow> command list \<Rightarrow> int \<Rightarrow> int \<Rightarrow> int \<Rightarrow> int list \<Rightarrow> int \<Rightarrow> int list \<Rightarrow> (int \<times> int) option option" where
  "conflict_scan c cmds rep i sq deps q [] = Some None"
| "conflict_scan c cmds rep i sq deps q (j # js) =
     (if j = -1 then conflict_scan c cmds rep i sq deps q js
      else if rep = q \<and> i = j then Some None
      else do {
        dq \<leftarrow> slice_get deps q;
        if j = dq then conflict_scan c cmds rep i sq deps q js
        else do {
          x \<leftarrow> inst_at q j c;
          case x of
            None \<Rightarrow> conflict_scan c cmds rep i sq deps q js
          | Some y \<Rightarrow>
             if cmds_of (i_Cmds y) = [] then conflict_scan c cmds rep i sq deps q js
             else do {
               dr \<leftarrow> slice_get (i_Deps y) rep;
               if dr \<ge> i then conflict_scan c cmds rep i sq deps q js
               else do {
                 hit \<leftarrow> ConflictBatch (cmds_of (i_Cmds y)) cmds;
                 if hit \<and> (j > dq \<or> j < dq \<and> i_Seq y \<ge> sq \<and> (q \<noteq> rep \<or> i_Status y > PREACCEPTED_EQ))
                 then Some (Some (q, j))
                 else conflict_scan c cmds rep i sq deps q js
               }
             }
        }
      })"

fun conflict_rows :: "'st core \<Rightarrow> command list \<Rightarrow> int \<Rightarrow> int \<Rightarrow> int \<Rightarrow> int list \<Rightarrow> int list \<Rightarrow> (int \<times> int) option option" where
  "conflict_rows c cmds rep i sq deps [] = Some None"
| "conflict_rows c cmds rep i sq deps (q # qs) = do {
     lo \<leftarrow> slice_get (c_executedUpTo c) q;
     hi \<leftarrow> slice_get (c_crtInstance c) q;
     r \<leftarrow> conflict_scan c cmds rep i sq deps q [lo..hi];
     case r of Some p \<Rightarrow> Some (Some p) | None \<Rightarrow> conflict_rows c cmds rep i sq deps qs
   }"

definition findPreAcceptConflicts :: "command list \<Rightarrow> int \<Rightarrow> int \<Rightarrow> int \<Rightarrow> int list \<Rightarrow> 'st core \<Rightarrow> (int \<times> int) option option" where
  "findPreAcceptConflicts cmds rep i sq deps c = do {
     x \<leftarrow> inst_at rep i c;
     case x of
       Some y \<Rightarrow>
         if cmds_of (i_Cmds y) \<noteq> [] \<and> i_Status y \<ge> ACCEPTED then Some (Some (rep, i))
         else if cmds_of (i_Cmds y) \<noteq> [] \<and> i_Seq y = sq \<and> i_Deps y = deps then Some None
         else conflict_rows c cmds rep i sq deps [0..c_n c - 1]
     | None \<Rightarrow> conflict_rows c cmds rep i sq deps [0..c_n c - 1]
   }"

definition updateDeferred :: "int \<Rightarrow> int \<Rightarrow> int \<Rightarrow> int \<Rightarrow> 'st core \<Rightarrow> 'st core" where
  "updateDeferred dr di r i c = c\<lparr>c_deferMap :=
     mput (push_bit 32 (word_of_int r) OR word_of_int i) (push_bit 32 (word_of_int dr) OR word_of_int di) (c_deferMap c)\<rparr>"

definition deferredByInstance :: "int \<Rightarrow> int \<Rightarrow> 'st core \<Rightarrow> (int \<times> int) option" where
  "deferredByInstance q i c = map_option (\<lambda>d. (key_owner d, key_slot d))
     (mget (c_deferMap c) (push_bit 32 (word_of_int q) OR word_of_int i))"

text \<open>The end of \<open>handleTryPreAcceptReply\<close>: preventing defer cycles, and deferring the recovery.\<close>

definition try_tail :: "'st env \<Rightarrow> int \<Rightarrow> int \<Rightarrow> int \<Rightarrow> int \<Rightarrow> inst \<Rightarrow> bookkeeping \<Rightarrow> 'st core \<Rightarrow> 'st core option" where
  "try_tail e rep i confRep confInst x lb c =
     (let defer_it = (let lb' = lb\<lparr>lb_tryingToPreAccept := False\<rparr>
            in if lb_tpaReps lb \<ge> SlowQuorumSize c \<and> confRep \<ge> 0
               then Some (put_inst rep i (x\<lparr>i_lb := Some lb'\<rparr>) (updateDeferred rep i confRep confInst c))
               else Some (put_inst rep i (x\<lparr>i_lb := Some lb\<rparr>) c))
      in if int (length (filter Not (take (nat (c_n c)) (lb_possibleQuorum lb)))) = go_div (c_n c) 2
         then (case deferredByInstance rep i c of
             Some (dq, _) \<Rightarrow> do {
               ok \<leftarrow> slice_get (lb_possibleQuorum lb) dq;
               if ok
               then do {
                 c \<leftarrow> makeBallot rep i (put_inst rep i (x\<lparr>i_lb := Some (lb\<lparr>lb_tryingToPreAccept := False\<rparr>)\<rparr>) c);
                 startPhase1 e (lb_cmds lb) rep i (nextBallot (i_bal x) c) (lb_clientProposals lb) c
               }
               else defer_it
             }
           | None \<Rightarrow> defer_it)
         else defer_it)"

definition handleTryPreAcceptReply :: "'st env \<Rightarrow> int \<Rightarrow> int \<Rightarrow> int \<Rightarrow> int \<Rightarrow> int \<Rightarrow> int \<Rightarrow> int \<Rightarrow> int \<Rightarrow> 'st core \<Rightarrow> 'st core option" where
  "handleTryPreAcceptReply e acceptor rep i ballot vballot confRep confInst confStatus c = do {
     _ \<leftarrow> inst_at rep i c;
     (x, c) \<leftarrow> fetch_inst rep i (raise_ballot ballot c);
     case i_lb x of
       None \<Rightarrow> Some c
     | Some lb \<Rightarrow>
        if \<not> lb_tryingToPreAccept lb \<or> ballot \<noteq> lb_lastTriedBallot lb then Some c
        else if acceptor < 0 \<or> acceptor \<ge> c_n c \<or> \<not> snd (Add (lb_preVoters lb) acceptor) then Some c
        else do {
          let lb = lb\<lparr>lb_preVoters := fst (Add (lb_preVoters lb) acceptor), lb_tpaReps := lb_tpaReps lb + 1\<rparr>;
          let good = (vballot = lb_lastTriedBallot lb \<and> confRep < 0);
          lb \<leftarrow> (if good then Some (lb\<lparr>lb_preAcceptOKs := lb_preAcceptOKs lb + 1\<rparr>)
            else do {
              pq \<leftarrow> slice_set (lb_possibleQuorum lb) acceptor False;
              pq \<leftarrow> (if confRep \<ge> 0 \<and> confRep < c_n c then slice_set pq confRep False else Some pq);
              Some (lb\<lparr>lb_nacks := lb_nacks lb + 1, lb_possibleQuorum := pq\<rparr>)
            });
          if good \<and> lb_preAcceptOKs lb \<ge> SlowQuorumSize c
          then
            let lb = lb\<lparr>lb_status := ACCEPTED, lb_tryingToPreAccept := False, lb_acceptOKs := 0\<rparr>;
                x = x\<lparr>i_lb := Some lb, i_Cmds := lb_cmds lb, i_Seq := lb_seq lb, i_Deps := lb_deps lb, i_Status := ACCEPTED,
                      i_vbal := lb_lastTriedBallot lb, i_bal := lb_lastTriedBallot lb\<rparr>
            in Some (bcastAccept e rep i (put_inst rep i x c))
          else
            let lb = lb\<lparr>lb_tpaAccepted := lb_tpaAccepted lb \<or> confStatus \<ge> ACCEPTED\<rparr>
            in if lb_tpaReps lb \<ge> SlowQuorumSize c - 1 \<and> lb_tpaAccepted lb
               then startPhase1 e (lb_cmds lb) rep i (lb_lastTriedBallot lb) (lb_clientProposals lb)
                 (put_inst rep i (x\<lparr>i_lb := Some (lb\<lparr>lb_tryingToPreAccept := False\<rparr>)\<rparr>) c)
               else try_tail e rep i confRep confInst x lb c
        }
   }"

definition handleTryPreAccept :: "'st env \<Rightarrow> int \<Rightarrow> int \<Rightarrow> int \<Rightarrow> int \<Rightarrow> commands \<Rightarrow> int \<Rightarrow> int list \<Rightarrow> 'st core \<Rightarrow> 'st core option" where
  "handleTryPreAccept e leader rep i ballot cmds sq deps c = do {
     (x, c) \<leftarrow> fetch_inst rep i c;
     (x, c, confRep, confInst, confStatus) \<leftarrow>
       (if i_bal x \<le> ballot
        then do {
          let x = x\<lparr>i_bal := ballot\<rparr>;
          let c = put_inst rep i x c;
          r \<leftarrow> findPreAcceptConflicts (cmds_of cmds) rep i sq deps c;
          case r of
            Some (cr, ci) \<Rightarrow> do {
              y \<leftarrow> inst_at cr ci c;
              y \<leftarrow> y;
              Some (x, c, cr, ci, i_Status y)
            }
          | None \<Rightarrow> do {
              c \<leftarrow> raise_crt rep i c;
              let x = x\<lparr>i_Cmds := cmds, i_Seq := sq, i_Deps := deps, i_Status := PREACCEPTED, i_vbal := ballot\<rparr>;
              c \<leftarrow> updateConflicts (cmds_of cmds) rep i sq (put_inst rep i x c);
              Some (x, c, -1, -1, NONE_st)
            }
        }
        else Some (x, c, -1, -1, NONE_st));
     if leader = c_id c
     then handleTryPreAcceptReply e (c_id c) rep i (i_bal x) (i_vbal x) confRep confInst confStatus c
     else Some (emit (Send leader (TryPreAcceptReply (c_id c) rep i (i_bal x) (i_vbal x) confRep confInst confStatus)) c)
   }"

definition handlePrepareReply :: "'st env \<Rightarrow> prepare_reply \<Rightarrow> 'st core \<Rightarrow> 'st core option" where
  "handlePrepareReply e r c = do {
     let rep = pp_Replica r; let i = pp_Instance r;
     x \<leftarrow> inst_at rep i c;
     case x of
       None \<Rightarrow> Some c
     | Some x \<Rightarrow> (case i_lb x of
         None \<Rightarrow> Some c
       | Some lb \<Rightarrow>
          if i_bal x \<noteq> lb_lastTriedBallot lb then Some c
          else
            let c = raise_ballot (pp_Ballot r) c in
            if \<not> lb_preparing lb then Some c
            else if pp_Ballot r \<noteq> lb_lastTriedBallot lb
              then Some (put_inst rep i (x\<lparr>i_lb := Some (lb\<lparr>lb_nacks := lb_nacks lb + 1\<rparr>)\<rparr>) c)
            else if pp_AcceptorId r < 0 \<or> pp_AcceptorId r \<ge> c_n c \<or> \<not> snd (Add (lb_prepareVoters lb) (pp_AcceptorId r)) then Some c
            else
              let lb = lb\<lparr>lb_prepareVoters := fst (Add (lb_prepareVoters lb) (pp_AcceptorId r)),
                    lb_prepareReplies := lb_prepareReplies lb @ [r]\<rparr>
              in if int (length (lb_prepareReplies lb)) < SlowQuorumSize c then Some (put_inst rep i (x\<lparr>i_lb := Some lb\<rparr>) c)
              else
                let (chosen, responded) = choose_reply rep (lb_prepareReplies lb) (None, lb_leaderResponded lb);
                    lb = lb\<lparr>lb_preparing := False, lb_leaderResponded := responded\<rparr>
                in case chosen of
                  None \<Rightarrow> startPhase1 e (Some NOOP) rep i (lb_lastTriedBallot lb) (lb_clientProposals lb)
                    (put_inst rep i (x\<lparr>i_lb := Some lb\<rparr>) c)
                | Some b \<Rightarrow>
                   let lb = lb\<lparr>lb_ballot := pp_VBallot b, lb_cmds := pp_Command b, lb_seq := pp_Seq b, lb_status := pp_Status b, lb_deps := pp_Deps b\<rparr>
                   in if pp_Status b \<ge> COMMITTED
                   then do {
                     c \<leftarrow> handleCommit rep i (pp_VBallot b) (pp_Command b) (pp_Seq b) (pp_Deps b) (put_inst rep i (x\<lparr>i_lb := Some lb\<rparr>) c);
                     Some (emit (Broadcast None (c_n c - 1) (Commit (c_id c) rep i (pp_VBallot b) (pp_Command b) (pp_Seq b) (pp_Deps b))) c)
                   }
                   else
                     let pre = filter (\<lambda>r. pre_accepted (pp_Status r)) (lb_prepareReplies lb);
                         allEqual = list_all (same_reply b) pre;
                         matching = int (length (filter (\<lambda>r. same_reply b r \<and> pp_AcceptorId r \<noteq> rep) pre));
                         initial = isInitialBallot (pp_VBallot b) rep;
                         x = x\<lparr>i_Cmds := lb_cmds lb, i_Seq := lb_seq lb, i_Deps := lb_deps lb, i_Status := pp_Status b, i_vbal := pp_VBallot b\<rparr>
                     in if pp_Status b = ACCEPTED \<or> initial \<and> allEqual \<and> \<not> lb_leaderResponded lb \<and> matching \<ge> go_div (c_n c) 2
                     then
                       let lb = lb\<lparr>lb_status := ACCEPTED, lb_ballot := lb_lastTriedBallot lb\<rparr>
                       in Some (bcastAccept e rep i (put_inst rep i (x\<lparr>i_lb := Some lb, i_Status := ACCEPTED, i_vbal := lb_lastTriedBallot lb\<rparr>) c))
                     else if initial \<and> allEqual \<and> \<not> lb_leaderResponded lb \<and> matching \<ge> go_div (c_f c + 1) 2
                     then
                       let lb = lb\<lparr>lb_tryingToPreAccept := True, lb_preAcceptOKs := 0, lb_tpaReps := 0, lb_preVoters := 0\<rparr>;
                           c = bcastTryPreAccept rep i (put_inst rep i (x\<lparr>i_lb := Some lb\<rparr>) c)
                       in handleTryPreAccept e (c_id c) rep i (lb_lastTriedBallot lb) (lb_cmds lb) (lb_seq lb) (lb_deps lb) c
                     else startPhase1 e (lb_cmds lb) rep i (lb_lastTriedBallot lb) (lb_clientProposals lb)
                       (put_inst rep i (x\<lparr>i_lb := Some lb\<rparr>) c))
   }"

definition handleRepairRequest :: "'st env \<Rightarrow> int \<Rightarrow> int \<Rightarrow> 'st core \<Rightarrow> 'st core option" where
  "handleRepairRequest e owner slot c =
     (if owner < 0 \<or> owner \<ge> c_n c \<or> slot < 0 \<or> slot \<ge> MAX_INSTANCE then Some c
      else do {
        x \<leftarrow> inst_at owner slot c;
        case x of
          Some y \<Rightarrow>
            if i_Status y \<ge> COMMITTED \<and> i_Cmds y \<noteq> None
            then Some (emit (Broadcast None (c_n c - 1) (Commit (c_id c) owner slot (i_vbal y) (i_Cmds y) (i_Seq y) (i_Deps y))) c)
            else Some (if recoveryCoordinator e owner c = c_id c then fst (scheduleRecovery owner slot (clock e) c) else c)
        | None \<Rightarrow> Some (if recoveryCoordinator e owner c = c_id c then fst (scheduleRecovery owner slot (clock e) c) else c)
      })"

subsection \<open>Repair of gaps\<close>

definition unfinished :: "inst option \<Rightarrow> bool" where
  "unfinished x \<longleftrightarrow> (case x of None \<Rightarrow> True | Some y \<Rightarrow> i_Status y < COMMITTED \<or> i_Cmds y = None)"

fun gap_slots :: "'st env \<Rightarrow> time \<Rightarrow> int \<Rightarrow> int list \<Rightarrow> 'st core \<Rightarrow> 'st core option" where
  "gap_slots e now owner [] c = Some c"
| "gap_slots e now owner (s # ss) c = do {
     x \<leftarrow> inst_at owner s c;
     c \<leftarrow> (if unfinished x then blockedOn e owner s now c else Some c);
     gap_slots e now owner ss c
   }"

fun gap_rows :: "'st env \<Rightarrow> time \<Rightarrow> int list \<Rightarrow> 'st core \<Rightarrow> 'st core option" where
  "gap_rows e now [] c = Some c"
| "gap_rows e now (q # qs) c = do {
     crt \<leftarrow> slice_get (c_crtInstance c) q;
     ex \<leftarrow> slice_get (c_executedUpTo c) q;
     c \<leftarrow> gap_slots e now q [ex + 1..if crt > ex + 256 then ex + 256 else crt] c;
     gap_rows e now qs c
   }"

fun retry_blocked :: "'st env \<Rightarrow> time \<Rightarrow> 64 word list \<Rightarrow> 'st core \<Rightarrow> 'st core option" where
  "retry_blocked e now [] c = Some c"
| "retry_blocked e now (k # ks) c = do {
     x \<leftarrow> inst_at (key_owner k) (key_slot k) c;
     c \<leftarrow> (if \<not> unfinished x then Some (c\<lparr>c_blocked := mdel k (c_blocked c)\<rparr>)
       else blockedOn e (key_owner k) (key_slot k) now c);
     retry_blocked e now ks c
   }"

definition retry_active_one :: "'st env \<Rightarrow> time \<Rightarrow> int \<Rightarrow> int \<Rightarrow> 'st core \<Rightarrow> 'st core option" where
  "retry_active_one e now rep i c = do {
     x \<leftarrow> inst_at rep i c;
     let drop_it = Some (c\<lparr>c_active := mdel (rep, i) (c_active c)\<rparr>);
     case x of
       None \<Rightarrow> drop_it
     | Some x \<Rightarrow> (case i_lb x of
         None \<Rightarrow> drop_it
       | Some lb \<Rightarrow>
          if i_Status x \<ge> COMMITTED then drop_it
          else if i_bal x \<noteq> lb_lastTriedBallot lb \<or> time_sub now (lb_phaseStarted lb) < Second then Some c
          else if \<not> lb_preparing lb \<and> \<not> lb_tryingToPreAccept lb \<and> pre_accepted (lb_status lb) \<and> lb_preAcceptOKs lb \<ge> go_div (c_n c) 2
          then
            let lb1 = lb\<lparr>lb_status := ACCEPTED, lb_ballot := lb_lastTriedBallot lb\<rparr>;
                x = x\<lparr>i_lb := Some lb1, i_Status := ACCEPTED, i_Cmds := lb_cmds lb, i_Seq := lb_seq lb, i_Deps := lb_deps lb,
                      i_vbal := lb_lastTriedBallot lb\<rparr>;
                c = bcastAccept e rep i (put_inst rep i x c)
            in Some (put_inst rep i (x\<lparr>i_lb := Some (lb1\<lparr>lb_phaseStarted := now\<rparr>)\<rparr>) c)
          else if time_sub now (lb_phaseStarted lb) \<ge> COMMIT_GRACE_PERIOD \<and> recoveryCoordinator e rep c = c_id c
          then startRecoveryForInstance e rep i c
          else Some c)
   }"

fun retry_active :: "'st env \<Rightarrow> time \<Rightarrow> instance_id list \<Rightarrow> 'st core \<Rightarrow> 'st core option" where
  "retry_active e now [] c = Some c"
| "retry_active e now (x # xs) c = do { c \<leftarrow> retry_active_one e now (fst x) (snd x) c; retry_active e now xs c }"

definition repairTick :: "'st env \<Rightarrow> time \<Rightarrow> 'st core \<Rightarrow> 'st core option" where
  "repairTick e now c = do {
     c \<leftarrow> (if \<not> now < c_nextGapScan c
       then gap_rows e now [0..c_n c - 1] (c\<lparr>c_nextGapScan := now + 200 * Millisecond\<rparr>)
       else Some c);
     c \<leftarrow> retry_blocked e now (map fst (mrange (order e Loop_blocked) (c_blocked c))) c;
     retry_active e now (map fst (mrange (order e Loop_active) (c_active c))) c
   }"

subsection \<open>Events\<close>

datatype event = Message msg | Beacon | RecoverInstance int int | LeaderCall | OtherEvent

datatype protocol_error = UnsupportedEvent | UnsupportedTimer

definition handleLeaderCall :: "'st core \<Rightarrow> 'st core" where
  "handleLeaderCall c = c\<lparr>c_isLeader := True\<rparr>"

fun receive_msg :: "'st env \<Rightarrow> msg \<Rightarrow> 'st core \<Rightarrow> 'st core option" where
  "receive_msg e (Prepare leader rep i b) c = handlePrepare leader rep i b c"
| "receive_msg e (PreAccept leader rep i b cmds sq deps) c = handlePreAccept leader rep i b cmds sq deps c"
| "receive_msg e (Accept leader rep i b sq deps cmds) c = handleAccept leader rep i b sq deps cmds c"
| "receive_msg e (Commit leader rep i b cmds sq deps) c = handleCommit rep i b cmds sq deps c"
| "receive_msg e (PrepareReplyMsg r) c = handlePrepareReply e r c"
| "receive_msg e (PreAcceptReply rep i b vb sq deps cd st acceptor) c = handlePreAcceptReply e rep i b vb sq deps cd st acceptor c"
| "receive_msg e (AcceptReply rep i b acceptor) c = handleAcceptReply e rep i b acceptor c"
| "receive_msg e (TryPreAccept leader rep i b cmds sq deps) c = handleTryPreAccept e leader rep i b cmds sq deps c"
| "receive_msg e (TryPreAcceptReply acceptor rep i b vb cr ci cs) c = handleTryPreAcceptReply e acceptor rep i b vb cr ci cs c"
| "receive_msg e (RepairRequest owner slot) c = handleRepairRequest e owner slot c"

definition receive :: "'st env \<Rightarrow> event \<Rightarrow> 'st core \<Rightarrow> (protocol_error + 'st core) option" where
  "receive e ev c = (case ev of
     Message m \<Rightarrow> map_option Inr (receive_msg e m c)
   | Beacon \<Rightarrow> Some (Inr (emit ReplyBeacon c))
   | RecoverInstance rep i \<Rightarrow> map_option Inr (startRecoveryForInstance e rep i c)
   | LeaderCall \<Rightarrow> Some (Inr (handleLeaderCall c))
   | OtherEvent \<Rightarrow> Some (Inl UnsupportedEvent))"

end
