(* ===== verification/EpaxosExecute.thy ===== *)
theory EpaxosExecute
  imports EpaxosCore "HOL-Library.Product_Lexorder"
begin

text \<open>
  The execution scheduler of package \<open>epaxos\<close> (\<open>src/epaxos/execute.go\<close>): Tarjan's algorithm over the committed
  instances, which executes each strongly connected component when it is closed. The pointers on the stack
  are the identifiers of the instances. The recursion takes a bound on its depth; \<open>findSCC\<close> passes one more
  than the number of instances, and \<open>EpaxosOrder\<close> shows that it is never reached. \<^const>\<open>None\<close> is a panic.
\<close>

subsection \<open>Executing a component\<close>

fun run_cmds :: "'st env \<Rightarrow> proposal list option \<Rightarrow> nat \<Rightarrow> command list \<Rightarrow> 'st core \<Rightarrow> 'st core option" where
  "run_cmds e ps idx [] c = Some c"
| "run_cmds e ps idx (cmd # cmds) c =
     (if Op cmd = NONE then run_cmds e ps (Suc idx) cmds c
      else case ps of
        Some props \<Rightarrow> do {
          (v, st) \<leftarrow> execute e cmd (c_app c);
          p \<leftarrow> (if idx < length props then Some (props ! idx) else None);
          run_cmds e ps (Suc idx) cmds (emit (ReplyResult p v (-1)) (c\<lparr>c_app := st\<rparr>))
        }
      | None \<Rightarrow>
          if Op cmd = PUT
          then do { (v, st) \<leftarrow> execute e cmd (c_app c); run_cmds e ps (Suc idx) cmds (c\<lparr>c_app := st\<rparr>) }
          else run_cmds e ps (Suc idx) cmds c)"

definition respond_to :: "'st env \<Rightarrow> inst \<Rightarrow> proposal list option" where
  "respond_to e x = (if replyAfterExecution e then (case i_lb x of Some lb \<Rightarrow> lb_clientProposals lb | None \<Rightarrow> None) else None)"

definition run_inst :: "'st env \<Rightarrow> instance_id \<Rightarrow> 'st core \<Rightarrow> 'st core option" where
  "run_inst e v c = do {
     x \<leftarrow> mget (c_space c) v;
     c \<leftarrow> run_cmds e (respond_to e x) 0 (cmds_of (i_Cmds x)) c;
     Some (c\<lparr>c_space := mput v (x\<lparr>i_Status := EXECUTED, i_onStack := False\<rparr>) (c_space c), c_history := c_history c @ [v]\<rparr>)
   }"

fun run_all :: "'st env \<Rightarrow> instance_id list \<Rightarrow> 'st core \<Rightarrow> 'st core option" where
  "run_all e [] c = Some c"
| "run_all e (v # vs) c = do { c \<leftarrow> run_inst e v c; run_all e vs c }"

text \<open>\<open>Less\<close> of \<open>nodeArray\<close> compares sequence numbers, then replicas, then instance numbers.\<close>

definition node_key :: "(instance_id, inst) gomap \<Rightarrow> instance_id \<Rightarrow> int \<times> int \<times> int" where
  "node_key sp v = (case mget sp v of Some x \<Rightarrow> (i_Seq x, fst v, snd v) | None \<Rightarrow> (0, fst v, snd v))"

definition execute_scc :: "'st env \<Rightarrow> nat \<Rightarrow> 'st core \<Rightarrow> 'st core option" where
  "execute_scc e l c = do {
     c \<leftarrow> run_all e (sort_key (node_key (c_space c)) (drop l (c_stack c))) c;
     Some (c\<lparr>c_stack := take l (c_stack c)\<rparr>)
   }"

subsection \<open>The depth-first search\<close>

definition lower :: "instance_id \<Rightarrow> int \<Rightarrow> 'st core \<Rightarrow> 'st core option" where
  "lower v k c = do {
     x \<leftarrow> mget (c_space c) v;
     Some (if k < i_Lowlink x then c\<lparr>c_space := mput v (x\<lparr>i_Lowlink := k\<rparr>) (c_space c)\<rparr> else c)
   }"

text \<open>With \<open>transconf\<close> the code compares the commands of the two instances and ignores the answers; only a panic of
  the comparison remains.\<close>

definition transconf_scan :: "'st core \<Rightarrow> command list \<Rightarrow> command list \<Rightarrow> unit option" where
  "transconf_scan c vs ws =
     (if c_transconf c \<and> list_ex (\<lambda>a. list_ex (\<lambda>b. Conflict a b = None) ws) vs then None else Some ())"

function (sequential) strongconnect :: "nat \<Rightarrow> 'st env \<Rightarrow> instance_id \<Rightarrow> int \<Rightarrow> 'st core \<Rightarrow> (bool \<times> int \<times> 'st core) option"
  and visit_deps :: "nat \<Rightarrow> 'st env \<Rightarrow> instance_id \<Rightarrow> inst \<Rightarrow> int list \<Rightarrow> int \<Rightarrow> 'st core \<Rightarrow> (bool \<times> int \<times> 'st core) option" where
  "strongconnect 0 e v idx c = None"
| "strongconnect (Suc k) e v idx c = (case mget (c_space c) v of
     None \<Rightarrow> None
   | Some x \<Rightarrow>
      let l = length (c_stack c);
          c = c\<lparr>c_space := mput v (x\<lparr>i_Index := idx, i_Lowlink := idx, i_onStack := True\<rparr>) (c_space c), c_stack := c_stack c @ [v]\<rparr>
      in if i_Cmds x = None
         then map_option (\<lambda>c. (False, idx + 1, c)) (blockedOn e (fst v) (snd v) (clock e) c)
         else (case visit_deps k e v x [0..c_n c - 1] (idx + 1) c of
             None \<Rightarrow> None
           | Some (ok, idx, c) \<Rightarrow>
              if \<not> ok then Some (False, idx, c)
              else (case mget (c_space c) v of
                  None \<Rightarrow> None
                | Some y \<Rightarrow>
                   if i_Lowlink y = i_Index y then map_option (\<lambda>c. (True, idx, c)) (execute_scc e l c)
                   else Some (True, idx, c))))"
| "visit_deps k e v x [] idx c = Some (True, idx, c)"
| "visit_deps k e v x (q # qs) idx c = (case slice_get (i_Deps x) q of
     None \<Rightarrow> None
   | Some i \<Rightarrow> (case slice_get (c_executedUpTo c) q of
       None \<Rightarrow> None
     | Some up \<Rightarrow>
        if \<not> i > up then visit_deps k e v x qs idx c
        else (case inst_at q i c of
            None \<Rightarrow> None
          | Some None \<Rightarrow> map_option (\<lambda>c. (False, idx, c)) (blockedOn e q i (clock e) c)
          | Some (Some w) \<Rightarrow>
             if i_Cmds w = None then map_option (\<lambda>c. (False, idx, c)) (blockedOn e q i (clock e) c)
             else (case transconf_scan c (cmds_of (i_Cmds x)) (cmds_of (i_Cmds w)) of
                None \<Rightarrow> None
              | Some _ \<Rightarrow>
                 if i_Status w = EXECUTED then visit_deps k e v x qs idx c
                 else if i_Status w \<noteq> COMMITTED then map_option (\<lambda>c. (False, idx, c)) (blockedOn e q i (clock e) c)
                 else if i_Index w = 0
                 then (case strongconnect k e (q, i) idx c of
                     None \<Rightarrow> None
                   | Some (ok, idx, c) \<Rightarrow>
                      if \<not> ok then Some (False, idx, c)
                      else (case mget (c_space c) (q, i) of
                          None \<Rightarrow> None
                        | Some w \<Rightarrow> (case lower v (i_Lowlink w) c of None \<Rightarrow> None | Some c \<Rightarrow> visit_deps k e v x qs idx c)))
                 else if i_onStack w
                 then (case lower v (i_Index w) c of None \<Rightarrow> None | Some c \<Rightarrow> visit_deps k e v x qs idx c)
                 else visit_deps k e v x qs idx c))))"
  by pat_completeness auto
termination
  by (relation "inv_image (less_than <*lex*> less_than)
      (\<lambda>a. case a of Inl (k, _) \<Rightarrow> (k, 0) | Inr (k, _, _, _, qs, _) \<Rightarrow> (k, Suc (length qs)))") auto

declare strongconnect.simps [simp del] visit_deps.simps [simp del]

definition reset_node :: "instance_id \<Rightarrow> 'st core \<Rightarrow> 'st core" where
  "reset_node v c = (case mget (c_space c) v of
     Some x \<Rightarrow> c\<lparr>c_space := mput v (x\<lparr>i_Index := 0, i_onStack := False\<rparr>) (c_space c)\<rparr> | None \<Rightarrow> c)"

definition findSCC :: "'st env \<Rightarrow> instance_id \<Rightarrow> 'st core \<Rightarrow> (bool \<times> 'st core) option" where
  "findSCC e v c = do {
     (ok, _, c) \<leftarrow> strongconnect (Suc (mlen (c_space c))) e v 1 (c\<lparr>c_stack := []\<rparr>);
     Some (ok, fold reset_node (c_stack c) c)
   }"

definition executeCommand :: "'st env \<Rightarrow> int \<Rightarrow> int \<Rightarrow> 'st core \<Rightarrow> (bool \<times> 'st core) option" where
  "executeCommand e rep i c = do {
     x \<leftarrow> inst_at rep i c;
     case x of
       None \<Rightarrow> Some (False, c)
     | Some y \<Rightarrow>
        if i_Status y = EXECUTED then Some (True, c)
        else if i_Status y \<noteq> COMMITTED then Some (False, c)
        else findSCC e (rep, i) c
   }"

subsection \<open>Applying committed instances\<close>

fun apply_row :: "'st env \<Rightarrow> time \<Rightarrow> int \<Rightarrow> nat \<Rightarrow> 'st core \<Rightarrow> 'st core option" where
  "apply_row e now q 0 c = Some c"
| "apply_row e now q (Suc budget) c = do {
     up \<leftarrow> slice_get (c_executedUpTo c) q;
     crt \<leftarrow> slice_get (c_crtInstance c) q;
     if up + 1 > crt then Some c
     else do {
       x \<leftarrow> inst_at q (up + 1) c;
       if (case x of Some y \<Rightarrow> i_Status y = EXECUTED | None \<Rightarrow> False)
       then apply_row e now q budget (c\<lparr>c_executedUpTo := (c_executedUpTo c)[nat q := up + 1],
              c_blocked := mdel (recoveryKey q (up + 1)) (c_blocked c)\<rparr>)
       else if unfinished x then blockedOn e q (up + 1) now c
       else do {
         (ok, c) \<leftarrow> executeCommand e q (up + 1) c;
         if \<not> ok then Some c else apply_row e now q budget c
       }
     }
   }"

fun apply_rows :: "'st env \<Rightarrow> time \<Rightarrow> int list \<Rightarrow> 'st core \<Rightarrow> 'st core option" where
  "apply_rows e now [] c = Some c"
| "apply_rows e now (q # qs) c = do { c \<leftarrow> apply_row e now q 128 c; apply_rows e now qs c }"

definition apply_all :: "'st env \<Rightarrow> time \<Rightarrow> 'st core \<Rightarrow> 'st core option" where
  "apply_all e now c = apply_rows e now [0..c_n c - 1] c"

datatype tick_kind = Maintenance | Slow | OtherTick

definition tick :: "'st env \<Rightarrow> tick_kind \<Rightarrow> time \<Rightarrow> 'st core \<Rightarrow> (protocol_error + 'st core) option" where
  "tick e kind now c = (case kind of
     Maintenance \<Rightarrow> do {
       c \<leftarrow> repairTick e now c;
       map_option Inr (if executeEnabled e then apply_all e now c else Some c)
     }
   | Slow \<Rightarrow> Some (Inr (emit BeaconTick c))
   | OtherTick \<Rightarrow> Some (Inl UnsupportedTimer))"

end
