(* ===== verification/EpaxosOrder.thy ===== *)
theory EpaxosOrder
  imports EpaxosExecute
begin

text \<open>
  Correctness of the execution scheduler of EPaxos. The committed instances and their dependencies form a graph;
  the scheduler executes its strongly connected components, each after everything it depends on and each in
  the order of the sequence numbers. \<open>WInv\<close> is what holds throughout the search, \<open>post\<close> is what a finished call
  of \<open>strongconnect\<close> guarantees. From this follows that two replicas that agree on the attributes of the
  instances execute dependent instances in the same order, and that a search over committed instances
  finishes and executes them.
\<close>

declare split_paired_All [simp del] split_paired_Ex [simp del]

subsection \<open>Orders of execution\<close>

definition before :: "'a list \<Rightarrow> 'a \<Rightarrow> 'a \<Rightarrow> bool" where
  "before h u v \<longleftrightarrow> (\<exists>i j. i < j \<and> j < length h \<and> h ! i = u \<and> h ! j = v)"

lemma before_in: "before h u v \<Longrightarrow> u \<in> set h \<and> v \<in> set h"
  by (auto simp: before_def)

lemma before_append:
  "before (a @ b) u v \<longleftrightarrow> before a u v \<or> before b u v \<or> u \<in> set a \<and> v \<in> set b"
proof
  assume "before (a @ b) u v"
  then obtain i j where ij: "i < j" "j < length (a @ b)" "(a @ b) ! i = u" "(a @ b) ! j = v" by (auto simp: before_def)
  consider "j < length a" | "i < length a" "length a \<le> j" | "length a \<le> i" by linarith
  then show "before a u v \<or> before b u v \<or> u \<in> set a \<and> v \<in> set b"
  proof cases
    case 1
    then have "before a u v" unfolding before_def using ij by (intro exI [of _ i] exI [of _ j]) (auto simp: nth_append)
    then show ?thesis by simp
  next
    case 2
    then show ?thesis using ij by (auto simp: nth_append)
  next
    case 3
    then have "before b u v" unfolding before_def using ij
      by (intro exI [of _ "i - length a"] exI [of _ "j - length a"]) (auto simp: nth_append)
    then show ?thesis by simp
  qed
next
  assume "before a u v \<or> before b u v \<or> u \<in> set a \<and> v \<in> set b"
  then consider (a) i j where "i < j" "j < length a" "a ! i = u" "a ! j = v" | (b) i j where "i < j" "j < length b" "b ! i = u" "b ! j = v"
    | (c) i j where "i < length a" "a ! i = u" "j < length b" "b ! j = v" by (auto simp: before_def in_set_conv_nth)
  then show "before (a @ b) u v"
  proof cases
    case a
    then show ?thesis unfolding before_def by (intro exI [of _ i] exI [of _ j]) (auto simp: nth_append)
  next
    case b
    then show ?thesis unfolding before_def by (intro exI [of _ "length a + i"] exI [of _ "length a + j"]) auto
  next
    case c
    then show ?thesis unfolding before_def by (intro exI [of _ i] exI [of _ "length a + j"]) (auto simp: nth_append)
  qed
qed

lemma before_total: "u \<in> set h \<Longrightarrow> v \<in> set h \<Longrightarrow> u \<noteq> v \<Longrightarrow> before h u v \<or> before h v u"
  by (auto simp: before_def in_set_conv_nth) (metis linorder_neqE_nat)

lemma before_antisym: "distinct h \<Longrightarrow> before h u v \<Longrightarrow> \<not> before h v u"
  unfolding before_def by (metis distinct_conv_nth less_trans nat_neq_iff)

lemma before_sorted:
  assumes "inj_on key (set xs)" "u \<in> set xs" "v \<in> set xs" "u \<noteq> v" "distinct xs"
  shows "before (sort_key key xs) u v \<longleftrightarrow> key u < (key v :: 'k::linorder)"
proof -
  let ?s = "sort_key key xs"
  have le: "key a \<le> key b" if bf: "before ?s a b" for a b
  proof -
    obtain i j where ij: "i < j" "j < length xs" "?s ! i = a" "?s ! j = b" using bf by (auto simp: before_def)
    have "sorted (map key ?s)" by simp
    then have "map key ?s ! i \<le> map key ?s ! j" using ij by (intro sorted_nth_mono) auto
    then show ?thesis using ij by simp
  qed
  have ne: "key u \<noteq> key v" using assms inj_onD by metis
  have tot: "before ?s u v \<or> before ?s v u" using assms by (intro before_total) auto
  show ?thesis using le [of u v] le [of v u] ne tot by fastforce
qed

text \<open>A history is in order when it is closed under dependencies, an instance comes after everything it depends on,
  and instances that depend on each other come in the order of their keys.\<close>

definition order_ok :: "('a \<times> 'a) set \<Rightarrow> ('a \<Rightarrow> 'k::linorder) \<Rightarrow> 'a list \<Rightarrow> bool" where
  "order_ok G key h \<longleftrightarrow> distinct h \<and> (\<forall>u \<in> set h. \<forall>v. (u, v) \<in> G \<longrightarrow> v \<in> set h) \<and>
     (\<forall>u \<in> set h. \<forall>v. (u, v) \<in> G\<^sup>* \<longrightarrow> u \<noteq> v \<longrightarrow> (if (v, u) \<in> G\<^sup>* then before h u v = (key u < key v) else before h v u))"

lemma closed_reach: "(u, v) \<in> G\<^sup>* \<Longrightarrow> u \<in> X \<Longrightarrow> (\<And>a b. a \<in> X \<Longrightarrow> (a, b) \<in> G \<Longrightarrow> b \<in> X) \<Longrightarrow> v \<in> X"
  by (induction rule: rtrancl_induct) auto

lemma order_ok_Nil [simp]: "order_ok G key []"
  by (simp add: order_ok_def)

lemma order_ok_extend:
  assumes h: "order_ok G key h" and B: "distinct B" "set B \<inter> set h = {}" "inj_on key (set B)"
    and scc: "\<And>u v. u \<in> set B \<Longrightarrow> v \<in> set B \<Longrightarrow> (u, v) \<in> G\<^sup>*"
    and closed: "\<And>u v. u \<in> set B \<Longrightarrow> (u, v) \<in> G \<Longrightarrow> v \<in> set h \<union> set B"
  shows "order_ok G key (h @ sort_key key B)"
  unfolding order_ok_def
proof (intro conjI ballI allI impI)
  let ?s = "sort_key key B"
  show "distinct (h @ ?s)" using h B by (auto simp: order_ok_def)
  have cl: "v \<in> set h" if "(u, v) \<in> G\<^sup>*" "u \<in> set h" for u v
    using closed_reach [OF that] h by (auto simp: order_ok_def)
  have clB: "v \<in> set h \<union> set B" if "(u, v) \<in> G\<^sup>*" "u \<in> set B" for u v
    using closed_reach [OF that(1), of "set h \<union> set B"] that(2) closed h by (auto simp: order_ok_def)
  show "v \<in> set (h @ ?s)" if "u \<in> set (h @ ?s)" "(u, v) \<in> G" for u v
    using that closed h by (auto simp: order_ok_def)
  fix u v
  assume u: "u \<in> set (h @ ?s)" and r: "(u, v) \<in> G\<^sup>*" and ne: "u \<noteq> v"
  show "if (v, u) \<in> G\<^sup>* then before (h @ ?s) u v = (key u < key v) else before (h @ ?s) v u"
  proof (cases "u \<in> set h")
    case True
    then have v: "v \<in> set h" using cl r by blast
    then have nb: "\<not> before ?s u v" "\<not> before ?s v u" "v \<notin> set ?s" using B(2) before_in [of ?s] by auto
    then show ?thesis using h True r ne nb B(2) by (auto simp: order_ok_def before_append)
  next
    case False
    then have uB: "u \<in> set B" using u by simp
    show ?thesis
    proof (cases "v \<in> set h")
      case True
      then have "(v, u) \<notin> G\<^sup>*" using cl [of v u] False by blast
      then show ?thesis using True uB by (simp add: before_append)
    next
      case vh: False
      then have vB: "v \<in> set B" using clB [OF r uB] by blast
      have "\<not> before h u v" using False before_in by fast
      then show ?thesis using scc [OF vB uB] before_sorted [OF B(3) uB vB ne B(1)] False by (simp add: before_append)
    qed
  qed
qed

subsection \<open>The graph of the instances\<close>

definition executed :: "'st core \<Rightarrow> instance_id \<Rightarrow> bool" where
  "executed c v \<longleftrightarrow> (\<exists>x. mget (c_space c) v = Some x \<and> i_Status x = EXECUTED)"

text \<open>The dependency of an instance on a replica's row, as far as it names an instance.\<close>

definition dep_at :: "int list \<Rightarrow> int \<Rightarrow> instance_id option" where
  "dep_at deps q = (case slice_get deps q of Some i \<Rightarrow> if 0 \<le> i then Some (q, i) else None | None \<Rightarrow> None)"

abbreviation dep_of :: "inst \<Rightarrow> int \<Rightarrow> instance_id option" where
  "dep_of x q \<equiv> dep_at (i_Deps x) q"

definition graph :: "'st core \<Rightarrow> (instance_id \<times> instance_id) set" where
  "graph c = {(v, w). \<exists>q. 0 \<le> q \<and> q < c_n c \<and> (\<exists>x. mget (c_space c) v = Some x \<and> dep_of x q = Some w)}"

abbreviation decided :: "inst \<Rightarrow> bool" where
  "decided x \<equiv> i_Status x = COMMITTED \<or> i_Status x = EXECUTED"

text \<open>What a search leaves of an instance: all but the marks, the ballots and the step from committed to executed.\<close>

definition attrs :: "'st core \<Rightarrow> instance_id \<Rightarrow> (commands \<times> int \<times> int list \<times> bookkeeping option \<times> bool) option" where
  "attrs c v = map_option (\<lambda>x. (i_Cmds x, i_Seq x, i_Deps x, i_lb x, decided x)) (mget (c_space c) v)"

definition marks :: "'st core \<Rightarrow> instance_id \<Rightarrow> (int \<times> int \<times> bool) option" where
  "marks c v = map_option (\<lambda>x. (i_Status x, i_Index x, i_onStack x)) (mget (c_space c) v)"

definition num :: "'st core \<Rightarrow> instance_id \<Rightarrow> int" where
  "num c v = (case marks c v of Some (st, i, on) \<Rightarrow> i | None \<Rightarrow> 0)"

definition low :: "'st core \<Rightarrow> instance_id \<Rightarrow> int" where
  "low c v = i_Lowlink (the (mget (c_space c) v))"

lemma graph_cong:
  assumes "c_n c' = c_n c" "\<And>v. attrs c' v = attrs c v"
  shows "graph c' = graph c"
proof -
  have "(\<exists>x. mget (c_space c') v = Some x \<and> dep_of x q = Some w) = (\<exists>x. mget (c_space c) v = Some x \<and> dep_of x q = Some w)" for v q w
    using assms(2) [of v] by (cases "mget (c_space c') v"; cases "mget (c_space c) v") (auto simp: attrs_def)
  then show ?thesis unfolding graph_def assms(1) by simp
qed

lemma node_key_cong:
  assumes "\<And>v. attrs c' v = attrs c v"
  shows "node_key (c_space c') = node_key (c_space c)"
proof
  fix v
  show "node_key (c_space c') v = node_key (c_space c) v"
    using assms [of v] by (auto simp: attrs_def node_key_def map_option_case split: option.splits)
qed

lemma node_key_inj: "inj_on (node_key sp) A"
  by (rule inj_onI) (auto simp: node_key_def prod_eq_iff split: option.splits)

text \<open>The executed instances are the history, in order, and they contain the executed prefixes.\<close>

definition run_ok :: "'st core \<Rightarrow> bool" where
  "run_ok c \<longleftrightarrow> int (length (c_executedUpTo c)) = c_n c \<and> list_all ((\<le>) (-1)) (c_executedUpTo c) \<and>
     (\<forall>q i. 0 \<le> q \<longrightarrow> q < c_n c \<longrightarrow> 0 \<le> i \<longrightarrow> i \<le> c_executedUpTo c ! nat q \<longrightarrow> executed c (q, i)) \<and>
     (\<forall>v. executed c v \<longleftrightarrow> v \<in> set (c_history c)) \<and>
     order_ok (graph c) (node_key (c_space c)) (c_history c)"

text \<open>The instances with an index, apart from the executed ones, are those on the stack, in the order of their indices.\<close>

definition marks_ok :: "int \<Rightarrow> 'st core \<Rightarrow> bool" where
  "marks_ok idx c \<longleftrightarrow> 1 \<le> idx \<and>
     (\<forall>v st i on. marks c v = Some (st, i, on) \<longrightarrow> st \<noteq> EXECUTED \<longrightarrow> (i \<noteq> 0 \<longleftrightarrow> v \<in> set (c_stack c)) \<and> (on \<longleftrightarrow> v \<in> set (c_stack c))) \<and>
     (\<forall>v \<in> set (c_stack c). \<exists>st i on. marks c v = Some (st, i, on) \<and> st = COMMITTED \<and> 0 < i \<and> i < idx) \<and>
     sorted_wrt (\<lambda>u v. num c u < num c v) (c_stack c)"

definition WInv :: "int \<Rightarrow> 'st core \<Rightarrow> bool" where
  "WInv idx c \<longleftrightarrow> run_ok c \<and> marks_ok idx c"

text \<open>What a search step leaves alone: the attributes, the marks of the instances in \<open>A\<close>, and what is executed.\<close>

definition keeps :: "instance_id set \<Rightarrow> 'st core \<Rightarrow> 'st core \<Rightarrow> bool" where
  "keeps A c c' \<longleftrightarrow> c_n c' = c_n c \<and> c_transconf c' = c_transconf c \<and> c_executedUpTo c' = c_executedUpTo c \<and> (\<forall>v. attrs c' v = attrs c v) \<and>
     (\<forall>v. executed c v \<longrightarrow> executed c' v) \<and> (\<forall>u \<in> A. mget (c_space c') u = mget (c_space c) u)"

lemma keeps_self: "keeps A c c"
  by (simp add: keeps_def)

lemma keeps_then: "keeps A a b \<Longrightarrow> keeps B b c \<Longrightarrow> A \<subseteq> B \<Longrightarrow> keeps A a c"
  by (auto simp: keeps_def)

lemma keeps_mono: "keeps A a b \<Longrightarrow> B \<subseteq> A \<Longrightarrow> keeps B a b"
  by (auto simp: keeps_def)

lemma keeps_graph: "keeps A c c' \<Longrightarrow> graph c' = graph c"
  unfolding keeps_def by (rule graph_cong) auto

lemma keeps_num: "keeps A c c' \<Longrightarrow> u \<in> A \<Longrightarrow> num c' u = num c u \<and> low c' u = low c u"
  by (simp add: keeps_def num_def marks_def low_def)

lemma blockedOn_frame:
  assumes "blockedOn e q i now c = Some c'"
  shows "c_space c' = c_space c \<and> c_stack c' = c_stack c \<and> c_history c' = c_history c \<and> c_n c' = c_n c \<and> c_executedUpTo c' = c_executedUpTo c
    \<and> c_transconf c' = c_transconf c \<and> c_app c' = c_app c"
  using assms by (auto simp: blockedOn_def scheduleRecovery_def emit_def Let_def split: Option.bind_splits option.splits if_splits)

lemma WInv_core_cong:
  assumes "c_space c' = c_space c" "c_stack c' = c_stack c" "c_history c' = c_history c" "c_n c' = c_n c" "c_executedUpTo c' = c_executedUpTo c"
  shows "WInv idx c' = WInv idx c"
proof -
  have "executed c' = executed c" "graph c' = graph c" "marks c' = marks c" using assms by (auto simp: executed_def graph_def marks_def fun_eq_iff)
  then show ?thesis unfolding WInv_def run_ok_def marks_ok_def num_def using assms by simp
qed

lemma blockedOn_WInv: "blockedOn e q i now c = Some c' \<Longrightarrow> WInv idx c' = WInv idx c"
  using blockedOn_frame WInv_core_cong by metis

lemma sorted_wrt_distinct: "sorted_wrt (\<lambda>u v. f u < (f v :: int)) xs \<Longrightarrow> distinct xs"
  by (induction xs) auto

lemma WInv_stack_distinct: "WInv idx c \<Longrightarrow> distinct (c_stack c)"
  unfolding WInv_def marks_ok_def by (blast intro: sorted_wrt_distinct)

text \<open>Marks of an instance that is not executed may change freely as far as executions are concerned.\<close>

lemma update_marks:
  assumes "mget (c_space c) v = Some x" "i_Status y = i_Status x" "i_Cmds y = i_Cmds x" "i_Seq y = i_Seq x" "i_Deps y = i_Deps x" "i_lb y = i_lb x"
  shows "attrs (c\<lparr>c_space := mput v y (c_space c)\<rparr>) u = attrs c u" "executed (c\<lparr>c_space := mput v y (c_space c)\<rparr>) u = executed c u"
    "graph (c\<lparr>c_space := mput v y (c_space c)\<rparr>) = graph c" "node_key (mput v y (c_space c)) = node_key (c_space c)"
proof -
  let ?c = "c\<lparr>c_space := mput v y (c_space c)\<rparr>"
  show a: "attrs ?c u = attrs c u" for u using assms by (simp add: attrs_def)
  show "executed ?c u = executed c u" using assms by (auto simp: executed_def)
  show "graph ?c = graph c" by (rule graph_cong) (simp_all add: a)
  show "node_key (mput v y (c_space c)) = node_key (c_space c)" using node_key_cong [of ?c c] a by simp
qed

lemma WInv_stackD:
  assumes "WInv idx c" "u \<in> set (c_stack c)"
  obtains x where "mget (c_space c) u = Some x" "i_Status x = COMMITTED" "0 < i_Index x" "i_Index x < idx" "num c u = i_Index x"
proof -
  obtain x where "mget (c_space c) u = Some x \<and> i_Status x = COMMITTED \<and> 0 < i_Index x \<and> i_Index x < idx"
    using assms unfolding WInv_def marks_ok_def marks_def by fastforce
  then show thesis using that by (simp add: num_def marks_def)
qed

lemma WInv_marksD:
  assumes "WInv idx c" "mget (c_space c) u = Some x" "i_Status x \<noteq> EXECUTED"
  shows "(i_Index x \<noteq> 0 \<longleftrightarrow> u \<in> set (c_stack c)) \<and> (i_onStack x \<longleftrightarrow> u \<in> set (c_stack c))"
proof -
  have "marks c u = Some (i_Status x, i_Index x, i_onStack x)" using assms(2) by (simp add: marks_def)
  then show ?thesis using assms(1,3) unfolding WInv_def marks_ok_def by blast
qed

lemma marks_okD:
  "marks_ok idx c \<Longrightarrow> marks c u = Some (st, i, on) \<Longrightarrow> st \<noteq> EXECUTED \<Longrightarrow> (i \<noteq> 0 \<longleftrightarrow> u \<in> set (c_stack c)) \<and> (on \<longleftrightarrow> u \<in> set (c_stack c))"
  unfolding marks_ok_def by blast

lemma WInv_not_executed: "WInv idx c \<Longrightarrow> u \<in> set (c_stack c) \<Longrightarrow> \<not> executed c u"
  by (erule (1) WInv_stackD) (simp add: executed_def status_defs)

lemma WInv_order: "WInv idx c \<Longrightarrow> order_ok (graph c) (node_key (c_space c)) (c_history c)"
  by (simp add: WInv_def run_ok_def)

lemma WInv_history: "WInv idx c \<Longrightarrow> v \<in> set (c_history c) \<longleftrightarrow> executed c v"
  unfolding WInv_def run_ok_def by blast

lemma WInv_num_below: "WInv idx c \<Longrightarrow> c_stack c = S @ v # U \<Longrightarrow> z \<in> set S \<Longrightarrow> num c z < num c v"
  unfolding WInv_def marks_ok_def by (simp add: sorted_wrt_append)

lemma WInv_num_above: "WInv idx c \<Longrightarrow> c_stack c = S @ v # U \<Longrightarrow> z \<in> set U \<Longrightarrow> num c v < num c z"
  unfolding WInv_def marks_ok_def by (simp add: sorted_wrt_append)

lemma WInv_num_idx: "WInv idx c \<Longrightarrow> u \<in> set (c_stack c) \<Longrightarrow> num c u < idx"
  by (erule (1) WInv_stackD) simp

subsection \<open>Pushing, lowering and executing\<close>

definition push :: "instance_id \<Rightarrow> int \<Rightarrow> inst \<Rightarrow> 'st core \<Rightarrow> 'st core" where
  "push v idx x c = c\<lparr>c_space := mput v (x\<lparr>i_Index := idx, i_Lowlink := idx, i_onStack := True\<rparr>) (c_space c), c_stack := c_stack c @ [v]\<rparr>"

lemma push_facts:
  assumes "mget (c_space c) v = Some x"
  shows "attrs (push v idx x c) u = attrs c u" "executed (push v idx x c) u = executed c u" "graph (push v idx x c) = graph c"
    "node_key (c_space (push v idx x c)) = node_key (c_space c)"
    "num (push v idx x c) u = (if u = v then idx else num c u)" "low (push v idx x c) u = (if u = v then idx else low c u)"
proof -
  show a: "attrs (push v idx x c) u = attrs c u" for u using assms by (simp add: attrs_def push_def)
  show "executed (push v idx x c) u = executed c u" using assms by (auto simp: executed_def push_def)
  show "graph (push v idx x c) = graph c" by (rule graph_cong) (simp_all add: a, simp add: push_def)
  show "node_key (c_space (push v idx x c)) = node_key (c_space c)" by (rule node_key_cong) (rule a)
qed (simp_all add: push_def num_def marks_def low_def)

lemma run_ok_cong:
  assumes "c_n c' = c_n c" "c_executedUpTo c' = c_executedUpTo c" "c_history c' = c_history c" "\<And>v. executed c' v = executed c v"
    "\<And>v. attrs c' v = attrs c v"
  shows "run_ok c' = run_ok c"
  unfolding run_ok_def using assms graph_cong [OF assms(1,5)] node_key_cong [OF assms(5)] by simp

lemma marks_ok_cong: "c_stack c' = c_stack c \<Longrightarrow> marks c' = marks c \<Longrightarrow> marks_ok idx c' = marks_ok idx c"
  by (simp add: marks_ok_def num_def)

lemma push_ok:
  assumes W: "WInv idx c" and v: "mget (c_space c) v = Some x" "i_Status x = COMMITTED" "i_Index x = 0"
  shows "WInv (idx + 1) (push v idx x c) \<and> keeps (set (c_stack c)) c (push v idx x c)"
proof
  have nv: "v \<notin> set (c_stack c)" using W v by (auto elim: WInv_stackD)
  have idx: "1 \<le> idx" using W by (simp add: WInv_def marks_ok_def)
  have P: "c_stack (push v idx x c) = c_stack c @ [v]" "c_n (push v idx x c) = c_n c" "c_executedUpTo (push v idx x c) = c_executedUpTo c"
    "c_history (push v idx x c) = c_history c" "c_transconf (push v idx x c) = c_transconf c" by (simp_all add: push_def)
  have M: "mget (c_space (push v idx x c)) u = (if u = v then Some (x\<lparr>i_Index := idx, i_Lowlink := idx, i_onStack := True\<rparr>) else mget (c_space c) u)" for u
    by (simp add: push_def)
  show "keeps (set (c_stack c)) c (push v idx x c)" unfolding keeps_def using nv P M push_facts [OF v(1)] by auto
  have "sorted_wrt (\<lambda>u w. num (push v idx x c) u < num (push v idx x c) w) (c_stack c)"
    by (rule sorted_wrt_mono_rel [of _ "\<lambda>u w. num c u < num c w"])
      (use W nv in \<open>auto simp: WInv_def marks_ok_def push_facts [OF v(1)]\<close>)
  then have s: "sorted_wrt (\<lambda>u w. num (push v idx x c) u < num (push v idx x c) w) (c_stack c @ [v])"
    using WInv_num_idx [OF W] nv by (auto simp: sorted_wrt_append push_facts [OF v(1)])
  have "run_ok (push v idx x c)" using W run_ok_cong [of "push v idx x c" c] P push_facts [OF v(1)] by (simp add: WInv_def)
  moreover have "marks_ok (idx + 1) (push v idx x c)"
  proof -
    have m: "marks (push v idx x c) u = (if u = v then Some (i_Status x, idx, True) else marks c u)" for u by (simp add: marks_def M)
    have 1: "(i \<noteq> 0 \<longleftrightarrow> u \<in> set (c_stack c @ [v])) \<and> (on \<longleftrightarrow> u \<in> set (c_stack c @ [v]))"
      if "marks (push v idx x c) u = Some (st, i, on)" "st \<noteq> EXECUTED" for u st i on
      using that W idx by (cases "u = v") (auto simp: m WInv_def marks_ok_def)
    have 2: "\<exists>st i on. marks (push v idx x c) u = Some (st, i, on) \<and> st = COMMITTED \<and> 0 < i \<and> i < idx + 1" if "u \<in> set (c_stack c @ [v])" for u
    proof (cases "u = v")
      case True
      then show ?thesis using idx v by (auto simp: m intro: exI [of _ True])
    next
      case False
      then have "\<exists>st i on. marks c u = Some (st, i, on) \<and> st = COMMITTED \<and> 0 < i \<and> i < idx" using W that by (simp add: WInv_def marks_ok_def)
      then obtain st i on where "marks c u = Some (st, i, on)" "st = COMMITTED" "0 < i" "i < idx" by blast
      then show ?thesis using False by (simp add: m)
    qed
    show ?thesis unfolding marks_ok_def P using 1 2 s idx by simp
  qed
  ultimately show "WInv (idx + 1) (push v idx x c)" by (simp add: WInv_def)
qed

lemma lower_ok:
  assumes W: "WInv idx c" and v: "v \<in> set (c_stack c)" and l: "lower v k c = Some c'"
  shows "WInv idx c'" "keeps (- {v}) c c'" "c_stack c' = c_stack c" "num c' u = num c u" "low c' u = (if u = v then min k (low c v) else low c u)"
    "executed c' u = executed c u"
proof -
  obtain x where x: "mget (c_space c) v = Some x" using W v by (elim WInv_stackD)
  then have c': "c' = (if k < i_Lowlink x then c\<lparr>c_space := mput v (x\<lparr>i_Lowlink := k\<rparr>) (c_space c)\<rparr> else c)"
    using l by (auto simp: lower_def)
  let ?d = "c\<lparr>c_space := mput v (x\<lparr>i_Lowlink := k\<rparr>) (c_space c)\<rparr>"
  have up: "attrs ?d u = attrs c u" "executed ?d u = executed c u" for u
    by (rule update_marks [OF x]; simp)+
  have n: "num ?d u = num c u" for u by (simp add: num_def marks_def x)
  have "run_ok ?d = run_ok c" by (rule run_ok_cong) (simp_all add: up)
  moreover have "marks_ok idx ?d = marks_ok idx c" by (rule marks_ok_cong) (auto simp: x marks_def)
  ultimately have "WInv idx ?d = WInv idx c" by (simp add: WInv_def)
  then show "WInv idx c'" using W c' by simp
  show "keeps (- {v}) c c'" using c' up by (auto simp: keeps_def)
  show "c_stack c' = c_stack c" using c' by simp
  show "num c' u = num c u" using c' n by simp
  show "low c' u = (if u = v then min k (low c v) else low c u)" using c' x by (auto simp: low_def)
  show "executed c' u = executed c u" using c' up by simp
qed

lemma run_cmds_frame: "run_cmds e ps k cmds c = Some c' \<Longrightarrow> \<exists>a out. c' = c\<lparr>c_app := a, c_out := out\<rparr>"
proof (induction e ps k cmds c rule: run_cmds.induct)
  case (1 e ps idx c)
  then have "c' = c\<lparr>c_app := c_app c, c_out := c_out c\<rparr>" by simp
  then show ?case by blast
next
  case (2 e ps idx cmd cmds c)
  show ?case
  proof (cases "Op cmd = NONE")
    case True
    then show ?thesis using 2 by simp
  next
    case ne: False
    show ?thesis
    proof (cases ps)
      case None
      show ?thesis
      proof (cases "Op cmd = PUT")
        case True
        then obtain v st where r: "run_cmds e ps (Suc idx) cmds (c\<lparr>c_app := st\<rparr>) = Some c'" "execute e cmd (c_app c) = Some (v, st)"
          using 2(5) ne None by (auto split: Option.bind_splits)
        then show ?thesis using 2(2) [OF ne None True] by fastforce
      next
        case False
        then show ?thesis using 2 ne None by auto
      qed
    next
      case (Some props)
      then obtain v st where r: "execute e cmd (c_app c) = Some (v, st)" "idx < length props"
        "run_cmds e ps (Suc idx) cmds (emit (ReplyResult (props ! idx) v (-1)) (c\<lparr>c_app := st\<rparr>)) = Some c'"
        using 2(5) ne by (auto split: Option.bind_splits if_splits)
      then show ?thesis using 2(4) [OF ne Some r(1) refl, of "props ! idx"] by (fastforce simp: emit_def)
    qed
  qed
qed

definition finish :: "inst \<Rightarrow> inst" where
  "finish x = x\<lparr>i_Status := EXECUTED, i_onStack := False\<rparr>"

lemma finish_simps [simp]: "i_Status (finish x) = EXECUTED" "i_onStack (finish x) = False" "i_Cmds (finish x) = i_Cmds x"
  "i_Seq (finish x) = i_Seq x" "i_Deps (finish x) = i_Deps x" "i_lb (finish x) = i_lb x" "i_Lowlink (finish x) = i_Lowlink x"
  by (simp_all add: finish_def)

lemma run_all_frame:
  assumes "run_all e vs c = Some c'" "distinct vs"
  shows "c_history c' = c_history c @ vs \<and> c_n c' = c_n c \<and> c_executedUpTo c' = c_executedUpTo c \<and> c_transconf c' = c_transconf c \<and>
    c_stack c' = c_stack c \<and> (\<forall>u. mget (c_space c') u = (if u \<in> set vs then map_option finish (mget (c_space c) u) else mget (c_space c) u)) \<and>
    (\<forall>u \<in> set vs. mget (c_space c) u \<noteq> None)"
  using assms
proof (induction vs arbitrary: c)
  case (Cons v vs)
  obtain d where d: "run_inst e v c = Some d" "run_all e vs d = Some c'" using Cons.prems by (auto split: Option.bind_splits)
  then obtain x b where x: "mget (c_space c) v = Some x" "run_cmds e (respond_to e x) 0 (cmds_of (i_Cmds x)) c = Some b"
    "d = b\<lparr>c_space := mput v (finish x) (c_space b), c_history := c_history b @ [v]\<rparr>"
    by (auto simp: run_inst_def finish_def split: Option.bind_splits)
  obtain a out where b: "b = c\<lparr>c_app := a, c_out := out\<rparr>" using run_cmds_frame [OF x(2)] by blast
  have IH: "c_history c' = c_history d @ vs \<and> c_n c' = c_n d \<and> c_executedUpTo c' = c_executedUpTo d \<and> c_transconf c' = c_transconf d \<and>
    c_stack c' = c_stack d \<and> (\<forall>u. mget (c_space c') u = (if u \<in> set vs then map_option finish (mget (c_space d) u) else mget (c_space d) u)) \<and>
    (\<forall>u \<in> set vs. mget (c_space d) u \<noteq> None)" using Cons.IH [OF d(2)] Cons.prems by simp
  have sp: "mget (c_space d) u = (if u = v then Some (finish x) else mget (c_space c) u)" for u by (simp add: x(3) b)
  show ?case
  proof (intro conjI allI ballI)
    show "mget (c_space c') u = (if u \<in> set (v # vs) then map_option finish (mget (c_space c) u) else mget (c_space c) u)" for u
      using IH sp x(1) Cons.prems by auto
    show "mget (c_space c) u \<noteq> None" if "u \<in> set (v # vs)" for u using IH sp x(1) that by (auto split: if_splits)
  qed (use IH in \<open>simp_all add: x(3) b\<close>)
qed simp

lemma execute_scc_ok:
  assumes W: "WInv idx c" and st: "c_stack c = S @ B" and x: "execute_scc e (length S) c = Some c'"
    and scc: "\<And>u v. u \<in> set B \<Longrightarrow> v \<in> set B \<Longrightarrow> (u, v) \<in> (graph c)\<^sup>*"
    and closed: "\<And>u v. u \<in> set B \<Longrightarrow> (u, v) \<in> graph c \<Longrightarrow> executed c v \<or> v \<in> set B"
  shows "WInv idx c'" "keeps (set S) c c'" "c_stack c' = S" "executed c' u \<longleftrightarrow> executed c u \<or> u \<in> set B" "low c' u = low c u"
proof -
  let ?k = "node_key (c_space c)" and ?o = "sort_key (node_key (c_space c)) B"
  have dB: "distinct B" and SB: "set S \<inter> set B = {}" using WInv_stack_distinct [OF W] st by auto
  obtain d where d: "run_all e ?o c = Some d" "c' = d\<lparr>c_stack := take (length S) (c_stack d)\<rparr>"
    using x st by (auto simp: execute_scc_def split: Option.bind_splits)
  have f: "c_history d = c_history c @ ?o \<and> c_n d = c_n c \<and> c_executedUpTo d = c_executedUpTo c \<and> c_transconf d = c_transconf c \<and>
    c_stack d = c_stack c \<and> (\<forall>u. mget (c_space d) u = (if u \<in> set ?o then map_option finish (mget (c_space c) u) else mget (c_space c) u)) \<and>
    (\<forall>u \<in> set ?o. mget (c_space c) u \<noteq> None)" by (rule run_all_frame [OF d(1)]) (simp add: dB)
  have c': "c_history c' = c_history c @ ?o" "c_n c' = c_n c" "c_executedUpTo c' = c_executedUpTo c" "c_transconf c' = c_transconf c" "c_stack c' = S"
    and m: "mget (c_space c') u = (if u \<in> set B then map_option finish (mget (c_space c) u) else mget (c_space c) u)"
    and some: "u \<in> set B \<Longrightarrow> mget (c_space c) u \<noteq> None" for u using f st by (simp_all add: d(2))
  have at: "attrs c' u = attrs c u" for u
  proof (cases "u \<in> set B")
    case True
    then have "u \<in> set (c_stack c)" using st by simp
    with W obtain y where "mget (c_space c) u = Some y" "i_Status y = COMMITTED" by (rule WInv_stackD)
    then show ?thesis using m [of u] by (simp add: attrs_def)
  qed (use m [of u] in \<open>simp add: attrs_def\<close>)
  have ex: "executed c' u \<longleftrightarrow> executed c u \<or> u \<in> set B" for u using some [of u] m [of u] by (auto simp: executed_def)
  have gr: "graph c' = graph c" "node_key (c_space c') = ?k" using graph_cong [OF c'(2) at] node_key_cong [OF at] by auto
  show "keeps (set S) c c'" unfolding keeps_def using c' at ex m SB by auto
  show "c_stack c' = S" "executed c' u \<longleftrightarrow> executed c u \<or> u \<in> set B" for u using c' ex by auto
  show "low c' u = low c u" using m [of u] some [of u] by (cases "mget (c_space c) u") (auto simp: low_def)
  have hB: "set B \<inter> set (c_history c) = {}" using WInv_not_executed [OF W] WInv_history [OF W] st by auto
  have "order_ok (graph c) ?k (c_history c @ ?o)"
    by (rule order_ok_extend) (use WInv_order [OF W] dB hB scc closed WInv_history [OF W] in \<open>auto intro: node_key_inj\<close>)
  then have r: "run_ok c'" using W ex unfolding run_ok_def WInv_def c' gr by auto
  have mk: "marks c' u = marks c u" if "u \<notin> set B" for u using m that by (simp add: marks_def)
  have nB: "\<exists>i on. marks c' u = Some (EXECUTED, i, on)" if "u \<in> set B" for u using m some [OF that] that by (auto simp: marks_def)
  have nS: "num c' u = num c u" if "u \<in> set S" for u
  proof -
    have "u \<notin> set B" using that SB by blast
    then show ?thesis using mk by (simp add: num_def)
  qed
  have "sorted_wrt (\<lambda>u v. num c u < num c v) S" using W st by (simp add: WInv_def marks_ok_def sorted_wrt_append)
  then have s: "sorted_wrt (\<lambda>u v. num c' u < num c' v) S"
    by (rule sorted_wrt_mono_rel [rotated]) (use nS in simp)
  have "marks_ok idx c'" unfolding marks_ok_def c'
  proof (intro conjI allI impI ballI)
    fix u st' i on assume a: "marks c' u = Some (st', i, on)" "st' \<noteq> EXECUTED"
    then have "u \<notin> set B" using nB [of u] by auto
    then show "(i \<noteq> 0) = (u \<in> set S)" "on = (u \<in> set S)" using a mk W st marks_okD [of idx c u st' i on] unfolding WInv_def by auto
  next
    fix u assume u: "u \<in> set S"
    then have "marks c' u = marks c u" using mk SB by blast
    then show "\<exists>st i on. marks c' u = Some (st, i, on) \<and> st = COMMITTED \<and> 0 < i \<and> i < idx" using W st u unfolding WInv_def marks_ok_def by simp
  qed (use s W in \<open>auto simp: WInv_def marks_ok_def\<close>)
  then show "WInv idx c'" using r by (simp add: WInv_def)
qed

subsection \<open>The search\<close>

text \<open>\<open>y\<close> is in the region of \<open>v\<close>: connected with it both ways, its edges stay among the executed instances and the stack,
  and those that lead below the region reach no index under the bound \<open>b\<close>, the low link of \<open>v\<close>.\<close>

definition edge_ok :: "'st core \<Rightarrow> int \<Rightarrow> instance_id set \<Rightarrow> instance_id \<Rightarrow> bool" where
  "edge_ok c b S z \<longleftrightarrow> executed c z \<or> z \<in> set (c_stack c) \<and> (z \<in> S \<longrightarrow> b \<le> num c z)"

definition region :: "'st core \<Rightarrow> instance_id \<Rightarrow> int \<Rightarrow> instance_id set \<Rightarrow> instance_id \<Rightarrow> bool" where
  "region c v b S y \<longleftrightarrow> (y, v) \<in> (graph c)\<^sup>* \<and> (v, y) \<in> (graph c)\<^sup>* \<and> (\<forall>z. (y, z) \<in> graph c \<longrightarrow> edge_ok c b S z)"

definition post :: "instance_id \<Rightarrow> int \<Rightarrow> 'st core \<Rightarrow> 'st core \<Rightarrow> bool" where
  "post v idx c c' \<longleftrightarrow> (\<exists>T. c_stack c' = c_stack c @ T \<and>
     (if T = [] then executed c' v \<and> idx \<le> low c' v
      else v \<in> set T \<and> (\<exists>z \<in> set (c_stack c). num c z = low c' v \<and> (v, z) \<in> (graph c)\<^sup>*)) \<and>
     (\<forall>y \<in> set T. region c' v (low c' v) (set (c_stack c)) y))"

text \<open>The invariant of the loop over the dependencies of \<open>v\<close>, of which the rows \<open>ps\<close> are done.\<close>

definition linv :: "instance_id \<Rightarrow> int list \<Rightarrow> instance_id list \<Rightarrow> int set \<Rightarrow> int \<Rightarrow> 'st core \<Rightarrow> bool" where
  "linv v deps S ps b c \<longleftrightarrow> (\<exists>U. c_stack c = S @ v # U \<and> b \<le> num c v \<and>
     (b = num c v \<or> (\<exists>z \<in> set S. num c z = b \<and> (v, z) \<in> (graph c)\<^sup>*)) \<and>
     (\<forall>y \<in> set U. region c v b (set S) y)) \<and>
     (\<forall>q \<in> ps. \<forall>z. dep_at deps q = Some z \<longrightarrow> edge_ok c b (set S) z) \<and>
     (\<forall>u \<in> set S. (u, v) \<in> (graph c)\<^sup>*) \<and>
     (\<exists>x. mget (c_space c) v = Some x \<and> i_Deps x = deps \<and> i_Status x = COMMITTED)"

lemma linv_insert: "linv v deps S ps b c \<Longrightarrow> (\<And>z. dep_at deps q = Some z \<Longrightarrow> edge_ok c b (set S) z) \<Longrightarrow> linv v deps S (insert q ps) b c"
  unfolding linv_def by simp

lemma linv_edge: "linv v deps S ps b c \<Longrightarrow> dep_at deps q = Some w \<Longrightarrow> 0 \<le> q \<Longrightarrow> q < c_n c \<Longrightarrow> (v, w) \<in> graph c"
  unfolding linv_def graph_def by blast

lemma linv_reach: "linv v deps S ps b c \<Longrightarrow> u \<in> set (c_stack c) \<Longrightarrow> (u, v) \<in> (graph c)\<^sup>*"
  unfolding linv_def region_def by auto

lemma linv_top: "linv v deps S ps b c \<Longrightarrow> v \<in> set (c_stack c)"
  unfolding linv_def by auto

lemma linv_bound: "linv v deps S ps b c \<Longrightarrow> b \<le> num c v"
  unfolding linv_def by auto

lemma edge_ok_mono:
  assumes "edge_ok c b S z" "keeps (set (c_stack c)) c d" "set (c_stack c) \<subseteq> set (c_stack d)" "b' \<le> b"
  shows "edge_ok d b' S z"
  using assms keeps_num [OF assms(2), of z] unfolding edge_ok_def keeps_def by auto

lemma region_mono:
  assumes "region c v b S y" "keeps (set (c_stack c)) c d" "set (c_stack c) \<subseteq> set (c_stack d)" "b' \<le> b"
  shows "region d v b' S y"
  using assms edge_ok_mono [OF _ assms(2,3,4)] keeps_graph [OF assms(2)] unfolding region_def by auto

text \<open>The bound may drop to the index of an instance of the stack that \<open>v\<close> reaches.\<close>

lemma linv_drop:
  assumes L: "linv v deps S ps b c" and W: "WInv idx c" and k: "b' = b \<or> (\<exists>z \<in> set (c_stack c). num c z = b' \<and> (v, z) \<in> (graph c)\<^sup>*)" "b' \<le> b"
  shows "linv v deps S ps b' c"
proof -
  obtain U where U: "c_stack c = S @ v # U" "b \<le> num c v" "\<forall>y \<in> set U. region c v b (set S) y"
    "b = num c v \<or> (\<exists>z \<in> set S. num c z = b \<and> (v, z) \<in> (graph c)\<^sup>*)" using L unfolding linv_def by blast
  have eo: "edge_ok c b (set S) z \<Longrightarrow> edge_ok c b' (set S) z" for z using k(2) unfolding edge_ok_def by auto
  have "\<forall>y \<in> set U. region c v b' (set S) y" using U(3) eo unfolding region_def by blast
  moreover have "b' = num c v \<or> (\<exists>z \<in> set S. num c z = b' \<and> (v, z) \<in> (graph c)\<^sup>*)"
  proof (cases "b' = b")
    case False
    then obtain z where z: "z \<in> set (c_stack c)" "num c z = b'" "(v, z) \<in> (graph c)\<^sup>*" using k(1) by blast
    then have "num c z < num c v" using False k(2) U(2) by simp
    then have "z \<noteq> v" "z \<notin> set U" using WInv_num_above [OF W U(1), of z] by auto
    then have "z \<in> set S" using z(1) U(1) by simp
    then show ?thesis using z by blast
  qed (use U(4) in blast)
  moreover have "b' \<le> num c v" using U(2) k(2) by simp
  ultimately show ?thesis using L eo U(1) unfolding linv_def by blast
qed

lemma linv_lower:
  assumes L: "linv v deps S ps b c" and W: "WInv idx c" and l: "lower v k c = Some c'" and b: "b = min k (low c v)"
  shows "linv v deps S ps b c'" "WInv idx c'" "low c' v = b"
proof -
  note lo = lower_ok [OF W linv_top [OF L] l]
  show "WInv idx c'" "low c' v = b" using lo(1) lo(5) b by auto
  have g: "graph c' = graph c" using lo(2) by (rule keeps_graph)
  have eo: "edge_ok c' b (set S) z = edge_ok c b (set S) z" for z unfolding edge_ok_def lo(3,4,6) by simp
  have at: "attrs c' v = attrs c v" "executed c' v = executed c v" using lo(2,6) unfolding keeps_def by auto
  have "\<exists>x. mget (c_space c') v = Some x \<and> i_Deps x = deps \<and> i_Status x = COMMITTED"
    using L at unfolding linv_def attrs_def executed_def by (cases "mget (c_space c') v") (auto simp: status_defs)
  then show "linv v deps S ps b c'" using L unfolding linv_def region_def g eo lo(3,4) by blast
qed

lemma linv_extend:
  assumes L: "linv v deps S ps b c" and K: "keeps (set (c_stack c)) c d" and T: "c_stack d = c_stack c @ T" "\<forall>y \<in> set T. region d v b (set S) y"
  shows "linv v deps S ps b d"
proof -
  obtain U where U: "c_stack c = S @ v # U" "b \<le> num c v" "\<forall>y \<in> set U. region c v b (set S) y"
    "b = num c v \<or> (\<exists>z \<in> set S. num c z = b \<and> (v, z) \<in> (graph c)\<^sup>*)" using L unfolding linv_def by blast
  have sub: "set (c_stack c) \<subseteq> set (c_stack d)" using T by auto
  note g = keeps_graph [OF K]
  have nv: "num d u = num c u" "mget (c_space d) u = mget (c_space c) u" if "u \<in> set (c_stack c)" for u
    using keeps_num [OF K that] K that unfolding keeps_def by auto
  have "c_stack d = S @ v # U @ T" using U(1) T(1) by simp
  moreover have "\<forall>y \<in> set (U @ T). region d v b (set S) y" using U(3) T(2) by (auto intro: region_mono [OF _ K sub order_refl])
  moreover have "num d v = num c v" "\<And>z. z \<in> set S \<Longrightarrow> num d z = num c z" "mget (c_space d) v = mget (c_space c) v" using nv U(1) by auto
  moreover have "\<forall>q \<in> ps. \<forall>z. dep_at deps q = Some z \<longrightarrow> edge_ok d b (set S) z"
    using L edge_ok_mono [OF _ K sub order_refl] unfolding linv_def by blast
  ultimately show ?thesis using L U(2,4) unfolding linv_def g by (intro conjI exI [of _ "U @ T"]) auto
qed

lemma linv_child:
  assumes L: "linv v deps S ps b c" and P: "post w idx c d" and K: "keeps (set (c_stack c)) c d" and W: "WInv idx c"
    and E: "(v, w) \<in> graph c" and b: "b = low c v" and ne: "w \<notin> set (c_stack c)"
  shows "linv v deps S ps (min (low d w) (low d v)) d \<and> edge_ok d (min (low d w) (low d v)) (set S) w"
proof -
  obtain T where T: "c_stack d = c_stack c @ T" "if T = [] then executed d w \<and> idx \<le> low d w
      else w \<in> set T \<and> (\<exists>z \<in> set (c_stack c). num c z = low d w \<and> (w, z) \<in> (graph c)\<^sup>*)"
    "\<forall>y \<in> set T. region d w (low d w) (set (c_stack c)) y" using P unfolding post_def by blast
  note g = keeps_graph [OF K]
  have lv: "low d v = b" using keeps_num [OF K linv_top [OF L]] b by simp
  have S: "set S \<subseteq> set (c_stack c)" using L unfolding linv_def by auto
  show ?thesis
  proof (cases "T = []")
    case True
    have "b < idx" using linv_bound [OF L] WInv_num_idx [OF W linv_top [OF L]] by simp
    then have m: "min (low d w) (low d v) = b" using T(2) True lv by simp
    show ?thesis unfolding m using linv_extend [OF L K T(1)] T(2) True by (simp add: edge_ok_def)
  next
    case False
    then obtain z where z: "z \<in> set (c_stack c)" "num c z = low d w" "(w, z) \<in> (graph c)\<^sup>*" "w \<in> set T" using T(2) by auto
    let ?b = "min (low d w) b"
    have vw: "(v, w) \<in> (graph c)\<^sup>*" using E by simp
    have "(v, z) \<in> (graph c)\<^sup>*" using vw z(3) by (rule rtrancl_trans)
    then have L': "linv v deps S ps ?b c" using z by (intro linv_drop [OF L W]) (auto simp: min_def)
    have wv: "(w, v) \<in> (graph c)\<^sup>*" using z(3) linv_reach [OF L z(1)] by (rule rtrancl_trans)
    have "region d v ?b (set S) y" if "y \<in> set T" for y
    proof -
      have r: "region d w (low d w) (set (c_stack c)) y" using T(3) that by blast
      have "edge_ok d ?b (set S) u" if "(y, u) \<in> graph d" for u
      proof -
        have "edge_ok d (low d w) (set (c_stack c)) u" using r that unfolding region_def by blast
        then show ?thesis using S unfolding edge_ok_def by auto
      qed
      then show ?thesis using r vw wv unfolding region_def g by (auto intro: rtrancl_trans)
    qed
    then have "linv v deps S ps ?b d" by (intro linv_extend [OF L' K T(1)]) blast
    then show ?thesis using z(4) T(1) ne S lv by (auto simp: edge_ok_def)
  qed
qed

text \<open>When all dependencies are done, the instances from \<open>v\<close> upwards are either a whole component or in the region of \<open>v\<close>.\<close>

lemma linv_all:
  assumes L: "linv v deps S ps b c" and ps: "{0..<c_n c} \<subseteq> ps" and U: "c_stack c = S @ v # U" and y: "y \<in> set (v # U)"
  shows "region c v b (set S) y"
proof (cases "y = v")
  case True
  have "edge_ok c b (set S) z" if "(v, z) \<in> graph c" for z
    using that L ps unfolding graph_def linv_def by fastforce
  then show ?thesis using True by (simp add: region_def)
next
  case False
  then show ?thesis using L U y unfolding linv_def by auto
qed

lemma visit_cases:
  assumes "visit_deps k e v x (q # qs) idx c = Some (ok, idx', c')"
  obtains
    (skip) i up where "slice_get (i_Deps x) q = Some i" "slice_get (c_executedUpTo c) q = Some up" "i \<le> up"
      "visit_deps k e v x qs idx c = Some (ok, idx', c')"
  | (blocked) i where "slice_get (i_Deps x) q = Some i" "\<not> ok" "idx' = idx" "blockedOn e q i (clock e) c = Some c'"
  | (pass) i w where "slice_get (i_Deps x) q = Some i" "inst_at q i c = Some (Some w)"
      "i_Status w = EXECUTED \<or> i_Status w = COMMITTED \<and> i_Index w \<noteq> 0 \<and> \<not> i_onStack w"
      "visit_deps k e v x qs idx c = Some (ok, idx', c')"
  | (stop) i w where "slice_get (i_Deps x) q = Some i" "inst_at q i c = Some (Some w)" "i_Status w = COMMITTED" "i_Index w = 0"
      "strongconnect k e (q, i) idx c = Some (False, idx', c')" "\<not> ok"
  | (tree) i w idx1 c1 w1 c2 where "slice_get (i_Deps x) q = Some i" "inst_at q i c = Some (Some w)" "i_Status w = COMMITTED" "i_Index w = 0"
      "strongconnect k e (q, i) idx c = Some (True, idx1, c1)" "mget (c_space c1) (q, i) = Some w1" "lower v (i_Lowlink w1) c1 = Some c2"
      "visit_deps k e v x qs idx1 c2 = Some (ok, idx', c')"
  | (link) i w c2 where "slice_get (i_Deps x) q = Some i" "inst_at q i c = Some (Some w)" "i_Status w = COMMITTED" "i_onStack w"
      "lower v (i_Index w) c = Some c2" "visit_deps k e v x qs idx c2 = Some (ok, idx', c')"
proof -
  note A = assms [unfolded visit_deps.simps(2)]
  obtain i where i: "slice_get (i_Deps x) q = Some i" using A by (cases "slice_get (i_Deps x) q") auto
  obtain up where up: "slice_get (c_executedUpTo c) q = Some up" using A i by (cases "slice_get (c_executedUpTo c) q") auto
  note A = A [unfolded i up option.case]
  show thesis
  proof (cases "i \<le> up")
    case True
    then show thesis using skip [OF i up] A by simp
  next
    case gt: False
    then obtain w where w: "inst_at q i c = Some w" using A by (cases "inst_at q i c") auto
    note A = A [unfolded w option.case]
    show thesis
    proof (cases w)
      case None
      then show thesis using blocked [OF i] A gt by auto
    next
      case (Some y)
      note A = A [unfolded Some option.case] and y = w [unfolded Some]
      show thesis
      proof (cases "i_Cmds y = None")
        case True
        then show thesis using blocked [OF i] A gt by auto
      next
        case False
        then have ts: "transconf_scan c (cmds_of (i_Cmds x)) (cmds_of (i_Cmds y)) = Some ()"
          using A gt by (cases "transconf_scan c (cmds_of (i_Cmds x)) (cmds_of (i_Cmds y))") auto
        consider "i_Status y = EXECUTED" | "i_Status y \<noteq> EXECUTED" "i_Status y \<noteq> COMMITTED" | "i_Status y = COMMITTED" "i_Index y = 0"
          | "i_Status y = COMMITTED" "i_Index y \<noteq> 0" "i_onStack y" | "i_Status y = COMMITTED" "i_Index y \<noteq> 0" "\<not> i_onStack y" by blast
        then show thesis
        proof cases
          case 1
          then show thesis using pass [OF i y] A gt False ts by auto
        next
          case 2
          then show thesis using blocked [OF i] A gt False ts by auto
        next
          case 3
          then have ne: "i_Status y \<noteq> EXECUTED" by (simp add: status_defs)
          obtain ok1 idx1 c1 where s: "strongconnect k e (q, i) idx c = Some (ok1, idx1, c1)"
            using A gt False ts 3 ne by (cases "strongconnect k e (q, i) idx c") auto
          show thesis
          proof (cases ok1)
            case ok1: True
            then obtain w1 where w1: "mget (c_space c1) (q, i) = Some w1" using A gt False ts 3 ne s by (cases "mget (c_space c1) (q, i)") auto
            then obtain c2 where c2: "lower v (i_Lowlink w1) c1 = Some c2" using A gt False ts 3 ne s ok1 by (cases "lower v (i_Lowlink w1) c1") auto
            show thesis using tree [OF i y 3 s [unfolded eqTrueI [OF ok1]] w1 c2] A gt False ts 3 ne s ok1 w1 c2 by auto
          next
            case ok1: False
            show thesis using stop [OF i y 3] A gt False ts 3 ne s ok1 by auto
          qed
        next
          case 4
          then have ne: "i_Status y \<noteq> EXECUTED" by (simp add: status_defs)
          then obtain c2 where c2: "lower v (i_Index y) c = Some c2" using A gt False ts 4 by (cases "lower v (i_Index y) c") auto
          show thesis using link [OF i y 4(1,3) c2] A gt False ts 4 ne c2 by auto
        next
          case 5
          then have ne: "i_Status y \<noteq> EXECUTED" by (simp add: status_defs)
          show thesis using pass [OF i y] A gt False ts 5 ne by auto
        qed
      qed
    qed
  qed
qed

lemma blockedOn_keeps: "blockedOn e q i now c = Some c' \<Longrightarrow> keeps A c c'"
  using blockedOn_frame by (fastforce simp: keeps_def attrs_def executed_def)

lemma dep_atI: "slice_get deps q = Some i \<Longrightarrow> dep_at deps q = Some z \<Longrightarrow> z = (q, i) \<and> 0 \<le> i"
  by (auto simp: dep_at_def split: if_splits)

lemma inst_at_Some: "inst_at q i c = Some (Some w) \<Longrightarrow> 0 \<le> q \<and> q < c_n c \<and> 0 \<le> i \<and> mget (c_space c) (q, i) = Some w"
  by (auto simp: inst_at_def in_space_def split: if_splits)

definition search_ok :: "nat \<Rightarrow> 'st env \<Rightarrow> bool" where
  "search_ok k e \<longleftrightarrow> (\<forall>v idx (c :: 'st core) ok idx' c' x. strongconnect k e v idx c = Some (ok, idx', c') \<longrightarrow> WInv idx c \<longrightarrow>
     mget (c_space c) v = Some x \<longrightarrow> i_Status x = COMMITTED \<longrightarrow> i_Index x = 0 \<longrightarrow> (\<forall>u \<in> set (c_stack c). (u, v) \<in> (graph c)\<^sup>*) \<longrightarrow>
     WInv idx' c' \<and> keeps (set (c_stack c)) c c' \<and> (ok \<longrightarrow> post v idx c c'))"

lemma search_okD:
  assumes "search_ok k e" "strongconnect k e v idx c = Some (ok, idx', c')" "WInv idx c" "mget (c_space c) v = Some x" "i_Status x = COMMITTED"
    "i_Index x = 0" "\<And>u. u \<in> set (c_stack c) \<Longrightarrow> (u, v) \<in> (graph c)\<^sup>*"
  shows "WInv idx' c'" "keeps (set (c_stack c)) c c'" "ok \<Longrightarrow> post v idx c c'"
  using assms unfolding search_ok_def by blast+

text \<open>Coming back from a new instance, and meeting one on the stack.\<close>

lemma tree_step:
  assumes G: "search_ok k e" and W: "WInv idx c" and L: "linv v deps S ps (low c v) c" and q: "0 \<le> q" "q < c_n c"
    and w: "mget (c_space c) (q, i) = Some w" "dep_at deps q = Some (q, i)" "i_Status w = COMMITTED" "i_Index w = 0"
    and s: "strongconnect k e (q, i) idx c = Some (True, idx1, c1)" and l: "mget (c_space c1) (q, i) = Some w1" "lower v (i_Lowlink w1) c1 = Some c2"
  shows "WInv idx1 c2" "linv v deps S ps (low c2 v) c2" "edge_ok c2 (low c2 v) (set S) (q, i)" "keeps (set S) c c2" "num c2 v = num c v"
    "set (c_stack c) \<subseteq> set (c_stack c2)"
proof -
  have Sc: "set S \<subseteq> set (c_stack c)" "v \<notin> set S" using L WInv_stack_distinct [OF W] unfolding linv_def by auto
  have E: "(v, (q, i)) \<in> graph c" by (rule linv_edge [OF L w(2) q])
  have r: "(u, (q, i)) \<in> (graph c)\<^sup>*" if "u \<in> set (c_stack c)" for u
    using linv_reach [OF L that] E by (rule rtrancl_into_rtrancl)
  have so: "WInv idx1 c1" "keeps (set (c_stack c)) c c1" "post (q, i) idx c c1"
    using search_okD [OF G s W w(1,3,4)] r by blast+
  have ne: "(q, i) \<notin> set (c_stack c)" using WInv_marksD [OF W w(1)] w(3,4) by (simp add: status_defs)
  have lw: "i_Lowlink w1 = low c1 (q, i)" using l(1) by (simp add: low_def)
  let ?b = "min (low c1 (q, i)) (low c1 v)"
  have b: "linv v deps S ps ?b c1" "edge_ok c1 ?b (set S) (q, i)" using linv_child [OF L so(3,2) W E refl ne] by auto
  note lo = linv_lower [OF b(1) so(1) l(2) [unfolded lw] refl]
  note lo' = lower_ok [OF so(1) linv_top [OF b(1)] l(2)]
  show "WInv idx1 c2" "linv v deps S ps (low c2 v) c2" using lo by auto
  show "edge_ok c2 (low c2 v) (set S) (q, i)" using b(2) lo(3) lo'(3,4,6) by (simp add: edge_ok_def)
  show "keeps (set S) c c2" using Sc by (intro keeps_then [OF keeps_mono [OF so(2)] lo'(2)]) auto
  show "num c2 v = num c v" using lo'(4) keeps_num [OF so(2) linv_top [OF L]] by simp
  show "set (c_stack c) \<subseteq> set (c_stack c2)" using so(3) lo'(3) unfolding post_def by auto
qed

lemma link_step:
  assumes W: "WInv idx c" and L: "linv v deps S ps (low c v) c" and q: "0 \<le> q" "q < c_n c"
    and w: "mget (c_space c) (q, i) = Some w" "dep_at deps q = Some (q, i)" "i_Status w = COMMITTED" "i_onStack w"
    and l: "lower v (i_Index w) c = Some c2"
  shows "WInv idx c2" "linv v deps S ps (low c2 v) c2" "edge_ok c2 (low c2 v) (set S) (q, i)" "keeps (set S) c c2" "num c2 v = num c v"
    "set (c_stack c) \<subseteq> set (c_stack c2)"
proof -
  have Sc: "set S \<subseteq> set (c_stack c)" "v \<notin> set S" using L WInv_stack_distinct [OF W] unfolding linv_def by auto
  have on: "(q, i) \<in> set (c_stack c)" using WInv_marksD [OF W w(1)] w(3,4) by (simp add: status_defs)
  have nw: "num c (q, i) = i_Index w" using w(1) by (simp add: num_def marks_def)
  have vw: "(v, (q, i)) \<in> (graph c)\<^sup>*" using linv_edge [OF L w(2) q] by simp
  let ?b = "min (i_Index w) (low c v)"
  have "linv v deps S ps ?b c" using on nw vw by (intro linv_drop [OF L W]) (auto simp: min_def)
  note lo = linv_lower [OF this W l refl]
  note lo' = lower_ok [OF W linv_top [OF L] l]
  show "WInv idx c2" "linv v deps S ps (low c2 v) c2" using lo by auto
  show "edge_ok c2 (low c2 v) (set S) (q, i)" using on nw lo(3) lo'(3,4) by (simp add: edge_ok_def)
  show "keeps (set S) c c2" using Sc(2) by (intro keeps_mono [OF lo'(2)]) auto
  show "num c2 v = num c v" "set (c_stack c) \<subseteq> set (c_stack c2)" using lo'(3,4) by auto
qed

lemma visit_deps_ok:
  assumes G: "search_ok k e"
  shows "visit_deps k e v x qs idx c = Some (ok, idx', c') \<Longrightarrow> WInv idx c \<Longrightarrow> linv v (i_Deps x) S ps (low c v) c \<Longrightarrow>
    set qs \<subseteq> {0..<c_n c} \<Longrightarrow> WInv idx' c' \<and> keeps (set S) c c' \<and> (ok \<longrightarrow> linv v (i_Deps x) S (set qs \<union> ps) (low c' v) c' \<and> num c' v = num c v)"
proof (induction qs arbitrary: idx c ps)
  case Nil
  then show ?case by (simp add: visit_deps.simps keeps_self)
next
  case (Cons q qs)
  note W = Cons.prems(2) and L = Cons.prems(3)
  have q: "0 \<le> q" "q < c_n c" and qs: "set qs \<subseteq> {0..<c_n c}" using Cons.prems(4) by auto
  obtain U where U: "c_stack c = S @ v # U" using L unfolding linv_def by blast
  have Sc: "set S \<subseteq> set (c_stack c)" "v \<notin> set S" using U WInv_stack_distinct [OF W] by auto
  have next_ok: "WInv idx' c' \<and> keeps (set S) c c' \<and> (ok \<longrightarrow> linv v (i_Deps x) S (set (q # qs) \<union> ps) (low c' v) c' \<and> num c' v = num c v)"
    if r: "visit_deps k e v x qs j d = Some (ok, idx', c')" and d: "WInv j d" "linv v (i_Deps x) S ps (low d v) d" "keeps (set S) c d" "num d v = num c v"
      and e: "\<And>z. dep_at (i_Deps x) q = Some z \<Longrightarrow> edge_ok d (low d v) (set S) z" for j d
  proof -
    have "c_n d = c_n c" using d(3) by (simp add: keeps_def)
    then have "WInv idx' c' \<and> keeps (set S) d c' \<and> (ok \<longrightarrow> linv v (i_Deps x) S (set qs \<union> insert q ps) (low c' v) c' \<and> num c' v = num d v)"
      using Cons.IH [OF r d(1) linv_insert [OF d(2) e]] qs by simp
    then show ?thesis using keeps_then [OF d(3)] d(4) by auto
  qed
  from Cons.prems(1) show ?case
  proof (cases rule: visit_cases)
    case (skip i up)
    have "executed c (q, i)" if "0 \<le> i"
      using W skip q that unfolding WInv_def run_ok_def by (auto simp: slice_get_def split: if_splits)
    then have "edge_ok c (low c v) (set S) z" if "dep_at (i_Deps x) q = Some z" for z
      using dep_atI [OF skip(1) that] by (simp add: edge_ok_def)
    then show ?thesis by (rule next_ok [OF skip(4) W L keeps_self refl])
  next
    case (blocked i)
    then show ?thesis using blockedOn_WInv [OF blocked(4)] blockedOn_keeps [OF blocked(4)] W by simp
  next
    case (pass i w)
    have w: "mget (c_space c) (q, i) = Some w" using inst_at_Some [OF pass(2)] by simp
    have "i_Status w = EXECUTED" using pass(3) WInv_marksD [OF W w] by (auto simp: status_defs)
    then have "executed c (q, i)" using w by (simp add: executed_def)
    then have "edge_ok c (low c v) (set S) z" if "dep_at (i_Deps x) q = Some z" for z
      using dep_atI [OF pass(1) that] by (simp add: edge_ok_def)
    then show ?thesis by (rule next_ok [OF pass(4) W L keeps_self refl])
  next
    case (stop i w)
    have w: "mget (c_space c) (q, i) = Some w" "dep_at (i_Deps x) q = Some (q, i)"
      using inst_at_Some [OF stop(2)] stop(1) by (auto simp: dep_at_def)
    have r: "(u, (q, i)) \<in> (graph c)\<^sup>*" if "u \<in> set (c_stack c)" for u
      using linv_reach [OF L that] linv_edge [OF L w(2) q] by (rule rtrancl_into_rtrancl)
    have "WInv idx' c'" "keeps (set (c_stack c)) c c'" using search_okD(1,2) [OF G stop(5) W w(1) stop(3,4)] r by blast+
    then show ?thesis using stop(6) Sc by (auto simp: keeps_def)
  next
    case (tree i w idx1 c1 w1 c2)
    have w: "mget (c_space c) (q, i) = Some w" "dep_at (i_Deps x) q = Some (q, i)"
      using inst_at_Some [OF tree(2)] tree(1) by (auto simp: dep_at_def)
    note t = tree_step [OF G W L q w tree(3-7)]
    show ?thesis by (rule next_ok [OF tree(8) t(1,2,4,5)]) (use t(3) w(2) in simp)
  next
    case (link i w c2)
    have w: "mget (c_space c) (q, i) = Some w" "dep_at (i_Deps x) q = Some (q, i)"
      using inst_at_Some [OF link(2)] link(1) by (auto simp: dep_at_def)
    note t = link_step [OF W L q w link(3-5)]
    show ?thesis by (rule next_ok [OF link(6) t(1,2,4,5)]) (use t(3) w(2) in simp)
  qed
qed

text \<open>The end of a call: a component is executed when \<open>v\<close> is its root.\<close>

lemma linv_root:
  assumes L: "linv v deps S ps (num c v) c" and ps: "{0..<c_n c} \<subseteq> ps" and W: "WInv idx c" and x: "execute_scc e (length S) c = Some c'"
  shows "WInv idx c'" "keeps (set S) c c'" "c_stack c' = S" "executed c' v" "low c' v = low c v"
proof -
  obtain U where U: "c_stack c = S @ v # U" using L unfolding linv_def by blast
  have reg: "region c v (num c v) (set S) y" if "y \<in> set (v # U)" for y by (rule linv_all [OF L ps U that])
  have scc: "(u, w) \<in> (graph c)\<^sup>*" if "u \<in> set (v # U)" "w \<in> set (v # U)" for u w
    using reg [OF that(1)] reg [OF that(2)] unfolding region_def by (blast intro: rtrancl_trans)
  have closed: "executed c w \<or> w \<in> set (v # U)" if "u \<in> set (v # U)" "(u, w) \<in> graph c" for u w
    using reg [OF that(1)] that(2) WInv_num_below [OF W U, of w] U unfolding region_def edge_ok_def by force
  note ex = execute_scc_ok [OF W U x]
  show "WInv idx c'" "keeps (set S) c c'" "c_stack c' = S" using ex(1-3) scc closed by blast+
  show "executed c' v" "low c' v = low c v" using ex(4) [of v] ex(5) [of v] scc closed by (blast intro: list.set_intros)+
qed

lemma connect_cases:
  assumes "strongconnect (Suc k) e v idx c = Some (ok, idx', c')" "mget (c_space c) v = Some x"
  obtains
    (blocked) "\<not> ok" "idx' = idx + 1" "blockedOn e (fst v) (snd v) (clock e) (push v idx x c) = Some c'"
  | (stop) "visit_deps k e v x [0..c_n c - 1] (idx + 1) (push v idx x c) = Some (False, idx', c')" "\<not> ok"
  | (root) d where "visit_deps k e v x [0..c_n c - 1] (idx + 1) (push v idx x c) = Some (True, idx', d)" ok "low d v = num d v"
      "execute_scc e (length (c_stack c)) d = Some c'"
  | (inner) "visit_deps k e v x [0..c_n c - 1] (idx + 1) (push v idx x c) = Some (True, idx', c')" ok "low c' v \<noteq> num c' v"
proof -
  have n: "c_n (push v idx x c) = c_n c" by (simp add: push_def)
  note A = assms(1) [unfolded strongconnect.simps assms(2) option.case Let_def push_def [symmetric] n]
  show thesis
  proof (cases "i_Cmds x")
    case None
    then show thesis using A blocked by auto
  next
    case (Some cs)
    then obtain ok1 j d where d: "visit_deps k e v x [0..c_n c - 1] (idx + 1) (push v idx x c) = Some (ok1, j, d)"
      using A by (cases "visit_deps k e v x [0..c_n c - 1] (idx + 1) (push v idx x c)") auto
    show thesis
    proof (cases ok1)
      case False
      then show thesis using A Some d stop by auto
    next
      case True
      then obtain y where y: "mget (c_space d) v = Some y" using A Some d by (cases "mget (c_space d) v") auto
      have "low d v = i_Lowlink y" "num d v = i_Index y" using y by (simp_all add: low_def num_def marks_def)
      then show thesis using A Some d y True root [of d] inner by (auto split: if_splits)
    qed
  qed
qed

lemma push_linv:
  assumes "mget (c_space c) v = Some x" "i_Status x = COMMITTED" "\<forall>u \<in> set (c_stack c). (u, v) \<in> (graph c)\<^sup>*"
  shows "linv v (i_Deps x) (c_stack c) {} (low (push v idx x c) v) (push v idx x c)"
  unfolding linv_def using assms by (auto simp: push_facts [OF assms(1)]) (simp_all add: push_def)

lemma search_ok_step:
  assumes G: "search_ok k e"
  shows "search_ok (Suc k) e"
  unfolding search_ok_def
proof (intro allI impI)
  fix v idx and c :: "'a core" and ok idx' c' x
  assume r: "strongconnect (Suc k) e v idx c = Some (ok, idx', c')" and W: "WInv idx c" and x: "mget (c_space c) v = Some x"
    "i_Status x = COMMITTED" "i_Index x = 0" and reach: "\<forall>u \<in> set (c_stack c). (u, v) \<in> (graph c)\<^sup>*"
  let ?c = "push v idx x c"
  have P: "WInv (idx + 1) ?c" "keeps (set (c_stack c)) c ?c" using push_ok [OF W x] by auto
  note pf = push_facts [OF x(1), of idx]
  have st: "c_stack ?c = c_stack c @ [v]" "c_n ?c = c_n c" by (simp_all add: push_def)
  have L: "linv v (i_Deps x) (c_stack c) {} (low ?c v) ?c" by (rule push_linv [OF x(1,2) reach])
  have qs: "set [0..c_n c - 1] = {0..<c_n c}" by auto
  note V = visit_deps_ok [OF G _ P(1) L, of "[0..c_n c - 1]", unfolded st qs, OF _ order_refl]
  show "WInv idx' c' \<and> keeps (set (c_stack c)) c c' \<and> (ok \<longrightarrow> post v idx c c')"
    using r x(1)
  proof (cases rule: connect_cases)
    case blocked
    then show ?thesis using blockedOn_WInv [OF blocked(3)] keeps_then [OF P(2) blockedOn_keeps [OF blocked(3)]] P(1) by auto
  next
    case stop
    then show ?thesis using V [OF stop(1)] keeps_then [OF P(2)] by auto
  next
    case (root d)
    have d: "WInv idx' d" "keeps (set (c_stack c)) ?c d" "linv v (i_Deps x) (c_stack c) {0..<c_n c} (low d v) d" "num d v = idx"
      using V [OF root(1)] pf by auto
    have n: "{0..<c_n d} \<subseteq> {0..<c_n c}" using d(2) st by (simp add: keeps_def)
    note R = linv_root [OF d(3) [unfolded root(3)] n d(1) root(4)]
    have "keeps (set (c_stack c)) c c'" using keeps_then [OF P(2) keeps_then [OF d(2) R(2)]] by auto
    moreover have "post v idx c c'" unfolding post_def using R(3-5) root(3) d(4) by (intro exI [of _ "[]"]) simp
    ultimately show ?thesis using R(1) by blast
  next
    case inner
    have d: "WInv idx' c'" "keeps (set (c_stack c)) ?c c'" "linv v (i_Deps x) (c_stack c) {0..<c_n c} (low c' v) c'"
      using V [OF inner(1)] by auto
    have n: "{0..<c_n c'} \<subseteq> {0..<c_n c}" using d(2) st by (simp add: keeps_def)
    have K: "keeps (set (c_stack c)) c c'" using keeps_then [OF P(2) d(2)] by auto
    obtain U where U: "c_stack c' = c_stack c @ v # U" "\<exists>z \<in> set (c_stack c). num c' z = low c' v \<and> (v, z) \<in> (graph c')\<^sup>*"
      using d(3) inner(3) unfolding linv_def by blast
    then have "\<exists>z \<in> set (c_stack c). num c z = low c' v \<and> (v, z) \<in> (graph c)\<^sup>*" using keeps_num [OF K] keeps_graph [OF K] by auto
    then have "post v idx c c'" unfolding post_def using U(1) linv_all [OF d(3) n U(1)] by (intro exI [of _ "v # U"]) simp
    then show ?thesis using d(1) K by blast
  qed
qed

theorem search_correct: "search_ok k e"
proof (induction k)
  case 0
  show ?case unfolding search_ok_def by (simp add: strongconnect.simps)
qed (rule search_ok_step)

subsection \<open>Between searches\<close>

definition clear_marks :: "'st core \<Rightarrow> bool" where
  "clear_marks c \<longleftrightarrow> (\<forall>v x. mget (c_space c) v = Some x \<longrightarrow> i_Status x \<noteq> EXECUTED \<longrightarrow> i_Index x = 0 \<and> \<not> i_onStack x)"

definition sched_ok :: "'st core \<Rightarrow> bool" where
  "sched_ok c \<longleftrightarrow> run_ok c \<and> clear_marks c"

lemma sched_WInv: "sched_ok c \<Longrightarrow> WInv 1 (c\<lparr>c_stack := []\<rparr>)"
  unfolding sched_ok_def WInv_def clear_marks_def
  by (auto simp: run_ok_def marks_ok_def marks_def executed_def graph_def)

lemma reset_node_space:
  "mget (c_space (reset_node v c)) u = (if u = v then map_option (\<lambda>x. x\<lparr>i_Index := 0, i_onStack := False\<rparr>) (mget (c_space c) u) else mget (c_space c) u)"
  by (auto simp: reset_node_def split: option.splits)

lemma reset_nodes:
  "c_n (fold reset_node vs c) = c_n c \<and> c_executedUpTo (fold reset_node vs c) = c_executedUpTo c \<and> c_history (fold reset_node vs c) = c_history c \<and>
   c_transconf (fold reset_node vs c) = c_transconf c \<and>
   mget (c_space (fold reset_node vs c)) u = (if u \<in> set vs then map_option (\<lambda>x. x\<lparr>i_Index := 0, i_onStack := False\<rparr>) (mget (c_space c) u) else mget (c_space c) u)"
proof (induction vs arbitrary: c)
  case (Cons v vs)
  show ?case using Cons.IH [of "reset_node v c"] 
    by (cases "mget (c_space c) u") (auto simp: reset_node_space, auto simp: reset_node_def split: option.splits)
qed simp

lemma WInv_reset:
  assumes "WInv idx c"
  shows "sched_ok (fold reset_node (c_stack c) c) \<and> keeps {} c (fold reset_node (c_stack c) c)"
proof -
  let ?d = "fold reset_node (c_stack c) c"
  have f: "c_n ?d = c_n c" "c_executedUpTo ?d = c_executedUpTo c" "c_history ?d = c_history c" "c_transconf ?d = c_transconf c"
    "mget (c_space ?d) u = (if u \<in> set (c_stack c) then map_option (\<lambda>x. x\<lparr>i_Index := 0, i_onStack := False\<rparr>) (mget (c_space c) u) else mget (c_space c) u)" for u
    using reset_nodes by blast+
  have at: "attrs ?d u = attrs c u" and ex: "executed ?d u = executed c u" for u
    by (cases "mget (c_space c) u"; simp add: attrs_def executed_def f(5))+
  have "run_ok ?d" using assms run_ok_cong [OF f(1-3) ex at] by (simp add: WInv_def)
  moreover have "clear_marks ?d" unfolding clear_marks_def
  proof (intro allI impI)
    fix u y assume y: "mget (c_space ?d) u = Some y" "i_Status y \<noteq> EXECUTED"
    then show "i_Index y = 0 \<and> \<not> i_onStack y" using WInv_marksD [OF assms, of u y] by (auto simp: f(5) split: if_splits)
  qed
  ultimately show ?thesis using f at ex by (simp add: sched_ok_def keeps_def)
qed

lemma findSCC_ok:
  assumes C: "sched_ok c" and r: "findSCC e v c = Some (ok, c')" and v: "mget (c_space c) v = Some x" "i_Status x = COMMITTED"
  shows "sched_ok c'" "keeps {} c c'" "ok \<Longrightarrow> executed c' v"
proof -
  let ?c = "c\<lparr>c_stack := []\<rparr>"
  obtain idx d where d: "strongconnect (Suc (mlen (c_space c))) e v 1 ?c = Some (ok, idx, d)" "c' = fold reset_node (c_stack d) d"
    using r by (auto simp: findSCC_def split: Option.bind_splits)
  have i: "i_Index x = 0" using C v by (auto simp: sched_ok_def clear_marks_def status_defs)
  have s: "WInv idx d" "keeps {} ?c d" "ok \<Longrightarrow> post v 1 ?c d"
    using search_okD [OF search_correct d(1) sched_WInv [OF C], of x] v i by auto
  show "sched_ok c'" using WInv_reset [OF s(1)] d(2) by simp
  have k: "keeps {} d c'" using WInv_reset [OF s(1)] d(2) by simp
  have "keeps {} ?c c'" using keeps_then [OF s(2) k] by simp
  then show "keeps {} c c'" by (simp add: keeps_def attrs_def executed_def)
  show "executed c' v" if ok
    using s(3) [OF that] k unfolding post_def keeps_def by (auto split: if_splits)
qed

lemma executeCommand_ok:
  assumes C: "sched_ok c" and r: "executeCommand e q i c = Some (ok, c')"
  shows "sched_ok c' \<and> keeps {} c c' \<and> (ok \<longrightarrow> executed c' (q, i))"
proof -
  obtain x where x: "inst_at q i c = Some x" using r by (auto simp: executeCommand_def split: Option.bind_splits)
  show ?thesis
  proof (cases x)
    case None
    then show ?thesis using r x C by (auto simp: executeCommand_def keeps_self)
  next
    case (Some y)
    have y: "mget (c_space c) (q, i) = Some y" using inst_at_Some x Some by metis
    show ?thesis
    proof (cases "i_Status y = COMMITTED")
      case True
      then have "findSCC e (q, i) c = Some (ok, c')" using r x Some by (auto simp: executeCommand_def status_defs)
      then show ?thesis using findSCC_ok [OF C _ y True] by blast
    next
      case False
      then show ?thesis using r x Some C y by (auto simp: executeCommand_def keeps_self executed_def split: if_splits)
    qed
  qed
qed

text \<open>Applying goes on with the executed prefix of a row when its next instance is executed.\<close>

lemma bump_ok:
  assumes C: "sched_ok c" and up: "slice_get (c_executedUpTo c) q = Some up" and x: "inst_at q (up + 1) c = Some (Some y)" "i_Status y = EXECUTED"
  shows "sched_ok (c\<lparr>c_executedUpTo := (c_executedUpTo c)[nat q := up + 1], c_blocked := b\<rparr>)"
proof -
  let ?d = "c\<lparr>c_executedUpTo := (c_executedUpTo c)[nat q := up + 1], c_blocked := b\<rparr>"
  have e: "executed ?d = executed c" "graph ?d = graph c" by (auto simp: executed_def graph_def)
  have up': "0 \<le> q" "nat q < length (c_executedUpTo c)" "up = c_executedUpTo c ! nat q" using up by (auto simp: slice_get_def split: if_splits)
  have new: "executed c (q, up + 1)" using inst_at_Some [OF x(1)] x(2) by (simp add: executed_def)
  have "executed c (p, i)" if "0 \<le> p" "p < c_n c" "0 \<le> i" "i \<le> (c_executedUpTo c)[nat q := up + 1] ! nat p" for p i
  proof (cases "p = q")
    case True
    then show ?thesis using that up' new C unfolding sched_ok_def run_ok_def by (cases "i = up + 1") auto
  next
    case False
    then show ?thesis using that up' C unfolding sched_ok_def run_ok_def by (auto simp: nth_list_update)
  qed
  moreover have "-1 \<le> up" using C up'(2,3) by (simp add: sched_ok_def run_ok_def list_all_length)
  then have "list_all ((\<le>) (-1)) ((c_executedUpTo c)[nat q := up + 1])"
    using C by (auto simp: sched_ok_def run_ok_def list_all_iff dest!: set_update_subset_insert [THEN subsetD])
  ultimately show ?thesis using C by (auto simp: sched_ok_def run_ok_def clear_marks_def e)
qed

lemma blockedOn_sched: "blockedOn e q i now c = Some c' \<Longrightarrow> sched_ok c \<Longrightarrow> sched_ok c'"
  using blockedOn_frame [of e q i now c c'] run_ok_cong [of c' c] by (auto simp: sched_ok_def clear_marks_def executed_def attrs_def)

lemma apply_row_ok: "apply_row e now q b c = Some c' \<Longrightarrow> sched_ok c \<Longrightarrow> sched_ok c'"
proof (induction e now q b c rule: apply_row.induct)
  case (2 e now q budget c)
  obtain up crt where u: "slice_get (c_executedUpTo c) q = Some up" "slice_get (c_crtInstance c) q = Some crt"
    using 2(3) by (auto split: Option.bind_splits)
  show ?case
  proof (cases "up + 1 > crt")
    case True
    then show ?thesis using 2(3,4) u by simp
  next
    case False
    then obtain x where x: "inst_at q (up + 1) c = Some x" using 2(3) u by (auto split: Option.bind_splits)
    consider (fin) y where "x = Some y" "i_Status y = EXECUTED" | (blocked) "unfinished x" "\<not> (case x of Some y \<Rightarrow> i_Status y = EXECUTED | None \<Rightarrow> False)"
      | (go) "\<not> unfinished x" "\<not> (case x of Some y \<Rightarrow> i_Status y = EXECUTED | None \<Rightarrow> False)" by (cases x) auto
    then show ?thesis
    proof cases
      case fin
      then show ?thesis using 2(1) [OF u False x] 2(3,4) u False x bump_ok [OF 2(4) u(1)] by simp
    next
      case blocked
      then show ?thesis using 2(3,4) u False x blockedOn_sched by simp
    next
      case go
      then obtain ok d where d: "executeCommand e q (up + 1) c = Some (ok, d)" "if ok then apply_row e now q budget d = Some c' else c' = d"
        using 2(3) u False x by (auto split: Option.bind_splits if_splits)
      have "sched_ok d" using executeCommand_ok [OF 2(4) d(1)] by blast
      then show ?thesis using 2(2) [OF u False x go(2,1) d(1) refl] d(2) by (auto split: if_splits)
    qed
  qed
qed simp

lemma apply_rows_ok: "apply_rows e now qs c = Some c' \<Longrightarrow> sched_ok c \<Longrightarrow> sched_ok c'"
  by (induction qs arbitrary: c) (auto split: Option.bind_splits dest: apply_row_ok)

end
