(* ===== verification/EpaxosLive.thy ===== *)
theory EpaxosLive
  imports EpaxosOrder
begin

text \<open>
  Progress of the execution scheduler of EPaxos: when everything an instance depends on is committed, with its
  commands and dependencies, and commands can be executed, the search from it neither panics, nor blocks, nor
  exceeds its bound on the depth, and the instance is executed at the end.
\<close>

definition runnable :: "'st env \<Rightarrow> inst \<Rightarrow> bool" where
  "runnable e x \<longleftrightarrow> i_Cmds x \<noteq> None \<and>
     (case respond_to e x of Some ps \<Rightarrow> length (cmds_of (i_Cmds x)) \<le> length ps | None \<Rightarrow> True)"

definition total :: "'st env \<Rightarrow> bool" where
  "total e \<longleftrightarrow> (\<forall>cmd st. execute e cmd st \<noteq> None)"

text \<open>Instances the search can go through: in the space, committed or executed, runnable, and comparable when \<open>transconf\<close> is set.\<close>

definition ready_inst :: "'st env \<Rightarrow> 'st core \<Rightarrow> instance_id \<Rightarrow> bool" where
  "ready_inst e c w \<longleftrightarrow> in_space (fst w) (snd w) c \<and>
     (\<exists>x. mget (c_space c) w = Some x \<and> decided x \<and> runnable e x \<and> c_n c \<le> int (length (i_Deps x)) \<and>
        (c_transconf c \<longrightarrow> list_all (\<lambda>a. Op a \<noteq> SCAN) (cmds_of (i_Cmds x))))"

definition ready :: "'st env \<Rightarrow> 'st core \<Rightarrow> instance_id \<Rightarrow> bool" where
  "ready e c v \<longleftrightarrow> (\<forall>w. (v, w) \<in> (graph c)\<^sup>* \<longrightarrow> ready_inst e c w)"

lemma ready_inst_keeps:
  assumes K: "keeps A c c'" and r: "ready_inst e c w"
  shows "ready_inst e c' w"
proof -
  obtain x where x: "mget (c_space c) w = Some x" "decided x" "runnable e x" "c_n c \<le> int (length (i_Deps x))"
    "c_transconf c \<longrightarrow> list_all (\<lambda>a. Op a \<noteq> SCAN) (cmds_of (i_Cmds x))" using r unfolding ready_inst_def by blast
  have "attrs c' w = attrs c w" using K by (simp add: keeps_def)
  then obtain y where "mget (c_space c') w = Some y" "i_Cmds y = i_Cmds x" "i_Deps y = i_Deps x" "i_lb y = i_lb x" "decided y"
    using x(1,2) by (auto simp: attrs_def)
  moreover from this have "runnable e y" using x(3) by (auto simp: runnable_def respond_to_def split: option.splits)
  ultimately show ?thesis using r x K by (auto simp: ready_inst_def in_space_def keeps_def)
qed

lemma ready_keeps: "keeps A c c' \<Longrightarrow> ready e c v \<Longrightarrow> ready e c' v"
  unfolding ready_def using keeps_graph ready_inst_keeps by metis

lemma ready_reach: "ready e c v \<Longrightarrow> (v, w) \<in> (graph c)\<^sup>* \<Longrightarrow> ready e c w"
  unfolding ready_def by (blast intro: rtrancl_trans)

lemma run_cmds_total:
  assumes "total e" "case ps of Some props \<Rightarrow> k + length cmds \<le> length props | None \<Rightarrow> True"
  shows "run_cmds e ps k cmds c \<noteq> None"
  using assms
proof (induction cmds arbitrary: k c)
  case (Cons cmd cmds)
  obtain v st where x: "execute e cmd (c_app c) = Some (v, st)" using Cons.prems(1) unfolding total_def by fast
  have "run_cmds e ps (Suc k) cmds d \<noteq> None" for d using Cons.IH [OF Cons.prems(1), of "Suc k" d] Cons.prems(2) by (auto split: option.splits)
  then show ?case using x Cons.prems(2) by (auto split: option.splits)
qed simp

lemma run_all_total:
  assumes "total e" "distinct vs" "\<And>v. v \<in> set vs \<Longrightarrow> \<exists>x. mget (c_space c) v = Some x \<and> runnable e x"
  shows "run_all e vs c \<noteq> None"
  using assms(2,3)
proof (induction vs arbitrary: c)
  case (Cons v vs)
  obtain x where x: "mget (c_space c) v = Some x" "runnable e x" using Cons.prems(2) by (meson list.set_intros(1))
  then obtain d where d: "run_cmds e (respond_to e x) 0 (cmds_of (i_Cmds x)) c = Some d"
    using run_cmds_total [OF assms(1), where ps = "respond_to e x" and k = 0 and cmds = "cmds_of (i_Cmds x)" and c = c] by (auto simp: runnable_def split: option.splits)
  obtain a out where a: "d = c\<lparr>c_app := a, c_out := out\<rparr>" using run_cmds_frame [OF d] by blast
  let ?d = "d\<lparr>c_space := mput v (x\<lparr>i_Status := EXECUTED, i_onStack := False\<rparr>) (c_space d), c_history := c_history d @ [v]\<rparr>"
  have "run_inst e v c = Some ?d" using x d by (simp add: run_inst_def)
  moreover have "run_all e vs ?d \<noteq> None"
  proof (rule Cons.IH)
    show "distinct vs" using Cons.prems(1) by simp
    show "\<exists>y. mget (c_space ?d) u = Some y \<and> runnable e y" if "u \<in> set vs" for u
      using Cons.prems that a by (cases "u = v") auto
  qed
  ultimately show ?case by simp
qed simp

definition unvisited :: "'st core \<Rightarrow> instance_id set" where
  "unvisited c = {u. mget (c_space c) u \<noteq> None \<and> \<not> executed c u \<and> u \<notin> set (c_stack c)}"

lemma unvisited_bound: "finite (unvisited c) \<and> card (unvisited c) \<le> mlen (c_space c)"
proof -
  have "unvisited c \<subseteq> set (mkeys (c_space c))" by (auto simp: unvisited_def)
  then show ?thesis using card_mono [of "set (mkeys (c_space c))" "unvisited c"] finite_subset
    by (metis List.finite_set distinct_card distinct_mkeys mlen_def)
qed

lemma unvisited_keeps: "keeps A c c' \<Longrightarrow> set (c_stack c) \<subseteq> set (c_stack c') \<Longrightarrow> unvisited c' \<subseteq> unvisited c"
proof
  fix u assume K: "keeps A c c'" "set (c_stack c) \<subseteq> set (c_stack c')" and u: "u \<in> unvisited c'"
  have "attrs c' u = attrs c u" "executed c u \<Longrightarrow> executed c' u" using K(1) by (auto simp: keeps_def)
  then show "u \<in> unvisited c" using K(2) u by (cases "mget (c_space c) u") (auto simp: unvisited_def attrs_def)
qed

lemma unvisited_card: "keeps A c c' \<Longrightarrow> set (c_stack c) \<subseteq> set (c_stack c') \<Longrightarrow> card (unvisited c) \<le> k \<Longrightarrow> card (unvisited c') \<le> k"
  using card_mono [OF conjunct1 [OF unvisited_bound] unvisited_keeps] by (meson order_trans)

lemma execute_scc_total:
  assumes "total e" "WInv idx c" "c_stack c = S @ B" "\<And>u. u \<in> set B \<Longrightarrow> ready_inst e c u"
  shows "execute_scc e (length S) c \<noteq> None"
proof -
  have "distinct B" using WInv_stack_distinct [OF assms(2)] assms(3) by simp
  then have "run_all e (sort_key (node_key (c_space c)) B) c \<noteq> None"
    by (intro run_all_total [OF assms(1)]) (use assms(4) in \<open>auto simp: ready_inst_def\<close>)
  then show ?thesis using assms(3) by (auto simp: execute_scc_def)
qed

definition live :: "nat \<Rightarrow> 'st env \<Rightarrow> bool" where
  "live k e \<longleftrightarrow> (\<forall>v idx (c :: 'st core) x. WInv idx c \<longrightarrow> mget (c_space c) v = Some x \<longrightarrow> i_Status x = COMMITTED \<longrightarrow> i_Index x = 0 \<longrightarrow>
     (\<forall>u \<in> set (c_stack c). (u, v) \<in> (graph c)\<^sup>*) \<longrightarrow> ready e c v \<longrightarrow> card (unvisited c) \<le> k \<longrightarrow>
     (\<exists>idx' c'. strongconnect k e v idx c = Some (True, idx', c')))"

lemma lower_total: "mget (c_space c) v \<noteq> None \<Longrightarrow> \<exists>c'. lower v k c = Some c'"
  by (auto simp: lower_def)

lemma noscan_scan:
  "list_all (\<lambda>a. Op a \<noteq> SCAN) vs \<Longrightarrow> list_all (\<lambda>a. Op a \<noteq> SCAN) ws \<Longrightarrow> transconf_scan c vs ws = Some ()"
  by (auto simp: transconf_scan_def list_all_iff list_ex_iff Conflict_def)

lemma visit_deps_live:
  assumes H: "live k e"
  shows "WInv idx c \<Longrightarrow> linv v (i_Deps x) S ps (low c v) c \<Longrightarrow> mget (c_space c) v = Some y \<Longrightarrow> i_Deps y = i_Deps x \<Longrightarrow> i_Cmds y = i_Cmds x \<Longrightarrow>
    ready e c v \<Longrightarrow> card (unvisited c) \<le> k \<Longrightarrow> set qs \<subseteq> {0..<c_n c} \<Longrightarrow>
    \<exists>idx' c'. visit_deps k e v x qs idx c = Some (True, idx', c')"
proof (induction qs arbitrary: idx c ps y)
  case Nil
  then show ?case by (simp add: visit_deps.simps)
next
  case (Cons q qs)
  note W = Cons.prems(1) and L = Cons.prems(2) and y = Cons.prems(3-5) and R = Cons.prems(6)
  have q: "0 \<le> q" "q < c_n c" and qs: "set qs \<subseteq> {0..<c_n c}" using Cons.prems(8) by auto
  have next_live: "\<exists>idx' c'. visit_deps k e v x qs j d = Some (True, idx', c')"
    if "WInv j d" "linv v (i_Deps x) S ps (low d v) d" "keeps (set S) c d" "set (c_stack c) \<subseteq> set (c_stack d)" for j d
  proof -
    have "attrs d v = attrs c v" "c_n d = c_n c" using that(3) by (auto simp: keeps_def)
    then obtain z where "mget (c_space d) v = Some z" "i_Deps z = i_Deps x" "i_Cmds z = i_Cmds x" "c_n d = c_n c" using y by (auto simp: attrs_def)
    then show ?thesis using Cons.IH [OF that(1,2)] ready_keeps [OF that(3) R] unvisited_card [OF that(3,4) Cons.prems(7)] qs by metis
  qed
  have rv: "ready_inst e c v" using R unfolding ready_def by blast
  then have "c_n c \<le> int (length (i_Deps x))" using y by (simp add: ready_inst_def)
  then obtain i where i: "slice_get (i_Deps x) q = Some i" using q by (auto simp: slice_get_def)
  obtain up where up: "slice_get (c_executedUpTo c) q = Some up" "-1 \<le> up"
    using W q unfolding WInv_def run_ok_def by (auto simp: slice_get_def list_all_length)
  show ?case
  proof (cases "i \<le> up")
    case True
    then show ?thesis using i up next_live [OF W L keeps_self] by (simp add: visit_deps.simps)
  next
    case gt: False
    then have dep: "dep_at (i_Deps x) q = Some (q, i)" using i up by (simp add: dep_at_def)
    have E: "(v, (q, i)) \<in> graph c" by (rule linv_edge [OF L dep q])
    have rw: "ready e c (q, i)" using ready_reach [OF R] E by blast
    then have riw: "ready_inst e c (q, i)" unfolding ready_def by blast
    then obtain w where w: "mget (c_space c) (q, i) = Some w" "inst_at q i c = Some (Some w)" "decided w" "i_Cmds w \<noteq> None"
      by (auto simp: ready_inst_def inst_at_def runnable_def)
    have ts: "transconf_scan c (cmds_of (i_Cmds x)) (cmds_of (i_Cmds w)) = Some ()"
    proof (cases "c_transconf c")
      case True
      then show ?thesis using rv riw y w(1) by (intro noscan_scan) (auto simp: ready_inst_def)
    qed (simp add: transconf_scan_def)
    note V = visit_deps.simps(2) i up(1) gt [unfolded not_le] w(2,4) ts
    show ?thesis
    proof (cases "i_Status w = EXECUTED")
      case True
      then show ?thesis using next_live [OF W L keeps_self] by (simp add: V)
    next
      case ne: False
      then have com: "i_Status w = COMMITTED" using w(3) by blast
      note mk = WInv_marksD [OF W w(1) ne]
      show ?thesis
      proof (cases "i_Index w = 0")
        case True
        have r: "(u, (q, i)) \<in> (graph c)\<^sup>*" if "u \<in> set (c_stack c)" for u
          using linv_reach [OF L that] E by (rule rtrancl_into_rtrancl)
        obtain j d where d: "strongconnect k e (q, i) idx c = Some (True, j, d)"
          using H W w(1) com True r rw Cons.prems(7) unfolding live_def by blast
        have K: "keeps (set (c_stack c)) c d" using search_okD(2) [OF search_correct d W w(1) com True] r by blast
        then have a: "attrs d (q, i) = attrs c (q, i)" "attrs d v = attrs c v" by (simp_all add: keeps_def)
        then obtain w1 where w1: "mget (c_space d) (q, i) = Some w1" using w(1) by (auto simp: attrs_def)
        have "mget (c_space d) v \<noteq> None" using a(2) y(1) by (auto simp: attrs_def)
        then obtain d2 where d2: "lower v (i_Lowlink w1) d = Some d2" using lower_total by blast
        note t = tree_step [OF search_correct W L q w(1) dep com True d w1 d2]
        show ?thesis using next_live [OF t(1,2,4,6)] by (simp add: V ne [unfolded com] com True d w1 d2)
      next
        case False
        then have on: "i_onStack w" using mk by simp
        obtain d2 where d2: "lower v (i_Index w) c = Some d2" using lower_total y(1) by blast
        note t = link_step [OF W L q w(1) dep com on d2]
        show ?thesis using next_live [OF t(1,2,4,6)] False by (simp add: V ne [unfolded com] com on d2)
      qed
    qed
  qed
qed

lemma push_unvisited:
  assumes W: "WInv idx c" and x: "mget (c_space c) v = Some x" "i_Status x = COMMITTED" "i_Index x = 0" and m: "card (unvisited c) \<le> Suc k"
  shows "card (unvisited (push v idx x c)) \<le> k"
proof -
  let ?c = "push v idx x c"
  have P: "keeps (set (c_stack c)) c ?c" using push_ok [OF W x] by auto
  have st: "c_stack ?c = c_stack c @ [v]" by (simp add: push_def)
  have vu: "v \<in> unvisited c" using WInv_marksD [OF W x(1)] x by (auto simp: unvisited_def executed_def status_defs)
  have "unvisited ?c \<subseteq> unvisited c - {v}" using unvisited_keeps [OF P] st by (auto simp: unvisited_def)
  then show ?thesis using vu m unvisited_bound [of c] card_mono [of "unvisited c - {v}" "unvisited ?c"] by auto
qed

lemma live_step:
  assumes T: "total e" and H: "live k e"
  shows "live (Suc k) e"
  unfolding live_def
proof (intro allI impI)
  fix v idx and c :: "'a core" and x
  assume W: "WInv idx c" and x: "mget (c_space c) v = Some x" "i_Status x = COMMITTED" "i_Index x = 0"
    and reach: "\<forall>u \<in> set (c_stack c). (u, v) \<in> (graph c)\<^sup>*" and R: "ready e c v" and m: "card (unvisited c) \<le> Suc k"
  let ?c = "push v idx x c"
  have P: "WInv (idx + 1) ?c" "keeps (set (c_stack c)) c ?c" using push_ok [OF W x] by auto
  have L: "linv v (i_Deps x) (c_stack c) {} (low ?c v) ?c" by (rule push_linv [OF x(1,2) reach])
  have st: "c_stack ?c = c_stack c @ [v]" "c_n ?c = c_n c" by (simp_all add: push_def)
  have m': "card (unvisited ?c) \<le> k" by (rule push_unvisited [OF W x m])
  have qs: "set [0..c_n c - 1] = {0..<c_n c}" by auto
  have mv: "mget (c_space ?c) v = Some (x\<lparr>i_Index := idx, i_Lowlink := idx, i_onStack := True\<rparr>)" by (simp add: push_def)
  obtain j d where d: "visit_deps k e v x [0..c_n c - 1] (idx + 1) ?c = Some (True, j, d)"
    using visit_deps_live [OF H P(1) L mv _ _ ready_keeps [OF P(2) R] m', of "[0..c_n c - 1]"] st qs by auto
  have V: "WInv j d" "keeps (set (c_stack c)) ?c d" "linv v (i_Deps x) (c_stack c) {0..<c_n c} (low d v) d"
    using visit_deps_ok [OF search_correct d P(1) L] st qs by auto
  have K: "keeps (set (c_stack c)) c d" using keeps_then [OF P(2) V(2)] by auto
  obtain y where y: "mget (c_space d) v = Some y" using V(3) unfolding linv_def by blast
  obtain U where U: "c_stack d = c_stack c @ v # U" using V(3) unfolding linv_def by blast
  have n: "{0..<c_n d} \<subseteq> {0..<c_n c}" using K by (simp add: keeps_def)
  have "ready_inst e d u" if "u \<in> set (v # U)" for u
    using linv_all [OF V(3) n U that] ready_keeps [OF K R] unfolding region_def ready_def by blast
  then have ex: "execute_scc e (length (c_stack c)) d \<noteq> None" by (intro execute_scc_total [OF T V(1) U])
  have cm: "i_Cmds x \<noteq> None" using R x(1) unfolding ready_def ready_inst_def runnable_def by force
  note A = strongconnect.simps(2) [of k e v idx c, unfolded x(1) option.case Let_def push_def [symmetric] st]
  show "\<exists>idx' c'. strongconnect (Suc k) e v idx c = Some (True, idx', c')"
    unfolding A using cm d y ex by (auto simp: d)
qed

theorem search_live: "total e \<Longrightarrow> live k e"
proof (induction k)
  case 0
  have "False" if "mget (c_space c) v = Some x" "i_Status x = COMMITTED" "i_Index x = 0" "WInv idx c" "card (unvisited c) = 0" for v idx and c :: "'a core" and x
  proof -
    have "v \<in> unvisited c" using WInv_marksD [OF that(4,1)] that by (auto simp: unvisited_def executed_def status_defs)
    then show False using that(5) unvisited_bound [of c] by auto
  qed
  then show ?case unfolding live_def le_zero_eq by blast
qed (rule live_step)

lemma findSCC_live:
  assumes C: "sched_ok c" and T: "total e" and R: "ready e c v" and v: "mget (c_space c) v = Some x" "i_Status x = COMMITTED"
  shows "\<exists>c'. findSCC e v c = Some (True, c')"
proof -
  let ?c = "c\<lparr>c_stack := []\<rparr>"
  have i: "i_Index x = 0" using C v by (auto simp: sched_ok_def clear_marks_def status_defs)
  have "keeps {} c ?c" by (simp add: keeps_def attrs_def executed_def)
  then have r: "ready e ?c v" using R by (rule ready_keeps)
  have m: "card (unvisited ?c) \<le> Suc (mlen (c_space c))" using unvisited_bound [of ?c] by simp
  have "\<exists>idx' c'. strongconnect (Suc (mlen (c_space c))) e v 1 ?c = Some (True, idx', c')"
    using search_live [OF T, of "Suc (mlen (c_space c))"] sched_WInv [OF C] v i r m unfolding live_def by simp
  then show ?thesis by (auto simp: findSCC_def)
qed

subsection \<open>The bound on the depth\<close>

text \<open>A bound of the number of instances not yet visited is never reached: any larger bound gives the same result.\<close>

definition deep :: "nat \<Rightarrow> nat \<Rightarrow> 'st env \<Rightarrow> bool" where
  "deep k j e \<longleftrightarrow> (\<forall>v idx (c :: 'st core) x. WInv idx c \<longrightarrow> mget (c_space c) v = Some x \<longrightarrow> i_Status x = COMMITTED \<longrightarrow> i_Index x = 0 \<longrightarrow>
     (\<forall>u \<in> set (c_stack c). (u, v) \<in> (graph c)\<^sup>*) \<longrightarrow> card (unvisited c) \<le> k \<longrightarrow> strongconnect (k + j) e v idx c = strongconnect k e v idx c)"

lemma visit_deps_deep:
  assumes H: "deep k j e"
  shows "WInv idx c \<Longrightarrow> linv v (i_Deps x) S ps (low c v) c \<Longrightarrow> card (unvisited c) \<le> k \<Longrightarrow> set qs \<subseteq> {0..<c_n c} \<Longrightarrow>
    visit_deps (k + j) e v x qs idx c = visit_deps k e v x qs idx c"
proof (induction qs arbitrary: idx c)
  case Nil
  then show ?case by (simp add: visit_deps.simps)
next
  case (Cons q qs)
  note W = Cons.prems(1) and L = Cons.prems(2)
  have q: "0 \<le> q" "q < c_n c" and qs: "set qs \<subseteq> {0..<c_n c}" using Cons.prems(4) by auto
  have next_deep: "visit_deps (k + j) e v x qs m d = visit_deps k e v x qs m d"
    if "WInv m d" "linv v (i_Deps x) S ps (low d v) d" "keeps (set S) c d" "set (c_stack c) \<subseteq> set (c_stack d)" for m d
  proof -
    have "c_n d = c_n c" using that(3) by (simp add: keeps_def)
    then show ?thesis using Cons.IH [OF that(1,2)] unvisited_card [OF that(3,4) Cons.prems(3)] qs by simp
  qed
  note here = next_deep [OF W L keeps_self order_refl]
  show ?case
  proof (cases "slice_get (i_Deps x) q")
    case None
    then show ?thesis by (simp add: visit_deps.simps)
  next
    case i: (Some i)
    show ?thesis
    proof (cases "inst_at q i c")
      case None
      then show ?thesis using here by (auto simp: visit_deps.simps i split: option.splits)
    next
      case w: (Some w')
      show ?thesis
      proof (cases "\<exists>w. w' = Some w \<and> i_Status w = COMMITTED \<and> (i_Index w = 0 \<or> i_onStack w)")
        case False
        then show ?thesis using here by (auto simp: visit_deps.simps i w split: option.splits)
      next
        case True
        then obtain w where w': "w' = Some w" "i_Status w = COMMITTED" "i_Index w = 0 \<or> i_onStack w" by blast
        have ne: "COMMITTED \<noteq> EXECUTED" by (simp add: status_defs)
        have m: "mget (c_space c) (q, i) = Some w" and dep: "dep_at (i_Deps x) q = Some (q, i)"
          using inst_at_Some [of q i c w] w w'(1) i by (auto simp: dep_at_def)
        have E: "(v, (q, i)) \<in> graph c" by (rule linv_edge [OF L dep q])
        show ?thesis
        proof (cases "i_Index w = 0")
          case zero: True
          have r: "(u, (q, i)) \<in> (graph c)\<^sup>*" if "u \<in> set (c_stack c)" for u
            using linv_reach [OF L that] E by (rule rtrancl_into_rtrancl)
          have sc: "strongconnect (k + j) e (q, i) idx c = strongconnect k e (q, i) idx c"
            using H W m w'(2) zero r Cons.prems(3) unfolding deep_def by blast
          have tree: "visit_deps (k + j) e v x qs idx1 c2 = visit_deps k e v x qs idx1 c2"
            if "strongconnect k e (q, i) idx c = Some (True, idx1, c1)" "mget (c_space c1) (q, i) = Some w1" "lower v (i_Lowlink w1) c1 = Some c2" for idx1 c1 w1 c2
            using tree_step [OF search_correct W L q m dep w'(2) zero that] by (intro next_deep)
          show ?thesis using here tree
            by (auto simp: visit_deps.simps i w w' zero sc ne split: option.splits if_splits)
        next
          case False
          then have on: "i_onStack w" using w'(3) by simp
          have link: "visit_deps (k + j) e v x qs idx c2 = visit_deps k e v x qs idx c2" if "lower v (i_Index w) c = Some c2" for c2
            using link_step [OF W L q m dep w'(2) on that] by (intro next_deep)
          show ?thesis using here link False by (auto simp: visit_deps.simps i w w' on ne split: option.splits)
        qed
      qed
    qed
  qed
qed

theorem search_deep: "deep k j e"
proof (induction k)
  case 0
  have "False" if "mget (c_space c) v = Some x" "i_Status x = COMMITTED" "i_Index x = 0" "WInv idx c" "card (unvisited c) = 0" for v idx and c :: "'a core" and x
  proof -
    have "v \<in> unvisited c" using WInv_marksD [OF that(4,1)] that by (auto simp: unvisited_def executed_def status_defs)
    then show False using that(5) unvisited_bound [of c] by auto
  qed
  then show ?case unfolding deep_def le_zero_eq by blast
next
  case (Suc k)
  show ?case unfolding deep_def
  proof (intro allI impI)
    fix v idx and c :: "'a core" and x
    assume W: "WInv idx c" and x: "mget (c_space c) v = Some x" "i_Status x = COMMITTED" "i_Index x = 0"
      and reach: "\<forall>u \<in> set (c_stack c). (u, v) \<in> (graph c)\<^sup>*" and m: "card (unvisited c) \<le> Suc k"
    let ?c = "push v idx x c"
    have P: "WInv (idx + 1) ?c" using push_ok [OF W x] by auto
    have L: "linv v (i_Deps x) (c_stack c) {} (low ?c v) ?c" by (rule push_linv [OF x(1,2) reach])
    have st: "c_n ?c = c_n c" by (simp add: push_def)
    have qs: "set [0..c_n c - 1] = {0..<c_n c}" by auto
    have V: "visit_deps (k + j) e v x [0..c_n c - 1] (idx + 1) ?c = visit_deps k e v x [0..c_n c - 1] (idx + 1) ?c"
      using visit_deps_deep [OF Suc P L push_unvisited [OF W x m]] st qs by simp
    show "strongconnect (Suc k + j) e v idx c = strongconnect (Suc k) e v idx c"
      unfolding add_Suc strongconnect.simps x(1) option.case Let_def push_def [symmetric] st V ..
  qed
qed

end
