(* ===== verification/EpaxosReplica.thy ===== *)
theory EpaxosReplica
  imports EpaxosLive
begin

text \<open>
  A replica of EPaxos over time: what its handlers leave of decided instances, the runs of a replica, and the
  properties of all its reachable states.
\<close>

subsection \<open>What a handler leaves alone\<close>

definition inst_steady :: "inst option \<Rightarrow> inst option \<Rightarrow> bool" where
  "inst_steady a b \<longleftrightarrow> (case b of
     None \<Rightarrow> a = None
   | Some y \<Rightarrow> (case a of
       None \<Rightarrow> i_Status y \<noteq> EXECUTED \<and> i_Index y = 0 \<and> \<not> i_onStack y
     | Some x \<Rightarrow>
         if decided x
         then i_Status y = i_Status x \<and> i_Seq y = i_Seq x \<and> i_Deps y = i_Deps x \<and> i_Index y = i_Index x \<and> i_onStack y = i_onStack x \<and>
           (i_Cmds x \<noteq> None \<longrightarrow> i_Cmds y = i_Cmds x)
         else i_Status y \<noteq> EXECUTED \<and> (i_Index y = i_Index x \<and> i_onStack y = i_onStack x \<or> i_Index y = 0 \<and> \<not> i_onStack y)))"

definition steady :: "'st core \<Rightarrow> 'st core \<Rightarrow> bool" where
  "steady c c' \<longleftrightarrow> c_n c' = c_n c \<and> c_executedUpTo c' = c_executedUpTo c \<and> c_history c' = c_history c \<and>
     (\<forall>v. inst_steady (mget (c_space c) v) (mget (c_space c') v))"

lemma inst_steady_refl [simp]: "inst_steady a a"
  by (auto simp: inst_steady_def split: option.splits)

lemma inst_steady_trans: "inst_steady a b \<Longrightarrow> inst_steady b c \<Longrightarrow> inst_steady a c"
  by (cases a; cases b; cases c) (auto simp: inst_steady_def status_defs split: if_splits)

lemma steady_refl [simp]: "steady c c"
  by (simp add: steady_def)

lemma steady_trans: "steady a b \<Longrightarrow> steady b c \<Longrightarrow> steady a c"
  unfolding steady_def by (metis inst_steady_trans)

lemma steady_put:
  assumes "steady c d" "inst_steady (mget (c_space d) (q, i)) (Some y)"
  shows "steady c (put_inst q i y d)"
proof -
  have "steady d (put_inst q i y d)" using assms(2) by (auto simp: steady_def put_inst_def)
  then show ?thesis by (rule steady_trans [OF assms(1)])
qed

text \<open>Updates of the other fields.\<close>

lemma steady_fields [simp]:
  "steady a (c\<lparr>c_out := x1\<rparr>) = steady a c" "steady a (c\<lparr>c_crtInstance := x2\<rparr>) = steady a c" "steady a (c\<lparr>c_committedUpTo := x3\<rparr>) = steady a c"
  "steady a (c\<lparr>c_conflicts := x4, c_maxSeqPerKey := x5\<rparr>) = steady a c" "steady a (c\<lparr>c_maxSeq := x6\<rparr>) = steady a c"
  "steady a (c\<lparr>c_instancesToRecover := x7\<rparr>) = steady a c" "steady a (c\<lparr>c_isLeader := x8\<rparr>) = steady a c" "steady a (c\<lparr>c_maxRecvBallot := x9\<rparr>) = steady a c"
  "steady a (c\<lparr>c_recoveryAttempts := y1\<rparr>) = steady a c" "steady a (c\<lparr>c_deferMap := y2\<rparr>) = steady a c" "steady a (c\<lparr>c_blocked := y3\<rparr>) = steady a c"
  "steady a (c\<lparr>c_active := y4\<rparr>) = steady a c" "steady a (c\<lparr>c_nextGapScan := y5\<rparr>) = steady a c"
  by (simp_all add: steady_def)

lemma steady_emit [simp]: "steady a (emit x c) = steady a c" "c_space (emit x c) = c_space c"
  by (simp_all add: emit_def)

lemma steady_with_lb [simp]: "steady a (with_lb q i f c) = steady a c" "c_space (with_lb q i f c) = c_space c"
  by (simp_all add: with_lb_def split: option.splits)

lemma steady_bcast [simp]:
  "steady a (bcastPrepare q i c) = steady a c" "steady a (bcastPreAccept e q i c) = steady a c" "steady a (bcastTryPreAccept q i c) = steady a c"
  "steady a (bcastAccept e q i c) = steady a c" "steady a (bcastCommit e q i c) = steady a c"
  "c_space (bcastPrepare q i c) = c_space c" "c_space (bcastPreAccept e q i c) = c_space c" "c_space (bcastTryPreAccept q i c) = c_space c"
  "c_space (bcastAccept e q i c) = c_space c" "c_space (bcastCommit e q i c) = c_space c"
  by (simp_all add: bcastPrepare_def bcastPreAccept_def bcastTryPreAccept_def bcastAccept_def bcastCommit_def)

lemma steady_pure [simp]:
  "steady a (raise_ballot b c) = steady a c" "steady a (clearRecovery q i c) = steady a c" "steady a (handleLeaderCall c) = steady a c"
  "steady a (fst (scheduleRecovery q i now c)) = steady a c" "steady a (updateDeferred x y q i c) = steady a c"
  "c_space (raise_ballot b c) = c_space c" "c_space (clearRecovery q i c) = c_space c" "c_space (updateDeferred x y q i c) = c_space c"
  by (simp_all add: raise_ballot_def clearRecovery_def handleLeaderCall_def scheduleRecovery_def updateDeferred_def Let_def split: option.splits)

lemma steady_replies [simp]:
  "steady a (reply_all ps c) = steady a c" "steady a (requeue_all ps c) = steady a c" "c_space (reply_all ps c) = c_space c" "c_space (requeue_all ps c) = c_space c"
  by (induction ps arbitrary: c) simp_all

lemma steady_reply_committed [simp]: "steady a (reply_committed e lb c) = steady a c" "c_space (reply_committed e lb c) = c_space c"
  by (simp_all add: reply_committed_def split: option.splits)

lemma raise_crt_steady: "raise_crt q i c = Some d \<Longrightarrow> (steady a d = steady a c) \<and> c_space d = c_space c"
  by (auto simp: raise_crt_def split: Option.bind_splits if_splits)

lemma updateConflicts_steady: "updateConflicts cmds q i sq c = Some d \<Longrightarrow> (steady a d = steady a c) \<and> c_space d = c_space c"
  by (auto simp: updateConflicts_def split: Option.bind_splits if_splits)

lemma updateCommitted_steady: "updateCommitted q c = Some d \<Longrightarrow> (steady a d = steady a c) \<and> c_space d = c_space c"
  by (auto simp: updateCommitted_def split: Option.bind_splits)

lemma blockedOn_steady: "blockedOn e q i now c = Some d \<Longrightarrow> steady a d = steady a c"
  using blockedOn_frame [of e q i now c d] by (simp add: steady_def)

lemma fetch_inst_steady:
  assumes "fetch_inst q i c = Some (x, d)" "steady a c"
  shows "steady a d" "mget (c_space d) (q, i) = Some x" "(case mget (c_space c) (q, i) of Some y \<Rightarrow> x = y | None \<Rightarrow> x = newInstanceDefault)"
proof -
  have x: "(x, d) = (case mget (c_space c) (q, i) of Some y \<Rightarrow> (y, c) | None \<Rightarrow> (newInstanceDefault, put_inst q i newInstanceDefault c))"
    using assms(1) by (auto simp: fetch_inst_def inst_at_def split: if_splits)
  show "steady a d" using x assms(2)
    by (cases "mget (c_space c) (q, i)") (auto intro!: steady_put simp: inst_steady_def newInstanceDefault_def newInstance_def status_defs)
  show "mget (c_space d) (q, i) = Some x" using x by (cases "mget (c_space c) (q, i)") (auto simp: put_inst_def)
  show "(case mget (c_space c) (q, i) of Some y \<Rightarrow> x = y | None \<Rightarrow> x = newInstanceDefault)" using x by (auto split: option.splits)
qed

lemma inst_steady_open:
  "\<not> decided x \<Longrightarrow> i_Status y \<noteq> EXECUTED \<Longrightarrow> i_Index y = i_Index x \<Longrightarrow> i_onStack y = i_onStack x \<Longrightarrow> inst_steady (Some x) (Some y)"
  by (simp add: inst_steady_def)

lemma inst_steady_same:
  "i_Status y = i_Status x \<Longrightarrow> i_Seq y = i_Seq x \<Longrightarrow> i_Deps y = i_Deps x \<Longrightarrow> i_Index y = i_Index x \<Longrightarrow> i_onStack y = i_onStack x \<Longrightarrow>
   i_Cmds x = None \<or> i_Cmds y = i_Cmds x \<Longrightarrow> inst_steady (Some x) (Some y)"
  by (auto simp: inst_steady_def)

lemma handlePrepare_steady:
  assumes "handlePrepare leader q i b c = Some c'"
  shows "steady c c'"
proof -
  obtain x f where d: "fetch_inst q i (raise_ballot b c) = Some (x, f)"
    using assms by (auto simp: handlePrepare_def Let_def split: Option.bind_splits prod.splits)
  let ?y = "if i_bal x < b then x\<lparr>i_bal := b\<rparr> else x"
  have f: "steady c f" "mget (c_space f) (q, i) = Some x" using fetch_inst_steady [OF d, of c] by auto
  then have "steady c (put_inst q i ?y f)" by (intro steady_put) (auto intro: inst_steady_same)
  then show ?thesis using assms d by (auto simp: handlePrepare_def Let_def split: Option.bind_splits)
qed

lemma handleCommit_steady:
  assumes "handleCommit q i b cmds sq deps c = Some c'"
  shows "steady c c'"
proof -
  obtain d x f where d: "raise_crt q i c = Some d" "fetch_inst q i (raise_ballot b d) = Some (x, f)"
    using assms by (auto simp: handleCommit_def Let_def split: Option.bind_splits prod.splits)
  have f: "steady c f" "mget (c_space f) (q, i) = Some x" using fetch_inst_steady [OF d(2), of c] raise_crt_steady [OF d(1)] by auto
  show ?thesis
  proof (cases "i_Status x \<ge> COMMITTED")
    case True
    then show ?thesis using assms d f by (auto simp: handleCommit_def Let_def split: Option.bind_splits)
  next
    case False
    obtain z g where p: "(if q = c_id f \<and> map Op (cmds_of cmds) = [NONE]
             then (case i_lb x of
                 Some lb \<Rightarrow> (case lb_clientProposals lb of
                     Some ps \<Rightarrow> (x\<lparr>i_lb := Some (lb\<lparr>lb_clientProposals := None\<rparr>)\<rparr>, requeue_all ps f)
                   | None \<Rightarrow> (x, f))
               | None \<Rightarrow> (x, f))
             else (x, f)) = (z, g)" by fastforce
    then have z: "i_Index z = i_Index x" "i_onStack z = i_onStack x" "steady c g" "c_space g = c_space f"
      using f(1) by (auto split: if_splits option.splits)
    let ?y = "z\<lparr>i_bal := (if i_bal z < b then b else i_bal z), i_vbal := b, i_Cmds := cmds, i_Seq := sq, i_Deps := deps, i_Status := COMMITTED\<rparr>"
    obtain h k where h: "updateConflicts (cmds_of cmds) q i sq (put_inst q i ?y g) = Some h" "updateCommitted q h = Some k" "c' = clearRecovery q i k"
      using assms d False p by (auto simp: handleCommit_def Let_def split: Option.bind_splits)
    have "steady c (put_inst q i ?y g)" using z False f by (intro steady_put) (auto intro!: inst_steady_open simp: status_defs)
    then show ?thesis using updateConflicts_steady [OF h(1)] h(3) updateCommitted_steady [OF h(2)] by auto
  qed
qed

lemma handleAccept_steady:
  assumes "handleAccept leader q i b sq deps cmds c = Some c'"
  shows "steady c c'"
proof -
  obtain d x f where d: "raise_crt q i (raise_ballot b c) = Some d" "fetch_inst q i d = Some (x, f)"
    using assms by (auto simp: handleAccept_def Let_def split: Option.bind_splits prod.splits)
  have f: "steady c f" "mget (c_space f) (q, i) = Some x" using fetch_inst_steady [OF d(2), of c] raise_crt_steady [OF d(1)] by auto
  show ?thesis
  proof (cases "b < i_bal x \<or> i_Status x \<ge> COMMITTED")
    case True
    then show ?thesis using assms d f by (auto simp: handleAccept_def Let_def split: Option.bind_splits)
  next
    case False
    let ?y = "x\<lparr>i_Deps := deps, i_Seq := sq, i_bal := b, i_vbal := b, i_Status := ACCEPTED, i_Cmds := cmds\<rparr>"
    obtain h m where h: "updateConflicts (cmds_of cmds) q i sq (put_inst q i ?y f) = Some h" "c' = emit m h"
      using assms d False by (auto simp: handleAccept_def Let_def split: Option.bind_splits)
    have "steady c (put_inst q i ?y f)" using False f by (intro steady_put) (auto intro!: inst_steady_open simp: status_defs)
    then show ?thesis using updateConflicts_steady [OF h(1)] h(2) by auto
  qed
qed

lemma handlePreAccept_steady:
  assumes "handlePreAccept leader q i b cmds sq deps c = Some c'"
  shows "steady c c'"
proof -
  let ?c = "raise_ballot b (if sq \<ge> c_maxSeq c then c\<lparr>c_maxSeq := int32 (sq + 1)\<rparr> else c)"
  obtain d x f where d: "raise_crt q i ?c = Some d" "fetch_inst q i d = Some (x, f)"
    using assms by (auto simp: handlePreAccept_def Let_def split: Option.bind_splits prod.splits)
  have "steady c ?c" by simp
  then have f: "steady c f" "mget (c_space f) (q, i) = Some x" using fetch_inst_steady [OF d(2), of c] raise_crt_steady [OF d(1)] by auto
  note A = assms [unfolded handlePreAccept_def Let_def d bind.bind_lunit prod.case]
  let ?x = "x\<lparr>i_bal := b\<rparr>"
  have put: "steady c (put_inst q i y f)" if "inst_steady (Some x) (Some y)" for y using f that by (intro steady_put) auto
  consider "b < i_bal x" | "\<not> b < i_bal x" "i_Status x \<ge> ACCEPTED" | "\<not> b < i_bal x" "\<not> i_Status x \<ge> ACCEPTED" by linarith
  then show ?thesis
  proof cases
    case 1
    then show ?thesis using A d f by auto
  next
    case 2
    have s: "steady c (put_inst q i ?x f)" by (rule put) (simp add: inst_steady_same)
    show ?thesis
    proof (cases "i_Cmds x = None")
      case True
      have "steady c (put_inst q i (?x\<lparr>i_Cmds := cmds\<rparr>) (put_inst q i ?x f))"
        using s by (rule steady_put) (use True in \<open>simp add: put_inst_def inst_steady_same\<close>)
      then show ?thesis using A d 2 True
        by (auto simp: preAccept_reply_def split: Option.bind_splits dest!: updateConflicts_steady [where a = c])
    next
      case False
      then show ?thesis using A d 2 s by (auto simp: preAccept_reply_def)
    qed
  next
    case 3
    then have open': "\<not> decided x" by (auto simp: status_defs)
    have s: "steady c (put_inst q i ?x f)" by (rule put) (simp add: inst_steady_same)
    show ?thesis
    proof (cases "i_vbal x \<noteq> b \<or> i_Status x = NONE_st")
      case True
      obtain sq' deps' ch where u: "updateAttributes (cmds_of cmds) sq deps q i (put_inst q i ?x f) = Some (sq', deps', ch)"
        using A d 3 True by (auto split: Option.bind_splits)
      let ?y = "?x\<lparr>i_Cmds := cmds, i_Seq := sq', i_Deps := deps', i_vbal := b, i_Status := (if ch then PREACCEPTED else PREACCEPTED_EQ)\<rparr>"
      have "steady c (put_inst q i ?y (put_inst q i ?x f))"
        using s by (rule steady_put) (use open' in \<open>auto simp: put_inst_def status_defs intro!: inst_steady_open\<close>)
      then show ?thesis using A d 3 True u
        by (auto simp: preAccept_reply_def split: Option.bind_splits dest!: updateConflicts_steady [where a = c])
    next
      case False
      then show ?thesis using A d 3 s by (auto simp: preAccept_reply_def)
    qed
  qed
qed

subsection \<open>Handlers that act on an undecided instance\<close>

definition undecided :: "int \<Rightarrow> int \<Rightarrow> 'st core \<Rightarrow> bool" where
  "undecided q i c \<longleftrightarrow> (case mget (c_space c) (q, i) of Some x \<Rightarrow> \<not> decided x | None \<Rightarrow> True)"

lemma undecidedD: "undecided q i c \<Longrightarrow> mget (c_space c) (q, i) = Some x \<Longrightarrow> \<not> decided x"
  by (simp add: undecided_def)

lemma undecided_cong: "c_space d = c_space c \<Longrightarrow> undecided q i d = undecided q i c"
  by (simp add: undecided_def)

lemma undecided_raise [simp]: "undecided q i (raise_ballot b c) = undecided q i c"
  by (simp add: undecided_def)

lemma undecided_put [simp]: "undecided q i (put_inst q i x c) = (\<not> decided x)"
  by (simp add: undecided_def put_inst_def)

lemma put_steady_open:
  assumes "steady a c" "undecided q i c" "mget (c_space c) (q, i) = Some x" "i_Status y \<noteq> EXECUTED" "i_Index y = i_Index x" "i_onStack y = i_onStack x"
  shows "steady a (put_inst q i y c)"
  using assms by (intro steady_put) (auto intro!: inst_steady_open dest: undecidedD)

lemma put_steady_lb:
  assumes "steady a c" "mget (c_space c) (q, i) = Some x"
  shows "steady a (put_inst q i (x\<lparr>i_lb := l\<rparr>) c)"
  using assms by (intro steady_put) (auto intro: inst_steady_same)

lemma inst_at_mget: "inst_at q i c = Some x \<Longrightarrow> mget (c_space c) (q, i) = x"
  by (auto simp: inst_at_def split: if_splits)

text \<open>A phase that this replica has started for the instance and that is still open.\<close>

definition waiting :: "(bookkeeping \<Rightarrow> bool) \<Rightarrow> int \<Rightarrow> int \<Rightarrow> 'st core \<Rightarrow> bool" where
  "waiting P q i c \<longleftrightarrow> (case mget (c_space c) (q, i) of
     Some x \<Rightarrow> (case i_lb x of Some lb \<Rightarrow> P lb | None \<Rightarrow> False) | None \<Rightarrow> False)"

lemma waitingI: "mget (c_space c) (q, i) = Some x \<Longrightarrow> i_lb x = Some lb \<Longrightarrow> P lb \<Longrightarrow> waiting P q i c"
  by (simp add: waiting_def)

lemma waiting_put [simp]: "waiting P q i (put_inst q i x c) = (case i_lb x of Some lb \<Rightarrow> P lb | None \<Rightarrow> False)"
  by (simp add: waiting_def put_inst_def)

lemma startPhase1_steady:
  assumes r: "startPhase1 e cmds q i b ps c = Some c'" and s: "steady a c" and u: "undecided q i c"
  shows "steady a c'"
proof -
  let ?c = "c\<lparr>c_active := mput (q, i) True (c_active c)\<rparr>"
  obtain d where d: "raise_crt q i ?c = Some d" using r by (auto simp: startPhase1_def Let_def split: Option.bind_splits)
  note A = r [unfolded startPhase1_def Let_def d bind.bind_lunit]
  obtain lb sq deps h where h: "updateConflicts (cmds_of cmds) q i sq (put_inst q i ((newInstance cmds b b PREACCEPTED sq deps)\<lparr>i_lb := Some lb\<rparr>) d) = Some h"
    "c' = bcastPreAccept e q i (if sq \<ge> c_maxSeq h then h\<lparr>c_maxSeq := sq\<rparr> else h)"
    using A by (auto split: Option.bind_splits)
  have sp: "c_space d = c_space c" "steady a d" using raise_crt_steady [OF d, of a] s by auto
  have "inst_steady (mget (c_space d) (q, i)) (Some ((newInstance cmds b b PREACCEPTED sq deps)\<lparr>i_lb := Some lb\<rparr>))"
    using u sp(1) by (auto simp: undecided_def inst_steady_def newInstance_def status_defs split: option.splits)
  then have "steady a h" using updateConflicts_steady [OF h(1)] steady_put [OF sp(2)] by blast
  then show ?thesis using h(2) by simp
qed

lemma makeBallot_steady:
  assumes "makeBallot q i c = Some c'"
  obtains x lb where "mget (c_space c) (q, i) = Some x" "i_lb x = Some lb"
    "c' = put_inst q i (x\<lparr>i_lb := Some (lb\<lparr>lb_lastTriedBallot := nextBallot (i_bal x) c\<rparr>)\<rparr>) c"
  using assms by (auto simp: makeBallot_def split: Option.bind_splits dest!: inst_at_mget)

lemma startRecovery_steady:
  assumes "startRecoveryForInstance e q i c = Some c'"
  shows "steady c c'"
proof -
  let ?c = "c\<lparr>c_active := mput (q, i) True (c_active c)\<rparr>"
  obtain x where x: "inst_at q i ?c = Some x" using assms by (auto simp: startRecoveryForInstance_def Let_def split: Option.bind_splits)
  then have m: "mget (c_space c) (q, i) = x" using inst_at_mget [OF x] by simp
  note A = assms [unfolded startRecoveryForInstance_def Let_def x bind.bind_lunit]
  let ?x = "case x of Some y \<Rightarrow> y | None \<Rightarrow> newInstanceDefault"
  have "steady c (put_inst q i (?x\<lparr>i_bal := b, i_lb := l\<rparr>) ?c)" for b l
    by (intro steady_put) (auto simp: m inst_steady_def newInstanceDefault_def newInstance_def status_defs split: option.splits)
  then show ?thesis using A by (auto split: if_splits)
qed

lemma handleAcceptReply_steady:
  assumes r: "handleAcceptReply e q i b acc c = Some c'" and u: "undecided q i c \<or> \<not> waiting (\<lambda>lb. lb_status lb = ACCEPTED) q i c"
  shows "steady c c'"
proof -
  obtain x where x: "inst_at q i c = Some x" using r by (auto simp: handleAcceptReply_def split: Option.bind_splits)
  show ?thesis
  proof (cases x)
    case None
    then show ?thesis using r x by (simp add: handleAcceptReply_def)
  next
    case (Some y)
    have m: "mget (c_space (raise_ballot b c)) (q, i) = Some y" using inst_at_mget [OF x] Some by simp
    have lb: "steady c (put_inst q i (y\<lparr>i_lb := l\<rparr>) (raise_ballot b c))" for l by (rule put_steady_lb) (use m in auto)
    have cm: "steady c (put_inst q i (y\<lparr>i_lb := l, i_Status := COMMITTED\<rparr>) (raise_ballot b c))" if "undecided q i c" for l
      by (rule put_steady_open [OF _ _ m]) (use that in \<open>auto simp: status_defs\<close>)
    show ?thesis
    proof (cases "i_lb y")
      case None
      then show ?thesis using r x Some by (simp add: handleAcceptReply_def)
    next
      case l: (Some lb)
      have "undecided q i c" if "lb_status lb = ACCEPTED" using u m l that by (auto simp: waiting_def)
      then show ?thesis using r x Some l lb cm
        by (auto simp: handleAcceptReply_def Let_def split: if_splits Option.bind_splits dest!: updateCommitted_steady [where a = c])
    qed
  qed
qed

lemma bind3_cases:
  assumes "do { (a, b, s) \<leftarrow> M; (l, ac) \<leftarrow> N a b s; if P a l ac then X a l ac else if Q a l ac then Y a l ac else Z a l ac } = Some c'"
  obtains a l ac where "X a l ac = Some c'" | a l ac where "Y a l ac = Some c'" | a l ac where "Z a l ac = Some c'"
  using assms by (auto split: Option.bind_splits if_splits)

lemma handlePreAcceptReply_cases:
  assumes r: "handlePreAcceptReply e q i b vb sq deps cd st acc c = Some c'" and x: "inst_at q i c = Some (Some y)" and l: "i_lb y = Some k"
  obtains (same) "c' = c" | (raised) "c' = raise_ballot b c" | (book) n where "c' = put_inst q i (y\<lparr>i_lb := Some n\<rparr>) (raise_ballot b c)"
  | (retry) n d where "makeBallot q i (put_inst q i (y\<lparr>i_lb := Some n\<rparr>) (raise_ballot b c)) = Some d" "c' = bcastPrepare q i d"
  | (fast) n d where "updateCommitted q (put_inst q i (adopt_lb COMMITTED n y) (raise_ballot b c)) = Some d" "c' = bcastCommit e q i (reply_committed e n (clearRecovery q i d))"
      "pre_accepted (lb_status k)"
  | (slow) n where "c' = bcastAccept e q i (put_inst q i (adopt_lb ACCEPTED n y) (raise_ballot b c))" "pre_accepted (lb_status k)"
proof -
  note A = r [unfolded handlePreAcceptReply_def x l bind.bind_lunit option.case Let_def]
  show thesis
  proof (cases "lb_preparing k \<or> lb_tryingToPreAccept k \<or> i_bal y \<noteq> lb_lastTriedBallot k")
    case True
    then show thesis using A same by simp
  next
    case 1: False
    note A = A [unfolded if_not_P [OF 1]]
    consider "lb_lastTriedBallot k > b" | "lb_lastTriedBallot k < b" | "lb_lastTriedBallot k = b" by linarith
    then show thesis
    proof cases
      case 1
      then show thesis using A raised by simp
    next
      case 2
      then show thesis using A book retry by (auto split: if_splits Option.bind_splits)
    next
      case 3
      then have ne: "\<not> lb_lastTriedBallot k > b" "\<not> lb_lastTriedBallot k < b" by auto
      note A = A [unfolded if_not_P [OF ne(1)] if_not_P [OF ne(2)]]
      show thesis
      proof (cases "lb_status k \<noteq> PREACCEPTED \<and> lb_status k \<noteq> PREACCEPTED_EQ")
        case True
        then show thesis using A raised by simp
      next
        case 4: False
        note A = A [unfolded if_not_P [OF 4]]
        have pa: "pre_accepted (lb_status k)" using 4 by (auto simp: pre_accepted_def)
        show thesis
        proof (cases "acc < 0 \<or> acc \<ge> c_n (raise_ballot b c) \<or> \<not> snd (Add (lb_preVoters k) acc)")
          case True
          then show thesis using A raised by simp
        next
          case 5: False
          note A = A [unfolded if_not_P [OF 5]]
          show thesis by (rule bind3_cases [OF A]) (use pa fast slow book in \<open>auto split: Option.bind_splits\<close>)
        qed
      qed
    qed
  qed
qed

lemma handlePreAcceptReply_steady:
  assumes r: "handlePreAcceptReply e q i b vb sq deps cd st acc c = Some c'"
    and u: "undecided q i c \<or> \<not> waiting (\<lambda>lb. pre_accepted (lb_status lb)) q i c"
  shows "steady c c'"
proof -
  obtain x where x: "inst_at q i c = Some x" using r by (auto simp: handlePreAcceptReply_def split: Option.bind_splits)
  show ?thesis
  proof (cases x)
    case None
    then show ?thesis using r x by (simp add: handlePreAcceptReply_def)
  next
    case (Some y)
    have m: "mget (c_space (raise_ballot b c)) (q, i) = Some y" using inst_at_mget [OF x] Some by simp
    have lb: "steady c (put_inst q i (y\<lparr>i_lb := l\<rparr>) (raise_ballot b c))" for l by (rule put_steady_lb) (use m in auto)
    have ad: "steady c (put_inst q i (adopt_lb s l y) (raise_ballot b c))" if "s \<noteq> EXECUTED" "undecided q i c" for s l
      by (rule put_steady_open [OF _ _ m]) (use that in \<open>auto simp: adopt_lb_def\<close>)
    have mb: "steady c d" if "makeBallot q i (put_inst q i (y\<lparr>i_lb := l\<rparr>) (raise_ballot b c)) = Some d" for l d
      using that by (rule makeBallot_steady) (use lb put_steady_lb in blast)
    show ?thesis
    proof (cases "i_lb y")
      case None
      then show ?thesis using r x Some by (simp add: handlePreAcceptReply_def)
    next
      case l: (Some k)
      have un: "undecided q i c" if "pre_accepted (lb_status k)" using u m l that by (auto simp: waiting_def)
      from r x [unfolded Some] l show ?thesis
      proof (cases rule: handlePreAcceptReply_cases)
        case (fast n d)
        then show ?thesis using updateCommitted_steady [OF fast(1)] ad [of COMMITTED n] un by (simp add: status_defs)
      next
        case (slow n)
        then show ?thesis using ad [of ACCEPTED n] un by (simp add: status_defs)
      qed (use lb mb in auto)
    qed
  qed
qed

lemma try_tail_steady:
  assumes r: "try_tail e q i cr ci x lb c = Some c'" and s: "steady a c" and m: "mget (c_space c) (q, i) = Some x" and u: "\<not> decided x"
  shows "steady a c'"
proof -
  have lb': "steady a (put_inst q i (x\<lparr>i_lb := l\<rparr>) c)" "steady a (put_inst q i (x\<lparr>i_lb := l\<rparr>) (updateDeferred q i cr ci c))" for l
    using s m by (auto intro!: put_steady_lb)
  have "steady a d" if "makeBallot q i (put_inst q i (x\<lparr>i_lb := l\<rparr>) c) = Some f" "startPhase1 e cmds q i b ps f = Some d" for l f d cmds b ps
    using that(1)
  proof (rule makeBallot_steady)
    fix y k assume y: "mget (c_space (put_inst q i (x\<lparr>i_lb := l\<rparr>) c)) (q, i) = Some y" "i_lb y = Some k"
      "f = put_inst q i (y\<lparr>i_lb := Some (k\<lparr>lb_lastTriedBallot := nextBallot (i_bal y) (put_inst q i (x\<lparr>i_lb := l\<rparr>) c)\<rparr>)\<rparr>) (put_inst q i (x\<lparr>i_lb := l\<rparr>) c)"
    have "steady a f" unfolding y(3) by (rule put_steady_lb [OF lb'(1) y(1)])
    moreover have "i_Status y = i_Status x" using y(1) by (auto simp: put_inst_def)
    then have "undecided q i f" using y(3) u by simp
    ultimately show "steady a d" by (rule startPhase1_steady [OF that(2)])
  qed
  then show ?thesis using r lb' by (auto simp: try_tail_def Let_def split: if_splits Option.bind_splits option.splits prod.splits)
qed

lemma handleTryPreAcceptReply_open:
  assumes r: "handleTryPreAcceptReply e acc q i b vb cr ci cs c = Some c'" and s: "steady a c" and u: "undecided q i c"
  shows "steady a c'"
proof -
  obtain x f where f: "fetch_inst q i (raise_ballot b c) = Some (x, f)"
    using r by (auto simp: handleTryPreAcceptReply_def split: Option.bind_splits)
  have x: "steady a f" "mget (c_space f) (q, i) = Some x" "\<not> decided x"
    using fetch_inst_steady [OF f, of a] s u by (auto simp: undecided_def newInstanceDefault_def newInstance_def status_defs split: option.splits)
  have uf: "undecided q i f" using x by (simp add: undecided_def)
  have ac: "steady a (put_inst q i y f)" if "i_Status y = ACCEPTED" "i_Index y = i_Index x" "i_onStack y = i_onStack x" for y
    using put_steady_open [OF x(1) uf x(2)] that by (simp add: status_defs)
  have ph: "steady a d" if "startPhase1 e cmds q i bb ps (put_inst q i (x\<lparr>i_lb := l\<rparr>) f) = Some d" for cmds bb ps l d
    using that put_steady_lb [OF x(1,2)] by (rule startPhase1_steady) (use x(3) in simp)
  show ?thesis
  proof (cases "i_lb x")
    case None
    then show ?thesis using r f x by (auto simp: handleTryPreAcceptReply_def split: Option.bind_splits)
  next
    case (Some lb)
    show ?thesis using r f x Some ph ac try_tail_steady [OF _ x]
      by (auto simp: handleTryPreAcceptReply_def Let_def split: Option.bind_splits if_splits)
  qed
qed

lemma handleTryPreAcceptReply_idle:
  assumes r: "handleTryPreAcceptReply e acc q i b vb cr ci cs c = Some c'" and s: "steady a c" and w: "\<not> waiting lb_tryingToPreAccept q i c"
  shows "steady a c'"
proof -
  obtain x f where f: "fetch_inst q i (raise_ballot b c) = Some (x, f)"
    using r by (auto simp: handleTryPreAcceptReply_def split: Option.bind_splits)
  have x: "steady a f" "case mget (c_space c) (q, i) of Some y \<Rightarrow> x = y | None \<Rightarrow> x = newInstanceDefault"
    using fetch_inst_steady [OF f, of a] s by auto
  have "case i_lb x of Some lb \<Rightarrow> \<not> lb_tryingToPreAccept lb | None \<Rightarrow> True"
    using x(2) w by (auto simp: waiting_def newInstanceDefault_def newInstance_def split: option.splits)
  then have "c' = f" using r f by (auto simp: handleTryPreAcceptReply_def split: Option.bind_splits option.splits)
  then show ?thesis using x(1) by simp
qed

lemma handleTryPreAcceptReply_steady:
  assumes "handleTryPreAcceptReply e acc q i b vb cr ci cs c = Some c'" "steady a c" "undecided q i c \<or> \<not> waiting lb_tryingToPreAccept q i c"
  shows "steady a c'"
  using assms(3) handleTryPreAcceptReply_open [OF assms(1,2)] handleTryPreAcceptReply_idle [OF assms(1,2)] by (elim disjE)

lemma handleTryPreAccept_open:
  assumes r: "handleTryPreAccept e leader q i b cmds sq deps c = Some c'" and s: "steady a c" and u: "undecided q i c"
  shows "steady a c'"
proof -
  obtain x f where f: "fetch_inst q i c = Some (x, f)" using r by (auto simp: handleTryPreAccept_def split: Option.bind_splits)
  have x: "steady a f" "mget (c_space f) (q, i) = Some x" "\<not> decided x"
    using fetch_inst_steady [OF f, of a] s u by (auto simp: undecided_def newInstanceDefault_def newInstance_def status_defs split: option.splits)
  have uf: "undecided q i f" using x by (simp add: undecided_def)
  have reply: "steady a c'" if d: "steady a d" "undecided q i d"
    "(if leader = c_id d then handleTryPreAcceptReply e (c_id d) q i (i_bal y) (i_vbal y) cr ci cs d
      else Some (emit (Send leader (TryPreAcceptReply (c_id d) q i (i_bal y) (i_vbal y) cr ci cs)) d)) = Some c'" for d y cr ci cs
  proof (cases "leader = c_id d")
    case True
    then show ?thesis using d(3) handleTryPreAcceptReply_open [OF _ d(1,2)] by simp
  next
    case False
    then show ?thesis using d by auto
  qed
  note A = r [unfolded handleTryPreAccept_def f bind.bind_lunit prod.case]
  show ?thesis
  proof (cases "i_bal x \<le> b")
    case False
    then show ?thesis using A reply [OF x(1) uf] by simp
  next
    case True
    let ?x = "x\<lparr>i_bal := b\<rparr>"
    let ?f = "put_inst q i ?x f"
    have p: "undecided q i ?f" "steady a ?f" "mget (c_space ?f) (q, i) = Some ?x"
      using put_steady_open [OF x(1) uf x(2), of ?x] x(3) by (simp, simp, simp add: put_inst_def)
    obtain res where res: "findPreAcceptConflicts (cmds_of cmds) q i sq deps ?f = Some res"
      using A True by (auto simp: Let_def split: Option.bind_splits)
    note A = A [unfolded Let_def if_P [OF True] res bind.bind_lunit]
    show ?thesis
    proof (cases res)
      case (Some k)
      then show ?thesis using A reply [OF p(2,1)] by (auto split: Option.bind_splits prod.splits)
    next
      case None
      let ?y = "?x\<lparr>i_Cmds := cmds, i_Seq := sq, i_Deps := deps, i_Status := PREACCEPTED, i_vbal := b\<rparr>"
      obtain g h where g: "raise_crt q i ?f = Some g" "updateConflicts (cmds_of cmds) q i sq (put_inst q i ?y g) = Some h"
        using A None by (auto split: Option.bind_splits)
      have "c_space g = c_space ?f" "steady a g" using raise_crt_steady [OF g(1)] p(2) by auto
      then have "steady a (put_inst q i ?y g)" using put_steady_open [of a g q i ?x ?y] p(1,3) by (auto simp: undecided_def status_defs)
      then have h: "steady a h" "undecided q i h"
        using updateConflicts_steady [OF g(2)] undecided_cong [of h "put_inst q i ?y g"] by (auto simp: status_defs)
      show ?thesis using A None g reply [OF h] by (auto split: Option.bind_splits)
    qed
  qed
qed

text \<open>The guard of \<open>findPreAcceptConflicts\<close>: an accepted or committed instance with commands is its own conflict.\<close>

definition has_commands :: "int \<Rightarrow> int \<Rightarrow> 'st core \<Rightarrow> bool" where
  "has_commands q i c \<longleftrightarrow> (case mget (c_space c) (q, i) of Some x \<Rightarrow> cmds_of (i_Cmds x) \<noteq> [] | None \<Rightarrow> False)"

lemma handleTryPreAccept_decided:
  assumes r: "handleTryPreAccept e leader q i b cmds sq deps c = Some c'" and s: "steady a c" and d: "\<not> undecided q i c" "has_commands q i c"
    and w: "leader = c_id c \<Longrightarrow> \<not> waiting lb_tryingToPreAccept q i c"
  shows "steady a c'"
proof -
  obtain x where x: "mget (c_space c) (q, i) = Some x" "decided x" "cmds_of (i_Cmds x) \<noteq> []"
    using d by (auto simp: undecided_def has_commands_def split: option.splits)
  have at: "inst_at q i c = Some (Some x)" "in_space q i c" using r x(1) by (auto simp: handleTryPreAccept_def fetch_inst_def inst_at_def split: if_splits)
  then have f: "fetch_inst q i c = Some (x, c)" by (simp add: fetch_inst_def)
  have reply: "steady a c'" if d: "steady a d" "leader = c_id d \<Longrightarrow> \<not> waiting lb_tryingToPreAccept q i d"
    "(if leader = c_id d then handleTryPreAcceptReply e (c_id d) q i (i_bal y) (i_vbal y) cr ci cs d
      else Some (emit (Send leader (TryPreAcceptReply (c_id d) q i (i_bal y) (i_vbal y) cr ci cs)) d)) = Some c'" for d y cr ci cs
    using d handleTryPreAcceptReply_idle [OF _ d(1)] by (cases "leader = c_id d") auto
  note A = r [unfolded handleTryPreAccept_def f bind.bind_lunit prod.case]
  show ?thesis
  proof (cases "i_bal x \<le> b")
    case False
    then show ?thesis using A reply [OF s w] by simp
  next
    case True
    let ?x = "x\<lparr>i_bal := b\<rparr>"
    let ?f = "put_inst q i ?x c"
    have p: "steady a ?f" using s x(1) by (intro steady_put) (auto intro: inst_steady_same)
    have id: "c_id ?f = c_id c" "inst_at q i ?f = Some (Some ?x)" using at(2) by (simp_all add: put_inst_def inst_at_def in_space_def)
    have "i_Status x \<ge> ACCEPTED" using x(2) by (auto simp: status_defs)
    then have res: "findPreAcceptConflicts (cmds_of cmds) q i sq deps ?f = Some (Some (q, i))"
      using x(3) id(2) by (simp add: findPreAcceptConflicts_def)
    have wf: "leader = c_id ?f \<Longrightarrow> \<not> waiting lb_tryingToPreAccept q i ?f" using w x(1) id(1) by (simp add: waiting_def put_inst_def)
    note A = A [unfolded Let_def if_P [OF True] res bind.bind_lunit option.case prod.case id(2)]
    show ?thesis using A reply [OF p wf] by simp
  qed
qed

lemma handleTryPreAccept_steady:
  assumes "handleTryPreAccept e leader q i b cmds sq deps c = Some c'" "steady a c"
    and "undecided q i c \<or> has_commands q i c \<and> (leader = c_id c \<longrightarrow> \<not> waiting lb_tryingToPreAccept q i c)"
  shows "steady a c'"
proof (cases "undecided q i c")
  case True
  then show ?thesis by (rule handleTryPreAccept_open [OF assms(1,2)])
next
  case False
  then show ?thesis using assms(3) by (intro handleTryPreAccept_decided [OF assms(1,2) False]) auto
qed

lemma if3_cases: "(if P then X else if Q then Y else Z) = Some c \<Longrightarrow> X = Some c \<or> Y = Some c \<or> Z = Some c"
  by (auto split: if_splits)

lemma handlePrepareReply_open:
  assumes r: "handlePrepareReply e m c = Some c'" and u: "undecided (pp_Replica m) (pp_Instance m) c"
  shows "steady c c'"
proof -
  let ?q = "pp_Replica m" and ?i = "pp_Instance m"
  let ?c = "raise_ballot (pp_Ballot m) c"
  obtain x where x: "inst_at ?q ?i c = Some x" using r by (auto simp: handlePrepareReply_def Let_def split: Option.bind_splits)
  show ?thesis
  proof (cases "\<exists>y lb. x = Some y \<and> i_lb y = Some lb")
    case False
    then show ?thesis using r x by (auto simp: handlePrepareReply_def Let_def split: option.splits)
  next
    case True
    then obtain y lb where y: "x = Some y" "i_lb y = Some lb" by blast
    have my: "mget (c_space ?c) (?q, ?i) = Some y" using inst_at_mget [OF x] y by simp
    have nd: "\<not> decided y" using u my by (simp add: undecided_def)
    have bk: "steady c (put_inst ?q ?i (y\<lparr>i_lb := l\<rparr>) ?c)" "undecided ?q ?i (put_inst ?q ?i (y\<lparr>i_lb := l\<rparr>) ?c)" for l
      using put_steady_lb [OF _ my, of c] nd by auto
    have ph: "steady c d" if "startPhase1 e cmds ?q ?i b ps (put_inst ?q ?i (y\<lparr>i_lb := l\<rparr>) ?c) = Some d" for cmds b ps l d
      using that bk by (rule startPhase1_steady)
    have op: "steady c (put_inst ?q ?i z ?c)" if "i_Status z \<noteq> EXECUTED" "i_Index z = i_Index y" "i_onStack z = i_onStack y" for z
      using put_steady_open [OF _ _ my, of c] that u by simp
    have tp: "steady c d" if "handleTryPreAccept e leader ?q ?i b cmds sq deps (bcastTryPreAccept ?q ?i (put_inst ?q ?i z ?c)) = Some d"
      "\<not> decided z" "i_Index z = i_Index y" "i_onStack z = i_onStack y" for leader b cmds sq deps z d
      using that(1) by (rule handleTryPreAccept_open) (use op that in \<open>auto simp: undecided_def put_inst_def\<close>)
    have ph': "steady c d" if "startPhase1 e cmds ?q ?i b ps (put_inst ?q ?i z ?c) = Some d" "\<not> decided z" "i_Index z = i_Index y" "i_onStack z = i_onStack y"
      for cmds b ps z d
      using that(1) by (rule startPhase1_steady) (use op that in auto)
    have cm: "steady c d" if "handleCommit ?q ?i vb cmds sq deps (put_inst ?q ?i (y\<lparr>i_lb := l\<rparr>) ?c) = Some d" for vb cmds sq deps l d
      using steady_trans [OF bk(1) handleCommit_steady [OF that]] .
    note A = r [unfolded handlePrepareReply_def Let_def x bind.bind_lunit y option.case]
    show ?thesis
    proof (cases "i_bal y \<noteq> lb_lastTriedBallot lb")
      case True
      then show ?thesis using A by simp
    next
      case 1: False
      note A = A [unfolded if_not_P [OF 1]]
      show ?thesis
      proof (cases "\<not> lb_preparing lb \<or> pp_Ballot m \<noteq> lb_lastTriedBallot lb")
        case True
        then show ?thesis using A bk by (auto split: if_splits)
      next
        case 2: False
        then have 3: "\<not> \<not> lb_preparing lb" "\<not> pp_Ballot m \<noteq> lb_lastTriedBallot lb" by auto
        note A = A [unfolded if_not_P [OF 3(1)] if_not_P [OF 3(2)]]
        show ?thesis
        proof (cases "pp_AcceptorId m < 0 \<or> pp_AcceptorId m \<ge> c_n ?c \<or> \<not> snd (Add (lb_prepareVoters lb) (pp_AcceptorId m))")
          case True
          then have "c' = ?c" using A by simp
          then show ?thesis by simp
        next
          case 4: False
          note A = A [unfolded if_not_P [OF 4]]
          define lb1 where "lb1 = lb\<lparr>lb_prepareVoters := fst (Add (lb_prepareVoters lb) (pp_AcceptorId m)), lb_prepareReplies := lb_prepareReplies lb @ [m]\<rparr>"
          note A = A [folded lb1_def]
          show ?thesis
          proof (cases "int (length (lb_prepareReplies lb1)) < SlowQuorumSize ?c")
            case True
            then show ?thesis using A bk by auto
          next
            case 5: False
            note A = A [unfolded if_not_P [OF 5]]
            obtain ch rs where ch: "choose_reply ?q (lb_prepareReplies lb1) (None, lb_leaderResponded lb1) = (ch, rs)" by fastforce
            note A = A [unfolded ch prod.case]
            show ?thesis
            proof (cases ch)
              case None
              then show ?thesis using A ph by simp
            next
              case (Some b)
              note A = A [unfolded Some option.case]
              show ?thesis
              proof (cases "pp_Status b \<ge> COMMITTED")
                case True
                then show ?thesis using A cm by (auto split: Option.bind_splits)
              next
                case 6: False
                note A = A [unfolded if_not_P [OF 6]]
                have st: "pp_Status b \<noteq> COMMITTED" "pp_Status b \<noteq> EXECUTED" "ACCEPTED \<noteq> EXECUTED" using 6 by (auto simp: status_defs)
                show ?thesis using if3_cases [OF A]
                  apply (elim disjE)
                  subgoal by clarsimp (rule op; simp add: st)
                  subgoal by (erule tp; simp add: st)
                  subgoal by (erule ph'; simp add: st)
                  done
              qed
            qed
          qed
        qed
      qed
    qed
  qed
qed

lemma handlePrepareReply_idle:
  assumes r: "handlePrepareReply e m c = Some c'" and w: "\<not> waiting lb_preparing (pp_Replica m) (pp_Instance m) c"
  shows "steady c c'"
proof -
  obtain x where x: "inst_at (pp_Replica m) (pp_Instance m) c = Some x" using r by (auto simp: handlePrepareReply_def Let_def split: Option.bind_splits)
  have "c' = c \<or> c' = raise_ballot (pp_Ballot m) c"
    using r x w inst_at_mget [OF x] by (auto simp: handlePrepareReply_def Let_def waiting_def split: option.splits if_splits)
  then show ?thesis by auto
qed

lemma handlePrepareReply_steady:
  assumes "handlePrepareReply e m c = Some c'"
    and "undecided (pp_Replica m) (pp_Instance m) c \<or> \<not> waiting lb_preparing (pp_Replica m) (pp_Instance m) c"
  shows "steady c c'"
  using assms(2) handlePrepareReply_open [OF assms(1)] handlePrepareReply_idle [OF assms(1)] by (elim disjE)

subsection \<open>Repair\<close>

lemma handleRepairRequest_steady: "handleRepairRequest e q i c = Some c' \<Longrightarrow> steady c c'"
  by (auto simp: handleRepairRequest_def split: if_splits Option.bind_splits option.splits)

lemma gap_slots_steady: "gap_slots e now q ss c = Some c' \<Longrightarrow> steady a c' = steady a c"
proof (induction ss arbitrary: c)
  case (Cons s ss)
  then obtain x d where x: "inst_at q s c = Some x" "(if unfinished x then blockedOn e q s now c else Some c) = Some d" "gap_slots e now q ss d = Some c'"
    by (auto split: Option.bind_splits)
  then show ?case using Cons.IH [OF x(3)] blockedOn_steady [of e q s now c d a] by (auto split: if_splits)
qed simp

lemma gap_rows_steady: "gap_rows e now qs c = Some c' \<Longrightarrow> steady a c' = steady a c"
  by (induction qs arbitrary: c) (auto split: Option.bind_splits dest: gap_slots_steady)

lemma retry_blocked_steady: "retry_blocked e now ks c = Some c' \<Longrightarrow> steady a c' = steady a c"
proof (induction ks arbitrary: c)
  case (Cons k ks)
  then obtain x d where x: "(if \<not> unfinished x then Some (c\<lparr>c_blocked := mdel k (c_blocked c)\<rparr>) else blockedOn e (key_owner k) (key_slot k) now c) = Some d"
    "retry_blocked e now ks d = Some c'" by (auto split: Option.bind_splits)
  have "steady a d = steady a c" using x(1) blockedOn_steady [of e "key_owner k" "key_slot k" now c d a] by (auto split: if_splits)
  then show ?case using Cons.IH [OF x(2)] by simp
qed simp

lemma retry_active_one_steady:
  assumes r: "retry_active_one e now q i c = Some c'"
  shows "steady c c'"
proof -
  obtain x where x: "inst_at q i c = Some x" using r by (auto simp: retry_active_one_def split: Option.bind_splits)
  show ?thesis
  proof (cases "\<exists>y lb. x = Some y \<and> i_lb y = Some lb")
    case False
    then show ?thesis using r x by (auto simp: retry_active_one_def Let_def split: option.splits)
  next
    case True
    then obtain y lb where y: "x = Some y" "i_lb y = Some lb" by blast
    have my: "mget (c_space c) (q, i) = Some y" using inst_at_mget [OF x] y by simp
    have acc: "steady c (put_inst q i y2 (bcastAccept e q i (put_inst q i y1 c)))"
      if "\<not> i_Status y \<ge> COMMITTED" "i_Status y1 = ACCEPTED" "i_Status y2 = ACCEPTED" "i_Index y1 = i_Index y" "i_onStack y1 = i_onStack y"
        "i_Index y2 = i_Index y" "i_onStack y2 = i_onStack y" for y1 y2
    proof (rule steady_put)
      have "inst_steady (Some y) (Some y1)" using that by (simp add: inst_steady_def status_defs)
      then show "steady c (bcastAccept e q i (put_inst q i y1 c))" using my by (simp add: steady_put)
      show "inst_steady (mget (c_space (bcastAccept e q i (put_inst q i y1 c))) (q, i)) (Some y2)"
        using that by (simp add: put_inst_def inst_steady_def status_defs)
    qed
    show ?thesis using r x y startRecovery_steady by (auto simp: retry_active_one_def Let_def split: if_splits intro!: acc)
  qed
qed

lemma retry_active_steady: "retry_active e now xs c = Some c' \<Longrightarrow> steady c c'"
  by (induction xs arbitrary: c) (auto split: Option.bind_splits dest!: retry_active_one_steady intro: steady_trans)

lemma repairTick_steady:
  assumes "repairTick e now c = Some c'"
  shows "steady c c'"
proof -
  obtain d f where d: "(if \<not> now < c_nextGapScan c then gap_rows e now [0..c_n c - 1] (c\<lparr>c_nextGapScan := now + 200 * Millisecond\<rparr>) else Some c) = Some d"
    "retry_blocked e now (map fst (mrange (order e Loop_blocked) (c_blocked d))) d = Some f"
    "retry_active e now (map fst (mrange (order e Loop_active) (c_active f))) f = Some c'"
    using assms by (auto simp: repairTick_def split: Option.bind_splits)
  have "steady c d" using d(1) gap_rows_steady [where a = c] by (auto split: if_splits)
  then have "steady c f" using retry_blocked_steady [OF d(2)] by simp
  then show ?thesis using retry_active_steady [OF d(3)] by (rule steady_trans)
qed

subsection \<open>The scheduler's invariant\<close>

lemma order_ok_cong:
  assumes o: "order_ok G key h" and g: "\<And>u v. u \<in> set h \<Longrightarrow> (u, v) \<in> G' \<longleftrightarrow> (u, v) \<in> G" and k: "\<And>u. u \<in> set h \<Longrightarrow> key' u = key u"
  shows "order_ok G' key' h"
proof -
  have closed: "v \<in> set h" if "u \<in> set h" "(u, v) \<in> G" for u v using o that unfolding order_ok_def by blast
  have r1: "(u, v) \<in> G'\<^sup>* \<and> v \<in> set h" if "(u, v) \<in> G\<^sup>*" "u \<in> set h" for u v
    using that by (induction rule: rtrancl_induct) (use closed g in \<open>auto intro: rtrancl_into_rtrancl\<close>)
  have r2: "(u, v) \<in> G\<^sup>* \<and> v \<in> set h" if "(u, v) \<in> G'\<^sup>*" "u \<in> set h" for u v
    using that by (induction rule: rtrancl_induct) (use closed g in \<open>auto intro: rtrancl_into_rtrancl\<close>)
  have "if (v, u) \<in> G'\<^sup>* then before h u v = (key' u < key' v) else before h v u" if "u \<in> set h" "(u, v) \<in> G'\<^sup>*" "u \<noteq> v" for u v
  proof -
    have v: "(u, v) \<in> G\<^sup>*" "v \<in> set h" using r2 [OF that(2,1)] by auto
    have "(v, u) \<in> G'\<^sup>* \<longleftrightarrow> (v, u) \<in> G\<^sup>*" using r1 r2 v(2) by blast
    then show ?thesis using o that(1,3) v k unfolding order_ok_def by auto
  qed
  then show ?thesis using o g closed unfolding order_ok_def by blast
qed

lemma steady_executed:
  assumes "steady c c'"
  shows "executed c' v = executed c v"
proof -
  have "inst_steady (mget (c_space c) v) (mget (c_space c') v)" using assms by (simp add: steady_def)
  then show ?thesis by (auto simp: executed_def inst_steady_def split: option.splits if_splits)
qed

lemma steady_sched:
  assumes C: "sched_ok c" and S: "steady c c'"
  shows "sched_ok c'"
proof -
  have f: "c_n c' = c_n c" "c_executedUpTo c' = c_executedUpTo c" "c_history c' = c_history c"
    and i: "inst_steady (mget (c_space c) v) (mget (c_space c') v)" for v using S by (auto simp: steady_def)
  have h: "v \<in> set (c_history c) \<longleftrightarrow> executed c v" for v using C unfolding sched_ok_def run_ok_def by blast
  have at: "\<exists>x y. mget (c_space c) u = Some x \<and> mget (c_space c') u = Some y \<and> i_Deps y = i_Deps x \<and> i_Seq y = i_Seq x" if "u \<in> set (c_history c)" for u
    using i [of u] that unfolding h executed_def inst_steady_def by (auto split: option.splits if_splits)
  have "order_ok (graph c') (node_key (c_space c')) (c_history c)"
  proof (rule order_ok_cong)
    show "order_ok (graph c) (node_key (c_space c)) (c_history c)" using C by (simp add: sched_ok_def run_ok_def)
    show "(u, v) \<in> graph c' \<longleftrightarrow> (u, v) \<in> graph c" if "u \<in> set (c_history c)" for u v using at [OF that] f by (auto simp: graph_def)
    show "node_key (c_space c') u = node_key (c_space c) u" if "u \<in> set (c_history c)" for u using at [OF that] by (auto simp: node_key_def)
  qed
  moreover have "executed c' = executed c" using steady_executed [OF S] by (rule ext)
  ultimately have "run_ok c'" using C unfolding sched_ok_def run_ok_def f by metis
  moreover have "clear_marks c'" unfolding clear_marks_def
  proof (intro allI impI)
    fix v y assume "mget (c_space c') v = Some y" "i_Status y \<noteq> EXECUTED"
    then show "i_Index y = 0 \<and> \<not> i_onStack y" using i [of v] C unfolding sched_ok_def clear_marks_def inst_steady_def
      by (cases "mget (c_space c) v") (auto split: if_splits)
  qed
  ultimately show ?thesis by (simp add: sched_ok_def)
qed

lemma newCore_sched: "0 \<le> n \<Longrightarrow> sched_ok (newCore n f i bw tc app)"
  by (auto simp: sched_ok_def run_ok_def clear_marks_def newCore_def executed_def graph_def list_all_iff)

subsection \<open>Runs of a replica\<close>

text \<open>
  What the runs below leave out. A reply is late when it comes for an instance that is already decided while the phase
  it answers is still open in the bookkeeping of this replica, which happens when another replica's \<open>Commit\<close> decides an
  instance this replica is working on: the handlers do not look at the status of the instance and act on a late
  reply as if the instance were undecided (\<open>epaxos_late_reply_reopens\<close>). A tentative request \<open>TryPreAccept\<close> is left out for a
  decided instance with an empty command list, or when it comes from the replica itself while its tentative phase is open.
  Every other message is timely: all requests, and replies for undecided instances or for phases that are over.
\<close>

fun timely_msg :: "msg \<Rightarrow> 'st core \<Rightarrow> bool" where
  "timely_msg (PrepareReplyMsg r) c = (undecided (pp_Replica r) (pp_Instance r) c \<or> \<not> waiting lb_preparing (pp_Replica r) (pp_Instance r) c)"
| "timely_msg (PreAcceptReply q i b vb sq deps cd st acc) c = (undecided q i c \<or> \<not> waiting (\<lambda>lb. pre_accepted (lb_status lb)) q i c)"
| "timely_msg (AcceptReply q i b acc) c = (undecided q i c \<or> \<not> waiting (\<lambda>lb. lb_status lb = ACCEPTED) q i c)"
| "timely_msg (TryPreAccept l q i b cmds sq deps) c =
     (undecided q i c \<or> has_commands q i c \<and> (l = c_id c \<longrightarrow> \<not> waiting lb_tryingToPreAccept q i c))"
| "timely_msg (TryPreAcceptReply acc q i b vb cr ci cs) c = (undecided q i c \<or> \<not> waiting lb_tryingToPreAccept q i c)"
| "timely_msg m c = True"

fun timely :: "event \<Rightarrow> 'st core \<Rightarrow> bool" where
  "timely (Message m) c = timely_msg m c"
| "timely ev c = True"

lemma receive_msg_steady: "receive_msg e m c = Some c' \<Longrightarrow> timely_msg m c \<Longrightarrow> steady c c'"
  by (cases m) (auto intro: handlePrepare_steady handlePreAccept_steady handleAccept_steady handleCommit_steady handlePrepareReply_steady
      handlePreAcceptReply_steady handleAcceptReply_steady handleTryPreAccept_steady handleTryPreAcceptReply_steady handleRepairRequest_steady)

lemma receive_steady: "receive e ev c = Some (Inr c') \<Longrightarrow> timely ev c \<Longrightarrow> steady c c'"
  by (cases ev) (auto simp: receive_def intro: receive_msg_steady startRecovery_steady)

lemma tick_sched: "tick e k now c = Some (Inr c') \<Longrightarrow> sched_ok c \<Longrightarrow> sched_ok c'"
  by (cases k) (auto simp: tick_def apply_all_def split: Option.bind_splits if_splits
      dest!: repairTick_steady intro: steady_sched apply_rows_ok dest: steady_sched [where c' = "emit BeaconTick c"])

text \<open>The runs of a replica in which no late reply arrives and a proposal takes an undecided instance number.\<close>

inductive timely_run :: "'st core \<Rightarrow> bool" where
  run_start: "0 \<le> n \<Longrightarrow> timely_run (newCore n f i bw tc app)"
| run_propose: "timely_run c \<Longrightarrow> beginProposalBatch k c = Some (d, m) \<Longrightarrow> slice_get (c_crtInstance d) (c_id d) = Some i \<Longrightarrow> undecided (c_id d) i d \<Longrightarrow>
    submit e ps d = Some c' \<Longrightarrow> timely_run c'"
| run_receive: "timely_run c \<Longrightarrow> timely ev c \<Longrightarrow> receive e ev c = Some (Inr c') \<Longrightarrow> timely_run c'"
| run_tick: "timely_run c \<Longrightarrow> tick e k now c = Some (Inr c') \<Longrightarrow> timely_run c'"

lemma beginProposalBatch_steady: "beginProposalBatch k c = Some (d, m) \<Longrightarrow> steady c d"
  by (auto simp: beginProposalBatch_def Let_def split: Option.bind_splits)

lemma run_sched: "timely_run c \<Longrightarrow> sched_ok c"
proof (induction rule: timely_run.induct)
  case (run_start n f i bw tc app)
  then show ?case by (rule newCore_sched)
next
  case (run_propose c k d m i e ps c')
  then have "steady c c'" using beginProposalBatch_steady [OF run_propose(2)] by (auto simp: submit_def intro: startPhase1_steady)
  then show ?case using run_propose by (blast intro: steady_sched)
next
  case (run_receive c ev e c')
  then show ?case using receive_steady steady_sched by blast
next
  case (run_tick c e k now c')
  then show ?case using tick_sched by blast
qed

end
