(* ===== verification/EpaxosProps.thy ===== *)
theory EpaxosProps
  imports EpaxosReplica
begin

text \<open>
  The properties of package \<open>epaxos\<close>: the order of execution in the runs of a replica, its agreement between
  replicas, progress of the scheduler, stability of decided instances, and the attributes given to new commands. The runs
  are those of \<open>timely_run\<close>: no late reply arrives (a reply for an instance that is decided while the phase it answers is
  open at this replica), and a proposal takes an undecided instance number. Outside these runs an executed instance can
  be reopened and executed again, which is shown here as well (\<open>epaxos_late_reply_reopens\<close>).
\<close>

subsection \<open>Concrete runs\<close>

definition epx_env :: "nat env" where
  "epx_env = \<lparr>execute = (\<lambda>cmd st. Some ([], Suc st)), clock = 0, peerAlive = (\<lambda>_. True), preferredPeerOrder = [1, 2],
     executeEnabled = True, replyAfterExecution = False, order = (\<lambda>_. [])\<rparr>"

definition epx_put :: "int \<Rightarrow> command" where
  "epx_put k = \<lparr>Op = PUT, K = word_of_int k, V = []\<rparr>"

text \<open>Two instances that depend on each other, and the replica's state after both commits have arrived.\<close>

definition epx_commits :: "event list" where
  "epx_commits = [Message (Commit 0 0 0 0 (Some [epx_put 7]) 2 [-1, 0, -1]), Message (Commit 1 1 0 1 (Some [epx_put 7]) 1 [0, -1, -1])]"

fun steps :: "'st env \<Rightarrow> event list \<Rightarrow> 'st core \<Rightarrow> 'st core option" where
  "steps e [] c = Some c"
| "steps e (ev # evs) c = (if timely ev c then (case receive e ev c of Some (Inr d) \<Rightarrow> steps e evs d | _ \<Rightarrow> None) else None)"

text \<open>The state after the events and a tick.\<close>

definition after :: "'st env \<Rightarrow> event list \<Rightarrow> 'st core \<Rightarrow> 'st core" where
  "after e evs c = (case steps e evs c of
     Some d \<Rightarrow> (case tick e Maintenance 0 d of Some (Inr f) \<Rightarrow> f | _ \<Rightarrow> d) | None \<Rightarrow> c)"

definition epx_committed :: "nat core" where
  "epx_committed = (case steps epx_env epx_commits (newCore 3 1 2 0 False 0) of Some c \<Rightarrow> c | None \<Rightarrow> newCore 3 1 2 0 False 0)"

text \<open>Two replicas that get the commits in opposite orders.\<close>

definition epx_executed :: "nat core" where
  "epx_executed = after epx_env epx_commits (newCore 3 1 2 0 False 0)"

definition epx_other :: "nat core" where
  "epx_other = after epx_env (rev epx_commits) (newCore 3 1 1 0 False 0)"

text \<open>A replica that accepted an instance, starts to recover it and then gets its commit; the reply of replica 2 arrives
  afterwards.\<close>

definition epx_recovered :: "nat core" where
  "epx_recovered = after epx_env [Message (Accept 1 1 0 1 1 [-1, -1, -1] (Some [epx_put 7])), RecoverInstance 1 0,
     Message (Commit 1 1 0 1 (Some [epx_put 7]) 1 [-1, -1, -1])] (newCore 3 1 0 0 False 0)"

definition epx_late :: prepare_reply where
  "epx_late = \<lparr>pp_AcceptorId = 2, pp_Replica = 1, pp_Instance = 0, pp_Ballot = 3, pp_VBallot = -1, pp_Status = NONE_st, pp_Command = None,
     pp_Seq = -1, pp_Deps = []\<rparr>"

text \<open>A replica that knows two instances of replica 1, on the keys 7 and 8.\<close>

definition epx_batch :: "nat core" where
  "epx_batch = after epx_env [Message (Commit 1 1 0 1 (Some [epx_put 7]) 1 [-1, -1, -1]),
     Message (Commit 1 1 1 1 (Some [epx_put 8]) 2 [-1, 0, -1])] (newCore 3 1 0 2 False 0)"

lemma executed_code [code]: "executed c v = (case mget (c_space c) v of Some x \<Rightarrow> i_Status x = EXECUTED | None \<Rightarrow> False)"
  by (auto simp: executed_def split: option.splits)

lemma graph_edge: "(v, w) \<in> graph c \<longleftrightarrow> (case mget (c_space c) v of Some x \<Rightarrow> list_ex (\<lambda>q. dep_of x q = Some w) [0..c_n c - 1] | None \<Rightarrow> False)"
  by (auto simp: graph_def list_ex_iff split: option.splits)

lemma ready_inst_code: "ready_inst e c w = (in_space (fst w) (snd w) c \<and> (case mget (c_space c) w of
     Some x \<Rightarrow> decided x \<and> runnable e x \<and> c_n c \<le> int (length (i_Deps x)) \<and> (c_transconf c \<longrightarrow> list_all (\<lambda>a. Op a \<noteq> SCAN) (cmds_of (i_Cmds x)))
   | None \<Rightarrow> False))"
  by (auto simp: ready_inst_def split: option.splits)

lemma run_steps: "steps e evs c = Some c' \<Longrightarrow> timely_run c \<Longrightarrow> timely_run c'"
  by (induction evs arbitrary: c) (auto split: if_splits option.splits sum.splits intro: run_receive)

lemma run_after: "timely_run c \<Longrightarrow> timely_run (after e evs c)"
  by (auto simp: after_def split: option.splits sum.splits intro: run_tick run_steps)

lemma epx_committed_run: "timely_run epx_committed"
  by (auto simp: epx_committed_def split: option.splits intro: run_steps [OF _ run_start] run_start)

lemma epx_executed_run: "timely_run epx_executed"
  unfolding epx_executed_def by (intro run_after run_start) simp

lemma epx_other_run: "timely_run epx_other"
  unfolding epx_other_def by (intro run_after run_start) simp

lemma epx_recovered_run: "timely_run epx_recovered"
  unfolding epx_recovered_def by (intro run_after run_start) simp

subsection \<open>The order of execution\<close>

lemma order_okD:
  assumes "order_ok G key h" "u \<in> set h" "(u, v) \<in> G\<^sup>*" "u \<noteq> v"
  shows "if (v, u) \<in> G\<^sup>* then before h u v = (key u < key v) else before h v u"
  using assms unfolding order_ok_def by blast

lemma order_agree:
  assumes o1: "order_ok G1 k1 h1" and o2: "order_ok G2 k2 h2"
    and same: "\<And>a b. a \<in> set h1 \<Longrightarrow> a \<in> set h2 \<Longrightarrow> (a, b) \<in> G1 \<longleftrightarrow> (a, b) \<in> G2" "\<And>a. a \<in> set h1 \<Longrightarrow> a \<in> set h2 \<Longrightarrow> k1 a = k2 a"
    and uv: "u \<in> set h1" "u \<in> set h2" "u \<noteq> v" "(u, v) \<in> G1"
  shows "before h1 u v = before h2 u v \<and> before h1 v u = before h2 v u"
proof -
  let ?X = "set h1 \<inter> set h2"
  have c1: "b \<in> set h1" if "a \<in> set h1" "(a, b) \<in> G1" for a b using o1 that unfolding order_ok_def by blast
  have c2: "b \<in> set h2" if "a \<in> set h2" "(a, b) \<in> G2" for a b using o2 that unfolding order_ok_def by blast
  have r: "(a, b) \<in> G2\<^sup>* \<and> b \<in> ?X" if "(a, b) \<in> G1\<^sup>*" "a \<in> ?X" for a b
    using that by (induction rule: rtrancl_induct) (use c1 c2 same(1) in \<open>auto intro: rtrancl_into_rtrancl\<close>)
  have r': "(a, b) \<in> G1\<^sup>* \<and> b \<in> ?X" if "(a, b) \<in> G2\<^sup>*" "a \<in> ?X" for a b
    using that by (induction rule: rtrancl_induct) (use c1 c2 same(1) in \<open>auto intro: rtrancl_into_rtrancl\<close>)
  have v: "v \<in> ?X" using r [of u v] uv by auto
  have e: "(v, u) \<in> G1\<^sup>* \<longleftrightarrow> (v, u) \<in> G2\<^sup>*" using r r' v by blast
  have uv1: "(u, v) \<in> G1\<^sup>*" "(u, v) \<in> G2\<^sup>*" using uv r [of u v] by auto
  have d: "distinct h1" "distinct h2" using o1 o2 unfolding order_ok_def by auto
  show ?thesis
  proof (cases "(v, u) \<in> G1\<^sup>*")
    case True
    then have vu: "(v, u) \<in> G1\<^sup>*" "(v, u) \<in> G2\<^sup>*" "v \<in> set h1" "v \<in> set h2" "v \<noteq> u" using e v uv(3) by auto
    have "before h1 u v = (k1 u < k1 v)" using order_okD [OF o1 uv(1) uv1(1) uv(3)] vu(1) by simp
    moreover have "before h2 u v = (k2 u < k2 v)" using order_okD [OF o2 uv(2) uv1(2) uv(3)] vu(2) by simp
    moreover have "before h1 v u = (k1 v < k1 u)" using order_okD [OF o1 vu(3,1,5)] uv1(1) by simp
    moreover have "before h2 v u = (k2 v < k2 u)" using order_okD [OF o2 vu(4,2,5)] uv1(2) by simp
    ultimately show ?thesis using same(2) [OF uv(1,2)] same(2) [OF vu(3,4)] by simp
  next
    case False
    then have ne: "(v, u) \<notin> G2\<^sup>*" using e by blast
    have b: "before h1 v u" by (rule order_okD [OF o1 uv(1) uv1(1) uv(3), unfolded if_not_P [OF False]])
    have b': "before h2 v u" by (rule order_okD [OF o2 uv(2) uv1(2) uv(3), unfolded if_not_P [OF ne]])
    show ?thesis using b b' before_antisym [OF d(1) b] before_antisym [OF d(2) b'] by simp
  qed
qed

text \<open>C12 In every run of a replica without late replies (\<open>timely_run\<close>) the executed instances are executed once, everything an
  executed instance depends on is executed as well, and before it unless it depends on the instance in turn; instances
  that depend on each other are executed in the order of sequence numbers, replicas and instance numbers. A reply is
  late when it arrives for a decided instance while the phase it answers is open at this replica; in such a
  run the code can execute an instance twice.\<close>

theorem epaxos_execution_order:
  assumes "timely_run c" "executed c v" "(v, w) \<in> (graph c)\<^sup>*" "v \<noteq> w"
  shows "executed c w \<and> distinct (c_history c) \<and>
    (if (w, v) \<in> (graph c)\<^sup>* then before (c_history c) v w = (node_key (c_space c) v < node_key (c_space c) w) else before (c_history c) w v)"
proof -
  have ok: "order_ok (graph c) (node_key (c_space c)) (c_history c)" and h: "\<And>u. executed c u \<longleftrightarrow> u \<in> set (c_history c)"
    using run_sched [OF assms(1)] unfolding sched_ok_def run_ok_def by blast+
  have "w \<in> set (c_history c)" using closed_reach [OF assms(3), of "set (c_history c)"] assms(2) h ok unfolding order_ok_def by blast
  then show ?thesis using ok assms h unfolding order_ok_def by blast
qed

theorem epaxos_execution_order_witness: "c_history epx_executed = [(1, 0), (0, 0)] \<and> before (c_history epx_executed) (1, 0) (0, 0)"
proof -
  have h: "c_history epx_executed = [(1, 0), (0, 0)]" by code_simp
  have g: "((1, 0), (0, 0)) \<in> graph epx_executed" "((0, 0), (1, 0)) \<in> graph epx_executed"
    unfolding graph_edge by code_simp+
  have e: "executed epx_executed (1, 0)" by code_simp
  have k: "node_key (c_space epx_executed) (1, 0) < node_key (c_space epx_executed) (0, 0)" by code_simp
  have "before (c_history epx_executed) (1, 0) (0, 0)"
    using epaxos_execution_order [OF epx_executed_run e r_into_rtrancl [OF g(1)]] r_into_rtrancl [OF g(2)] k by simp
  then show ?thesis using h by simp
qed

text \<open>C11 Two replicas that agree on the sequence numbers and dependencies of the instances both have executed execute
  instances of which one depends on the other in the same order, in runs of the two replicas without late replies
  (\<open>timely_run\<close>). The agreement on the attributes is a hypothesis.\<close>

theorem epaxos_order_agrees:
  assumes "timely_run c1" "timely_run c2" "c_n c1 = c_n c2"
    and "\<And>w x y. mget (c_space c1) w = Some x \<Longrightarrow> mget (c_space c2) w = Some y \<Longrightarrow> i_Status x = EXECUTED \<Longrightarrow> i_Status y = EXECUTED \<Longrightarrow>
      i_Seq x = i_Seq y \<and> i_Deps x = i_Deps y"
    and "executed c1 v" "executed c2 v" "executed c1 u" "executed c2 u" "u \<noteq> v" "(u, v) \<in> graph c1 \<or> (v, u) \<in> graph c1"
  shows "before (c_history c1) u v = before (c_history c2) u v"
proof -
  let ?h1 = "c_history c1" and ?h2 = "c_history c2"
  have o1: "order_ok (graph c1) (node_key (c_space c1)) ?h1" and h1: "\<And>u. u \<in> set ?h1 \<longleftrightarrow> executed c1 u"
    using run_sched [OF assms(1)] unfolding sched_ok_def run_ok_def by blast+
  have o2: "order_ok (graph c2) (node_key (c_space c2)) ?h2" and h2: "\<And>u. u \<in> set ?h2 \<longleftrightarrow> executed c2 u"
    using run_sched [OF assms(2)] unfolding sched_ok_def run_ok_def by blast+
  have at: "\<exists>x y. mget (c_space c1) w = Some x \<and> mget (c_space c2) w = Some y \<and> i_Seq x = i_Seq y \<and> i_Deps x = i_Deps y"
    if "w \<in> set ?h1" "w \<in> set ?h2" for w using that assms(4) [of w] unfolding h1 h2 executed_def by blast
  have same: "(a, b) \<in> graph c1 \<longleftrightarrow> (a, b) \<in> graph c2" "node_key (c_space c1) a = node_key (c_space c2) a" if "a \<in> set ?h1" "a \<in> set ?h2" for a b
    using at [OF that] assms(3) by (auto simp: graph_def node_key_def)
  note agree = order_agree [OF o1 o2 same]
  show ?thesis using agree [of u v] agree [of v u] assms(5-10) h1 h2 by blast
qed

theorem epaxos_order_agrees_witness:
  "before (c_history epx_executed) (1, 0) (0, 0) = before (c_history epx_other) (1, 0) (0, 0) \<and> c_history epx_other = [(1, 0), (0, 0)]"
proof
  have at: "i_Seq x = i_Seq y \<and> i_Deps x = i_Deps y"
    if "mget (c_space epx_executed) w = Some x" "mget (c_space epx_other) w = Some y" for w x y
  proof -
    have k: "set (mkeys (c_space epx_executed)) = {(0, 0), (1, 0)}" by code_simp
    have "w \<in> set (mkeys (c_space epx_executed))" using that(1) by (simp add: domI)
    then have "w = (0, 0) \<or> w = (1, 0)" using k by blast
    moreover have "map_option (\<lambda>x. (i_Seq x, i_Deps x)) (mget (c_space epx_executed) (0, 0)) = map_option (\<lambda>x. (i_Seq x, i_Deps x)) (mget (c_space epx_other) (0, 0))"
      "map_option (\<lambda>x. (i_Seq x, i_Deps x)) (mget (c_space epx_executed) (1, 0)) = map_option (\<lambda>x. (i_Seq x, i_Deps x)) (mget (c_space epx_other) (1, 0))"
      by code_simp+
    ultimately show ?thesis using that by auto
  qed
  have f: "c_n epx_executed = c_n epx_other" "executed epx_executed (0, 0)" "executed epx_other (0, 0)" "executed epx_executed (1, 0)" "executed epx_other (1, 0)"
    by code_simp+
  have g: "((1, 0), (0, 0)) \<in> graph epx_executed" unfolding graph_edge by code_simp
  show "before (c_history epx_executed) (1, 0) (0, 0) = before (c_history epx_other) (1, 0) (0, 0)"
    by (rule epaxos_order_agrees [OF epx_executed_run epx_other_run f(1)]) (use at f g in auto)
  show "c_history epx_other = [(1, 0), (0, 0)]" by code_simp
qed

subsection \<open>Progress\<close>

text \<open>C13 In a run without late replies (\<open>timely_run\<close>), when an instance and all that it depends on are ready and executing
  commands does not panic (\<open>total\<close>), the scheduler neither blocks nor panics nor exceeds its bound: the instance and all
  its dependencies are executed. Ready means: in the instance space, committed or executed, with a command list, not more commands
  than waiting client proposals where the clients are answered, a dependency for every replica, and no scan among
  the commands when \<open>transconf\<close> is set.\<close>

theorem epaxos_ready_executes:
  assumes "timely_run c" "total e" "ready e c (q, i)"
  shows "\<exists>c'. executeCommand e q i c = Some (True, c') \<and> (\<forall>w. ((q, i), w) \<in> (graph c)\<^sup>* \<longrightarrow> executed c' w)"
proof -
  note C = run_sched [OF assms(1)]
  obtain x where x: "inst_at q i c = Some (Some x)" "mget (c_space c) (q, i) = Some x" "decided x"
    using assms(3) unfolding ready_def ready_inst_def inst_at_def by force
  have "\<exists>c'. executeCommand e q i c = Some (True, c')"
  proof (cases "i_Status x = EXECUTED")
    case True
    then show ?thesis using x by (simp add: executeCommand_def)
  next
    case False
    then have com: "i_Status x = COMMITTED" using x(3) by blast
    have "\<exists>c'. findSCC e (q, i) c = Some (True, c')" by (rule findSCC_live [OF C assms(2,3) x(2) com])
    then show ?thesis using x False com by (simp add: executeCommand_def)
  qed
  then obtain c' where c': "executeCommand e q i c = Some (True, c')" by blast
  have k: "sched_ok c'" "keeps {} c c'" "executed c' (q, i)" using executeCommand_ok [OF C c'] by auto
  have "executed c' w" if "((q, i), w) \<in> (graph c)\<^sup>*" for w
  proof -
    have h: "\<And>u. u \<in> set (c_history c') \<longleftrightarrow> executed c' u" and ok: "order_ok (graph c') (node_key (c_space c')) (c_history c')"
      using k(1) unfolding sched_ok_def run_ok_def by blast+
    show ?thesis using closed_reach [OF that, of "set (c_history c')"] k(3) h ok keeps_graph [OF k(2)] unfolding order_ok_def by metis
  qed
  then show ?thesis using c' by blast
qed

theorem epaxos_ready_executes_witness:
  "map_option (\<lambda>(ok, c). (ok, c_history c)) (executeCommand epx_env 0 0 epx_committed) = Some (True, [(1, 0), (0, 0)]) \<and>
   (\<exists>c'. executeCommand epx_env 0 0 epx_committed = Some (True, c') \<and> executed c' (1, 0))"
proof
  show "map_option (\<lambda>(ok, c). (ok, c_history c)) (executeCommand epx_env 0 0 epx_committed) = Some (True, [(1, 0), (0, 0)])" by code_simp
  have t: "total epx_env" by (simp add: total_def epx_env_def)
  have closed: "w \<in> {(0, 0), (1, 0)}" if "((0, 0), w) \<in> (graph epx_committed)\<^sup>*" for w
  proof (rule closed_reach [OF that])
    fix a b assume a: "a \<in> {(0::int, 0::int), (1, 0)}" "(a, b) \<in> graph epx_committed"
    have m: "map_option i_Deps (mget (c_space epx_committed) (0, 0)) = Some [-1, 0, -1]" "map_option i_Deps (mget (c_space epx_committed) (1, 0)) = Some [0, -1, -1]"
      by code_simp+
    obtain x q where "mget (c_space epx_committed) a = Some x" "dep_of x q = Some b" using a(2) by (auto simp: graph_def)
    then show "b \<in> {(0, 0), (1, 0)}" using a(1) m
      by (auto simp: dep_at_def slice_get_def nth_Cons' split: if_splits)
  qed simp
  have i: "ready_inst epx_env epx_committed (0, 0)" "ready_inst epx_env epx_committed (1, 0)" unfolding ready_inst_code by code_simp+
  have r: "ready epx_env epx_committed (0, 0)" unfolding ready_def using closed i by blast
  have g: "((0, 0), (1, 0)) \<in> graph epx_committed" unfolding graph_edge by code_simp
  show "\<exists>c'. executeCommand epx_env 0 0 epx_committed = Some (True, c') \<and> executed c' (1, 0)"
    using epaxos_ready_executes [OF epx_committed_run t r] r_into_rtrancl [OF g] by blast
qed



subsection \<open>Decided instances\<close>

text \<open>C15 No timely event changes the sequence number, the dependencies, the status or the known commands of a committed or
  executed instance. Not timely are exactly: a \<open>PrepareReply\<close>, \<open>PreAcceptReply\<close>, \<open>AcceptReply\<close> or \<open>TryPreAcceptReply\<close> for
  a decided instance while this replica's bookkeeping of it is still preparing, pre-accepting, accepting or
  tentatively pre-accepting, respectively; and a \<open>TryPreAccept\<close> for a decided instance whose command list is empty, or one the
  replica gets from itself while its tentative phase is open. All other events are covered, among them every request
  (\<open>Prepare\<close>, \<open>PreAccept\<close>, \<open>Accept\<close>, \<open>Commit\<close>, \<open>TryPreAccept\<close> for an instance with commands) and the start of a recovery.\<close>

theorem epaxos_decided_stays:
  assumes "receive e ev c = Some (Inr c')" "timely ev c" "mget (c_space c) v = Some x" "decided x"
  shows "\<exists>y. mget (c_space c') v = Some y \<and> i_Status y = i_Status x \<and> i_Seq y = i_Seq x \<and> i_Deps y = i_Deps x \<and>
    (i_Cmds x \<noteq> None \<longrightarrow> i_Cmds y = i_Cmds x)"
proof -
  have "inst_steady (mget (c_space c) v) (mget (c_space c') v)" using receive_steady [OF assms(1,2)] by (simp add: steady_def)
  then show ?thesis using assms(3,4) by (auto simp: inst_steady_def split: option.splits)
qed

theorem epaxos_decided_stays_witness:
  "\<exists>c' y. receive epx_env (Message (Accept 1 0 0 50 9 [5, 5, 5] (Some []))) epx_committed = Some (Inr c') \<and> mget (c_space c') (0, 0) = Some y \<and>
     i_Status y = COMMITTED \<and> i_Seq y = 2 \<and> i_Deps y = [-1, 0, -1]"
proof -
  let ?ev = "Message (Accept 1 0 0 50 9 [5, 5, 5] (Some []))"
  have "(case receive epx_env ?ev epx_committed of Some (Inr c) \<Rightarrow> True | _ \<Rightarrow> False)" by code_simp
  then obtain c' where c': "receive epx_env ?ev epx_committed = Some (Inr c')" by (auto split: option.splits sum.splits)
  have "map_option (\<lambda>x. (i_Status x, i_Seq x, i_Deps x)) (mget (c_space epx_committed) (0, 0)) = Some (COMMITTED, 2, [-1, 0, -1])" by code_simp
  then obtain x where x: "mget (c_space epx_committed) (0, 0) = Some x" "i_Status x = COMMITTED" "i_Seq x = 2" "i_Deps x = [-1, 0, -1]" by auto
  show ?thesis using epaxos_decided_stays [OF c' _ x(1)] x c' by auto
qed

text \<open>C17 A reply to \<open>Prepare\<close> is not checked against the status of the instance: let an instance be committed or
  executed while this replica is still preparing it, and let a reply of its ballot from a new acceptor
  complete the quorum with an accepted instance as the strongest evidence. Then the handler puts the instance back to \<open>ACCEPTED\<close>, with the
  commands, sequence number and dependencies of that evidence in place of the decided ones.\<close>

theorem epaxos_late_reply_reopens:
  assumes "inst_at (pp_Replica r) (pp_Instance r) c = Some (Some x)" "decided x" "i_lb x = Some lb"
    and "lb_preparing lb" "i_bal x = lb_lastTriedBallot lb" "pp_Ballot r = lb_lastTriedBallot lb"
    and "0 \<le> pp_AcceptorId r" "pp_AcceptorId r < c_n c" "snd (Add (lb_prepareVoters lb) (pp_AcceptorId r))"
    and "SlowQuorumSize c \<le> int (length (lb_prepareReplies lb)) + 1"
    and "fst (choose_reply (pp_Replica r) (lb_prepareReplies lb @ [r]) (None, lb_leaderResponded lb)) = Some b" "pp_Status b = ACCEPTED"
  shows "\<exists>c' y. receive e (Message (PrepareReplyMsg r)) c = Some (Inr c') \<and> mget (c_space c') (pp_Replica r, pp_Instance r) = Some y \<and>
    i_Status y = ACCEPTED \<and> i_Cmds y = pp_Command b \<and> i_Seq y = pp_Seq b \<and> i_Deps y = pp_Deps b"
proof -
  let ?q = "pp_Replica r" and ?i = "pp_Instance r"
  obtain rs where ch: "choose_reply ?q (lb_prepareReplies lb @ [r]) (None, lb_leaderResponded lb) = (Some b, rs)"
    using assms(11) by (cases "choose_reply ?q (lb_prepareReplies lb @ [r]) (None, lb_leaderResponded lb)") auto
  have st: "\<not> pp_Status b \<ge> COMMITTED" using assms(12) by (simp add: status_defs)
  have q: "\<not> int (length (lb_prepareReplies lb @ [r])) < SlowQuorumSize (raise_ballot (pp_Ballot r) c)"
    "c_n (raise_ballot (pp_Ballot r) c) = c_n c" using assms(10) by (simp_all add: raise_ballot_def SlowQuorumSize_def)
  obtain y where y: "handlePrepareReply e r c = Some (bcastAccept e ?q ?i (put_inst ?q ?i y (raise_ballot (pp_Ballot r) c)))"
    "i_Status y = ACCEPTED" "i_Cmds y = pp_Command b" "i_Seq y = pp_Seq b" "i_Deps y = pp_Deps b"
    using assms(1,3-9,12) q ch st by (simp add: handlePrepareReply_def Let_def)
  show ?thesis using y by (simp add: receive_def put_inst_def)
qed

theorem epaxos_late_reply_reopens_witness:
  "timely_run epx_recovered \<and> map_option i_Status (mget (c_space epx_recovered) (1, 0)) = Some EXECUTED \<and>
   (\<exists>c' y. receive epx_env (Message (PrepareReplyMsg epx_late)) epx_recovered = Some (Inr c') \<and> mget (c_space c') (1, 0) = Some y \<and> i_Status y = ACCEPTED)"
proof (intro conjI)
  show "timely_run epx_recovered" by (rule epx_recovered_run)
  show ex: "map_option i_Status (mget (c_space epx_recovered) (1, 0)) = Some EXECUTED" by code_simp
  then obtain x where x: "mget (c_space epx_recovered) (1, 0) = Some x" "i_Status x = EXECUTED" by auto
  have "in_space 1 0 epx_recovered" by code_simp
  then have at: "inst_at (pp_Replica epx_late) (pp_Instance epx_late) epx_recovered = Some (Some x)" using x by (simp add: inst_at_def epx_late_def)
  have "case mget (c_space epx_recovered) (1, 0) of Some x \<Rightarrow> (case i_lb x of Some lb \<Rightarrow> lb_preparing lb \<and> i_bal x = lb_lastTriedBallot lb \<and>
      pp_Ballot epx_late = lb_lastTriedBallot lb \<and> snd (Add (lb_prepareVoters lb) (pp_AcceptorId epx_late)) \<and>
      SlowQuorumSize epx_recovered \<le> int (length (lb_prepareReplies lb)) + 1 \<and>
      map_option pp_Status (fst (choose_reply (pp_Replica epx_late) (lb_prepareReplies lb @ [epx_late]) (None, lb_leaderResponded lb))) = Some ACCEPTED
    | None \<Rightarrow> False) | None \<Rightarrow> False" by code_simp
  then obtain lb b where lb: "i_lb x = Some lb" "lb_preparing lb" "i_bal x = lb_lastTriedBallot lb" "pp_Ballot epx_late = lb_lastTriedBallot lb"
    "snd (Add (lb_prepareVoters lb) (pp_AcceptorId epx_late))" "SlowQuorumSize epx_recovered \<le> int (length (lb_prepareReplies lb)) + 1"
    "fst (choose_reply (pp_Replica epx_late) (lb_prepareReplies lb @ [epx_late]) (None, lb_leaderResponded lb)) = Some b" "pp_Status b = ACCEPTED"
    using x by (auto split: option.splits)
  have n: "0 \<le> pp_AcceptorId epx_late" "pp_AcceptorId epx_late < c_n epx_recovered" by code_simp+
  show "\<exists>c' y. receive epx_env (Message (PrepareReplyMsg epx_late)) epx_recovered = Some (Inr c') \<and> mget (c_space c') (1, 0) = Some y \<and> i_Status y = ACCEPTED"
    using epaxos_late_reply_reopens [OF at _ lb(1-4) n lb(5-8), of epx_env] x(2) by (auto simp: epx_late_def)
qed

subsection \<open>Attributes\<close>

text \<open>A sequence number whose successor is still an \<open>int32\<close>, and a core all of whose known sequence numbers are such.\<close>

definition seq_room :: "int \<Rightarrow> bool" where
  "seq_room s \<longleftrightarrow> - (2 ^ 31) \<le> s \<and> s < 2 ^ 31 - 1"

definition seqs_room :: "'st core \<Rightarrow> bool" where
  "seqs_room c \<longleftrightarrow> list_all (\<lambda>(v, x). seq_room (i_Seq x)) (c_space c) \<and> list_all (\<lambda>(k, s). seq_room s) (c_maxSeqPerKey c)"

lemma seq_room_next: "seq_room s \<Longrightarrow> int32 (s + 1) = s + 1"
  by (simp add: seq_room_def int32_small)

lemma seqs_roomD:
  assumes "seqs_room c"
  shows "mget (c_space c) v = Some x \<Longrightarrow> seq_room (i_Seq x)" "mget (c_maxSeqPerKey c) k = Some s \<Longrightarrow> seq_room s"
  using assms by (auto simp: seqs_room_def list_all_iff dest!: map_of_SomeD)

lemma attr_cmds_mono:
  "attr_cmds c rep i q cmds (sq, deps, ch) = Some (sq', deps', ch') \<Longrightarrow> length deps' = length deps \<and> (\<forall>j < length deps. deps ! j \<le> deps' ! j) \<and>
     (\<forall>j < length deps. j \<noteq> nat q \<longrightarrow> deps' ! j = deps ! j) \<and> (seqs_room c \<longrightarrow> sq \<le> sq')"
proof (induction cmds arbitrary: sq deps ch)
  case (Cons cmd cmds)
  obtain tab where tab: "slice_get (c_conflicts c) q = Some tab" using Cons.prems by (auto split: Option.bind_splits)
  show ?case
  proof (cases "mget tab (K cmd)")
    case None
    then show ?thesis using Cons tab by simp
  next
    case (Some p)
    obtain lt lw where p: "p = (lt, lw)" by fastforce
    let ?d = "if Op cmd \<noteq> GET then lt else lw"
    show ?thesis
    proof (cases "q = rep \<and> ?d \<ge> i")
      case True
      then show ?thesis using Cons tab Some p by (simp add: Let_def)
    next
      case 1: False
      obtain dq where dq: "slice_get deps q = Some dq" using Cons.prems tab Some p 1 by (auto simp: Let_def split: Option.bind_splits if_splits)
      show ?thesis
      proof (cases "?d > dq")
        case True
        then obtain x where x: "slice_set deps q ?d = Some deps'" "inst_at q ?d c = Some (Some x)" "sq' = (if sq \<le> i_Seq x then int32 (i_Seq x + 1) else sq)"
          using Cons.prems tab Some p 1 dq by (auto simp: Let_def simp del: if_split split: Option.bind_splits)
        have "seqs_room c \<longrightarrow> sq \<le> sq'" using x(3) seqs_roomD(1) [OF _ inst_at_mget [OF x(2)]] by (auto simp: seq_room_next)
        then show ?thesis using True dq x(1) by (auto simp: slice_set_def slice_get_def nth_list_update split: if_splits)
      next
        case False
        then show ?thesis using Cons tab Some p 1 dq by (simp add: Let_def)
      qed
    qed
  qed
qed simp

lemma attr_cmds_single:
  assumes "attr_cmds c rep i q [cmd] (sq, deps, ch) = Some (sq', deps', ch')" "slice_get (c_conflicts c) q = Some tab"
    "mget tab (K cmd) = Some (lt, lw)" "d = (if Op cmd \<noteq> GET then lt else lw)" "\<not> (q = rep \<and> d \<ge> i)"
  shows "d \<le> deps' ! nat q"
  using assms by (auto simp: Let_def slice_get_def slice_set_def split: Option.bind_splits if_splits)

lemma attr_replicas_mono:
  "attr_replicas c rep i cmds qs (sq, deps, ch) = Some (sq', deps', ch') \<Longrightarrow> length deps' = length deps \<and> (\<forall>j < length deps. deps ! j \<le> deps' ! j) \<and>
     (seqs_room c \<longrightarrow> sq \<le> sq')"
proof (induction qs arbitrary: sq deps ch)
  case (Cons q qs)
  show ?case
  proof (cases "c_id c \<noteq> rep \<and> q = rep")
    case True
    then show ?thesis using Cons by simp
  next
    case False
    then obtain sq1 deps1 ch1 where 1: "attr_cmds c rep i q cmds (sq, deps, ch) = Some (sq1, deps1, ch1)" "attr_replicas c rep i cmds qs (sq1, deps1, ch1) = Some (sq', deps', ch')"
      using Cons.prems by (auto split: Option.bind_splits)
    show ?thesis using attr_cmds_mono [OF 1(1)] Cons.IH [OF 1(2)] by force
  qed
qed simp

lemma attr_replicas_single:
  assumes "attr_replicas c rep i [cmd] qs (sq, deps, ch) = Some (sq', deps', ch')" "q \<in> set qs" "0 \<le> q" "q < int (length deps)" "\<not> (c_id c \<noteq> rep \<and> q = rep)"
    "slice_get (c_conflicts c) q = Some tab" "mget tab (K cmd) = Some (lt, lw)" "d = (if Op cmd \<noteq> GET then lt else lw)" "\<not> (q = rep \<and> d \<ge> i)"
  shows "d \<le> deps' ! nat q"
  using assms(1,2,4)
proof (induction qs arbitrary: sq deps ch)
  case (Cons p qs)
  show ?case
  proof (cases "c_id c \<noteq> rep \<and> p = rep")
    case True
    then show ?thesis using Cons assms(5) by auto
  next
    case False
    then obtain sq1 deps1 ch1 where 1: "attr_cmds c rep i p [cmd] (sq, deps, ch) = Some (sq1, deps1, ch1)" "attr_replicas c rep i [cmd] qs (sq1, deps1, ch1) = Some (sq', deps', ch')"
      using Cons.prems by (auto simp del: attr_cmds.simps split: Option.bind_splits)
    have m: "length deps1 = length deps" "\<forall>j < length deps1. deps1 ! j \<le> deps' ! j" using attr_cmds_mono [OF 1(1)] attr_replicas_mono [OF 1(2)] by auto
    show ?thesis
    proof (cases "p = q")
      case True
      have "d \<le> deps1 ! nat q" by (rule attr_cmds_single [OF 1(1) [unfolded True] assms(6-9)])
      also have "deps1 ! nat q \<le> deps' ! nat q" using m Cons.prems(3) assms(3) by (simp add: nat_less_iff)
      finally show ?thesis .
    next
      case False
      then show ?thesis using Cons.IH [OF 1(2)] Cons.prems m by simp
    qed
  qed
qed simp

text \<open>C16 The attributes computed for a single command cover the conflicts that the replica has recorded under the command's
  key: in every row but a remote leader's own, the dependency is at least the last conflicting instance recorded for the
  key, the sequence number is above every one recorded for the key, and neither goes below what was proposed. The table is per exact key, so
  that overlaps of a scan with other keys are not recorded in it. Sequence numbers are \<open>int32\<close>; the ones the replica knows are
  assumed to be below \<open>2 ^ 31 - 1\<close>, where the successor wraps around (\<open>seqs_room\<close>).\<close>

theorem epaxos_attributes_cover:
  assumes "updateAttributes [cmd] sq deps rep i c = Some (sq', deps', ch)" "0 \<le> q" "q < c_n c" "c_n c = int (length deps)" "c_id c = rep \<or> q \<noteq> rep"
    "slice_get (c_conflicts c) q = Some tab" "mget tab (K cmd) = Some (lt, lw)" "d = (if Op cmd \<noteq> GET then lt else lw)" "q \<noteq> rep \<or> d < i"
    "seqs_room c"
  shows "d \<le> deps' ! nat q \<and> deps ! nat q \<le> deps' ! nat q \<and> sq \<le> sq' \<and> (case mget (c_maxSeqPerKey c) (K cmd) of Some s \<Rightarrow> s < sq' | None \<Rightarrow> True)"
proof -
  obtain sq1 ch1 where r: "attr_replicas c rep i [cmd] [0..c_n c - 1] (sq, deps, False) = Some (sq1, deps', ch1)" "attr_seq c cmd (sq1, ch1) = (sq', ch)"
    using assms(1) by (auto simp: updateAttributes_def simp del: attr_replicas.simps split: Option.bind_splits prod.splits)
  have m: "length deps' = length deps" "\<forall>j < length deps. deps ! j \<le> deps' ! j" "sq \<le> sq1" using attr_replicas_mono [OF r(1)] assms(10) by auto
  have "q \<in> set [0..c_n c - 1]" "q < int (length deps)" "\<not> (c_id c \<noteq> rep \<and> q = rep)" "\<not> (q = rep \<and> d \<ge> i)" using assms by auto
  then have "d \<le> deps' ! nat q" using attr_replicas_single [OF r(1) _ assms(2) _ _ assms(6,7,8)] by blast
  moreover have "sq1 \<le> sq' \<and> (case mget (c_maxSeqPerKey c) (K cmd) of Some s \<Rightarrow> s < sq' | None \<Rightarrow> True)"
    using r(2) seqs_roomD(2) [OF assms(10)] by (auto simp: attr_seq_def seq_room_next split: option.splits if_splits)
  ultimately show ?thesis using m assms(2-4) by auto
qed

theorem epaxos_attributes_cover_witness: "updateAttributes [epx_put 8] 0 [-1, -1, -1] 0 0 epx_batch = Some (3, [-1, 1, -1], True) \<and> (1::int) \<le> [-1, 1, -1] ! nat 1"
proof -
  have u: "updateAttributes [epx_put 8] 0 [-1, -1, -1] 0 0 epx_batch = Some (3, [-1, 1, -1], True)" by code_simp
  have f: "c_n epx_batch = 3" "c_id epx_batch = 0" by code_simp+
  have "map_option (\<lambda>t. mget t (K (epx_put 8))) (slice_get (c_conflicts epx_batch) 1) = Some (Some (1, 1))" by code_simp
  then obtain tab where t: "slice_get (c_conflicts epx_batch) 1 = Some tab" "mget tab (K (epx_put 8)) = Some (1, 1)" by auto
  have "seqs_room epx_batch" by code_simp
  then show ?thesis using epaxos_attributes_cover [OF u _ _ _ _ t refl] u f by simp
qed

lemma attr_replicas_other:
  "attr_replicas c rep i cmds qs (sq, deps, ch) = Some (sq', deps', ch') \<Longrightarrow> j < length deps \<Longrightarrow> int j \<notin> set qs \<Longrightarrow> \<forall>p\<in>set qs. 0 \<le> p \<Longrightarrow> deps' ! j = deps ! j"
proof (induction qs arbitrary: sq deps ch)
  case (Cons q qs)
  show ?case
  proof (cases "c_id c \<noteq> rep \<and> q = rep")
    case True
    then show ?thesis using Cons by simp
  next
    case False
    then obtain sq1 deps1 ch1 where 1: "attr_cmds c rep i q cmds (sq, deps, ch) = Some (sq1, deps1, ch1)" "attr_replicas c rep i cmds qs (sq1, deps1, ch1) = Some (sq', deps', ch')"
      using Cons.prems by (auto split: Option.bind_splits)
    have "j \<noteq> nat q" using Cons.prems by auto
    then show ?thesis using attr_cmds_mono [OF 1(1)] Cons.IH [OF 1(2)] Cons.prems by simp
  qed
qed simp

lemma attr_replicas_append:
  "attr_replicas c rep i cmds (qs @ ps) st = Option.bind (attr_replicas c rep i cmds qs st) (attr_replicas c rep i cmds ps)"
proof (induction qs arbitrary: st)
  case (Cons q qs)
  then have "attr_replicas c rep i cmds (qs @ ps) = (\<lambda>st. Option.bind (attr_replicas c rep i cmds qs st) (attr_replicas c rep i cmds ps))"
    by (rule ext)
  then show ?case by (simp add: Option.bind_assoc)
qed simp

text \<open>The row of a batch whose first command raises the dependency: the other commands are not looked at.\<close>

lemma attr_cmds_first:
  assumes "attr_cmds c rep i q (cmd # cmds) (sq, deps, ch) = Some (sq', deps', ch')" "slice_get (c_conflicts c) q = Some tab"
    "mget tab (K cmd) = Some (lt, lw)" "d = (if Op cmd \<noteq> GET then lt else lw)" "\<not> (q = rep \<and> d \<ge> i)" "0 \<le> q" "q < int (length deps)" "deps ! nat q < d"
  shows "deps' ! nat q = d"
  using assms by (auto simp: Let_def slice_get_def slice_set_def split: Option.bind_splits if_splits)

text \<open>C18 For a batch the loop over the commands stops at the first command that raises a row's dependency: whenever the first
  command of a batch raises the dependency on row \<open>q\<close> to \<open>d\<close>, the dependency stays \<open>d\<close>, and the last instance \<open>d2 > d\<close> of that row
  recorded for the key of any later command of the batch is missed.\<close>

theorem epaxos_batch_misses_conflict:
  assumes "updateAttributes (cmd # cmds) sq deps rep i c = Some (sq', deps', ch)" "0 \<le> q" "q < c_n c" "c_n c = int (length deps)" "c_id c = rep \<or> q \<noteq> rep"
    and "slice_get (c_conflicts c) q = Some tab" "mget tab (K cmd) = Some (lt, lw)" "d = (if Op cmd \<noteq> GET then lt else lw)" "q \<noteq> rep \<or> d < i" "deps ! nat q < d"
    and "cmd2 \<in> set cmds" "mget tab (K cmd2) = Some (lt2, lw2)" "d2 = (if Op cmd2 \<noteq> GET then lt2 else lw2)" "d < d2"
  shows "deps' ! nat q = d \<and> \<not> d2 \<le> deps' ! nat q"
proof -
  obtain sq1 ch1 where r: "attr_replicas c rep i (cmd # cmds) [0..c_n c - 1] (sq, deps, False) = Some (sq1, deps', ch1)"
    using assms(1) by (auto simp: updateAttributes_def simp del: attr_replicas.simps split: Option.bind_splits prod.splits)
  have split: "[0..c_n c - 1] = [0..q - 1] @ q # [q + 1..c_n c - 1]"
    using assms(2,3) by (simp add: upto_split3)
  obtain s1 e1 h1 where 1: "attr_replicas c rep i (cmd # cmds) [0..q - 1] (sq, deps, False) = Some (s1, e1, h1)"
    "attr_replicas c rep i (cmd # cmds) (q # [q + 1..c_n c - 1]) (s1, e1, h1) = Some (sq1, deps', ch1)"
    using r unfolding split attr_replicas_append by (auto simp del: attr_replicas.simps split: Option.bind_splits)
  have skip: "\<not> (c_id c \<noteq> rep \<and> q = rep)" "\<not> (q = rep \<and> d \<ge> i)" using assms(5,9) by auto
  obtain s2 e2 h2 where 2: "attr_cmds c rep i q (cmd # cmds) (s1, e1, h1) = Some (s2, e2, h2)"
    "attr_replicas c rep i (cmd # cmds) [q + 1..c_n c - 1] (s2, e2, h2) = Some (sq1, deps', ch1)"
    using 1(2) unfolding attr_replicas.simps if_not_P [OF skip(1)] by (auto simp del: attr_cmds.simps attr_replicas.simps split: Option.bind_splits)
  have q: "nat q < length deps" "int (nat q) = q" using assms(2-4) by auto
  have e1: "length e1 = length deps" "e1 ! nat q = deps ! nat q"
    using attr_replicas_mono [OF 1(1)] attr_replicas_other [OF 1(1), of "nat q"] q by auto
  have "e2 ! nat q = d" by (rule attr_cmds_first [OF 2(1) assms(6-8) skip(2) assms(2)]) (use e1 q assms(10) in auto)
  moreover have "deps' ! nat q = e2 ! nat q"
    using attr_replicas_other [OF 2(2), of "nat q"] attr_cmds_mono [OF 2(1)] e1(1) q assms(2) by auto
  ultimately show ?thesis using assms(14) by simp
qed

theorem epaxos_batch_misses_conflict_witness:
  "updateAttributes [epx_put 7, epx_put 8] 0 [-1, -1, -1] 0 0 epx_batch = Some (3, [-1, 0, -1], True) \<and> \<not> (1 :: int) \<le> [-1, 0, -1] ! nat 1"
proof -
  have u: "updateAttributes [epx_put 7, epx_put 8] 0 [-1, -1, -1] 0 0 epx_batch = Some (3, [-1, 0, -1], True)" by code_simp
  have f: "c_n epx_batch = 3" "c_id epx_batch = 0" by code_simp+
  have "map_option (\<lambda>t. (mget t (K (epx_put 7)), mget t (K (epx_put 8)))) (slice_get (c_conflicts epx_batch) 1) = Some (Some (0, 0), Some (1, 1))" by code_simp
  then obtain tab where t: "slice_get (c_conflicts epx_batch) 1 = Some tab" "mget tab (K (epx_put 7)) = Some (0, 0)" "mget tab (K (epx_put 8)) = Some (1, 1)" by auto
  show ?thesis
    using epaxos_batch_misses_conflict [OF u _ _ _ _ t(1,2) refl _ _ _ t(3) refl] u f by simp
qed

end
