(* ===== verification/SwiftQuorum.thy ===== *)
theory SwiftQuorum
  imports Requests ReplicaSet
begin

text \<open>
  \<open>src/swift/quorum.go\<close>: the quorum families of SwiftPaxos and the ballot space that names them.
  A ballot selects a leader (its remainder by the number of replicas) and a quorum that contains
  the leader. A \<open>QuorumSet\<close> maps a leader to the list of its quorums: the code's inner map is keyed
  by consecutive integers and only grows, so it is the list. Division by zero panics: \<^const>\<open>None\<close>.

  Ballots are \<open>int32\<close>: the arithmetic that makes one (\<open>BallotOf\<close>, \<open>NextBallotOf\<close>, \<open>SameHigher\<close>) wraps
  around through \<^const>\<open>int32\<close>. The keys of the inner maps and their lengths are \<open>int32\<close> too; they differ from
  the positions and the length of the list only for a leader with \<open>2 ^ 31\<close> quorums or more, a table of
  more than 30 gigabytes per leader.
\<close>

definition NewMajorityOf :: "int \<Rightarrow> int" where
  "NewMajorityOf N = go_div N 2 + 1"

definition NewThreeQuartersOf :: "int \<Rightarrow> int" where
  "NewThreeQuartersOf N = go_div (3 * N) 4 + 1"

type_synonym quorum_set = "(int, rset list) gomap"

text \<open>\<open>register\<close> is the loop of \<open>subsets\<close> that files a quorum under each of its members.\<close>

definition register :: "int \<Rightarrow> rset \<Rightarrow> quorum_set \<Rightarrow> quorum_set" where
  "register repNum q qs =
     fold (\<lambda>i qs. if Contains q i then mput i (mgetd [] qs i @ [q]) qs else qs) [0..repNum - 1] qs"

function subsets :: "int \<Rightarrow> int \<Rightarrow> int \<Rightarrow> rset \<Rightarrow> quorum_set \<Rightarrow> quorum_set" where
  "subsets repNum quorumSize i q qs =
     (let qs = (if quorumSize = 0 then register repNum q qs else qs)
      in fold (\<lambda>j qs. if i \<le> j \<and> j < repNum then subsets repNum (quorumSize - 1) (j + 1) (With q j) qs else qs)
           [i..repNum - 1] qs)"
  by pat_completeness auto
termination
  by (relation "measure (\<lambda>(repNum, quorumSize, i, q, qs). nat (repNum - i))") auto

declare subsets.simps [simp del]

definition NewQuorumSet :: "int \<Rightarrow> int \<Rightarrow> quorum_set" where
  "NewQuorumSet quorumSize repNum =
     subsets repNum quorumSize 0 0 (map (\<lambda>i. (i, [])) [0..repNum - 1])"

definition go_mod :: "int \<Rightarrow> int \<Rightarrow> int" where
  "go_mod a b = a - b * go_div a b"

definition Leader :: "int \<Rightarrow> int \<Rightarrow> int option" where
  "Leader ballot repNum = (if repNum = 0 then None else Some (go_mod ballot repNum))"

definition NextBallotOf :: "int \<Rightarrow> int \<Rightarrow> int \<Rightarrow> int option" where
  "NextBallotOf rid oldBallot repNum =
     (if repNum = 0 then None else Some (int32 ((go_div oldBallot repNum + 1) * repNum + rid)))"

definition AQ :: "quorum_set \<Rightarrow> int \<Rightarrow> rset option" where
  "AQ qs ballot = do {
     l \<leftarrow> Leader ballot (int (mlen qs));
     let lqs = mgetd [] qs l;
     if lqs = [] then None
     else
       let qid = go_mod (go_div ballot (int (mlen qs))) (int (length lqs))
       in Some (if 0 \<le> qid \<and> qid < int (length lqs) then lqs ! nat qid else 0)
   }"

text \<open>The loop over the leader's quorums returns the identifier of one equal to \<open>q\<close>; \<open>ord\<close> is its order.\<close>

definition BallotOf :: "nat list \<Rightarrow> quorum_set \<Rightarrow> int \<Rightarrow> rset \<Rightarrow> int" where
  "BallotOf ord qs leader q =
     (case find (\<lambda>(qid, qj). Equal qj q)
         (range_order ord (enumerate 0 (mgetd [] qs leader))) of
        Some (qid, _) \<Rightarrow> int32 (int qid * int (mlen qs) + leader)
      | None \<Rightarrow> -1)"

record quorum_system =
  qs_sets :: quorum_set
  qs_ballots :: "int list"

datatype quorum_error = InvalidInitialQuorum | InvalidMembership int | NoBallot

definition NewQuorumSystem :: "nat list \<Rightarrow> int \<Rightarrow> int \<Rightarrow> rset \<Rightarrow> int \<Rightarrow> quorum_error + quorum_system" where
  "NewQuorumSystem ord quorumSize repNum initial leader =
     (if Size initial \<noteq> quorumSize \<or> \<not> Contains initial leader then Inl InvalidInitialQuorum
      else if repNum < 1 \<or> repNum > MaxSize \<or>
        (case All_ids repNum of None \<Rightarrow> True | Some full \<Rightarrow> \<not> Covers full initial) then Inl (InvalidMembership repNum)
      else
        let qs = NewQuorumSet quorumSize repNum; ballot = BallotOf ord qs leader initial
        in if ballot < 0 then Inl NoBallot else Inr \<lparr>qs_sets = qs, qs_ballots = [ballot]\<rparr>)"

definition BallotAt :: "quorum_system \<Rightarrow> int \<Rightarrow> int option" where
  "BallotAt sys i = (if int (length (qs_ballots sys)) > i then slice_get (qs_ballots sys) i else Some (-1))"

definition SameHigher :: "quorum_system \<Rightarrow> int \<Rightarrow> int \<Rightarrow> int option" where
  "SameHigher sys sameAs higherThan = do {
     l \<leftarrow> Leader sameAs (int (mlen (qs_sets sys)));
     let len = int (length (mgetd [] (qs_sets sys) l));
     if len = 0 then None
     else Some (int32 (sameAs + go_div higherThan len * len * int (mlen (qs_sets sys))))
   }"

subsection \<open>What the enumeration contains\<close>

text \<open>Every registered quorum is the starting set extended by members from \<open>i\<close> on.\<close>

lemma mgetd_register:
  "mgetd [] (register n q qs) l = mgetd [] qs l @ (if l \<in> {0..<n} \<and> Contains q l then [q] else [])"
proof -
  have "mgetd [] (fold (\<lambda>i qs. if Contains q i then mput i (mgetd [] qs i @ [q]) qs else qs) is qs) l =
      mgetd [] qs l @ (if l \<in> set is \<and> Contains q l then [q] else [])" if "distinct is" for "is"
    using that by (induction "is" arbitrary: qs) auto
  from this [of "[0..n - 1]"] show ?thesis by (auto simp: register_def)
qed

definition extensions :: "int \<Rightarrow> int \<Rightarrow> int \<Rightarrow> rset \<Rightarrow> rset set" where
  "extensions n k i q = {q'. \<exists>T. T \<subseteq> {i..<n} \<and> int (card T) = k \<and> ids q' = ids q \<union> T}"

lemma extensions_neg: "k < 0 \<Longrightarrow> extensions n k i q = {}"
  by (auto simp: extensions_def)

lemma extensions_zero: "extensions n 0 i q = {q}"
proof -
  have "T = {}" if "T \<subseteq> {i..<n}" "card T = 0" for T
    using that finite_subset [OF that(1)] by simp
  then have "(\<exists>T. T \<subseteq> {i..<n} \<and> card T = 0 \<and> ids q' = ids q \<union> T) \<longleftrightarrow> ids q' = ids q" for q'
    by (metis card.empty empty_subsetI sup_bot_right)
  then have "extensions n 0 i q = {q'. ids q' = ids q}" by (simp add: extensions_def)
  then show ?thesis by (simp add: ids_inject)
qed

lemma extensions_step:
  assumes "0 \<le> i" "n \<le> 64" "0 < k"
  shows "extensions n k i q = (\<Union>j\<in>{i..<n}. extensions n (k - 1) (j + 1) (With q j))"
    (is "?L = ?R")
proof
  show "?L \<subseteq> ?R"
  proof
    fix q' assume "q' \<in> ?L"
    then obtain T where T: "T \<subseteq> {i..<n}" "int (card T) = k" "ids q' = ids q \<union> T"
      by (auto simp: extensions_def)
    have fin: "finite T" using T(1) finite_subset by blast
    have "T \<noteq> {}" using T(2) assms(3) by auto
    define j where "j = Min T"
    have j: "j \<in> T" "\<And>x. x \<in> T \<Longrightarrow> j \<le> x" using fin \<open>T \<noteq> {}\<close> by (auto simp: j_def)
    have "T - {j} \<subseteq> {j + 1..<n}" using T(1) j by (force simp: subset_iff)
    moreover have "int (card (T - {j})) = k - 1" using T(2) j fin assms(3) by (simp add: of_nat_diff card_gt_0_iff)
    moreover have "ids q' = ids (With q j) \<union> (T - {j})"
      using T j assms by (auto simp: ids_With in_range_def)
    ultimately have "q' \<in> extensions n (k - 1) (j + 1) (With q j)"
      unfolding extensions_def by blast
    then show "q' \<in> ?R" using T(1) j(1) by blast
  qed
next
  show "?R \<subseteq> ?L"
  proof
    fix q' assume "q' \<in> ?R"
    then obtain j T where j: "j \<in> {i..<n}" and T: "T \<subseteq> {j + 1..<n}" "int (card T) = k - 1"
      "ids q' = ids (With q j) \<union> T" by (auto simp: extensions_def)
    have fin: "finite T" using T(1) finite_subset by blast
    have "j \<notin> T" using T(1) by auto
    then have "int (card (insert j T)) = k" using T(2) fin by simp
    moreover have "insert j T \<subseteq> {i..<n}" using j T(1) by auto
    moreover have "ids q' = ids q \<union> insert j T" using T(3) j assms by (auto simp: ids_With in_range_def)
    ultimately show "q' \<in> ?L" unfolding extensions_def by blast
  qed
qed

lemma subsets_content:
  assumes "0 \<le> i" "n \<le> 64"
  shows "set (mgetd [] (subsets n k i q qs) l) =
    set (mgetd [] qs l) \<union> {q' \<in> extensions n k i q. l \<in> {0..<n} \<and> Contains q' l}"
  using assms
proof (induction n k i q qs rule: subsets.induct)
  case (1 n k i q qs)
  let ?qs = "if k = 0 then register n q qs else qs"
  have IH: "set (mgetd [] (subsets n (k - 1) (j + 1) (With q j) qs') l) = set (mgetd [] qs' l) \<union>
      {q' \<in> extensions n (k - 1) (j + 1) (With q j). l \<in> {0..<n} \<and> Contains q' l}"
    if "j \<in> {i..n - 1}" for j qs'
    using "1.IH" [OF refl, of j qs'] "1.prems" that by auto
  have fold: "set (mgetd [] (fold (\<lambda>j qs. if i \<le> j \<and> j < n then subsets n (k - 1) (j + 1) (With q j) qs else qs) js qs') l) =
      set (mgetd [] qs' l) \<union> (\<Union>j\<in>set js. {q' \<in> extensions n (k - 1) (j + 1) (With q j). l \<in> {0..<n} \<and> Contains q' l})"
    if "set js \<subseteq> {i..n - 1}" for js qs'
    using that
  proof (induction js arbitrary: qs')
    case (Cons j js)
    then show ?case using IH [of j qs'] by auto
  qed simp
  have eq: "set (mgetd [] (subsets n k i q qs) l) = set (mgetd [] ?qs l) \<union>
      (\<Union>j\<in>{i..n - 1}. {q' \<in> extensions n (k - 1) (j + 1) (With q j). l \<in> {0..<n} \<and> Contains q' l})"
    by (subst subsets.simps) (simp add: fold Let_def)
  consider "k < 0" | "k = 0" | "0 < k" by linarith
  then show ?case
  proof cases
    case 1
    then show ?thesis using eq by (simp add: extensions_neg)
  next
    case 2
    then show ?thesis using eq by (auto simp: extensions_neg extensions_zero mgetd_register)
  next
    case 3
    have "{i..n - 1} = {i..<n}" by auto
    then show ?thesis using eq 3 extensions_step [of i n k q] "1.prems" by auto
  qed
qed

lemma NewQuorumSet_content:
  assumes "n \<le> 64"
  shows "set (mgetd [] (NewQuorumSet k n) l) = {q. ids q \<subseteq> {0..<n} \<and> Size q = k \<and> l \<in> ids q}"
proof -
  have "mgetd [] (map (\<lambda>i. (i, [])) is) l = ([] :: rset list)" for "is"
    by (induction "is") (auto simp: mgetd_def)
  then have "set (mgetd [] (NewQuorumSet k n) l) = {q' \<in> extensions n k 0 0. l \<in> {0..<n} \<and> Contains q' l}"
    using assms by (simp add: NewQuorumSet_def subsets_content)
  also have "\<dots> = {q. ids q \<subseteq> {0..<n} \<and> Size q = k \<and> l \<in> ids q}"
    by (auto simp: extensions_def Contains_iff Size_card)
  finally show ?thesis .
qed

text \<open>No quorum is listed twice for a leader, so the lists have binomial length.\<close>

lemma extensions_disjoint:
  assumes "0 \<le> i" "n \<le> 64" "ids q \<subseteq> {..<i}" "i \<le> a" "a < b" "b < n"
  shows "extensions n k (a + 1) (With q a) \<inter> extensions n k (b + 1) (With q b) = {}"
proof -
  have "a \<in> ids q'" if "q' \<in> extensions n k (a + 1) (With q a)" for q'
    using that assms by (auto simp: extensions_def ids_With in_range_def)
  moreover have "a \<notin> ids q'" if "q' \<in> extensions n k (b + 1) (With q b)" for q'
    using that assms by (force simp: extensions_def ids_With in_range_def)
  ultimately show ?thesis by blast
qed

lemma distinct_subsets:
  assumes "0 \<le> i" "n \<le> 64" "ids q \<subseteq> {..<i}" "distinct (mgetd [] qs l)"
    "set (mgetd [] qs l) \<inter> extensions n k i q = {}"
  shows "distinct (mgetd [] (subsets n k i q qs) l)"
  using assms
proof (induction n k i q qs rule: subsets.induct)
  case (1 n k i q qs)
  let ?qs = "if k = 0 then register n q qs else qs"
  let ?f = "\<lambda>j qs. if i \<le> j \<and> j < n then subsets n (k - 1) (j + 1) (With q j) qs else qs"
  let ?E = "\<lambda>j. extensions n (k - 1) (j + 1) (With q j)"
  have fold: "distinct (mgetd [] (fold ?f js qs') l)"
    if "set js \<subseteq> {i..n - 1}" "distinct js" "distinct (mgetd [] qs' l)" "\<forall>j\<in>set js. set (mgetd [] qs' l) \<inter> ?E j = {}" for js qs'
    using that
  proof (induction js arbitrary: qs')
    case (Cons j js)
    have j: "i \<le> j" "j < n" using Cons.prems(1) by auto
    have sub: "ids (With q j) \<subseteq> {..<j + 1}" using "1.prems" j by (auto simp: ids_With in_range_def subset_iff)
    let ?qs' = "subsets n (k - 1) (j + 1) (With q j) qs'"
    have "distinct (mgetd [] ?qs' l)"
      using "1.IH" [OF refl, of j qs'] "1.prems" j sub Cons.prems by auto
    moreover have "set (mgetd [] ?qs' l) \<inter> ?E j' = {}" if "j' \<in> set js" for j'
    proof -
      have "j' \<noteq> j" "i \<le> j'" "j' < n" using Cons.prems(1,2) that by auto
      then have "?E j \<inter> ?E j' = {}"
        using extensions_disjoint [of i n q j j'] extensions_disjoint [of i n q j' j] "1.prems"(1-3) j by (cases "j < j'") auto
      moreover have "set (mgetd [] qs' l) \<inter> ?E j' = {}" using Cons.prems(4) that by auto
      ultimately show ?thesis using subsets_content [of "j + 1" n "k - 1" "With q j" qs' l] "1.prems"(1,2) j by auto
    qed
    ultimately show ?case using Cons.IH [of ?qs'] Cons.prems j by simp
  qed simp
  have "distinct (mgetd [] ?qs l)" using "1.prems"(4,5) by (auto simp: mgetd_register extensions_zero)
  moreover have "set (mgetd [] ?qs l) \<inter> ?E j = {}" if "j \<in> set [i..n - 1]" for j
  proof (cases "0 < k")
    case True
    then show ?thesis using extensions_step [of i n k q] "1.prems"(1,2,5) that by fastforce
  next
    case False
    then show ?thesis by (simp add: extensions_neg)
  qed
  ultimately show ?case
    unfolding subsets.simps [of n k i q qs] Let_def by (intro fold) simp_all
qed

lemma length_NewQuorumSet:
  assumes n: "n \<le> 64" and l: "0 \<le> l" "l < n" and k: "1 \<le> k"
  shows "length (mgetd [] (NewQuorumSet k n) l) = (nat n - 1) choose (nat k - 1)"
proof -
  have empty: "mgetd [] (map (\<lambda>i. (i, [])) is) l = ([] :: rset list)" for "is"
    by (induction "is") (auto simp: mgetd_def)
  have "distinct (mgetd [] (NewQuorumSet k n) l)"
    unfolding NewQuorumSet_def using n by (intro distinct_subsets) (simp_all add: empty)
  then have "length (mgetd [] (NewQuorumSet k n) l) = card {q. ids q \<subseteq> {0..<n} \<and> Size q = k \<and> l \<in> ids q}"
    using NewQuorumSet_content [OF n, of k l] by (metis distinct_card)
  also have "\<dots> = card {B. B \<subseteq> {0..<n} - {l} \<and> card B = nat k - 1}"
  proof (rule bij_betw_same_card [of "\<lambda>q. ids q - {l}"], rule bij_betwI' [where f = "\<lambda>q. ids q - {l}"])
    fix p q assume "p \<in> {q. ids q \<subseteq> {0..<n} \<and> Size q = k \<and> l \<in> ids q}" "q \<in> {q. ids q \<subseteq> {0..<n} \<and> Size q = k \<and> l \<in> ids q}"
    then show "(ids p - {l} = ids q - {l}) = (p = q)" by (metis (mono_tags, lifting) ids_inject insert_Diff mem_Collect_eq)
  next
    fix q assume "q \<in> {q. ids q \<subseteq> {0..<n} \<and> Size q = k \<and> l \<in> ids q}"
    then show "ids q - {l} \<in> {B. B \<subseteq> {0..<n} - {l} \<and> card B = nat k - 1}" by (auto simp: Size_card)
  next
    fix B assume B: "B \<in> {B. B \<subseteq> {0..<n} - {l} \<and> card B = nat k - 1}"
    define q where "q = foldl With 0 (sorted_list_of_set (insert l B))"
    have fin: "finite B" using B finite_subset [of B "{0..<n} - {l}"] by auto
    have set: "set (sorted_list_of_set (insert l B)) = insert l B" using fin by (intro set_sorted_list_of_set) simp
    then have "\<forall>i\<in>set (sorted_list_of_set (insert l B)). in_range i" using B n l by (auto simp: in_range_def)
    then have q: "ids q = insert l B" unfolding q_def using rs.abs_fold [of "sorted_list_of_set (insert l B)" 0] set by (simp del: sorted_list_of_set_insert_remove)
    have "l \<notin> B" using B by auto
    then have "Size q = k" using q B fin k by (simp add: Size_card)
    then show "\<exists>q\<in>{q. ids q \<subseteq> {0..<n} \<and> Size q = k \<and> l \<in> ids q}. B = ids q - {l}"
      using q B l by (intro bexI [of _ q]) auto
  qed
  also have "\<dots> = (nat n - 1) choose (nat k - 1)" using n_subsets [of "{0..<n} - {l}" "nat k - 1"] l by simp
  finally show ?thesis .
qed

lemma dom_subsets: "0 \<le> i \<Longrightarrow> {0..<n} \<subseteq> dom (map_of qs) \<Longrightarrow> dom (map_of (subsets n k i q qs)) = dom (map_of qs)"
proof (induction n k i q qs rule: subsets.induct)
  case (1 n k i q qs)
  have reg: "dom (map_of (register n q qs')) = dom (map_of qs')" if "{0..<n} \<subseteq> dom (map_of qs')" for qs'
  proof -
    have "dom (map_of (fold (\<lambda>i qs. if Contains q i then mput i (mgetd [] qs i @ [q]) qs else qs) is qs')) = dom (map_of qs')"
      if "set is \<subseteq> dom (map_of qs')" for "is"
      using that by (induction "is" arbitrary: qs') (auto simp: insert_absorb)
    then show ?thesis using that by (auto simp: register_def subset_iff)
  qed
  have fold: "dom (map_of (fold (\<lambda>j qs. if i \<le> j \<and> j < n then subsets n (k - 1) (j + 1) (With q j) qs else qs) js qs')) = dom (map_of qs')"
    if "{0..<n} \<subseteq> dom (map_of qs')" for js qs'
    using that
  proof (induction js arbitrary: qs')
    case (Cons j js)
    show ?case
    proof (cases "i \<le> j \<and> j < n")
      case True
      have "dom (map_of (subsets n (k - 1) (j + 1) (With q j) qs')) = dom (map_of qs')"
        using "1.IH" [OF refl, of j qs'] True "1.prems" Cons.prems by auto
      with Cons True show ?thesis by simp
    next
      case False
      then have "fold (\<lambda>j qs. if i \<le> j \<and> j < n then subsets n (k - 1) (j + 1) (With q j) qs else qs) (j # js) qs' =
          fold (\<lambda>j qs. if i \<le> j \<and> j < n then subsets n (k - 1) (j + 1) (With q j) qs else qs) js qs'"
        by auto
      with Cons show ?thesis by simp
    qed
  qed simp
  show ?case using "1.prems" by (subst subsets.simps) (simp add: Let_def fold reg)
qed

lemma mlen_NewQuorumSet: "0 \<le> n \<Longrightarrow> int (mlen (NewQuorumSet k n)) = n"
proof -
  assume n: "0 \<le> n"
  have d: "dom (map_of (map (\<lambda>i. (i, [] :: rset list)) [0..n - 1])) = {0..<n}"
    by (auto simp: dom_map_of_conv_image_fst image_iff)
  then have "dom (map_of (NewQuorumSet k n)) = {0..<n}"
    by (simp add: NewQuorumSet_def dom_subsets)
  then show ?thesis using n by (simp add: mlen_card)
qed

subsection \<open>Ballots name quorums\<close>

lemma go_mod_nonneg [simp]: "0 \<le> a \<Longrightarrow> 0 < b \<Longrightarrow> go_mod a b = a mod b"
  by (simp add: go_mod_def minus_mult_div_eq_mod)

lemma BallotOf_index:
  assumes "q \<in> set (mgetd [] qs l)"
  obtains j where "j < length (mgetd [] qs l)" "mgetd [] qs l ! j = q"
    "BallotOf ord qs l q = int32 (int j * int (mlen qs) + l)"
proof -
  let ?xs = "range_order ord (enumerate 0 (mgetd [] qs l))"
  obtain i where "i < length (mgetd [] qs l)" "mgetd [] qs l ! i = q"
    using assms by (auto simp: in_set_conv_nth)
  then have "(i, q) \<in> set ?xs" by (auto simp: in_set_enumerate_eq)
  then have "\<exists>x\<in>set ?xs. case x of (qid, qj) \<Rightarrow> Equal qj q"
    by (auto simp: Equal_def)
  then obtain x where x: "find (\<lambda>(qid, qj). Equal qj q) ?xs = Some x"
    by (metis find_None_iff not_None_eq)
  then obtain i where "i < length ?xs" "x = ?xs ! i" "case x of (qid, qj) \<Rightarrow> Equal qj q"
    by (auto simp: find_Some_iff)
  then have "x \<in> set ?xs" "case x of (qid, qj) \<Rightarrow> Equal qj q" by (metis nth_mem)+
  with x that [of "fst x"] show thesis
    by (auto simp: BallotOf_def Equal_def in_set_enumerate_eq split: prod.splits)
qed

lemma AQ_BallotOf:
  assumes n: "0 < n" "n \<le> 64" and q: "ids q \<subseteq> {0..<n}" "Size q = k" "l \<in> ids q"
    and small: "n * int ((nat n - 1) choose (nat k - 1)) \<le> 2 ^ 31"
  defines "qs \<equiv> NewQuorumSet k n"
  shows "BallotOf ord qs l q \<ge> 0" "Leader (BallotOf ord qs l q) n = Some l"
    "AQ qs (BallotOf ord qs l q) = Some q"
proof -
  have len: "int (mlen qs) = n" unfolding qs_def using n by (intro mlen_NewQuorumSet) simp
  have l: "0 \<le> l" "l < n" using q by auto
  have "0 < card (ids q)" using q(3) finite_subset [OF q(1)] by (auto simp: card_gt_0_iff)
  then have k: "1 \<le> k" using q(2) by (auto simp: Size_card)
  have "q \<in> set (mgetd [] qs l)" unfolding qs_def using q n by (simp add: NewQuorumSet_content)
  then obtain j where j: "j < length (mgetd [] qs l)" "mgetd [] qs l ! j = q"
    "BallotOf ord qs l q = int32 (int j * n + l)" using BallotOf_index len by metis
  have nn: "0 \<le> int j * n + l" using l n by simp
  have "int j + 1 \<le> int ((nat n - 1) choose (nat k - 1))"
    using j(1) length_NewQuorumSet [OF n(2) l k] by (simp add: qs_def)
  then have "n * (int j + 1) \<le> 2 ^ 31" using small n(1) by (intro order_trans [OF mult_left_mono small]) auto
  then have "int j * n + l < 2 ^ 31" using l(2) by (simp add: algebra_simps)
  then have b: "BallotOf ord qs l q = int j * n + l" using j(3) nn by (simp add: int32_small)
  show "BallotOf ord qs l q \<ge> 0" using b nn by simp
  have m: "(int j * n + l) mod n = l" "(int j * n + l) div n = int j" using l by auto
  show ld: "Leader (BallotOf ord qs l q) n = Some l"
    using b m(1) n nn by (simp add: Leader_def)
  have "mgetd [] qs l \<noteq> []" using j(1) by auto
  moreover have "int j mod int (length (mgetd [] qs l)) = int j" using j(1) by simp
  ultimately show "AQ qs (BallotOf ord qs l q) = Some q"
    using ld m(2) j b n nn by (simp add: AQ_def len go_mod_nonneg)
qed

lemma AQ_member:
  assumes n: "0 < n" "n \<le> 64" and b: "0 \<le> b" and aq: "AQ (NewQuorumSet k n) b = Some q"
  shows "ids q \<subseteq> {0..<n}" "Size q = k" "b mod n \<in> ids q"
proof -
  let ?qs = "NewQuorumSet k n"
  have len: "int (mlen ?qs) = n" using n by (intro mlen_NewQuorumSet) simp
  define lqs where "lqs = mgetd [] ?qs (b mod n)"
  have "lqs \<noteq> [] \<and> q = lqs ! nat ((b div n) mod int (length lqs))"
    using aq b n len by (auto simp: AQ_def Leader_def lqs_def pos_imp_zdiv_nonneg_iff Let_def split: if_splits)
  then have "q \<in> set lqs" by (simp add: nat_less_iff)
  then show "ids q \<subseteq> {0..<n}" "Size q = k" "b mod n \<in> ids q"
    using n by (auto simp: lqs_def NewQuorumSet_content)
qed

subsection \<open>Properties of the quorum system\<close>

text \<open>C37 The ballot that \<open>BallotOf\<close> gives a quorum and a leader among its members is valid, belongs to that leader and
  names that quorum again, for every quorum of the configured size and every order of the search, as long as the
  \<open>int32\<close> ballot does not wrap: the number of replicas times the number of quorums of a leader (a binomial
  coefficient) is at most \<open>2 ^ 31\<close>. With majorities that holds up to 29 replicas; at 30 it fails.\<close>

theorem swift_ballot_names_quorum:
  assumes "0 < n" "n \<le> 64" "n * int ((nat n - 1) choose (nat k - 1)) \<le> 2 ^ 31"
    and "ids q \<subseteq> {0..<n}" "Size q = k" "l \<in> ids q"
  shows "0 \<le> BallotOf ord (NewQuorumSet k n) l q \<and> Leader (BallotOf ord (NewQuorumSet k n) l q) n = Some l \<and>
    AQ (NewQuorumSet k n) (BallotOf ord (NewQuorumSet k n) l q) = Some q"
  using AQ_BallotOf [OF assms(1,2,4-6,3)] by blast

theorem swift_ballot_names_quorum_witness:
  "Leader (BallotOf [2] (NewQuorumSet 3 5) 1 7) 5 = Some 1 \<and> AQ (NewQuorumSet 3 5) (BallotOf [2] (NewQuorumSet 3 5) 1 7) = Some 7"
  using swift_ballot_names_quorum [of 5 3 7 1 "[2]"] by (simp add: ids_7 Size_card choose_two)

lemma AQ_total:
  assumes n: "0 < n" "n \<le> 64" and k: "1 \<le> k" "k \<le> n" and b: "0 \<le> b"
  shows "AQ (NewQuorumSet k n) b \<noteq> None"
proof -
  have len: "int (mlen (NewQuorumSet k n)) = n" using n by (intro mlen_NewQuorumSet) simp
  have l: "0 \<le> b mod n" "b mod n < n" using n by simp_all
  have "card ({0..<n} - {b mod n}) = nat n - 1" using l by simp
  then have "nat (k - 1) \<le> card ({0..<n} - {b mod n})" using k by arith
  from obtain_subset_with_card_n [OF this] obtain A where A: "A \<subseteq> {0..<n} - {b mod n}" "card A = nat (k - 1)" by blast
  define B where "B = insert (b mod n) A"
  define q where "q = foldl With 0 (sorted_list_of_set B)"
  have fin: "finite A" "finite B" using A(1) finite_subset unfolding B_def by blast+
  have "b mod n < 64" using l(2) n(2) by linarith
  then have "B \<subseteq> Collect in_range" using A(1) l(1) n by (auto simp: in_range_def B_def)
  then have "\<forall>i\<in>set (sorted_list_of_set B). in_range i" using fin(2) by auto
  then have "ids q = B" unfolding q_def using rs.abs_fold [of _ 0] fin(2) by simp
  then have ids: "ids q = insert (b mod n) A" by (simp add: B_def)
  have "b mod n \<notin> A" using A(1) by blast
  then have "Size q = k" using ids A(2) fin k by (simp add: Size_card)
  then have "q \<in> set (mgetd [] (NewQuorumSet k n) (b mod n))" using ids A(1) l n by (auto simp: NewQuorumSet_content)
  then show ?thesis using n b len by (auto simp: AQ_def Leader_def Let_def)
qed

text \<open>C38 Every ballot has a quorum: \<open>AQ\<close> does not panic, the quorum has the configured size, consists of replicas of
  the configuration and contains the leader of the ballot; when the size is a majority, the quorums of any two
  ballots intersect.\<close>

theorem swift_quorums_intersect:
  assumes "0 < n" "n \<le> 64" "n < 2 * k" "k \<le> n" "0 \<le> a" "0 \<le> b"
  shows "\<exists>p q. AQ (NewQuorumSet k n) a = Some p \<and> AQ (NewQuorumSet k n) b = Some q \<and> Size p = k \<and> ids p \<subseteq> {0..<n} \<and>
    a mod n \<in> ids p \<and> ids p \<inter> ids q \<noteq> {}"
proof -
  have "1 \<le> k" using assms by linarith
  then obtain p q where p: "AQ (NewQuorumSet k n) a = Some p" and q: "AQ (NewQuorumSet k n) b = Some q"
    using AQ_total [OF assms(1,2) _ assms(4)] assms(5,6) by (metis not_None_eq)
  note mp = AQ_member [OF assms(1,2,5) p] and mq = AQ_member [OF assms(1,2,6) q]
  have "n < int (card (ids p) + card (ids q))" using mp(2) mq(2) assms(3) by (simp add: Size_card)
  then have "card {0..<n} < card (ids p) + card (ids q)" using assms(1) by (simp add: nat_less_iff)
  then show ?thesis using card_overlap [OF _ mp(1) mq(1)] p q mp by auto
qed

theorem swift_quorums_intersect_witness:
  "\<exists>p q. AQ (NewQuorumSet 3 5) 7 = Some p \<and> AQ (NewQuorumSet 3 5) 13 = Some q \<and> ids p \<inter> ids q \<noteq> {}"
  using swift_quorums_intersect [of 5 3 7 13] by auto

text \<open>\<open>SameHigher\<close> does not always return a higher ballot: it rounds the bound down.\<close>

lemma SameHigher_not_higher:
  "SameHigher \<lparr>qs_sets = NewQuorumSet 2 3, qs_ballots = [0]\<rparr> 0 1 = Some 0"
  by code_simp

end
