(* ===== verification/SwiftHashLog.thy ===== *)
theory SwiftHashLog
  imports Requests
begin

text \<open>
  \<open>src/swift/hashlog.go\<close>: the per-key hash log of SwiftPaxos, a doubly linked list of pending
  commands behind the hash of the last synchronised one. The nodes are an explicit store: a pointer
  is the identity of the command the node holds, the map \<open>nodes\<close> is the store (a node leaves it
  exactly when it is unlinked). \<open>sha\<close> is \<open>sha256.Sum256\<close>. \<^const>\<open>None\<close> is a panic (a nil pointer
  or an empty slice) or a walk that does not end.

  The log refines a list of pending identifiers: \<open>repr\<close> relates the pointers to the list,
  \<open>pathHash\<close> always returns and is the fold of the hash over the list.
\<close>

record hash_node =
  hn_next :: "request_id option"
  hn_previous :: "request_id option"
  hn_proposalHash :: bytes

record update_entry =
  ue_hash :: "bytes list"
  ue_seqnum :: int

record hash_log =
  hl_ballot :: int
  hl_synced :: int
  hl_syncedHash :: bytes
  hl_pendingHead :: "request_id option"
  hl_pendingTail :: "request_id option"
  hl_hash :: bytes
  hl_dirty :: bool
  hl_nodes :: "(request_id, hash_node) gomap"
  hl_pendingUpd :: "(request_id, update_entry) gomap"

definition zero_hash :: bytes where
  "zero_hash = replicate 32 0"

definition NewHashLog :: hash_log where
  "NewHashLog = \<lparr>hl_ballot = -1, hl_synced = -1, hl_syncedHash = zero_hash, hl_pendingHead = None,
     hl_pendingTail = None, hl_hash = zero_hash, hl_dirty = False, hl_nodes = [], hl_pendingUpd = []\<rparr>"

definition hash_input :: "bytes \<Rightarrow> request_id \<Rightarrow> bytes" where
  "hash_input initial i =
     initial @ le_put 4 (word_of_int (Client i) :: 32 word) @ le_put 4 (word_of_int (Sequence i) :: 32 word)"

definition hash :: "(bytes \<Rightarrow> bytes) \<Rightarrow> bytes \<Rightarrow> request_id \<Rightarrow> bytes" where
  "hash sha initial i = sha (hash_input initial i)"

partial_function (option) path_from ::
  "(bytes \<Rightarrow> bytes) \<Rightarrow> (request_id, hash_node) gomap \<Rightarrow> request_id option \<Rightarrow> bytes \<Rightarrow> bytes option" where
  "path_from sha nodes cur acc =
     (case cur of
        None \<Rightarrow> Some acc
      | Some i \<Rightarrow> (case mget nodes i of
          None \<Rightarrow> None
        | Some nd \<Rightarrow> path_from sha nodes (hn_next nd) (hash sha acc i)))"

definition pathHash :: "(bytes \<Rightarrow> bytes) \<Rightarrow> hash_log \<Rightarrow> (bytes \<times> hash_log) option" where
  "pathHash sha l =
     (if hl_dirty l then do {
        h \<leftarrow> path_from sha (hl_nodes l) (hl_pendingHead l) (hl_syncedHash l);
        Some (h, l\<lparr>hl_hash := h, hl_dirty := False\<rparr>)
      }
      else Some (hl_hash l, l))"

definition set_next :: "request_id option \<Rightarrow> request_id option \<Rightarrow> hash_log \<Rightarrow> hash_log" where
  "set_next i v l = (case i of None \<Rightarrow> l
     | Some i \<Rightarrow> (case mget (hl_nodes l) i of None \<Rightarrow> l
         | Some nd \<Rightarrow> l\<lparr>hl_nodes := mput i (nd\<lparr>hn_next := v\<rparr>) (hl_nodes l)\<rparr>))"

definition set_previous :: "request_id option \<Rightarrow> request_id option \<Rightarrow> hash_log \<Rightarrow> hash_log" where
  "set_previous i v l = (case i of None \<Rightarrow> l
     | Some i \<Rightarrow> (case mget (hl_nodes l) i of None \<Rightarrow> l
         | Some nd \<Rightarrow> l\<lparr>hl_nodes := mput i (nd\<lparr>hn_previous := v\<rparr>) (hl_nodes l)\<rparr>))"

definition unlink :: "request_id \<Rightarrow> hash_node \<Rightarrow> hash_log \<Rightarrow> hash_log" where
  "unlink i nd l =
     (let l = set_next (hn_previous nd) (hn_next nd) l;
          l = set_previous (hn_next nd) (hn_previous nd) l;
          l = (if hl_pendingHead l = Some i then l\<lparr>hl_pendingHead := hn_next nd\<rparr> else l);
          l = (if hl_pendingTail l = Some i then l\<lparr>hl_pendingTail := hn_previous nd\<rparr> else l)
      in l\<lparr>hl_nodes := mdel i (hl_nodes l)\<rparr>)"

definition update :: "request_id \<Rightarrow> int \<Rightarrow> bytes \<Rightarrow> bool \<Rightarrow> hash_log \<Rightarrow> hash_log" where
  "update i s h save l =
     (let nd = mget (hl_nodes l) i
      in if nd = None \<and> save
         then l\<lparr>hl_pendingUpd := mput i \<lparr>ue_hash = [h], ue_seqnum = s\<rparr> (hl_pendingUpd l)\<rparr>
         else
           let l = (case nd of Some nd \<Rightarrow> unlink i nd l | None \<Rightarrow> l)
           in if s \<le> hl_synced l \<and> nd = None then l
           else
             let l = (if s > hl_synced l then l\<lparr>hl_synced := s, hl_syncedHash := h\<rparr> else l)
             in l\<lparr>hl_dirty := True\<rparr>)"

definition Update :: "request_id \<Rightarrow> int \<Rightarrow> bytes \<Rightarrow> hash_log \<Rightarrow> hash_log" where
  "Update i s h l = update i s h True l"

text \<open>Linking a new node behind the last one.\<close>

definition link_last :: "request_id \<Rightarrow> bytes \<Rightarrow> hash_log \<Rightarrow> hash_log" where
  "link_last i ph l =
     (case hl_pendingHead l of
        None \<Rightarrow> l\<lparr>hl_pendingHead := Some i,
          hl_nodes := mput i \<lparr>hn_next = None, hn_previous = None, hn_proposalHash = ph\<rparr> (hl_nodes l)\<rparr>
      | Some h \<Rightarrow>
          let lst = (case hl_pendingTail l of None \<Rightarrow> h | Some t \<Rightarrow> t);
              l = set_next (Some lst) (Some i) l
          in l\<lparr>hl_pendingTail := Some i,
               hl_nodes := mput i \<lparr>hn_next = None, hn_previous = Some lst, hn_proposalHash = ph\<rparr> (hl_nodes l)\<rparr>)"

definition consume :: "request_id \<Rightarrow> update_entry \<Rightarrow> hash_log \<Rightarrow> (bytes \<times> hash_log) option" where
  "consume i upd l = do {
     h \<leftarrow> slice_get (ue_hash upd) 0;
     Some (h, update i (ue_seqnum upd) h False (l\<lparr>hl_pendingUpd := mdel i (hl_pendingUpd l)\<rparr>))
   }"

definition Append :: "(bytes \<Rightarrow> bytes) \<Rightarrow> request_id \<Rightarrow> hash_log \<Rightarrow> (bytes \<times> hash_log) option" where
  "Append sha i l =
     (case mget (hl_pendingUpd l) i of
        Some upd \<Rightarrow> consume i upd l
      | None \<Rightarrow>
         (case mget (hl_nodes l) i of
            Some nd \<Rightarrow> Some (hn_proposalHash nd, l)
          | None \<Rightarrow> do {
              (_, l) \<leftarrow> pathHash sha l;
              let h = hash sha (if hl_pendingHead l = None then hl_syncedHash l else hl_hash l) i;
              Some (h, (link_last i h l)\<lparr>hl_hash := h\<rparr>)
            }))"

definition AppendDeferred :: "request_id \<Rightarrow> hash_log \<Rightarrow> hash_log option" where
  "AppendDeferred i l =
     (case mget (hl_pendingUpd l) i of
        Some upd \<Rightarrow> map_option snd (consume i upd l)
      | None \<Rightarrow>
         (case mget (hl_nodes l) i of
            Some _ \<Rightarrow> Some l
          | None \<Rightarrow> Some ((link_last i zero_hash l)\<lparr>hl_dirty := True\<rparr>)))"

definition AppendAndUpdate :: "request_id \<Rightarrow> int \<Rightarrow> bytes \<Rightarrow> hash_log \<Rightarrow> hash_log option" where
  "AppendAndUpdate i s h l =
     (case mget (hl_pendingUpd l) i of
        Some upd \<Rightarrow> map_option (\<lambda>(_, l). update i s h True l) (consume i upd l)
      | None \<Rightarrow> Some (update i s h False l))"

definition BeginBallot :: "(bytes \<Rightarrow> bytes) \<Rightarrow> int \<Rightarrow> hash_log \<Rightarrow> (int \<times> hash_log) option" where
  "BeginBallot sha ballot l =
     (if ballot \<le> hl_ballot l then Some (0, l)
      else do {
        let cnt = int (mlen (hl_nodes l));
        (h, l) \<leftarrow> pathHash sha l;
        Some (cnt, l\<lparr>hl_syncedHash := h, hl_hash := h, hl_ballot := ballot, hl_synced := -1,
          hl_pendingHead := None, hl_pendingTail := None, hl_nodes := [], hl_pendingUpd := [], hl_dirty := False\<rparr>)
      })"

fun SHashesEq_from :: "bytes list \<Rightarrow> bytes list \<Rightarrow> bool" where
  "SHashesEq_from [] hs2 = True"
| "SHashesEq_from (h # hs1) hs2 = (if h \<in> set hs2 then SHashesEq_from hs1 hs2 else False)"

definition SHashesEq :: "bytes list \<Rightarrow> bytes list \<Rightarrow> bool" where
  "SHashesEq hs1 hs2 = (if length hs1 \<noteq> length hs2 then False else SHashesEq_from hs1 hs2)"

subsection \<open>Neighbours in a list\<close>

fun after :: "'a list \<Rightarrow> 'a \<Rightarrow> 'a option" where
  "after [] x = None"
| "after [y] x = None"
| "after (y # z # ys) x = (if x = y then Some z else after (z # ys) x)"

definition before :: "'a list \<Rightarrow> 'a \<Rightarrow> 'a option" where
  "before xs x = after (rev xs) x"

lemma after_in: "after xs x = Some y \<Longrightarrow> x \<in> set xs \<and> y \<in> set xs"
  by (induction xs x rule: after.induct) (auto split: if_splits)

lemma after_notin: "x \<notin> set xs \<Longrightarrow> after xs x = None"
  by (induction xs x rule: after.induct) auto

lemma after_Cons: "after (y # ys) x = (if x = y \<and> ys \<noteq> [] then Some (hd ys) else after ys x)"
  if "x = y \<Longrightarrow> x \<notin> set ys"
  using that by (cases ys) (auto simp: after_notin)

lemma after_append:
  "distinct (as @ bs) \<Longrightarrow> after (as @ bs) x =
     (if as \<noteq> [] \<and> bs \<noteq> [] \<and> x = last as then Some (hd bs)
      else if x \<in> set as then after as x else after bs x)"
proof (induction as)
  case (Cons a as)
  have n: "x = a \<Longrightarrow> x \<notin> set (as @ bs)" using Cons.prems by auto
  have n': "x = a \<Longrightarrow> x \<notin> set as" using Cons.prems by auto
  have d: "distinct (as @ bs)" using Cons.prems by simp
  note IH = Cons.IH [OF d]
  show ?case
    using n n' IH after_Cons [of x a "as @ bs"] after_Cons [of x a as]
    by (auto simp: after_notin hd_append last_in_set)
qed simp

lemma after_split: "distinct (as @ x # bs) \<Longrightarrow> after (as @ x # bs) x = (if bs = [] then None else Some (hd bs))"
  by (subst after_append) (auto simp: after_Cons after_notin dest: last_in_set)

lemma before_split:
  "distinct (as @ x # bs) \<Longrightarrow> before (as @ x # bs) x = (if as = [] then None else Some (last as))"
  using after_split [of "rev bs" x "rev as"] by (auto simp: before_def hd_rev Int_commute)

lemma after_last: "distinct xs \<Longrightarrow> xs \<noteq> [] \<Longrightarrow> after xs (last xs) = None"
  using after_split [of "butlast xs" "last xs" "[]"] by simp

lemma before_after:
  assumes "distinct xs"
  shows "before xs x = Some y \<longleftrightarrow> after xs y = Some x"
proof
  assume "after xs y = Some x"
  then have "y \<in> set xs" using after_in by metis
  then obtain as bs where xs: "xs = as @ y # bs" by (metis split_list)
  with assms \<open>after xs y = Some x\<close> obtain cs where "bs = x # cs"
    by (cases bs) (auto simp: after_split)
  with xs assms before_split [of "as @ [y]" x cs] show "before xs x = Some y" by simp
next
  assume b: "before xs x = Some y"
  then have "x \<in> set xs" by (metis before_def after_in set_rev)
  then obtain as bs where xs: "xs = as @ x # bs" by (metis split_list)
  with assms b have as: "as \<noteq> []" "last as = y" by (auto simp: before_split split: if_splits)
  then obtain cs where "as = cs @ [y]" by (metis append_butlast_last_id)
  with xs assms after_split [of cs y "x # bs"] show "after xs y = Some x" by simp
qed

lemma after_removeAll:
  assumes "distinct xs" "y \<noteq> x" "x \<in> set xs"
  shows "after (removeAll x xs) y = (if after xs y = Some x then after xs x else after xs y)"
proof -
  obtain as bs where xs: "xs = as @ x # bs" using assms(3) by (metis split_list)
  have n: "x \<notin> set as" "x \<notin> set bs" "distinct (as @ bs)" using assms(1) xs by auto
  then have rm: "removeAll x xs = as @ bs" by (simp add: xs removeAll_id)
  have ay: "after xs y = (if as \<noteq> [] \<and> y = last as then Some x else if y \<in> set as then after as y else after bs y)"
    using assms(1,2) xs by (auto simp: after_append after_Cons after_notin)
  have ne: "after as y \<noteq> Some x" "after bs y \<noteq> Some x" using n after_in by metis+
  show ?thesis
    using n ay ne assms(1) after_split [of as x bs]
    by (auto simp: rm xs after_append after_notin after_last)
qed

lemma before_removeAll:
  assumes "distinct xs" "y \<noteq> x" "x \<in> set xs"
  shows "before (removeAll x xs) y = (if before xs y = Some x then before xs x else before xs y)"
  using after_removeAll [of "rev xs" y x] assms
  by (simp add: before_def rev_filter removeAll_filter_not_eq)

lemma after_snoc:
  assumes "distinct (xs @ [z])"
  shows "after (xs @ [z]) y = (if xs \<noteq> [] \<and> y = last xs then Some z else after xs y)"
  using assms by (subst after_append) (auto simp: after_notin)

lemma before_snoc:
  assumes "distinct (xs @ [z])"
  shows "before (xs @ [z]) y = (if y = z then (if xs = [] then None else Some (last xs)) else before xs y)"
  using assms by (auto simp: before_def after_Cons hd_rev after_notin)

subsection \<open>Pointers that spell a list\<close>

definition links :: "hash_log \<Rightarrow> request_id list \<Rightarrow> bool" where
  "links l xs \<longleftrightarrow> distinct xs \<and> dom (map_of (hl_nodes l)) = set xs \<and>
     hl_pendingHead l = (if xs = [] then None else Some (hd xs)) \<and>
     (hl_pendingTail l = None \<and> length xs \<le> 1 \<or> xs \<noteq> [] \<and> hl_pendingTail l = Some (last xs)) \<and>
     (\<forall>x nd. mget (hl_nodes l) x = Some nd \<longrightarrow> hn_next nd = after xs x \<and> hn_previous nd = before xs x)"

lemma path_from_links:
  assumes "\<forall>x\<in>set xs. \<exists>nd. mget nodes x = Some nd \<and> hn_next nd = after (as @ xs) x" "distinct (as @ xs)"
  shows "path_from sha nodes (if xs = [] then None else Some (hd xs)) acc = Some (foldl (hash sha) acc xs)"
  using assms
proof (induction xs arbitrary: as acc)
  case Nil
  then show ?case by (simp add: path_from.simps)
next
  case (Cons x xs)
  obtain nd where nd: "mget nodes x = Some nd" "hn_next nd = after (as @ x # xs) x"
    using Cons.prems(1) by auto
  then have "hn_next nd = (if xs = [] then None else Some (hd xs))"
    using Cons.prems(2) by (simp add: after_split)
  moreover have "path_from sha nodes (if xs = [] then None else Some (hd xs)) (hash sha acc x) =
      Some (foldl (hash sha) (hash sha acc x) xs)"
    using Cons.prems by (intro Cons.IH [of "as @ [x]"]) auto
  ultimately show ?case using nd(1) by (subst path_from.simps) simp
qed

lemma links_path:
  "links l xs \<Longrightarrow> path_from sha (hl_nodes l) (hl_pendingHead l) acc = Some (foldl (hash sha) acc xs)"
  using path_from_links [of xs "hl_nodes l" "[]" sha acc] by (fastforce simp: links_def)

lemma set_next_simps [simp]:
  "hl_ballot (set_next i v l) = hl_ballot l" "hl_synced (set_next i v l) = hl_synced l"
  "hl_syncedHash (set_next i v l) = hl_syncedHash l" "hl_hash (set_next i v l) = hl_hash l"
  "hl_dirty (set_next i v l) = hl_dirty l" "hl_pendingUpd (set_next i v l) = hl_pendingUpd l"
  "hl_pendingHead (set_next i v l) = hl_pendingHead l" "hl_pendingTail (set_next i v l) = hl_pendingTail l"
  "hl_ballot (set_previous i v l) = hl_ballot l" "hl_synced (set_previous i v l) = hl_synced l"
  "hl_syncedHash (set_previous i v l) = hl_syncedHash l" "hl_hash (set_previous i v l) = hl_hash l"
  "hl_dirty (set_previous i v l) = hl_dirty l" "hl_pendingUpd (set_previous i v l) = hl_pendingUpd l"
  "hl_pendingHead (set_previous i v l) = hl_pendingHead l" "hl_pendingTail (set_previous i v l) = hl_pendingTail l"
  by (auto simp: set_next_def set_previous_def split: option.splits)

lemma nodes_set_next:
  "mget (hl_nodes (set_next i v l)) x = map_option (\<lambda>nd. if i = Some x then nd\<lparr>hn_next := v\<rparr> else nd) (mget (hl_nodes l) x)"
  "mget (hl_nodes (set_previous i v l)) x = map_option (\<lambda>nd. if i = Some x then nd\<lparr>hn_previous := v\<rparr> else nd) (mget (hl_nodes l) x)"
  by (cases i; cases "mget (hl_nodes l) x"; auto simp: set_next_def set_previous_def split: option.splits)+

lemma unlink_frame [simp]:
  "hl_ballot (unlink i nd l) = hl_ballot l" "hl_synced (unlink i nd l) = hl_synced l"
  "hl_syncedHash (unlink i nd l) = hl_syncedHash l" "hl_hash (unlink i nd l) = hl_hash l"
  "hl_dirty (unlink i nd l) = hl_dirty l" "hl_pendingUpd (unlink i nd l) = hl_pendingUpd l"
  by (simp_all add: unlink_def Let_def)

lemma nodes_unlink:
  "mget (hl_nodes (unlink i nd l)) x =
     (if x = i then None
      else map_option (\<lambda>m. m\<lparr>hn_next := (if hn_previous nd = Some x then hn_next nd else hn_next m),
             hn_previous := (if hn_next nd = Some x then hn_previous nd else hn_previous m)\<rparr>) (mget (hl_nodes l) x))"
  by (cases "mget (hl_nodes l) x") (simp_all add: unlink_def Let_def nodes_set_next)

lemma links_unlink:
  assumes l: "links l xs" and nd: "mget (hl_nodes l) i = Some nd"
  shows "links (unlink i nd l) (removeAll i xs)"
proof -
  have d: "distinct xs" and i: "i \<in> set xs" and ndom: "dom (map_of (hl_nodes l)) = set xs"
    and hd': "hl_pendingHead l = Some (hd xs)"
    and tl': "hl_pendingTail l = None \<and> length xs \<le> 1 \<or> hl_pendingTail l = Some (last xs)"
    and next_i: "hn_next nd = after xs i" and prev_i: "hn_previous nd = before xs i"
    and ptr: "\<And>x m. mget (hl_nodes l) x = Some m \<Longrightarrow> hn_next m = after xs x \<and> hn_previous m = before xs x"
    using l nd by (auto simp: links_def split: if_splits)
  obtain as bs where xs: "xs = as @ i # bs" using i by (metis split_list)
  have n: "i \<notin> set as" "i \<notin> set bs" using d xs by auto
  have rm: "removeAll i xs = as @ bs" by (simp add: xs removeAll_id n)
  have ai: "after xs i = (if bs = [] then None else Some (hd bs))"
    and bi: "before xs i = (if as = [] then None else Some (last as))"
    using d by (simp_all add: xs after_split before_split)
  have "hl_pendingHead (unlink i nd l) = (if as @ bs = [] then None else Some (hd (as @ bs)))"
    using hd' ai next_i n by (cases as) (auto simp: unlink_def Let_def xs)
  moreover have "hl_pendingTail (unlink i nd l) = None \<and> length (as @ bs) \<le> 1 \<or>
      as @ bs \<noteq> [] \<and> hl_pendingTail (unlink i nd l) = Some (last (as @ bs))"
    using tl' bi prev_i n by (cases bs rule: rev_cases) (auto simp: unlink_def Let_def xs)
  moreover have "hn_next m = after (removeAll i xs) x \<and> hn_previous m = before (removeAll i xs) x"
    if mm: "mget (hl_nodes (unlink i nd l)) x = Some m" for x m
  proof -
    obtain m0 where x: "x \<noteq> i" and m0: "mget (hl_nodes l) x = Some m0"
      and m: "m = m0\<lparr>hn_next := (if hn_previous nd = Some x then hn_next nd else hn_next m0),
             hn_previous := (if hn_next nd = Some x then hn_previous nd else hn_previous m0)\<rparr>"
      using mm by (cases "mget (hl_nodes l) x"; cases "x = i") (simp_all add: nodes_unlink)
    have "before xs i = Some x \<longleftrightarrow> after xs x = Some i" "after xs i = Some x \<longleftrightarrow> before xs x = Some i"
      using before_after [OF d] by auto
    then show ?thesis
      using ptr [OF m0] x i d by (auto simp: m next_i prev_i after_removeAll before_removeAll)
  qed
  moreover have "dom (map_of (hl_nodes (unlink i nd l))) = set (removeAll i xs)"
    using ndom by (auto simp: nodes_unlink dom_def split: if_splits)
  moreover have "distinct (as @ bs)" using d by (simp add: xs)
  ultimately show ?thesis by (simp add: links_def rm)
qed

lemma link_last_frame [simp]:
  "hl_ballot (link_last i ph l) = hl_ballot l" "hl_synced (link_last i ph l) = hl_synced l"
  "hl_syncedHash (link_last i ph l) = hl_syncedHash l" "hl_hash (link_last i ph l) = hl_hash l"
  "hl_dirty (link_last i ph l) = hl_dirty l" "hl_pendingUpd (link_last i ph l) = hl_pendingUpd l"
  by (auto simp: link_last_def Let_def split: option.splits)

lemma links_link_last:
  assumes l: "links l xs" and i: "i \<notin> set xs"
  shows "links (link_last i ph l) (xs @ [i])"
proof (cases "xs = []")
  case True
  with l show ?thesis by (auto simp: links_def link_last_def before_def split: if_splits)
next
  case False
  have d: "distinct (xs @ [i])" and head: "hl_pendingHead l = Some (hd xs)"
    and ndom: "dom (map_of (hl_nodes l)) = set xs"
    and ptr: "\<And>x m. mget (hl_nodes l) x = Some m \<Longrightarrow> hn_next m = after xs x \<and> hn_previous m = before xs x"
    using l i False by (auto simp: links_def)
  have lst: "(case hl_pendingTail l of None \<Rightarrow> hd xs | Some t \<Rightarrow> t) = last xs"
    using l False by (cases xs) (auto simp: links_def)
  have nodes: "mget (hl_nodes (link_last i ph l)) x =
      (if x = i then Some \<lparr>hn_next = None, hn_previous = Some (last xs), hn_proposalHash = ph\<rparr>
       else map_option (\<lambda>nd. if last xs = x then nd\<lparr>hn_next := Some i\<rparr> else nd) (mget (hl_nodes l) x))" for x
    using head lst by (simp add: link_last_def Let_def nodes_set_next)
  have "hn_next m = after (xs @ [i]) x \<and> hn_previous m = before (xs @ [i]) x"
    if m: "mget (hl_nodes (link_last i ph l)) x = Some m" for x m
  proof (cases "x = i")
    case True
    moreover have "i \<noteq> last xs" using False i by auto
    ultimately show ?thesis
      using m False i d by (auto simp: nodes after_snoc before_snoc after_notin)
  next
    case xi: False
    with m obtain m0 where m0: "mget (hl_nodes l) x = Some m0"
      "m = (if last xs = x then m0\<lparr>hn_next := Some i\<rparr> else m0)" by (auto simp: nodes)
    show ?thesis
      using ptr [OF m0(1)] m0(2) d False xi by (simp add: after_snoc before_snoc eq_commute)
  qed
  moreover have "dom (map_of (hl_nodes (link_last i ph l))) = set (xs @ [i])"
    using ndom by (auto simp: nodes dom_def split: if_splits)
  ultimately show ?thesis
    using d head False by (simp add: links_def) (simp add: link_last_def Let_def)
qed

subsection \<open>The log as a list\<close>

record spec_log =
  sp_ballot :: int
  sp_synced :: int
  sp_syncedHash :: bytes
  sp_pending :: "request_id list"
  sp_upd :: "request_id \<rightharpoonup> int \<times> bytes"

definition spec_update :: "request_id \<Rightarrow> int \<Rightarrow> bytes \<Rightarrow> bool \<Rightarrow> spec_log \<Rightarrow> spec_log" where
  "spec_update i s h save a =
     (if i \<notin> set (sp_pending a) \<and> save then a\<lparr>sp_upd := (sp_upd a)(i \<mapsto> (s, h))\<rparr>
      else if s > sp_synced a
        then a\<lparr>sp_pending := removeAll i (sp_pending a), sp_synced := s, sp_syncedHash := h\<rparr>
      else a\<lparr>sp_pending := removeAll i (sp_pending a)\<rparr>)"

definition spec_append :: "request_id \<Rightarrow> spec_log \<Rightarrow> spec_log" where
  "spec_append i a = (case sp_upd a i of
     Some (s, h) \<Rightarrow> spec_update i s h False (a\<lparr>sp_upd := (sp_upd a)(i := None)\<rparr>)
   | None \<Rightarrow> if i \<in> set (sp_pending a) then a else a\<lparr>sp_pending := sp_pending a @ [i]\<rparr>)"

definition spec_path :: "(bytes \<Rightarrow> bytes) \<Rightarrow> spec_log \<Rightarrow> bytes" where
  "spec_path sha a = foldl (hash sha) (sp_syncedHash a) (sp_pending a)"

definition spec_ballot :: "(bytes \<Rightarrow> bytes) \<Rightarrow> int \<Rightarrow> spec_log \<Rightarrow> spec_log" where
  "spec_ballot sha b a =
     (if b \<le> sp_ballot a then a
      else \<lparr>sp_ballot = b, sp_synced = -1, sp_syncedHash = spec_path sha a, sp_pending = [], sp_upd = Map.empty\<rparr>)"

definition sim :: "(bytes \<Rightarrow> bytes) \<Rightarrow> hash_log \<Rightarrow> spec_log \<Rightarrow> bool" where
  "sim sha l a \<longleftrightarrow> links l (sp_pending a) \<and> hl_ballot l = sp_ballot a \<and> hl_synced l = sp_synced a \<and>
     hl_syncedHash l = sp_syncedHash a \<and>
     (\<forall>i. map_option (\<lambda>u. (ue_seqnum u, ue_hash u)) (mget (hl_pendingUpd l) i) =
        map_option (\<lambda>(s, h). (s, [h])) (sp_upd a i)) \<and>
     (\<not> hl_dirty l \<longrightarrow> hl_hash l = spec_path sha a) \<and>
     dom (sp_upd a) \<inter> set (sp_pending a) = {}"

lemma sim_new: "sim sha NewHashLog \<lparr>sp_ballot = -1, sp_synced = -1, sp_syncedHash = zero_hash, sp_pending = [], sp_upd = Map.empty\<rparr>"
  by (simp add: sim_def NewHashLog_def links_def spec_path_def)

lemma links_cong:
  "hl_nodes l = hl_nodes l' \<Longrightarrow> hl_pendingHead l = hl_pendingHead l' \<Longrightarrow> hl_pendingTail l = hl_pendingTail l' \<Longrightarrow>
     links l xs = links l' xs"
  by (simp add: links_def)

lemma sim_member: "sim sha l a \<Longrightarrow> i \<in> set (sp_pending a) \<longleftrightarrow> mget (hl_nodes l) i \<noteq> None"
  by (auto simp: sim_def links_def)

lemma sim_upd: "sim sha l a \<Longrightarrow> sp_upd a i = None \<longleftrightarrow> mget (hl_pendingUpd l) i = None"
  unfolding sim_def
  by (elim conjE, drule spec [of _ i], cases "sp_upd a i"; cases "mget (hl_pendingUpd l) i") simp_all

lemma pathHash_sim:
  assumes "sim sha l a"
  shows "\<exists>l'. pathHash sha l = Some (spec_path sha a, l') \<and> sim sha l' a \<and> \<not> hl_dirty l' \<and>
    hl_nodes l' = hl_nodes l \<and> hl_pendingUpd l' = hl_pendingUpd l"
proof (cases "hl_dirty l")
  case True
  have "path_from sha (hl_nodes l) (hl_pendingHead l) (hl_syncedHash l) = Some (spec_path sha a)"
    using assms links_path by (simp add: sim_def spec_path_def)
  with True assms show ?thesis
    by (simp add: pathHash_def) (simp add: sim_def links_def)
next
  case False
  with assms show ?thesis by (simp add: pathHash_def) (simp add: sim_def)
qed

lemma links_removeAll_id: "links l xs \<Longrightarrow> mget (hl_nodes l) i = None \<Longrightarrow> removeAll i xs = xs"
  by (auto simp: links_def intro!: removeAll_id)

lemma update_sim:
  assumes s: "sim sha l a" and free: "sp_upd a i = None \<or> save"
  shows "sim sha (update i s h save l) (spec_update i s h save a)"
proof (cases "mget (hl_nodes l) i")
  case None
  have i: "i \<notin> set (sp_pending a)" using s None sim_member by blast
  have rm: "removeAll i (sp_pending a) = sp_pending a" using i by simp
  show ?thesis
  proof (cases save)
    case True
    with None i s show ?thesis
      by (auto simp: update_def spec_update_def sim_def links_def spec_path_def)
  next
    case False
    with None i s rm show ?thesis
      by (auto simp: update_def spec_update_def sim_def links_def spec_path_def Let_def)
  qed
next
  case (Some nd)
  have i: "i \<in> set (sp_pending a)" using s Some sim_member by fastforce
  have "links (unlink i nd l) (removeAll i (sp_pending a))"
    using s Some links_unlink by (simp add: sim_def)
  moreover have "hl_nodes (update i s h save l) = hl_nodes (unlink i nd l)"
    "hl_pendingHead (update i s h save l) = hl_pendingHead (unlink i nd l)"
    "hl_pendingTail (update i s h save l) = hl_pendingTail (unlink i nd l)"
    using Some by (simp_all add: update_def Let_def)
  ultimately have "links (update i s h save l) (removeAll i (sp_pending a))"
    using links_cong by metis
  moreover have "sp_pending (spec_update i s h save a) = removeAll i (sp_pending a)"
    "sp_upd (spec_update i s h save a) = sp_upd a" using i by (simp_all add: spec_update_def)
  moreover have "hl_ballot (update i s h save l) = sp_ballot (spec_update i s h save a)"
    "hl_synced (update i s h save l) = sp_synced (spec_update i s h save a)"
    "hl_syncedHash (update i s h save l) = sp_syncedHash (spec_update i s h save a)"
    "hl_pendingUpd (update i s h save l) = hl_pendingUpd l" "hl_dirty (update i s h save l)"
    using Some i s by (simp_all add: update_def spec_update_def sim_def Let_def)
  ultimately show ?thesis using s by (auto simp: sim_def)
qed

lemma consume_sim:
  assumes s: "sim sha l a" and u: "mget (hl_pendingUpd l) i = Some u"
  obtains sq h l' where "sp_upd a i = Some (sq, h)" "consume i u l = Some (h, l')" "sim sha l' (spec_append i a)"
proof -
  obtain sq h where up: "sp_upd a i = Some (sq, h)" using sim_upd [OF s, of i] u by auto
  have "map_option (\<lambda>u. (ue_seqnum u, ue_hash u)) (mget (hl_pendingUpd l) i) =
      map_option (\<lambda>(s, h). (s, [h])) (sp_upd a i)" using s by (simp add: sim_def)
  then have ue: "ue_seqnum u = sq" "ue_hash u = [h]" using u up by auto
  let ?l = "l\<lparr>hl_pendingUpd := mdel i (hl_pendingUpd l)\<rparr>" and ?a = "a\<lparr>sp_upd := (sp_upd a)(i := None)\<rparr>"
  have "sim sha ?l ?a" using s by (auto simp: sim_def links_def spec_path_def)
  then have "sim sha (update i sq h False ?l) (spec_update i sq h False ?a)"
    by (rule update_sim) simp
  with that [OF up] ue up show thesis
    by (simp add: consume_def slice_get_def spec_append_def)
qed

lemma Append_sim:
  assumes s: "sim sha l a"
  shows "\<exists>h l'. Append sha i l = Some (h, l') \<and> sim sha l' (spec_append i a)"
proof (cases "mget (hl_pendingUpd l) i")
  case (Some u)
  then show ?thesis using consume_sim [OF s Some] by (simp add: Append_def) blast
next
  case None
  then have up: "sp_upd a i = None" using sim_upd [OF s] by blast
  show ?thesis
  proof (cases "mget (hl_nodes l) i")
    case (Some nd)
    then have "i \<in> set (sp_pending a)" using sim_member [OF s] by auto
    with Some None up s show ?thesis by (auto simp: Append_def spec_append_def)
  next
    case n: None
    then have i: "i \<notin> set (sp_pending a)" using sim_member [OF s] by auto
    obtain l1 where l1: "pathHash sha l = Some (spec_path sha a, l1)" "sim sha l1 a" "\<not> hl_dirty l1"
      using pathHash_sim [OF s] by blast
    let ?h = "hash sha (if hl_pendingHead l1 = None then hl_syncedHash l1 else hl_hash l1) i"
    have h: "?h = hash sha (spec_path sha a) i"
      using l1 by (auto simp: sim_def links_def spec_path_def split: if_splits)
    have "links (link_last i ?h l1) (sp_pending a @ [i])"
      using l1(2) i links_link_last by (simp add: sim_def)
    then have "sim sha ((link_last i ?h l1)\<lparr>hl_hash := ?h\<rparr>) (spec_append i a)"
      using l1 i up h by (auto simp: sim_def spec_append_def spec_path_def links_def)
    with None n l1(1) show ?thesis by (simp add: Append_def Let_def)
  qed
qed

lemma AppendDeferred_sim:
  assumes s: "sim sha l a"
  shows "\<exists>l'. AppendDeferred i l = Some l' \<and> sim sha l' (spec_append i a)"
proof (cases "mget (hl_pendingUpd l) i")
  case (Some u)
  then show ?thesis using consume_sim [OF s Some] by (simp add: AppendDeferred_def) (metis option.simps(9) snd_conv)
next
  case None
  then have up: "sp_upd a i = None" using sim_upd [OF s] by blast
  show ?thesis
  proof (cases "mget (hl_nodes l) i")
    case (Some nd)
    then have "i \<in> set (sp_pending a)" using sim_member [OF s] by auto
    with Some None up s show ?thesis by (auto simp: AppendDeferred_def spec_append_def)
  next
    case n: None
    then have i: "i \<notin> set (sp_pending a)" using sim_member [OF s] by auto
    have "links (link_last i zero_hash l) (sp_pending a @ [i])"
      using s i links_link_last by (simp add: sim_def)
    then have "sim sha ((link_last i zero_hash l)\<lparr>hl_dirty := True\<rparr>) (spec_append i a)"
      using s i up by (auto simp: sim_def spec_append_def links_def)
    with None n show ?thesis by (simp add: AppendDeferred_def)
  qed
qed

text \<open>\<open>AppendAndUpdate\<close> implements \<open>Append\<close> followed by \<open>Update\<close>.\<close>

lemma AppendAndUpdate_sim:
  assumes s: "sim sha l a"
  shows "\<exists>l'. AppendAndUpdate i sq h l = Some l' \<and> sim sha l' (spec_update i sq h True (spec_append i a))"
proof (cases "mget (hl_pendingUpd l) i")
  case (Some u)
  then obtain sq' h' l' where "consume i u l = Some (h', l')" "sim sha l' (spec_append i a)"
    using consume_sim [OF s Some] by blast
  with update_sim [of sha l' "spec_append i a" i True sq h] Some show ?thesis
    by (simp add: AppendAndUpdate_def)
next
  case None
  then have up: "sp_upd a i = None" using sim_upd [OF s] by blast
  have "spec_update i sq h True (spec_append i a) = spec_update i sq h False a"
    using up by (auto simp: spec_append_def spec_update_def)
  moreover have "sim sha (update i sq h False l) (spec_update i sq h False a)"
    using s up by (intro update_sim) auto
  ultimately show ?thesis using None by (simp add: AppendAndUpdate_def)
qed

lemma BeginBallot_sim:
  assumes s: "sim sha l a"
  shows "\<exists>k l'. BeginBallot sha b l = Some (k, l') \<and> sim sha l' (spec_ballot sha b a)"
proof (cases "b \<le> hl_ballot l")
  case True
  with s show ?thesis by (simp add: BeginBallot_def spec_ballot_def sim_def)
next
  case False
  obtain l1 where "pathHash sha l = Some (spec_path sha a, l1)" using pathHash_sim [OF s] by blast
  with False s show ?thesis
    by (simp add: BeginBallot_def spec_ballot_def) (simp add: sim_def links_def spec_path_def)
qed

subsection \<open>Runs of operations\<close>

datatype hop = HAppend request_id | HDeferred request_id | HUpdate request_id int bytes
  | HAppendAndUpdate request_id int bytes | HBallot int

fun run_op :: "(bytes \<Rightarrow> bytes) \<Rightarrow> hop \<Rightarrow> hash_log \<Rightarrow> hash_log option" where
  "run_op sha (HAppend i) l = map_option snd (Append sha i l)"
| "run_op sha (HDeferred i) l = AppendDeferred i l"
| "run_op sha (HUpdate i s h) l = Some (Update i s h l)"
| "run_op sha (HAppendAndUpdate i s h) l = AppendAndUpdate i s h l"
| "run_op sha (HBallot b) l = map_option snd (BeginBallot sha b l)"

fun run_ops :: "(bytes \<Rightarrow> bytes) \<Rightarrow> hop list \<Rightarrow> hash_log \<Rightarrow> hash_log option" where
  "run_ops sha [] l = Some l"
| "run_ops sha (x # xs) l = Option.bind (run_op sha x l) (run_ops sha xs)"

fun spec_op :: "(bytes \<Rightarrow> bytes) \<Rightarrow> hop \<Rightarrow> spec_log \<Rightarrow> spec_log" where
  "spec_op sha (HAppend i) a = spec_append i a"
| "spec_op sha (HDeferred i) a = spec_append i a"
| "spec_op sha (HUpdate i s h) a = spec_update i s h True a"
| "spec_op sha (HAppendAndUpdate i s h) a = spec_update i s h True (spec_append i a)"
| "spec_op sha (HBallot b) a = spec_ballot sha b a"

lemma run_op_sim: "sim sha l a \<Longrightarrow> \<exists>l'. run_op sha x l = Some l' \<and> sim sha l' (spec_op sha x a)"
  using Append_sim [of sha l a] AppendDeferred_sim [of sha l a] AppendAndUpdate_sim [of sha l a]
    BeginBallot_sim [of sha l a] update_sim [of sha l a _ True]
  by (cases x) (fastforce simp: Update_def)+

lemma run_ops_sim: "sim sha l a \<Longrightarrow> \<exists>l'. run_ops sha xs l = Some l' \<and> sim sha l' (fold (spec_op sha) xs a)"
proof (induction xs arbitrary: l a)
  case (Cons x xs)
  obtain l1 where "run_op sha x l = Some l1" "sim sha l1 (spec_op sha x a)"
    using run_op_sim [OF Cons.prems] by blast
  with Cons.IH show ?case by simp
qed simp

subsection \<open>What equal path hashes mean\<close>

lemma hash_input_inject:
  assumes "hash_input a i = hash_input b j" "length a = length b"
    "\<bar>Client i\<bar> < 2 ^ 31" "\<bar>Client j\<bar> < 2 ^ 31" "\<bar>Sequence i\<bar> < 2 ^ 31" "\<bar>Sequence j\<bar> < 2 ^ 31"
  shows "a = b \<and> i = j"
proof -
  have eq: "a = b" "le_put 4 (word_of_int (Client i) :: 32 word) = le_put 4 (word_of_int (Client j) :: 32 word)"
    "le_put 4 (word_of_int (Sequence i) :: 32 word) = le_put 4 (word_of_int (Sequence j) :: 32 word)"
  proof -
    have "a = b \<and> le_put 4 (word_of_int (Client i) :: 32 word) @ le_put 4 (word_of_int (Sequence i) :: 32 word) =
        le_put 4 (word_of_int (Client j) :: 32 word) @ le_put 4 (word_of_int (Sequence j) :: 32 word)"
      using assms(1,2) unfolding hash_input_def by (metis append_eq_append_conv)
    moreover have "length (le_put 4 v) = 4" for v :: "32 word" by (simp add: le_put_def)
    ultimately show "a = b" "le_put 4 (word_of_int (Client i) :: 32 word) = le_put 4 (word_of_int (Client j) :: 32 word)"
      "le_put 4 (word_of_int (Sequence i) :: 32 word) = le_put 4 (word_of_int (Sequence j) :: 32 word)"
      by (metis append_eq_append_conv)+
  qed
  have get: "le_get 4 (le_put 4 v) = v" for v :: "32 word"
    using le_get_put [of 4 v "[]"] by simp
  have inj: "v = w" if "le_put 4 v = le_put 4 w" for v w :: "32 word"
    by (rule trans [OF get [symmetric]]) (simp only: that get)
  have w: "(word_of_int (Client i) :: 32 word) = word_of_int (Client j)"
    "(word_of_int (Sequence i) :: 32 word) = word_of_int (Sequence j)"
    using eq(2,3) inj by blast+
  have "signed_take_bit 31 (Client i) = signed_take_bit 31 (Client j)"
    "signed_take_bit 31 (Sequence i) = signed_take_bit 31 (Sequence j)"
    using arg_cong [OF w(1), of sint] arg_cong [OF w(2), of sint] by (simp_all add: signed_of_int)
  then have "Client i = Client j" "Sequence i = Sequence j"
    using assms(3-6) by (simp_all add: signed_take_bit_int_eq_self)
  with eq(1) show ?thesis by (cases i; cases j) simp
qed

text \<open>Walking back from a common path hash, the shorter path is a suffix of the longer one and starts at the hash the
  longer one has there, unless the two walks feed different inputs with one digest to the hash function.\<close>

definition path_input :: "(bytes \<Rightarrow> bytes) \<Rightarrow> bytes \<Rightarrow> request_id list \<Rightarrow> nat \<Rightarrow> bytes" where
  "path_input sha h xs k = hash_input (foldl (hash sha) h (take k xs)) (xs ! k)"

definition int32_id :: "request_id \<Rightarrow> bool" where
  "int32_id i \<longleftrightarrow> \<bar>Client i\<bar> < 2 ^ 31 \<and> \<bar>Sequence i\<bar> < 2 ^ 31"

lemma length_path: "(\<And>m. length (sha m) = 32) \<Longrightarrow> length h = 32 \<Longrightarrow> length (foldl (hash sha) h xs) = 32"
  by (induction xs arbitrary: h) (simp_all add: hash_def)

definition collision_free :: "(bytes \<Rightarrow> bytes) \<Rightarrow> bytes \<Rightarrow> request_id list \<Rightarrow> bytes \<Rightarrow> request_id list \<Rightarrow> bool" where
  "collision_free sha h xs h' ys \<longleftrightarrow> (\<forall>j < length xs. \<forall>k < length ys.
     sha (path_input sha h xs j) = sha (path_input sha h' ys k) \<longrightarrow> path_input sha h xs j = path_input sha h' ys k)"

lemma path_input_snoc: "k < length vs \<Longrightarrow> path_input sha h (vs @ [v]) k = path_input sha h vs k"
  by (simp add: path_input_def nth_append)

lemma path_input_end: "path_input sha h (vs @ [v]) (length vs) = hash_input (foldl (hash sha) h vs) v"
  by (simp add: path_input_def)

lemma collision_free_snoc: "collision_free sha h (xs @ [x]) h' (ys @ [y]) \<Longrightarrow> collision_free sha h xs h' ys"
  unfolding collision_free_def by (metis length_append_singleton less_Suc_eq path_input_snoc)

lemma equal_paths:
  assumes len: "\<And>m. length (sha m) = 32" "length h = 32" "length h' = 32"
    and "\<forall>i\<in>set xs \<union> set ys. int32_id i" "length ys \<le> length xs"
    and "foldl (hash sha) h xs = foldl (hash sha) h' ys" "collision_free sha h xs h' ys"
  shows "\<exists>zs. xs = zs @ ys \<and> h' = foldl (hash sha) h zs"
  using assms(4-)
proof (induction ys arbitrary: xs rule: rev_induct)
  case (snoc y ys)
  obtain vs x where xs: "xs = vs @ [x]" using snoc.prems(2) by (cases xs rule: rev_cases) auto
  have "sha (hash_input (foldl (hash sha) h vs) x) = sha (hash_input (foldl (hash sha) h' ys) y)"
    using snoc.prems(3) by (simp add: xs hash_def [of _ _ x] hash_def [of _ _ y])
  then have "hash_input (foldl (hash sha) h vs) x = hash_input (foldl (hash sha) h' ys) y"
    using snoc.prems(4) unfolding collision_free_def xs
    by (metis length_append_singleton lessI path_input_end)
  then have "foldl (hash sha) h vs = foldl (hash sha) h' ys \<and> x = y"
    using snoc.prems(1) by (intro hash_input_inject) (auto simp: xs length_path len int32_id_def)
  then show ?case
    using snoc.IH [of vs] snoc.prems collision_free_snoc [of sha h vs x h' ys y] by (auto simp: xs)
qed auto

lemma after_nth: "distinct xs \<Longrightarrow> Suc k < length xs \<Longrightarrow> after xs (xs ! k) = Some (xs ! Suc k)"
  using after_split [of "take k xs" "xs ! k" "drop (Suc k) xs"]
  by (simp add: id_take_nth_drop [symmetric] hd_drop_conv_nth)

lemma links_unique:
  assumes "links l xs" "links l ys"
  shows "xs = ys"
proof (rule nth_equalityI)
  show len: "length xs = length ys" using assms by (metis distinct_card links_def)
  fix k assume "k < length xs"
  then show "xs ! k = ys ! k"
  proof (induction k)
    case 0
    then show ?case using assms len by (auto simp: links_def hd_conv_nth split: if_splits)
  next
    case (Suc k)
    then have eq: "xs ! k = ys ! k" by simp
    have "xs ! k \<in> dom (map_of (hl_nodes l))" using assms(1) Suc.prems by (simp add: links_def)
    then obtain nd where "mget (hl_nodes l) (xs ! k) = Some nd" by blast
    then have "after xs (xs ! k) = after ys (ys ! k)" using assms eq by (simp add: links_def)
    then show ?case using assms Suc.prems len by (simp add: links_def after_nth)
  qed
qed

subsection \<open>Properties of the hash log\<close>

definition spec_new :: spec_log where
  "spec_new = \<lparr>sp_ballot = -1, sp_synced = -1, sp_syncedHash = zero_hash, sp_pending = [], sp_upd = Map.empty\<rparr>"

text \<open>C35 The linked hash log refines a list: after any sequence of appends, deferred appends, updates and ballot
  changes no operation has panicked, and the path hash (computed now or kept from before) is the fold of the
  hash function over the pending identifiers of the list model, in order, starting at its synchronised hash.\<close>

theorem swift_hashlog_refines:
  "\<exists>l l'. run_ops sha xs NewHashLog = Some l \<and> pathHash sha l = Some (spec_path sha (fold (spec_op sha) xs spec_new), l') \<and>
     hl_ballot l = sp_ballot (fold (spec_op sha) xs spec_new) \<and> hl_synced l = sp_synced (fold (spec_op sha) xs spec_new)"
proof -
  have "sim sha NewHashLog spec_new" using sim_new by (simp add: spec_new_def)
  from run_ops_sim [OF this, of xs] obtain l where l: "run_ops sha xs NewHashLog = Some l" "sim sha l (fold (spec_op sha) xs spec_new)" by blast
  obtain l' where "pathHash sha l = Some (spec_path sha (fold (spec_op sha) xs spec_new), l')" using pathHash_sim [OF l(2)] by blast
  then show ?thesis using l by (auto simp: sim_def)
qed

lemma run_ops_spec:
  obtains l where "run_ops sha ops NewHashLog = Some l" "links l (sp_pending (fold (spec_op sha) ops spec_new))"
    "hl_syncedHash l = sp_syncedHash (fold (spec_op sha) ops spec_new)"
    "map_option fst (pathHash sha l) = Some (spec_path sha (fold (spec_op sha) ops spec_new))"
proof -
  have "sim sha NewHashLog spec_new" using sim_new by (simp add: spec_new_def)
  from run_ops_sim [OF this, of ops] obtain l where l: "run_ops sha ops NewHashLog = Some l"
    "sim sha l (fold (spec_op sha) ops spec_new)" by blast
  with pathHash_sim [OF l(2)] show thesis by (intro that [of l]) (auto simp: sim_def)
qed

lemma run_ops_path:
  assumes "run_ops sha ops NewHashLog = Some l" "links l xs"
  shows "map_option fst (pathHash sha l) = Some (foldl (hash sha) (hl_syncedHash l) xs)"
proof -
  obtain m where m: "run_ops sha ops NewHashLog = Some m" "links m (sp_pending (fold (spec_op sha) ops spec_new))"
    "hl_syncedHash m = sp_syncedHash (fold (spec_op sha) ops spec_new)"
    "map_option fst (pathHash sha m) = Some (spec_path sha (fold (spec_op sha) ops spec_new))" by (rule run_ops_spec)
  moreover have "m = l" using assms(1) m(1) by simp
  moreover have "sp_pending (fold (spec_op sha) ops spec_new) = xs" using links_unique m(2) assms(2) \<open>m = l\<close> by blast
  ultimately show ?thesis by (simp add: spec_path_def)
qed

text \<open>C36 Take two hash logs, each built by any operations on a new log, with pending commands \<open>xs\<close> and \<open>ys\<close>, not more
  in the second than in the first, whose path hashes agree. Provided that no two different inputs of the two paths
  have one digest, \<open>ys\<close> is the end of \<open>xs\<close> in the same order, and the hash the second log is synchronised at is the
  one the first reaches after the commands in front of \<open>ys\<close>. In particular, logs with equally many pending commands
  have the same commands in the same order and the same synchronised hash; with different numbers the path hash
  does not tell the pending commands apart from the ones the other replica has synchronised. Digests have 32 bytes and identifiers
  32-bit fields, as the types of the code say.\<close>

theorem swift_equal_hash_equal_order:
  assumes "\<And>m. length (sha m) = 32"
    and "run_ops sha ops NewHashLog = Some l" "links l xs" "length (hl_syncedHash l) = 32"
    and "run_ops sha ops' NewHashLog = Some l'" "links l' ys" "length (hl_syncedHash l') = 32"
    and "\<forall>i\<in>set xs \<union> set ys. int32_id i" "length ys \<le> length xs"
    and "map_option fst (pathHash sha l) = map_option fst (pathHash sha l')"
    and "collision_free sha (hl_syncedHash l) xs (hl_syncedHash l') ys"
  shows "\<exists>zs. xs = zs @ ys \<and> hl_syncedHash l' = foldl (hash sha) (hl_syncedHash l) zs"
proof (rule equal_paths)
  show "foldl (hash sha) (hl_syncedHash l) xs = foldl (hash sha) (hl_syncedHash l') ys"
    using run_ops_path [OF assms(2,3)] run_ops_path [OF assms(5,6)] assms(10) by simp
qed (use assms in auto)

text \<open>The witness: one replica has two commands pending, the other has synchronised the first of them.\<close>

definition demo_sha :: "bytes \<Rightarrow> bytes" where
  "demo_sha m = take 32 (drop 32 m @ replicate 32 0)"

definition demo_ops :: "hop list" where
  "demo_ops = [HAppend (RequestID 1 2), HAppend (RequestID 1 3)]"

definition demo_synced :: "hop list" where
  "demo_synced = [HAppend (RequestID 1 2), HUpdate (RequestID 1 2) 0 (hash demo_sha zero_hash (RequestID 1 2)), HAppend (RequestID 1 3)]"

lemma demo_sha_input: "length h = 32 \<Longrightarrow> demo_sha (hash_input h i) = drop 32 (hash_input h i) @ replicate 24 0"
  by (simp add: demo_sha_def hash_input_def le_put_def)

theorem swift_equal_hash_equal_order_witness:
  "\<exists>zs. [RequestID 1 2, RequestID 1 3] = zs @ [RequestID 1 3] \<and>
     hl_syncedHash (the (run_ops demo_sha demo_synced NewHashLog)) = foldl (hash demo_sha) zero_hash zs"
proof -
  have len: "length (demo_sha m) = 32" for m by (simp add: demo_sha_def)
  let ?x = "RequestID 1 2" and ?y = "RequestID 1 3" and ?h = "hash demo_sha zero_hash (RequestID 1 2)"
  have f: "fold (spec_op demo_sha) demo_ops spec_new = spec_new\<lparr>sp_pending := [?x, ?y]\<rparr>"
    "fold (spec_op demo_sha) demo_synced spec_new = spec_new\<lparr>sp_pending := [?y], sp_synced := 0, sp_syncedHash := ?h\<rparr>"
    by (simp_all add: demo_ops_def demo_synced_def spec_append_def spec_update_def spec_new_def)
  obtain l where l: "run_ops demo_sha demo_ops NewHashLog = Some l" "links l [?x, ?y]" "hl_syncedHash l = zero_hash"
    "map_option fst (pathHash demo_sha l) = Some (hash demo_sha ?h ?y)"
    by (rule run_ops_spec [of demo_sha demo_ops, unfolded f]) (simp add: spec_path_def spec_new_def)
  obtain l' where l': "run_ops demo_sha demo_synced NewHashLog = Some l'" "links l' [?y]" "hl_syncedHash l' = ?h"
    "map_option fst (pathHash demo_sha l') = Some (hash demo_sha ?h ?y)"
    by (rule run_ops_spec [of demo_sha demo_synced, unfolded f]) (simp add: spec_path_def spec_new_def)
  have z: "length zero_hash = 32" "length ?h = 32" by (simp_all add: zero_hash_def hash_def len)
  have "demo_sha (hash_input zero_hash ?x) \<noteq> demo_sha (hash_input ?h ?y)"
    using z by (simp add: demo_sha_input) (simp add: hash_input_def le_put_def upt_rec)
  then have "collision_free demo_sha zero_hash [?x, ?y] ?h [?y]"
    by (auto simp: collision_free_def path_input_def less_Suc_eq)
  then have "\<exists>zs. [?x, ?y] = zs @ [?y] \<and> hl_syncedHash l' = foldl (hash demo_sha) (hl_syncedHash l) zs"
    using l l' z by (intro swift_equal_hash_equal_order [of demo_sha demo_ops l _ demo_synced l'] len)
      (simp_all add: int32_id_def del: map_option_eq_Some)
  then show ?thesis using l(3) l'(1) by simp
qed

end
