(* ===== verification/PqlLease.thy ===== *)
theory PqlLease
  imports Requests ReplicaSet "HOL-Library.Product_Lexorder"
begin

text \<open>
  The quorum leases of package \<open>pql\<close> (\<open>src/pql/lease.go\<close>): every replica grants leases to and holds
  leases from every other replica. A slice indexed by peer is a list of length \<open>n\<close>. A time is a
  reading of the replica's monotonic clock in nanoseconds, the zero \<open>time.Time\<close> is 0 and readings
  are positive. \<open>send\<close> is the list of packets returned with the new state. \<^const>\<open>None\<close> is a panic
  (an \<open>alive\<close> slice that is too short).
\<close>

definition genesisLeaseEpoch :: int where "genesisLeaseEpoch = 1"
abbreviation guardDuration :: int where "guardDuration \<equiv> 2 * Second"
abbreviation leaseDuration :: int where "leaseDuration \<equiv> 2 * Second"
abbreviation leaseRenewInterval :: int where "leaseRenewInterval \<equiv> 500 * Millisecond"
abbreviation failureGrace :: int where "failureGrace \<equiv> 5 * Second"

definition int64 :: "int \<Rightarrow> int" where
  "int64 x = signed_take_bit 63 x"

datatype lease_kind = packetGuard | packetGuardAck | packetLeasePromise | packetLeaseReply | otherKind

text \<open>The fields of \<open>Packet\<close> that lease traffic uses.\<close>

record lease_packet =
  lp_Kind :: lease_kind
  lp_From :: int
  lp_LeaseEpoch :: int
  lp_Timestamp :: int
  lp_Duration :: int
  lp_AckSequence :: int
  lp_Elapsed :: int
  lp_Frontier :: int

definition LeasePacket :: "lease_kind \<Rightarrow> int \<Rightarrow> int \<Rightarrow> int \<Rightarrow> lease_packet" where
  "LeasePacket k from e ts = \<lparr>lp_Kind = k, lp_From = from, lp_LeaseEpoch = e, lp_Timestamp = ts,
     lp_Duration = 0, lp_AckSequence = 0, lp_Elapsed = 0, lp_Frontier = 0\<rparr>"

record leaseState =
  l_n :: nat
  l_id :: nat
  promisedBy :: int
  promisedTo :: int
  renewAt :: time
  latestPromises :: "time list"
  latestReplies :: "time list"
  guardExpires :: "time list"
  lastGuard :: "time list"
  lastResponse :: "time list"
  lastSent :: "time list"
  lastAckTime :: "time list"
  guardSequence :: "int list"
  sentSequence :: "int list"
  receivedSequence :: "int list"
  ackSequence :: "int list"
  receivedGuardSequence :: "int list"
  ackTimes :: "(int, time) gomap list"
  frontiers :: "int list"
  readUntil :: time
  writeUntil :: time
  l_catchup :: int
  activationComplete :: bool
  started :: bool
  establishments :: "64 word"
  renewals :: "64 word"
  promisesAccepted :: "64 word"
  promisesRejected :: "64 word"

definition newLeaseState :: "nat \<Rightarrow> nat \<Rightarrow> leaseState" where
  "newLeaseState n i = \<lparr>l_n = n, l_id = i, promisedBy = genesisLeaseEpoch, promisedTo = -1, renewAt = 0,
     latestPromises = replicate n 0, latestReplies = replicate n 0, guardExpires = replicate n 0,
     lastGuard = replicate n 0, lastResponse = replicate n 0, lastSent = replicate n 0,
     lastAckTime = replicate n 0, guardSequence = replicate n 0, sentSequence = replicate n 0,
     receivedSequence = replicate n 0, ackSequence = replicate n 0, receivedGuardSequence = replicate n 0,
     ackTimes = replicate n [], frontiers = replicate n (-1), readUntil = 0, writeUntil = 0,
     l_catchup = -1, activationComplete = False, started = False, establishments = 0, renewals = 0,
     promisesAccepted = 0, promisesRejected = 0\<rparr>"

subsection \<open>Deadlines\<close>

definition recomputeWriteUntil :: "time \<Rightarrow> leaseState \<Rightarrow> leaseState" where
  "recomputeWriteUntil now l = l\<lparr>writeUntil :=
     fold (\<lambda>peer w. if peer \<noteq> l_id l \<and> latestReplies l ! peer > w then latestReplies l ! peer else w)
       [0..<length (latestReplies l)] now\<rparr>"

definition live_promises :: "time \<Rightarrow> leaseState \<Rightarrow> nat list" where
  "live_promises now l = sort_key (\<lambda>p. (- (latestPromises l ! p), p))
     (filter (\<lambda>p. p \<noteq> l_id l \<and> now < latestPromises l ! p) [0..<length (latestPromises l)])"

definition recomputeReadUntil :: "time \<Rightarrow> leaseState \<Rightarrow> leaseState" where
  "recomputeReadUntil now l =
     (let ids = live_promises now l in
      if length ids < l_n l div 2 then l\<lparr>readUntil := 0\<rparr>
      else
        let l = l\<lparr>readUntil := latestPromises l ! (ids ! (l_n l div 2 - 1))\<rparr>
        in if activationComplete l then l
        else l\<lparr>l_catchup := fold (\<lambda>p c. if frontiers l ! p > c then frontiers l ! p else c) (take (l_n l div 2) ids) (-1),
               activationComplete := True\<rparr>)"

definition canRead :: "time \<Rightarrow> int \<Rightarrow> leaseState \<Rightarrow> bool" where
  "canRead now executed l \<longleftrightarrow> promisedTo l \<ge> 0 \<and> now < readUntil l \<and> executed \<ge> l_catchup l"

definition canWriteOutside :: "time \<Rightarrow> leaseState \<Rightarrow> bool" where
  "canWriteOutside now l \<longleftrightarrow> \<not> now < writeUntil l"

text \<open>The lease test at the head of \<open>core.accept\<close>, for an epoch whose policy is known.\<close>

definition admits :: "time \<Rightarrow> int \<Rightarrow> leaseState \<Rightarrow> bool" where
  "admits now epoch l \<longleftrightarrow> \<not> (epoch \<noteq> promisedBy l \<and> \<not> canWriteOutside now l)"

definition switchEpoch :: "int \<Rightarrow> time \<Rightarrow> leaseState \<Rightarrow> leaseState" where
  "switchEpoch epoch now l = l\<lparr>promisedBy := epoch, started := False, renewAt := now,
     latestReplies := map (\<lambda>_. 0) (latestReplies l), lastGuard := map (\<lambda>_. 0) (lastGuard l),
     ackSequence := map (\<lambda>_. 0) (ackSequence l), writeUntil := now\<rparr>"

subsection \<open>Granting\<close>

type_synonym lease_out = "(int \<times> lease_packet) list"

definition sendPromise :: "time \<Rightarrow> nat \<Rightarrow> int \<Rightarrow> bool \<Rightarrow> leaseState \<Rightarrow> leaseState \<times> lease_out" where
  "sendPromise now peer frontier guarded l =
     (let l = l\<lparr>lastSent := (lastSent l)[peer := now], sentSequence := (sentSequence l)[peer := sentSequence l ! peer + 1]\<rparr>;
          p = (LeasePacket packetLeasePromise (int (l_id l)) (promisedBy l) (sentSequence l ! peer))
                \<lparr>lp_Duration := leaseDuration, lp_Frontier := frontier\<rparr>;
          p = (if \<not> guarded
               then p\<lparr>lp_AckSequence := ackSequence l ! peer, lp_Elapsed := time_sub now (lastAckTime l ! peer)\<rparr>
               else p\<lparr>lp_AckSequence := - (guardSequence l ! peer)\<rparr>);
          l = recomputeWriteUntil now (l\<lparr>latestReplies := (latestReplies l)[peer := now + (guardDuration + leaseDuration)]\<rparr>)
      in (l, [(int peer, p)]))"

definition tick_peer :: "time \<Rightarrow> int \<Rightarrow> nat \<Rightarrow> leaseState \<Rightarrow> leaseState \<times> lease_out" where
  "tick_peer now frontier peer l =
     (if ackSequence l ! peer > 0 \<and> now < latestReplies l ! peer
      then let (l, out) = sendPromise now peer frontier False l in (l\<lparr>renewals := renewals l + 1\<rparr>, out)
      else
        let l = l\<lparr>guardSequence := (guardSequence l)[peer := guardSequence l ! peer + 1],
              lastGuard := (lastGuard l)[peer := now], lastSent := (lastSent l)[peer := now]\<rparr>
        in (l\<lparr>establishments := establishments l + 1\<rparr>,
            [(int peer, (LeasePacket packetGuard (int (l_id l)) (promisedBy l) (guardSequence l ! peer))
                \<lparr>lp_Duration := guardDuration\<rparr>)]))"

fun tick_peers :: "time \<Rightarrow> bool list \<Rightarrow> int \<Rightarrow> nat list \<Rightarrow> leaseState \<times> lease_out \<Rightarrow> (leaseState \<times> lease_out) option" where
  "tick_peers now alive frontier [] (l, out) = Some (l, out)"
| "tick_peers now alive frontier (peer # peers) (l, out) =
     (if peer = l_id l then tick_peers now alive frontier peers (l, out)
      else case slice_get alive (int peer) of
        None \<Rightarrow> None
      | Some False \<Rightarrow> tick_peers now alive frontier peers (l, out)
      | Some True \<Rightarrow> let (l, out') = tick_peer now frontier peer l in tick_peers now alive frontier peers (l, out @ out'))"

definition tick :: "time \<Rightarrow> bool list \<Rightarrow> int \<Rightarrow> leaseState \<Rightarrow> (leaseState \<times> lease_out) option" where
  "tick now alive frontier l =
     (if started l \<and> now < renewAt l then Some (l, [])
      else do {
        (l, out) \<leftarrow> tick_peers now alive frontier [0..<l_n l] (l, []);
        Some (recomputeWriteUntil now (l\<lparr>started := True, renewAt := now + leaseRenewInterval\<rparr>), out)
      })"

subsection \<open>Receiving\<close>

definition bad_duration :: "lease_packet \<Rightarrow> bool" where
  "bad_duration p \<longleftrightarrow> lp_Duration p \<le> 0 \<or> lp_Duration p > 30 * Second"

definition receive_guard :: "lease_packet \<Rightarrow> nat \<Rightarrow> time \<Rightarrow> leaseState \<Rightarrow> leaseState \<times> lease_out" where
  "receive_guard p peer now l =
     (if bad_duration p then (l, [])
      else if lp_Timestamp p \<le> receivedGuardSequence l ! peer then (l, [])
      else (l\<lparr>receivedGuardSequence := (receivedGuardSequence l)[peer := lp_Timestamp p],
              guardExpires := (guardExpires l)[peer := now + lp_Duration p]\<rparr>,
            [(lp_From p, LeasePacket packetGuardAck (int (l_id l)) (lp_LeaseEpoch p) (lp_Timestamp p))]))"

definition receive_guard_ack :: "lease_packet \<Rightarrow> nat \<Rightarrow> time \<Rightarrow> int \<Rightarrow> leaseState \<Rightarrow> leaseState \<times> lease_out" where
  "receive_guard_ack p peer now frontier l =
     (if lp_LeaseEpoch p \<noteq> promisedBy l \<or> lp_Timestamp p \<noteq> guardSequence l ! peer \<or> lastGuard l ! peer = 0 then (l, [])
      else sendPromise now peer frontier True
        (l\<lparr>lastGuard := (lastGuard l)[peer := 0], lastResponse := (lastResponse l)[peer := now]\<rparr>))"

definition admissible :: "lease_packet \<Rightarrow> nat \<Rightarrow> time \<Rightarrow> leaseState \<Rightarrow> bool" where
  "admissible p peer now l \<longleftrightarrow>
     (if lp_AckSequence p > 0
      then (case mget (ackTimes l ! peer) (lp_AckSequence p) of
          None \<Rightarrow> False
        | Some ack \<Rightarrow> lp_Elapsed p \<ge> 0 \<and> time_sub now ack < int64 (lp_Elapsed p + guardDuration))
      else lp_AckSequence p < 0 \<and> lp_AckSequence p = - (receivedGuardSequence l ! peer) \<and> now < guardExpires l ! peer)"

definition enter_epoch :: "int \<Rightarrow> leaseState \<Rightarrow> leaseState" where
  "enter_epoch e l = l\<lparr>promisedTo := e, activationComplete := False, l_catchup := -1,
     latestPromises := map (\<lambda>_. 0) (latestPromises l), frontiers := map (\<lambda>_. -1) (frontiers l)\<rparr>"

definition expire_acks :: "time \<Rightarrow> (int, time) gomap \<Rightarrow> (int, time) gomap" where
  "expire_acks now m = filter (\<lambda>(s, stamp). \<not> time_sub now stamp > failureGrace + guardDuration + leaseDuration) m"

definition accept_promise :: "lease_packet \<Rightarrow> nat \<Rightarrow> time \<Rightarrow> leaseState \<Rightarrow> leaseState" where
  "accept_promise p peer now l =
     (let l = (if lp_LeaseEpoch p > promisedTo l then enter_epoch (lp_LeaseEpoch p) l else l);
          l = l\<lparr>receivedSequence := (receivedSequence l)[peer := lp_Timestamp p],
                latestPromises := (latestPromises l)[peer := now + lp_Duration p],
                frontiers := (frontiers l)[peer := lp_Frontier p],
                ackTimes := (ackTimes l)[peer := expire_acks now (mput (lp_Timestamp p) now (ackTimes l ! peer))]\<rparr>
      in recomputeReadUntil now l)"

definition receive_promise :: "lease_packet \<Rightarrow> nat \<Rightarrow> time \<Rightarrow> leaseState \<Rightarrow> leaseState \<times> lease_out" where
  "receive_promise p peer now l =
     (if lp_Timestamp p \<le> receivedSequence l ! peer then (l, [])
      else if \<not> admissible p peer now l \<or> bad_duration p then (l\<lparr>promisesRejected := promisesRejected l + 1\<rparr>, [])
      else if lp_LeaseEpoch p < promisedTo l
      then (l\<lparr>promisesRejected := promisesRejected l + 1\<rparr>,
            [(lp_From p, LeasePacket packetLeaseReply (int (l_id l)) (promisedTo l) (lp_Timestamp p))])
      else let l = accept_promise p peer now l
        in (l\<lparr>promisesAccepted := promisesAccepted l + 1\<rparr>,
            [(lp_From p, LeasePacket packetLeaseReply (int (l_id l)) (promisedTo l) (lp_Timestamp p))]))"

definition receive_reply :: "lease_packet \<Rightarrow> nat \<Rightarrow> time \<Rightarrow> leaseState \<Rightarrow> leaseState" where
  "receive_reply p peer now l =
     (if lp_LeaseEpoch p \<noteq> promisedBy l \<or> lp_Timestamp p \<noteq> sentSequence l ! peer \<or> \<not> now < latestReplies l ! peer then l
      else
        let l = l\<lparr>ackSequence := (ackSequence l)[peer := lp_Timestamp p], lastResponse := (lastResponse l)[peer := now],
                  lastAckTime := (lastAckTime l)[peer := now]\<rparr>;
            l = (if now + leaseDuration < latestReplies l ! peer
                 then l\<lparr>latestReplies := (latestReplies l)[peer := now + leaseDuration]\<rparr> else l)
        in recomputeWriteUntil now l)"

definition receive :: "lease_packet \<Rightarrow> time \<Rightarrow> int \<Rightarrow> leaseState \<Rightarrow> bool \<times> leaseState \<times> lease_out" where
  "receive p now frontier l =
     (if lp_From p < 0 \<or> lp_From p \<ge> int (l_n l) \<or> lp_From p = int (l_id l) then (False, l, [])
      else let peer = nat (lp_From p) in
        case lp_Kind p of
          packetGuard \<Rightarrow> (True, receive_guard p peer now l)
        | packetGuardAck \<Rightarrow> (True, receive_guard_ack p peer now frontier l)
        | packetLeasePromise \<Rightarrow> (True, receive_promise p peer now l)
        | packetLeaseReply \<Rightarrow> (True, receive_reply p peer now l, [])
        | otherKind \<Rightarrow> (False, l, []))"

end
