(* ===== verification/PqlLeaseSpec.thy ===== *)
theory PqlLeaseSpec
  imports PqlLease
begin

text \<open>
  Why quorum leases are safe: replicas with clocks that run at the same rate (each with its own
  offset to a global time) exchange lease packets over a network that delays, duplicates, loses and
  reorders them. An abstract node keeps the deadlines in global time; \<open>lstep\<close> lists what a replica
  can do, and \<open>LInv\<close> says that whatever a holder counts on is still an obligation of its grantor.
\<close>

record lnode =
  a_by :: int
  a_to :: int
  a_sent :: "nat \<Rightarrow> int"
  a_recv :: "nat \<Rightarrow> int"
  a_grecv :: "nat \<Rightarrow> int"
  a_gexp :: "nat \<Rightarrow> int"
  a_ack :: "nat \<Rightarrow> int"
  a_ackT :: "nat \<Rightarrow> int"
  a_oblige :: "nat \<Rightarrow> int"
  a_claim :: "nat \<Rightarrow> int"
  a_times :: "nat \<Rightarrow> int \<rightharpoonup> int"

type_synonym lmsgs = "(int \<times> nat \<times> lease_packet) set"

record lnet =
  at :: int
  nodes :: "nat \<Rightarrow> lnode"
  msgs :: lmsgs

text \<open>The network holds who sent what to whom and, as a ghost, when.\<close>

definition from_to :: "lease_kind \<Rightarrow> nat \<Rightarrow> nat \<Rightarrow> lmsgs \<Rightarrow> (int \<times> lease_packet) set" where
  "from_to k i j M = {(t, p). (t, j, p) \<in> M \<and> lp_Kind p = k \<and> lp_From p = int i}"

definition promise_packet :: "nat \<Rightarrow> int \<Rightarrow> int \<Rightarrow> int \<Rightarrow> int \<Rightarrow> int \<Rightarrow> lease_packet" where
  "promise_packet g e ts a el fr = (LeasePacket packetLeasePromise (int g) e ts)
     \<lparr>lp_Duration := leaseDuration, lp_Frontier := fr, lp_AckSequence := a, lp_Elapsed := el\<rparr>"

inductive lstep :: "nat \<Rightarrow> lnet \<Rightarrow> lnet \<Rightarrow> bool" for n S where
  l_advance: "0 \<le> d \<Longrightarrow> lstep n S (S\<lparr>at := at S + d\<rparr>)"
| l_guard: "\<lbrakk>g < n; h < n; g \<noteq> h; lp_Kind p = packetGuard; lp_From p = int g; lp_Duration p = guardDuration\<rbrakk> \<Longrightarrow>
     lstep n S (S\<lparr>msgs := insert (at S, h, p) (msgs S)\<rparr>)"
| l_guard_ack: "\<lbrakk>g < n; h < n; g \<noteq> h; (t, p) \<in> from_to packetGuard g h (msgs S); a_grecv (nodes S h) g < lp_Timestamp p\<rbrakk> \<Longrightarrow>
     lstep n S (S\<lparr>nodes := (nodes S)(h := (nodes S h)\<lparr>a_grecv := (a_grecv (nodes S h))(g := lp_Timestamp p),
         a_gexp := (a_gexp (nodes S h))(g := at S + guardDuration)\<rparr>),
       msgs := insert (at S, g, LeasePacket packetGuardAck (int h) (lp_LeaseEpoch p) (lp_Timestamp p)) (msgs S)\<rparr>)"
| l_promise: "\<lbrakk>g < n; h < n; g \<noteq> h; nd = nodes S g;
     0 < a \<and> a = a_ack nd h \<and> 0 \<le> el \<and> el < 2 ^ 63 \<and> el \<le> at S - a_ackT nd h \<or>
     a < 0 \<and> (\<exists>t p. (t, p) \<in> from_to packetGuardAck h g (msgs S) \<and> lp_Timestamp p = - a) \<or> a = 0\<rbrakk> \<Longrightarrow>
     lstep n S (S\<lparr>nodes := (nodes S)(g := nd\<lparr>a_sent := (a_sent nd)(h := a_sent nd h + 1),
         a_oblige := (a_oblige nd)(h := at S + guardDuration + leaseDuration)\<rparr>),
       msgs := insert (at S, h, promise_packet g (a_by nd) (a_sent nd h + 1) a el fr) (msgs S)\<rparr>)"
| l_accept: "\<lbrakk>g < n; h < n; g \<noteq> h; nd = nodes S h; (t, p) \<in> from_to packetLeasePromise g h (msgs S);
     a_recv nd g < lp_Timestamp p; a_to nd \<le> lp_LeaseEpoch p;
     lp_AckSequence p < 0 \<and> lp_AckSequence p = - a_grecv nd g \<and> at S < a_gexp nd g \<or>
     0 < lp_AckSequence p \<and> (\<exists>u. a_times nd g (lp_AckSequence p) = Some u \<and> at S - u < lp_Elapsed p + guardDuration);
     m \<subseteq>\<^sub>m (a_times nd g)(lp_Timestamp p \<mapsto> at S);
     cl = (\<lambda>x. if a_to nd < lp_LeaseEpoch p then dead x else a_claim nd x); \<forall>x. dead x \<le> 0\<rbrakk> \<Longrightarrow>
     lstep n S (S\<lparr>nodes := (nodes S)(h := nd\<lparr>a_to := lp_LeaseEpoch p, a_recv := (a_recv nd)(g := lp_Timestamp p),
         a_claim := cl(g := at S + leaseDuration), a_times := (a_times nd)(g := m)\<rparr>),
       msgs := insert (at S, g, LeasePacket packetLeaseReply (int h) (lp_LeaseEpoch p) (lp_Timestamp p)) (msgs S)\<rparr>)"
| l_refuse: "\<lbrakk>g < n; h < n; g \<noteq> h; (t, p) \<in> from_to packetLeasePromise g h (msgs S); lp_LeaseEpoch p < a_to (nodes S h)\<rbrakk> \<Longrightarrow>
     lstep n S (S\<lparr>msgs := insert (at S, g, LeasePacket packetLeaseReply (int h) (a_to (nodes S h)) (lp_Timestamp p)) (msgs S)\<rparr>)"
| l_reply: "\<lbrakk>g < n; h < n; g \<noteq> h; nd = nodes S g; (t, p) \<in> from_to packetLeaseReply h g (msgs S);
     lp_LeaseEpoch p = a_by nd; lp_Timestamp p = a_sent nd h; at S < a_oblige nd h\<rbrakk> \<Longrightarrow>
     lstep n S (S\<lparr>nodes := (nodes S)(g := nd\<lparr>a_ack := (a_ack nd)(h := lp_Timestamp p), a_ackT := (a_ackT nd)(h := at S),
         a_oblige := (a_oblige nd)(h := min (a_oblige nd h) (at S + leaseDuration))\<rparr>)\<rparr>)"
| l_switch: "\<lbrakk>g < n; nd = nodes S g; \<forall>h<n. h \<noteq> g \<longrightarrow> a_oblige nd h \<le> at S; \<forall>x. ob x \<le> 0\<rbrakk> \<Longrightarrow>
     lstep n S (S\<lparr>nodes := (nodes S)(g := nd\<lparr>a_by := e, a_oblige := ob, a_ack := (\<lambda>_. 0)\<rparr>)\<rparr>)"

definition linit :: "lnet \<Rightarrow> bool" where
  "linit S \<longleftrightarrow> 0 \<le> at S \<and> msgs S = {} \<and> (\<forall>i. let nd = nodes S i in
     (\<forall>x. a_sent nd x = 0 \<and> a_recv nd x = 0 \<and> a_grecv nd x = 0 \<and> a_ack nd x = 0 \<and> a_oblige nd x \<le> 0 \<and> a_claim nd x \<le> 0 \<and>
        a_times nd x = Map.empty))"

subsection \<open>The invariant\<close>

text \<open>Between a grantor \<open>g\<close> and a holder \<open>h\<close>, with the packets from one to the other.\<close>

definition guard_ok :: "lnet \<Rightarrow> nat \<Rightarrow> nat \<Rightarrow> bool" where
  "guard_ok S g h \<longleftrightarrow> (\<forall>(t, p)\<in>from_to packetGuard g h (msgs S). lp_Duration p = guardDuration) \<and>
     (\<forall>(t, p)\<in>from_to packetGuardAck h g (msgs S). t \<le> at S \<and> lp_Timestamp p \<le> a_grecv (nodes S h) g \<and>
        (a_grecv (nodes S h) g = lp_Timestamp p \<longrightarrow> a_gexp (nodes S h) g \<le> t + guardDuration))"

definition promise_ok :: "lnet \<Rightarrow> nat \<Rightarrow> nat \<Rightarrow> int \<Rightarrow> lease_packet \<Rightarrow> bool" where
  "promise_ok S g h t p \<longleftrightarrow> t \<le> at S \<and> lp_Duration p = leaseDuration \<and> 0 < lp_Timestamp p \<and> lp_Timestamp p \<le> a_sent (nodes S g) h \<and>
     (lp_AckSequence p < 0 \<longrightarrow> - lp_AckSequence p \<le> a_grecv (nodes S h) g \<and>
        (a_grecv (nodes S h) g = - lp_AckSequence p \<longrightarrow> a_gexp (nodes S h) g \<le> t + guardDuration)) \<and>
     (0 < lp_AckSequence p \<longrightarrow> 0 \<le> lp_Elapsed p \<and> lp_Elapsed p < 2 ^ 63 \<and> lp_AckSequence p \<le> a_recv (nodes S h) g \<and>
        (\<forall>u. a_times (nodes S h) g (lp_AckSequence p) = Some u \<longrightarrow> u + lp_Elapsed p \<le> t)) \<and>
     (a_recv (nodes S h) g < lp_Timestamp p \<longrightarrow>
        t + guardDuration + leaseDuration \<le> a_oblige (nodes S g) h \<and> lp_LeaseEpoch p = a_by (nodes S g) \<or>
        t + guardDuration + leaseDuration \<le> at S)"

definition promises_ok :: "lnet \<Rightarrow> nat \<Rightarrow> nat \<Rightarrow> bool" where
  "promises_ok S g h \<longleftrightarrow> (\<forall>(t, p)\<in>from_to packetLeasePromise g h (msgs S). promise_ok S g h t p \<and>
     (\<forall>(t', p')\<in>from_to packetLeasePromise g h (msgs S). lp_Timestamp p' = lp_Timestamp p \<longrightarrow> lp_LeaseEpoch p' = lp_LeaseEpoch p))"

definition reply_ok :: "lnet \<Rightarrow> nat \<Rightarrow> nat \<Rightarrow> int \<Rightarrow> lease_packet \<Rightarrow> bool" where
  "reply_ok S g h t p \<longleftrightarrow> 0 \<le> t \<and> t \<le> at S \<and> lp_Timestamp p \<le> a_sent (nodes S g) h \<and>
     (\<forall>(t', p')\<in>from_to packetLeasePromise g h (msgs S). lp_Timestamp p' = lp_Timestamp p \<longrightarrow> lp_LeaseEpoch p' = lp_LeaseEpoch p \<longrightarrow>
        lp_Timestamp p \<le> a_recv (nodes S h) g \<and>
        (a_recv (nodes S h) g = lp_Timestamp p \<longrightarrow> a_claim (nodes S h) g \<le> t + leaseDuration) \<and>
        (\<forall>u. a_times (nodes S h) g (lp_Timestamp p) = Some u \<longrightarrow> u \<le> t))"

definition replies_ok :: "lnet \<Rightarrow> nat \<Rightarrow> nat \<Rightarrow> bool" where
  "replies_ok S g h \<longleftrightarrow> (\<forall>(t, p)\<in>from_to packetLeaseReply h g (msgs S). reply_ok S g h t p)"

definition pair_ok :: "lnet \<Rightarrow> nat \<Rightarrow> nat \<Rightarrow> bool" where
  "pair_ok S g h \<longleftrightarrow>
     0 \<le> a_recv (nodes S h) g \<and> a_recv (nodes S h) g \<le> a_sent (nodes S g) h \<and>
     a_claim (nodes S h) g \<le> at S + leaseDuration \<and>
     (a_claim (nodes S h) g \<le> at S \<or> a_claim (nodes S h) g \<le> a_oblige (nodes S g) h \<and> a_by (nodes S g) = a_to (nodes S h)) \<and>
     (0 < a_ack (nodes S g) h \<longrightarrow> a_ack (nodes S g) h \<le> a_recv (nodes S h) g \<and> a_ackT (nodes S g) h \<le> at S \<and>
        (\<forall>u. a_times (nodes S h) g (a_ack (nodes S g) h) = Some u \<longrightarrow> u \<le> a_ackT (nodes S g) h)) \<and>
     (at S < a_oblige (nodes S g) h \<longrightarrow> (\<exists>(t, p)\<in>from_to packetLeasePromise g h (msgs S).
        lp_Timestamp p = a_sent (nodes S g) h \<and> lp_LeaseEpoch p = a_by (nodes S g)))"

definition LInv :: "nat \<Rightarrow> lnet \<Rightarrow> bool" where
  "LInv n S \<longleftrightarrow> 0 \<le> at S \<and> (\<forall>g<n. \<forall>h<n. g \<noteq> h \<longrightarrow> guard_ok S g h \<and> promises_ok S g h \<and> replies_ok S g h \<and> pair_ok S g h)"

subsection \<open>Every step keeps the invariant\<close>

lemma from_to_insert:
  "from_to k i j (insert (t, j', p) M) =
     (if j' = j \<and> lp_Kind p = k \<and> lp_From p = int i then insert (t, p) (from_to k i j M) else from_to k i j M)"
  by (auto simp: from_to_def)

lemma packet_simps [simp]:
  "lp_Kind (LeasePacket k i e ts) = k" "lp_From (LeasePacket k i e ts) = i" "lp_LeaseEpoch (LeasePacket k i e ts) = e"
  "lp_Timestamp (LeasePacket k i e ts) = ts"
  "lp_Kind (promise_packet g e ts a el fr) = packetLeasePromise" "lp_From (promise_packet g e ts a el fr) = int g"
  "lp_LeaseEpoch (promise_packet g e ts a el fr) = e" "lp_Timestamp (promise_packet g e ts a el fr) = ts"
  "lp_AckSequence (promise_packet g e ts a el fr) = a" "lp_Elapsed (promise_packet g e ts a el fr) = el"
  "lp_Duration (promise_packet g e ts a el fr) = leaseDuration"
  by (simp_all add: LeasePacket_def promise_packet_def)

lemmas pair_defs = guard_ok_def promises_ok_def promise_ok_def replies_ok_def reply_ok_def pair_ok_def

lemma LInvI:
  assumes "0 \<le> at S" "\<And>g h. g < n \<Longrightarrow> h < n \<Longrightarrow> g \<noteq> h \<Longrightarrow> guard_ok S g h \<and> promises_ok S g h \<and> replies_ok S g h \<and> pair_ok S g h"
  shows "LInv n S"
  using assms by (simp add: LInv_def)

lemma LInvD:
  assumes "LInv n S" "g < n" "h < n" "g \<noteq> h"
  shows "guard_ok S g h" "promises_ok S g h" "replies_ok S g h" "pair_ok S g h" "0 \<le> at S"
  using assms by (simp_all add: LInv_def)

lemma linit_LInv:
  assumes "linit S"
  shows "LInv n S"
proof (rule LInvI)
  show t: "0 \<le> at S" using assms by (simp add: linit_def)
  fix g h
  have "a_sent (nodes S g) h = 0" "a_recv (nodes S h) g = 0" "a_ack (nodes S g) h = 0" "a_oblige (nodes S g) h \<le> 0"
    "a_claim (nodes S h) g \<le> 0" "msgs S = {}" using assms by (simp_all add: linit_def Let_def)
  then show "guard_ok S g h \<and> promises_ok S g h \<and> replies_ok S g h \<and> pair_ok S g h"
    using t by (simp add: pair_defs from_to_def)
qed

text \<open>What the invariant of a pair reads.\<close>

definition same_pair :: "lnet \<Rightarrow> lnet \<Rightarrow> nat \<Rightarrow> nat \<Rightarrow> bool" where
  "same_pair S S' g h \<longleftrightarrow> at S' = at S \<and>
     a_by (nodes S' g) = a_by (nodes S g) \<and> a_sent (nodes S' g) h = a_sent (nodes S g) h \<and>
     a_ack (nodes S' g) h = a_ack (nodes S g) h \<and> a_ackT (nodes S' g) h = a_ackT (nodes S g) h \<and>
     a_oblige (nodes S' g) h = a_oblige (nodes S g) h \<and>
     a_to (nodes S' h) = a_to (nodes S h) \<and> a_recv (nodes S' h) g = a_recv (nodes S h) g \<and>
     a_grecv (nodes S' h) g = a_grecv (nodes S h) g \<and> a_gexp (nodes S' h) g = a_gexp (nodes S h) g \<and>
     a_claim (nodes S' h) g = a_claim (nodes S h) g \<and> a_times (nodes S' h) g = a_times (nodes S h) g \<and>
     from_to packetGuard g h (msgs S') = from_to packetGuard g h (msgs S) \<and>
     from_to packetGuardAck h g (msgs S') = from_to packetGuardAck h g (msgs S) \<and>
     from_to packetLeasePromise g h (msgs S') = from_to packetLeasePromise g h (msgs S) \<and>
     from_to packetLeaseReply h g (msgs S') = from_to packetLeaseReply h g (msgs S)"

lemma same_pair_ok:
  assumes "same_pair S S' g h" "guard_ok S g h \<and> promises_ok S g h \<and> replies_ok S g h \<and> pair_ok S g h"
  shows "guard_ok S' g h \<and> promises_ok S' g h \<and> replies_ok S' g h \<and> pair_ok S' g h"
  using assms by (simp add: same_pair_def pair_defs)

text \<open>A step that concerns one pair only.\<close>

lemma pair_step:
  assumes "LInv n S" "at S' = at S" "g < n" "h < n" "g \<noteq> h"
    and "\<And>g' h'. g' < n \<Longrightarrow> h' < n \<Longrightarrow> g' \<noteq> h' \<Longrightarrow> (g', h') \<noteq> (g, h) \<Longrightarrow> same_pair S S' g' h'"
    and "guard_ok S' g h" "promises_ok S' g h" "replies_ok S' g h" "pair_ok S' g h"
  shows "LInv n S'"
proof (rule LInvI)
  show "0 \<le> at S'" using assms(1,2) by (simp add: LInv_def)
  fix g' h' assume gh: "g' < n" "h' < n" "g' \<noteq> h'"
  show "guard_ok S' g' h' \<and> promises_ok S' g' h' \<and> replies_ok S' g' h' \<and> pair_ok S' g' h'"
  proof (cases "(g', h') = (g, h)")
    case False
    then show ?thesis using same_pair_ok [OF assms(6) [OF gh False]] assms(1) gh by (simp add: LInv_def)
  qed (use assms in simp)
qed

lemma guard_LInv:
  assumes "LInv n S" "g < n" "h < n" "g \<noteq> h" "lp_Kind p = packetGuard" "lp_From p = int g" "lp_Duration p = guardDuration"
  shows "LInv n (S\<lparr>msgs := insert (at S, h, p) (msgs S)\<rparr>)"
  by (rule pair_step [OF assms(1) _ assms(2-4)])
    (use LInvD [OF assms(1-4)] assms in \<open>auto simp: same_pair_def from_to_insert pair_defs\<close>)

lemma guard_ack_LInv:
  assumes "LInv n S" "g < n" "h < n" "g \<noteq> h" "a_grecv (nodes S h) g < lp_Timestamp p"
  shows "LInv n (S\<lparr>nodes := (nodes S)(h := (nodes S h)\<lparr>a_grecv := (a_grecv (nodes S h))(g := lp_Timestamp p),
         a_gexp := (a_gexp (nodes S h))(g := at S + guardDuration)\<rparr>),
       msgs := insert (at S, g, LeasePacket packetGuardAck (int h) (lp_LeaseEpoch p) (lp_Timestamp p)) (msgs S)\<rparr>)" (is "LInv n ?S")
proof (rule pair_step [OF assms(1) _ assms(2-4)])
  note inv = LInvD [OF assms(1-4)]
  show "guard_ok ?S g h" using inv(1) assms(4,5) unfolding guard_ok_def by (fastforce simp: from_to_insert)
  show "promises_ok ?S g h" using inv(2) assms(4,5) unfolding promises_ok_def promise_ok_def by (fastforce simp: from_to_insert)
  show "replies_ok ?S g h" using inv(3) assms(4) unfolding replies_ok_def reply_ok_def by (simp add: from_to_insert)
  show "pair_ok ?S g h" using inv(4) assms(4) unfolding pair_ok_def by (simp add: from_to_insert)
qed (auto simp: same_pair_def from_to_insert)

lemma advance_LInv:
  assumes "LInv n S" "0 \<le> d"
  shows "LInv n (S\<lparr>at := at S + d\<rparr>)"
proof (rule LInvI)
  show "0 \<le> at (S\<lparr>at := at S + d\<rparr>)" using assms by (simp add: LInv_def)
  fix g h assume gh: "g < n" "h < n" "g \<noteq> h"
  note inv = LInvD [OF assms(1) gh]
  have "guard_ok (S\<lparr>at := at S + d\<rparr>) g h" using inv(1) assms(2) by (fastforce simp: guard_ok_def)
  moreover have "promises_ok (S\<lparr>at := at S + d\<rparr>) g h" using inv(2) assms(2) by (fastforce simp: promises_ok_def promise_ok_def)
  moreover have "replies_ok (S\<lparr>at := at S + d\<rparr>) g h" using inv(3) assms(2) by (fastforce simp: replies_ok_def reply_ok_def)
  moreover have "pair_ok (S\<lparr>at := at S + d\<rparr>) g h" using inv(4) assms(2) unfolding pair_ok_def by auto
  ultimately show "guard_ok (S\<lparr>at := at S + d\<rparr>) g h \<and> promises_ok (S\<lparr>at := at S + d\<rparr>) g h \<and>
    replies_ok (S\<lparr>at := at S + d\<rparr>) g h \<and> pair_ok (S\<lparr>at := at S + d\<rparr>) g h" by blast
qed

lemma promise_LInv:
  assumes inv: "LInv n S" and gh: "g < n" "h < n" "g \<noteq> h"
    and a: "0 < a \<and> a = a_ack (nodes S g) h \<and> 0 \<le> el \<and> el < 2 ^ 63 \<and> el \<le> at S - a_ackT (nodes S g) h \<or>
     a < 0 \<and> (\<exists>t p. (t, p) \<in> from_to packetGuardAck h g (msgs S) \<and> lp_Timestamp p = - a) \<or> a = 0"
  shows "LInv n (S\<lparr>nodes := (nodes S)(g := (nodes S g)\<lparr>a_sent := (a_sent (nodes S g))(h := a_sent (nodes S g) h + 1),
         a_oblige := (a_oblige (nodes S g))(h := at S + guardDuration + leaseDuration)\<rparr>),
       msgs := insert (at S, h, promise_packet g (a_by (nodes S g)) (a_sent (nodes S g) h + 1) a el fr) (msgs S)\<rparr>)" (is "LInv n ?S")
proof (rule pair_step [OF inv _ gh])
  note inv = LInvD [OF inv gh]
  note pr = inv(2) [unfolded promises_ok_def promise_ok_def]
  show "guard_ok ?S g h" using inv(1) gh unfolding guard_ok_def by (simp add: from_to_insert)
  show "replies_ok ?S g h" using inv(3) gh unfolding replies_ok_def reply_ok_def by (fastforce simp: from_to_insert)
  show "pair_ok ?S g h" using inv(4) gh unfolding pair_ok_def by (auto simp: from_to_insert)
  have "promise_ok ?S g h (at S) (promise_packet g (a_by (nodes S g)) (a_sent (nodes S g) h + 1) a el fr)"
    using inv(1,4) a gh unfolding promise_ok_def guard_ok_def pair_ok_def by fastforce
  moreover have "promise_ok ?S g h t p" if "(t, p) \<in> from_to packetLeasePromise g h (msgs S)" for t p
    using pr that gh unfolding promise_ok_def by fastforce
  moreover have "lp_Timestamp p \<noteq> a_sent (nodes S g) h + 1" if "(t, p) \<in> from_to packetLeasePromise g h (msgs S)" for t p
    using pr that by fastforce
  ultimately show "promises_ok ?S g h" using inv(2) unfolding promises_ok_def by (fastforce simp: from_to_insert)
qed (auto simp: same_pair_def from_to_insert)

lemma refuse_LInv:
  assumes inv: "LInv n S" and gh: "g < n" "h < n" "g \<noteq> h"
    and p: "(t, p) \<in> from_to packetLeasePromise g h (msgs S)" "lp_LeaseEpoch p < a_to (nodes S h)"
  shows "LInv n (S\<lparr>msgs := insert (at S, g, LeasePacket packetLeaseReply (int h) (a_to (nodes S h)) (lp_Timestamp p)) (msgs S)\<rparr>)" (is "LInv n ?S")
proof (rule pair_step [OF inv _ gh])
  note inv = LInvD [OF inv gh]
  show "guard_ok ?S g h" using inv(1) gh unfolding guard_ok_def by (simp add: from_to_insert)
  show "promises_ok ?S g h" using inv(2) gh unfolding promises_ok_def promise_ok_def by (simp add: from_to_insert)
  show "pair_ok ?S g h" using inv(4) gh unfolding pair_ok_def by (simp add: from_to_insert)
  have "lp_Timestamp p \<le> a_sent (nodes S g) h" using inv(2) p(1) unfolding promises_ok_def promise_ok_def by blast
  moreover have "lp_LeaseEpoch p' \<noteq> a_to (nodes S h)" if "(t', p') \<in> from_to packetLeasePromise g h (msgs S)" "lp_Timestamp p' = lp_Timestamp p" for t' p'
    using inv(2) p that unfolding promises_ok_def by fastforce
  ultimately show "replies_ok ?S g h" using inv(3,5) gh unfolding replies_ok_def reply_ok_def by (auto simp: from_to_insert)
qed (auto simp: same_pair_def from_to_insert)

text \<open>A reply that matches the latest promise of the current epoch answers its acceptance.\<close>

lemma reply_facts:
  assumes inv: "LInv n S" and gh: "g < n" "h < n" "g \<noteq> h"
    and p: "(t, p) \<in> from_to packetLeaseReply h g (msgs S)"
    "lp_LeaseEpoch p = a_by (nodes S g)" "lp_Timestamp p = a_sent (nodes S g) h" "at S < a_oblige (nodes S g) h"
  shows "a_recv (nodes S h) g = lp_Timestamp p" "a_claim (nodes S h) g \<le> at S + leaseDuration"
    "\<And>u. a_times (nodes S h) g (lp_Timestamp p) = Some u \<Longrightarrow> u \<le> at S"
proof -
  note inv = LInvD [OF inv gh]
  obtain t' p' where p': "(t', p') \<in> from_to packetLeasePromise g h (msgs S)" "lp_Timestamp p' = lp_Timestamp p" "lp_LeaseEpoch p' = lp_LeaseEpoch p"
    using inv(4) p unfolding pair_ok_def by auto
  have "t \<le> at S" "lp_Timestamp p \<le> a_recv (nodes S h) g" "a_recv (nodes S h) g = lp_Timestamp p \<longrightarrow> a_claim (nodes S h) g \<le> t + leaseDuration"
    "\<forall>u. a_times (nodes S h) g (lp_Timestamp p) = Some u \<longrightarrow> u \<le> t"
    using inv(3) p(1) p' unfolding replies_ok_def reply_ok_def by fastforce+
  moreover have "a_recv (nodes S h) g \<le> lp_Timestamp p" using inv(4) p(3) unfolding pair_ok_def by simp
  ultimately show "a_recv (nodes S h) g = lp_Timestamp p" "a_claim (nodes S h) g \<le> at S + leaseDuration"
    "\<And>u. a_times (nodes S h) g (lp_Timestamp p) = Some u \<Longrightarrow> u \<le> at S" by fastforce+
qed

lemma reply_LInv:
  assumes inv: "LInv n S" and gh: "g < n" "h < n" "g \<noteq> h"
    and p: "(t, p) \<in> from_to packetLeaseReply h g (msgs S)"
    "lp_LeaseEpoch p = a_by (nodes S g)" "lp_Timestamp p = a_sent (nodes S g) h" "at S < a_oblige (nodes S g) h"
  shows "LInv n (S\<lparr>nodes := (nodes S)(g := (nodes S g)\<lparr>a_ack := (a_ack (nodes S g))(h := lp_Timestamp p), a_ackT := (a_ackT (nodes S g))(h := at S),
         a_oblige := (a_oblige (nodes S g))(h := min (a_oblige (nodes S g) h) (at S + leaseDuration))\<rparr>)\<rparr>)" (is "LInv n ?S")
proof (rule pair_step [OF inv _ gh])
  note rf = reply_facts [OF inv gh p]
  note inv = LInvD [OF inv gh]
  show "guard_ok ?S g h" using inv(1) gh unfolding guard_ok_def by simp
  show "replies_ok ?S g h" using inv(3) gh unfolding replies_ok_def reply_ok_def by simp
  show "pair_ok ?S g h" using inv(4) gh rf p unfolding pair_ok_def by auto
  have "promise_ok ?S g h t p'" if "promise_ok S g h t p'" for t p'
    using that gh rf(1) p(3) unfolding promise_ok_def by auto
  then show "promises_ok ?S g h" using inv(2) unfolding promises_ok_def by fastforce
qed (auto simp: same_pair_def)

lemma switch_LInv:
  assumes inv: "LInv n S" and g: "g < n" "\<forall>h<n. h \<noteq> g \<longrightarrow> a_oblige (nodes S g) h \<le> at S" and ob: "\<forall>x. ob x \<le> (0::int)"
  shows "LInv n (S\<lparr>nodes := (nodes S)(g := (nodes S g)\<lparr>a_by := e, a_oblige := ob, a_ack := (\<lambda>_. 0)\<rparr>)\<rparr>)" (is "LInv n ?S")
proof (rule LInvI)
  show t: "0 \<le> at ?S" using inv by (simp add: LInv_def)
  fix g' h assume gh: "g' < n" "h < n" "g' \<noteq> h"
  show "guard_ok ?S g' h \<and> promises_ok ?S g' h \<and> replies_ok ?S g' h \<and> pair_ok ?S g' h"
  proof (cases "g' = g")
    case False
    have "same_pair S ?S g' h" using False by (simp add: same_pair_def)
    then show ?thesis using same_pair_ok inv gh by (simp add: LInv_def)
  next
    case True
    note inv = LInvD [OF inv gh]
    have o: "a_oblige (nodes S g) h \<le> at S" "ob h \<le> at S" using g(2) gh True ob t by (auto intro: order_trans)
    have "promise_ok ?S g h t p" if "promise_ok S g h t p" for t p
      using that o(1) gh True unfolding promise_ok_def by auto
    then have "promises_ok ?S g h" using inv(2) True unfolding promises_ok_def by fastforce
    moreover have "guard_ok ?S g h" using inv(1) gh True unfolding guard_ok_def by simp
    moreover have "replies_ok ?S g h" using inv(3) gh True unfolding replies_ok_def reply_ok_def by simp
    moreover have "pair_ok ?S g h" using inv(4) gh True o unfolding pair_ok_def by auto
    ultimately show ?thesis using True by blast
  qed
qed

text \<open>An admissible promise is accepted within the guard of its sending.\<close>

lemma accept_in_time:
  assumes inv: "LInv n S" and gh: "g < n" "h < n" "g \<noteq> h"
    and p: "(t, p) \<in> from_to packetLeasePromise g h (msgs S)"
    and adm: "lp_AckSequence p < 0 \<and> lp_AckSequence p = - a_grecv (nodes S h) g \<and> at S < a_gexp (nodes S h) g \<or>
     0 < lp_AckSequence p \<and> (\<exists>u. a_times (nodes S h) g (lp_AckSequence p) = Some u \<and> at S - u < lp_Elapsed p + guardDuration)"
  shows "at S < t + guardDuration"
proof -
  have "promise_ok S g h t p" using LInvD(2) [OF inv gh] p unfolding promises_ok_def by blast
  then show ?thesis using adm unfolding promise_ok_def by fastforce
qed

lemma accept_pair:
  assumes inv: "LInv n S" and gh: "g < n" "h < n" "g \<noteq> h"
    and p: "(t, p) \<in> from_to packetLeasePromise g h (msgs S)" "a_recv (nodes S h) g < lp_Timestamp p"
    and intime: "at S < t + guardDuration" and m: "m \<subseteq>\<^sub>m (a_times (nodes S h) g)(lp_Timestamp p \<mapsto> at S)"
    and S': "at S' = at S" "nodes S' g = nodes S g" "a_to (nodes S' h) = lp_LeaseEpoch p" "a_recv (nodes S' h) g = lp_Timestamp p"
      "a_claim (nodes S' h) g = at S + leaseDuration" "a_times (nodes S' h) g = m" "a_grecv (nodes S' h) = a_grecv (nodes S h)"
      "a_gexp (nodes S' h) = a_gexp (nodes S h)"
      "msgs S' = insert (at S, g, LeasePacket packetLeaseReply (int h) (lp_LeaseEpoch p) (lp_Timestamp p)) (msgs S)"
  shows "guard_ok S' g h \<and> promises_ok S' g h \<and> replies_ok S' g h \<and> pair_ok S' g h"
proof -
  note inv = LInvD [OF inv gh]
  have pok: "promise_ok S g h t p" using inv(2) p(1) unfolding promises_ok_def by blast
  then have cover: "t + guardDuration + leaseDuration \<le> a_oblige (nodes S g) h" "lp_LeaseEpoch p = a_by (nodes S g)"
    "lp_Timestamp p \<le> a_sent (nodes S g) h"
    using p(2) intime unfolding promise_ok_def by auto
  have old: "a_times (nodes S h) g s = Some u" if "m s = Some u" "s \<noteq> lp_Timestamp p" for s u
    using m that by (metis domI fun_upd_other map_le_def)
  have new: "u = at S" if "m (lp_Timestamp p) = Some u" for u
    using m that by (metis domI fun_upd_same map_le_def option.inject)
  have "guard_ok S' g h" using inv(1) gh S' unfolding guard_ok_def by (simp add: from_to_insert)
  moreover have "promise_ok S' g h t' p'" if "promise_ok S g h t' p'" for t' p'
    using that p(2) S' old [of "lp_AckSequence p'"] unfolding promise_ok_def by (auto intro: order_trans)
  then have "promises_ok S' g h" using inv(2) gh S'(9) unfolding promises_ok_def by (fastforce simp: from_to_insert)
  moreover have "pair_ok S' g h"
    using inv(4) gh S' cover intime old [of "a_ack (nodes S g) h"] p(2) unfolding pair_ok_def by (auto simp: from_to_insert)
  moreover have "replies_ok S' g h"
  proof -
    have ft: "from_to packetLeaseReply h g (msgs S') =
        insert (at S, LeasePacket packetLeaseReply (int h) (lp_LeaseEpoch p) (lp_Timestamp p)) (from_to packetLeaseReply h g (msgs S))"
      "from_to packetLeasePromise g h (msgs S') = from_to packetLeasePromise g h (msgs S)"
      by (simp_all add: S'(9) from_to_insert)
    have 1: "reply_ok S' g h (at S) (LeasePacket packetLeaseReply (int h) (lp_LeaseEpoch p) (lp_Timestamp p))"
      using S' new inv(5) cover(3) unfolding reply_ok_def by auto
    have 2: "reply_ok S' g h t' q" if q: "(t', q) \<in> from_to packetLeaseReply h g (msgs S)" for t' q
    proof -
      have r: "reply_ok S g h t' q" using inv(3) q unfolding replies_ok_def by blast
      have "lp_Timestamp q \<le> a_recv (nodes S' h) g \<and>
          (a_recv (nodes S' h) g = lp_Timestamp q \<longrightarrow> a_claim (nodes S' h) g \<le> t' + leaseDuration) \<and>
          (\<forall>v. a_times (nodes S' h) g (lp_Timestamp q) = Some v \<longrightarrow> v \<le> t')"
        if p': "(u, p') \<in> from_to packetLeasePromise g h (msgs S)" "lp_Timestamp p' = lp_Timestamp q" "lp_LeaseEpoch p' = lp_LeaseEpoch q" for u p'
      proof -
        have le: "lp_Timestamp q \<le> a_recv (nodes S h) g" "\<forall>v. a_times (nodes S h) g (lp_Timestamp q) = Some v \<longrightarrow> v \<le> t'"
          using r p' unfolding reply_ok_def by blast+
        then have "lp_Timestamp q < lp_Timestamp p" using p(2) by simp
        then show ?thesis using le(2) old [of "lp_Timestamp q"] S'(4,6) by auto
      qed
      then show ?thesis using r S'(1,2) unfolding reply_ok_def ft(2) by auto
    qed
    show ?thesis unfolding replies_ok_def ft(1) using 1 2 by blast
  qed
  ultimately show ?thesis by blast
qed

lemma accept_LInv:
  assumes inv: "LInv n S" and gh: "g < n" "h < n" "g \<noteq> h"
    and p: "(t, p) \<in> from_to packetLeasePromise g h (msgs S)" "a_recv (nodes S h) g < lp_Timestamp p" "a_to (nodes S h) \<le> lp_LeaseEpoch p"
    and adm: "lp_AckSequence p < 0 \<and> lp_AckSequence p = - a_grecv (nodes S h) g \<and> at S < a_gexp (nodes S h) g \<or>
     0 < lp_AckSequence p \<and> (\<exists>u. a_times (nodes S h) g (lp_AckSequence p) = Some u \<and> at S - u < lp_Elapsed p + guardDuration)"
    and m: "m \<subseteq>\<^sub>m (a_times (nodes S h) g)(lp_Timestamp p \<mapsto> at S)"
    and cl: "cl = (\<lambda>x. if a_to (nodes S h) < lp_LeaseEpoch p then dead x else a_claim (nodes S h) x)" "\<forall>x. dead x \<le> 0"
  shows "LInv n (S\<lparr>nodes := (nodes S)(h := (nodes S h)\<lparr>a_to := lp_LeaseEpoch p, a_recv := (a_recv (nodes S h))(g := lp_Timestamp p),
         a_claim := cl(g := at S + leaseDuration), a_times := (a_times (nodes S h))(g := m)\<rparr>),
       msgs := insert (at S, g, LeasePacket packetLeaseReply (int h) (lp_LeaseEpoch p) (lp_Timestamp p)) (msgs S)\<rparr>)" (is "LInv n ?S")
proof (rule LInvI)
  show t: "0 \<le> at ?S" using inv by (simp add: LInv_def)
  fix g' h' assume gh': "g' < n" "h' < n" "g' \<noteq> h'"
  consider "h' \<noteq> h" | "h' = h" "g' = g" | "h' = h" "g' \<noteq> g" by blast
  then show "guard_ok ?S g' h' \<and> promises_ok ?S g' h' \<and> replies_ok ?S g' h' \<and> pair_ok ?S g' h'"
  proof cases
    case 1
    then have "same_pair S ?S g' h'" by (auto simp: same_pair_def from_to_insert)
    then show ?thesis using same_pair_ok inv gh' by (simp add: LInv_def)
  next
    case 2
    show ?thesis unfolding 2
      by (rule accept_pair [OF inv gh p(1,2) accept_in_time [OF inv gh p(1) adm] m]) (use gh in simp_all)
  next
    case 3
    note inv' = LInvD [OF inv gh']
    have "guard_ok ?S g' h" using inv'(1) 3 gh' unfolding guard_ok_def by (simp add: from_to_insert)
    moreover have "promises_ok ?S g' h" using inv'(2) 3 gh' unfolding promises_ok_def promise_ok_def by (simp add: from_to_insert)
    moreover have c: "cl g' \<le> a_claim (nodes S h) g' \<or> cl g' \<le> 0" using cl by auto
    then have "replies_ok ?S g' h" using inv'(3) 3 gh' unfolding replies_ok_def reply_ok_def by (fastforce simp: from_to_insert)
    moreover have "pair_ok ?S g' h"
      using inv'(4) 3 gh' cl p(3) t unfolding pair_ok_def by (cases "a_to (nodes S h) < lp_LeaseEpoch p") (auto simp: from_to_insert intro: order_trans)
    ultimately show ?thesis using 3 by blast
  qed
qed

lemma lstep_LInv: "lstep n S S' \<Longrightarrow> LInv n S \<Longrightarrow> LInv n S'"
proof (induction rule: lstep.induct)
  case (l_advance d)
  then show ?case by (rule advance_LInv [rotated])
next
  case (l_guard g h p)
  then show ?case using guard_LInv by blast
next
  case (l_guard_ack g h t p)
  then show ?case using guard_ack_LInv by blast
next
  case (l_promise g h nd a el fr)
  then show ?case using promise_LInv [of n S g h a el fr] by simp
next
  case (l_accept g h nd t p m cl dead)
  then show ?case using accept_LInv [of n S g h t p m cl dead] by (simp cong: if_cong)
next
  case (l_refuse g h t p)
  then show ?case using refuse_LInv by blast
next
  case (l_reply g h nd t p)
  then show ?case using reply_LInv [of n S g h t p] by simp
next
  case (l_switch g nd ob e)
  then show ?case using switch_LInv [of n S g ob e] by simp
qed

text \<open>What a holder counts on is still an obligation of the grantor, in the same epoch.\<close>

lemma claim_covered:
  assumes "LInv n S" "g < n" "h < n" "g \<noteq> h" "at S < a_claim (nodes S h) g"
  shows "at S < a_oblige (nodes S g) h" "a_by (nodes S g) = a_to (nodes S h)"
  using LInvD(4) [OF assms(1-4)] assms(5) unfolding pair_ok_def by auto

end
