(* ===== verification/PqlLeaseSystem.thy ===== *)
theory PqlLeaseSystem
  imports PqlLeaseSpec
begin

text \<open>
  A cluster of lease states. Replica \<open>i\<close> reads its clock as the global time plus a positive offset
  \<open>off i\<close>; the network keeps every packet ever sent and may deliver it at any later time, any
  number of times or never. The handlers of \<open>PqlLease\<close> refine the steps of \<open>PqlLeaseSpec\<close>, so a
  replica that may read locally is covered by grantors that will not accept another epoch.
\<close>

record world =
  w_now :: int
  w_lease :: "nat \<Rightarrow> leaseState"
  w_sent :: lmsgs

definition deliver_out :: "nat \<Rightarrow> leaseState \<times> lease_out \<Rightarrow> world \<Rightarrow> world" where
  "deliver_out i r w = w\<lparr>w_lease := (w_lease w)(i := fst r),
     w_sent := w_sent w \<union> (\<lambda>(d, p). (w_now w, nat d, p)) ` set (snd r)\<rparr>"

text \<open>What a replica does with its leases: renew, handle a packet, enter a newer configuration.\<close>

inductive world_step :: "nat \<Rightarrow> (nat \<Rightarrow> int) \<Rightarrow> world \<Rightarrow> world \<Rightarrow> bool" for n off w where
  ws_advance: "0 \<le> d \<Longrightarrow> world_step n off w (w\<lparr>w_now := w_now w + d\<rparr>)"
| ws_tick: "\<lbrakk>i < n; tick (w_now w + off i) alive frontier (w_lease w i) = Some r\<rbrakk> \<Longrightarrow>
     world_step n off w (deliver_out i r w)"
| ws_receive: "\<lbrakk>i < n; (t, i, p) \<in> w_sent w; receive p (w_now w + off i) frontier (w_lease w i) = (handled, r)\<rbrakk> \<Longrightarrow>
     world_step n off w (deliver_out i r w)"
| ws_switch: "\<lbrakk>i < n; promisedBy (w_lease w i) < e; canWriteOutside (w_now w + off i) (w_lease w i)\<rbrakk> \<Longrightarrow>
     world_step n off w (deliver_out i (switchEpoch e (w_now w + off i) (w_lease w i), []) w)"

definition world_init :: "nat \<Rightarrow> world \<Rightarrow> bool" where
  "world_init n w \<longleftrightarrow> 0 \<le> w_now w \<and> w_lease w = newLeaseState n \<and> w_sent w = {}"

inductive world_reachable :: "nat \<Rightarrow> (nat \<Rightarrow> int) \<Rightarrow> world \<Rightarrow> bool" for n off where
  wr_init: "world_init n w \<Longrightarrow> world_reachable n off w"
| wr_step: "world_reachable n off w \<Longrightarrow> world_step n off w w' \<Longrightarrow> world_reachable n off w'"

subsection \<open>The abstract network of a cluster\<close>

definition geti :: "'a \<Rightarrow> 'a list \<Rightarrow> nat \<Rightarrow> 'a" where
  "geti d xs x = (if x < length xs then xs ! x else d)"

lemma geti_nth [simp]: "x < length xs \<Longrightarrow> geti d xs x = xs ! x"
  by (simp add: geti_def)

lemma geti_update [simp]: "x < length xs \<Longrightarrow> geti d (xs[x := v]) = (geti d xs)(x := v)"
  by (auto simp: geti_def)

lemma geti_const [simp]: "geti d (map (\<lambda>_. d) xs) = (\<lambda>_. d)" "geti d (replicate n d) = (\<lambda>_. d)"
  by (auto simp: geti_def)

definition lview :: "int \<Rightarrow> leaseState \<Rightarrow> lnode" where
  "lview z l = \<lparr>a_by = promisedBy l, a_to = promisedTo l, a_sent = geti 0 (sentSequence l), a_recv = geti 0 (receivedSequence l),
     a_grecv = geti 0 (receivedGuardSequence l), a_gexp = (\<lambda>x. geti 0 (guardExpires l) x - z), a_ack = geti 0 (ackSequence l),
     a_ackT = (\<lambda>x. geti 0 (lastAckTime l) x - z), a_oblige = (\<lambda>x. geti 0 (latestReplies l) x - z),
     a_claim = (\<lambda>x. geti 0 (latestPromises l) x - z),
     a_times = (\<lambda>x s. map_option (\<lambda>t. t - z) (mget (geti [] (ackTimes l) x) s))\<rparr>"

definition lnet_of :: "(nat \<Rightarrow> int) \<Rightarrow> world \<Rightarrow> lnet" where
  "lnet_of off w = \<lparr>at = w_now w, nodes = (\<lambda>i. lview (off i) (w_lease w i)), msgs = w_sent w\<rparr>"

lemma lview_simps [simp]:
  "a_by (lview z l) = promisedBy l" "a_to (lview z l) = promisedTo l" "a_sent (lview z l) = geti 0 (sentSequence l)"
  "a_recv (lview z l) = geti 0 (receivedSequence l)" "a_grecv (lview z l) = geti 0 (receivedGuardSequence l)"
  "a_gexp (lview z l) = (\<lambda>x. geti 0 (guardExpires l) x - z)" "a_ack (lview z l) = geti 0 (ackSequence l)"
  "a_ackT (lview z l) = (\<lambda>x. geti 0 (lastAckTime l) x - z)" "a_oblige (lview z l) = (\<lambda>x. geti 0 (latestReplies l) x - z)"
  "a_claim (lview z l) = (\<lambda>x. geti 0 (latestPromises l) x - z)"
  "a_times (lview z l) = (\<lambda>x s. map_option (\<lambda>t. t - z) (mget (geti [] (ackTimes l) x) s))"
  by (simp_all add: lview_def)

lemma lnet_of_simps [simp]:
  "at (lnet_of off w) = w_now w" "nodes (lnet_of off w) i = lview (off i) (w_lease w i)" "msgs (lnet_of off w) = w_sent w"
  by (simp_all add: lnet_of_def)

subsection \<open>The local invariant of a replica\<close>

definition good_acks :: "(int, time) gomap list \<Rightarrow> bool" where
  "good_acks ms \<longleftrightarrow> (\<forall>m\<in>set ms. distinct (map fst m))"

definition sizes_ok :: "nat \<Rightarrow> nat \<Rightarrow> leaseState \<Rightarrow> bool" where
  "sizes_ok n i l \<longleftrightarrow> l_n l = n \<and> l_id l = i \<and> length (latestPromises l) = n \<and> length (latestReplies l) = n \<and>
     length (guardExpires l) = n \<and> length (lastAckTime l) = n \<and> length (guardSequence l) = n \<and> length (sentSequence l) = n \<and>
     length (receivedSequence l) = n \<and> length (ackSequence l) = n \<and> length (receivedGuardSequence l) = n \<and>
     length (ackTimes l) = n \<and> good_acks (ackTimes l) \<and> (\<forall>x<n. 0 \<le> guardSequence l ! x)"

definition grants :: "leaseState \<Rightarrow> time \<Rightarrow> nat set" where
  "grants l u = {g. g < l_n l \<and> g \<noteq> l_id l \<and> u \<le> latestPromises l ! g}"

definition deadlines_ok :: "leaseState \<Rightarrow> bool" where
  "deadlines_ok l \<longleftrightarrow> (\<forall>x<l_n l. x \<noteq> l_id l \<longrightarrow> latestReplies l ! x \<le> writeUntil l) \<and>
     (readUntil l = 0 \<or> l_n l div 2 \<le> card (grants l (readUntil l)))"

definition lok :: "nat \<Rightarrow> nat \<Rightarrow> leaseState \<Rightarrow> bool" where
  "lok n i l \<longleftrightarrow> sizes_ok n i l \<and> deadlines_ok l"

definition WInv :: "nat \<Rightarrow> (nat \<Rightarrow> int) \<Rightarrow> world \<Rightarrow> bool" where
  "WInv n off w \<longleftrightarrow> LInv n (lnet_of off w) \<and> (\<forall>i<n. lok n i (w_lease w i))"

lemma fold_max_ge:
  "w \<le> fold (\<lambda>x w. if P x \<and> f x > w then f x else w) xs (w::int)"
  "x \<in> set xs \<Longrightarrow> P x \<Longrightarrow> f x \<le> fold (\<lambda>x w. if P x \<and> f x > w then f x else w) xs w"
proof (induction xs arbitrary: w)
  case (Cons a xs)
  { case 1 show ?case using Cons.IH(1) [of "if P a \<and> f a > w then f a else w"] by (auto split: if_splits) }
  { case 2 show ?case
    proof (cases "x = a")
      case True
      then show ?thesis using Cons.IH(1) [of "if P a \<and> f a > w then f a else w"] 2 by (auto split: if_splits)
    qed (use Cons.IH(2) 2 in auto) }
qed simp_all

lemma recomputeWriteUntil_covers:
  "x < length (latestReplies l) \<Longrightarrow> x \<noteq> l_id l \<Longrightarrow> latestReplies l ! x \<le> writeUntil (recomputeWriteUntil now l)"
  unfolding recomputeWriteUntil_def by (simp, rule fold_max_ge(2)) auto

lemma recomputeWriteUntil_frame [simp]:
  "lview z (recomputeWriteUntil now l) = lview z l" "sizes_ok n i (recomputeWriteUntil now l) = sizes_ok n i l"
  "readUntil (recomputeWriteUntil now l) = readUntil l" "latestPromises (recomputeWriteUntil now l) = latestPromises l"
  "l_n (recomputeWriteUntil now l) = l_n l" "l_id (recomputeWriteUntil now l) = l_id l" "grants (recomputeWriteUntil now l) u = grants l u"
  "latestReplies (recomputeWriteUntil now l) = latestReplies l"
  by (simp_all add: recomputeWriteUntil_def lview_def sizes_ok_def grants_def)

text \<open>The promises that \<open>readUntil\<close> rests on all run at least that long.\<close>

lemma live_promises_facts:
  "distinct (live_promises now l)"
  "set (live_promises now l) = {p. p < length (latestPromises l) \<and> p \<noteq> l_id l \<and> now < latestPromises l ! p}"
  "sorted (map (\<lambda>p. (- (latestPromises l ! p), p)) (live_promises now l))"
  by (auto simp: live_promises_def)

lemma recomputeReadUntil_grants:
  assumes "length (latestPromises l) = l_n l" "0 < l_n l div 2"
  shows "readUntil (recomputeReadUntil now l) = 0 \<or>
    l_n l div 2 \<le> card (grants (recomputeReadUntil now l) (readUntil (recomputeReadUntil now l)))"
proof (cases "length (live_promises now l) < l_n l div 2")
  case False
  let ?k = "l_n l div 2" and ?ids = "live_promises now l"
  let ?u = "latestPromises l ! (?ids ! (?k - 1))"
  have sub: "set (take ?k ?ids) \<subseteq> grants l ?u"
  proof
    fix p assume "p \<in> set (take ?k ?ids)"
    then obtain j where j: "j < ?k" "j < length ?ids" "p = ?ids ! j" by (auto simp: in_set_conv_nth)
    have "map (\<lambda>p. (- (latestPromises l ! p), p)) ?ids ! j \<le> map (\<lambda>p. (- (latestPromises l ! p), p)) ?ids ! (?k - 1)"
      using live_promises_facts(3) [of l now] j False by (intro sorted_nth_mono) auto
    then have "?u \<le> latestPromises l ! p" using j False assms(2) by auto
    moreover have "p \<in> set ?ids" using j by simp
    ultimately show "p \<in> grants l ?u" using assms(1) unfolding grants_def live_promises_facts(2) by simp
  qed
  have "?k = card (set (take ?k ?ids))" using False live_promises_facts(1) [of now l] by (simp add: distinct_card)
  also have "\<dots> \<le> card (grants l ?u)" by (rule card_mono [OF _ sub]) (simp add: grants_def)
  finally show ?thesis using False by (simp add: recomputeReadUntil_def Let_def grants_def)
qed (simp add: recomputeReadUntil_def)

lemma recomputeReadUntil_frame [simp]:
  "lview z (recomputeReadUntil now l) = lview z l" "sizes_ok n i (recomputeReadUntil now l) = sizes_ok n i l"
  "writeUntil (recomputeReadUntil now l) = writeUntil l" "latestReplies (recomputeReadUntil now l) = latestReplies l"
  "l_n (recomputeReadUntil now l) = l_n l" "l_id (recomputeReadUntil now l) = l_id l" "promisedTo (recomputeReadUntil now l) = promisedTo l"
  by (simp_all add: recomputeReadUntil_def Let_def lview_def sizes_ok_def)

subsection \<open>Every handler refines abstract steps\<close>

lemma lnet_deliver:
  "lnet_of off (deliver_out i (l, out) w) = (lnet_of off w)\<lparr>nodes := (nodes (lnet_of off w))(i := lview (off i) l),
     msgs := w_sent w \<union> (\<lambda>(d, p). (w_now w, nat d, p)) ` set out\<rparr>"
  by (auto simp: lnet_of_def deliver_out_def)

lemma lnet_deliver_silent:
  "lnet_of off (deliver_out i (l, []) w) = (lnet_of off w)\<lparr>nodes := (nodes (lnet_of off w))(i := lview (off i) l)\<rparr>"
  by (auto simp: lnet_of_def deliver_out_def)

lemma deliver_deliver:
  "deliver_out i (l', out') (deliver_out i (l, out) w) = deliver_out i (l', out @ out') w"
  by (simp add: deliver_out_def image_Un Un_assoc)

lemma deliver_sel [simp]:
  "w_now (deliver_out i r w) = w_now w" "w_lease (deliver_out i r w) = (w_lease w)(i := fst r)"
  by (simp_all add: deliver_out_def)

lemma time_sub_elapsed: "0 \<le> a - b \<Longrightarrow> 0 \<le> time_sub a b \<and> time_sub a b < 2 ^ 63 \<and> time_sub a b \<le> a - b"
  by (auto simp: time_sub_def)

lemma int64_le: "0 \<le> x \<Longrightarrow> int64 x \<le> x"
  using take_bit_int_less_eq_self_iff [of 64 "x + 2 ^ 63"]
  by (simp add: int64_def signed_take_bit_eq_take_bit_shift)

lemma time_sub_less_int64:
  assumes "0 \<le> e" "time_sub a b < int64 (e + guardDuration)"
  shows "a - b < e + guardDuration"
proof -
  have "int64 (e + guardDuration) < 2 ^ 63" unfolding int64_def by (rule signed_take_bit_int_less_exp)
  moreover have "int64 (e + guardDuration) \<le> e + guardDuration" using assms(1) by (intro int64_le) simp
  ultimately show ?thesis using assms by (auto simp: time_sub_def min_def max_def split: if_splits)
qed

lemma sendPromise_lstep:
  assumes inv: "LInv n (lnet_of off w)" and i: "i < n" "peer < n" "peer \<noteq> i" and l: "sizes_ok n i l" "lview (off i) l = lview (off i) (w_lease w i)"
    and g: "guarded \<Longrightarrow> \<exists>t p. (t, p) \<in> from_to packetGuardAck peer i (w_sent w) \<and> lp_Timestamp p = guardSequence l ! peer"
    and ng: "\<not> guarded \<Longrightarrow> 0 < ackSequence l ! peer"
  shows "lstep n (lnet_of off w) (lnet_of off (deliver_out i (sendPromise (w_now w + off i) peer fr guarded l) w))"
proof -
  let ?nd = "lview (off i) l" and ?now = "w_now w + off i"
  let ?a = "if guarded then - (guardSequence l ! peer) else ackSequence l ! peer"
  let ?el = "if guarded then 0 else time_sub ?now (lastAckTime l ! peer)"
  have sz: "length (ackSequence l) = n" "length (lastAckTime l) = n" "length (sentSequence l) = n" "length (latestReplies l) = n" "l_id l = i"
    "0 \<le> guardSequence l ! peer"
    using l(1) i by (simp_all add: sizes_ok_def)
  have nd: "nodes (lnet_of off w) i = ?nd" using l(2) by simp
  have "lastAckTime l ! peer - off i \<le> w_now w" if "\<not> guarded"
    using LInvD(4) [OF inv i(1,2) i(3) [symmetric]] ng [OF that] sz i unfolding pair_ok_def nd by simp
  then have "0 < ?a \<and> ?a = a_ack ?nd peer \<and> 0 \<le> ?el \<and> ?el < 2 ^ 63 \<and> ?el \<le> w_now w - a_ackT ?nd peer \<or>
      ?a < 0 \<and> (\<exists>t p. (t, p) \<in> from_to packetGuardAck peer i (w_sent w) \<and> lp_Timestamp p = - ?a) \<or> ?a = 0"
    using g ng sz i time_sub_elapsed [of ?now "lastAckTime l ! peer"] by (cases guarded) auto
  from lstep.l_promise [where S = "lnet_of off w" and a = ?a and el = ?el and fr = fr, OF i(1,2) i(3) [symmetric] nd [symmetric]] this
  have step: "lstep n (lnet_of off w) ((lnet_of off w)\<lparr>nodes := (nodes (lnet_of off w))(i := ?nd\<lparr>a_sent := (a_sent ?nd)(peer := a_sent ?nd peer + 1),
         a_oblige := (a_oblige ?nd)(peer := w_now w + guardDuration + leaseDuration)\<rparr>),
       msgs := insert (w_now w, peer, promise_packet i (promisedBy l) (a_sent ?nd peer + 1) ?a ?el fr) (w_sent w)\<rparr>)" by simp
  have "lview (off i) (fst (sendPromise ?now peer fr guarded l)) = ?nd\<lparr>a_sent := (a_sent ?nd)(peer := a_sent ?nd peer + 1),
         a_oblige := (a_oblige ?nd)(peer := w_now w + guardDuration + leaseDuration)\<rparr>"
    using sz i by (simp add: sendPromise_def Let_def, auto simp: lview_def)
  moreover have "snd (sendPromise ?now peer fr guarded l) = [(int peer, promise_packet i (promisedBy l) (a_sent ?nd peer + 1) ?a ?el fr)]"
    using sz i by (simp add: sendPromise_def Let_def promise_packet_def LeasePacket_def)
  ultimately show ?thesis using step by (cases "sendPromise ?now peer fr guarded l") (simp add: lnet_deliver)
qed

lemma deadlines_recompute:
  assumes "sizes_ok n i l" "readUntil l = 0 \<or> l_n l div 2 \<le> card (grants l (readUntil l))"
  shows "deadlines_ok (recomputeWriteUntil now l)"
  using assms recomputeWriteUntil_covers [of _ l now] by (simp add: deadlines_ok_def sizes_ok_def)

lemma grants_cong: "latestPromises l' = latestPromises l \<Longrightarrow> l_n l' = l_n l \<Longrightarrow> l_id l' = l_id l \<Longrightarrow> grants l' = grants l"
  by (auto simp: grants_def)

lemma sizes_lok: "lok n i l \<Longrightarrow> sizes_ok n i l" "lok n i l \<Longrightarrow> readUntil l = 0 \<or> l_n l div 2 \<le> card (grants l (readUntil l))"
  by (simp_all add: lok_def deadlines_ok_def)

text \<open>A handler that ends in \<open>recomputeWriteUntil\<close> and leaves the held promises alone.\<close>

lemma lok_recompute:
  assumes "lok n i l" "sizes_ok n i l'" "latestPromises l' = latestPromises l" "readUntil l' = readUntil l"
  shows "lok n i (recomputeWriteUntil now l')"
proof -
  have "l_n l' = l_n l" "l_id l' = l_id l" using assms(1,2) by (simp_all add: lok_def sizes_ok_def)
  then show ?thesis using deadlines_recompute [OF assms(2)] sizes_lok [OF assms(1)] grants_cong [of l' l] assms by (simp add: lok_def)
qed

lemma sendPromise_lok:
  assumes "lok n i l"
  shows "lok n i (fst (sendPromise now peer fr guarded l))"
  unfolding sendPromise_def Let_def fst_conv
  by (rule lok_recompute [OF assms]) (use sizes_lok(1) [OF assms] in \<open>simp_all add: sizes_ok_def\<close>)

lemma WInv_deliver:
  assumes "WInv n off w" "lstep n (lnet_of off w) (lnet_of off (deliver_out i r w))" "lok n i (fst r)"
  shows "WInv n off (deliver_out i r w)"
  using assms lstep_LInv by (auto simp: WInv_def)

lemma WInv_silent:
  assumes "WInv n off w" "lview (off i) l = lview (off i) (w_lease w i)" "lok n i l"
  shows "WInv n off (deliver_out i (l, []) w)"
proof -
  have "lnet_of off (deliver_out i (l, []) w) = lnet_of off w" using assms(2) by (auto simp: lnet_of_def deliver_out_def)
  then show ?thesis using assms by (simp add: WInv_def)
qed

lemma WInvD: "WInv n off w \<Longrightarrow> LInv n (lnet_of off w)" "WInv n off w \<Longrightarrow> i < n \<Longrightarrow> lok n i (w_lease w i)"
  by (simp_all add: WInv_def)

lemma lview_frame [simp]:
  "lview z (l\<lparr>renewals := a\<rparr>) = lview z l" "lview z (l\<lparr>establishments := a\<rparr>) = lview z l" "lview z (l\<lparr>promisesAccepted := a\<rparr>) = lview z l"
  "lview z (l\<lparr>promisesRejected := a\<rparr>) = lview z l" "lview z (l\<lparr>started := b, renewAt := c\<rparr>) = lview z l"
  "lview z (l\<lparr>guardSequence := s, lastGuard := t, lastSent := u\<rparr>) = lview z l" "lview z (l\<lparr>lastGuard := t, lastResponse := u\<rparr>) = lview z l"
  by (simp_all add: lview_def)

lemma lok_frame [simp]:
  "lok n i (l\<lparr>renewals := a\<rparr>) = lok n i l" "lok n i (l\<lparr>establishments := a\<rparr>) = lok n i l" "lok n i (l\<lparr>promisesAccepted := a\<rparr>) = lok n i l"
  "lok n i (l\<lparr>promisesRejected := a\<rparr>) = lok n i l" "lok n i (l\<lparr>started := b, renewAt := c\<rparr>) = lok n i l"
  "lok n i (l\<lparr>lastGuard := t, lastResponse := u\<rparr>) = lok n i l"
  by (simp_all add: lok_def sizes_ok_def deadlines_ok_def grants_def)

lemma tick_peer_WInv:
  assumes inv: "WInv n off w" and i: "i < n" "peer < n" "peer \<noteq> i"
  shows "WInv n off (deliver_out i (tick_peer (w_now w + off i) fr peer (w_lease w i)) w)"
proof -
  let ?l = "w_lease w i" and ?now = "w_now w + off i"
  have lok: "lok n i ?l" using WInvD(2) [OF inv i(1)] .
  note sz = sizes_lok(1) [OF lok]
  show ?thesis
  proof (cases "ackSequence ?l ! peer > 0 \<and> ?now < latestReplies ?l ! peer")
    case True
    obtain l' out where r: "sendPromise ?now peer fr False ?l = (l', out)" by (cases "sendPromise ?now peer fr False ?l")
    have "lstep n (lnet_of off w) (lnet_of off (deliver_out i (l', out) w))"
      using sendPromise_lstep [OF WInvD(1) [OF inv] i sz refl, of False fr] True by (simp add: r)
    then have "lstep n (lnet_of off w) (lnet_of off (deliver_out i (l'\<lparr>renewals := renewals l' + 1\<rparr>, out) w))" by (simp add: lnet_deliver)
    moreover have "lok n i l'" using sendPromise_lok [OF lok, of ?now peer fr False] r by simp
    ultimately show ?thesis using True r by (intro WInv_deliver [OF inv]) (simp_all add: tick_peer_def)
  next
    case False
    let ?p = "(LeasePacket packetGuard (int i) (promisedBy ?l) (guardSequence ?l ! peer + 1))\<lparr>lp_Duration := guardDuration\<rparr>"
    let ?la = "?l\<lparr>guardSequence := (guardSequence ?l)[peer := guardSequence ?l ! peer + 1], lastGuard := (lastGuard ?l)[peer := ?now],
      lastSent := (lastSent ?l)[peer := ?now]\<rparr>"
    have eq: "tick_peer ?now fr peer ?l = (?la\<lparr>establishments := establishments ?l + 1\<rparr>, [(int peer, ?p)])"
      using False sz i by (auto simp: tick_peer_def Let_def sizes_ok_def)
    have "lstep n (lnet_of off w) ((lnet_of off w)\<lparr>msgs := insert (w_now w, peer, ?p) (w_sent w)\<rparr>)"
      using lstep.l_guard [of i n peer ?p "lnet_of off w"] i by (simp add: LeasePacket_def)
    moreover have "lnet_of off (deliver_out i (?la\<lparr>establishments := establishments ?l + 1\<rparr>, [(int peer, ?p)]) w) =
        (lnet_of off w)\<lparr>msgs := insert (w_now w, peer, ?p) (w_sent w)\<rparr>"
      by (simp add: lnet_deliver) (simp add: lnet_of_def fun_upd_idem)
    moreover have "lok n i ?la" using lok i by (auto simp: lok_def sizes_ok_def deadlines_ok_def grants_def nth_list_update)
    ultimately show ?thesis unfolding eq by (intro WInv_deliver [OF inv]) simp_all
  qed
qed

lemma tick_peers_WInv:
  "tick_peers (w_now w + off i) alive fr peers (l, out) = Some r \<Longrightarrow> WInv n off (deliver_out i (l, out) w) \<Longrightarrow> i < n \<Longrightarrow> set peers \<subseteq> {..<n} \<Longrightarrow>
   WInv n off (deliver_out i r w)"
proof (induction "w_now w + off i" alive fr peers "(l, out)" arbitrary: l out rule: tick_peers.induct)
  case (2 alive fr peer peers l out)
  note id = sizes_lok(1) [OF WInvD(2) [OF 2(5,6)], unfolded sizes_ok_def]
  show ?case
  proof (cases "peer = l_id l \<or> slice_get alive (int peer) \<noteq> Some True")
    case True
    then show ?thesis using 2 by (auto split: option.splits bool.splits if_splits)
  next
    case False
    obtain l' out' where r: "tick_peer (w_now w + off i) fr peer l = (l', out')" by (cases "tick_peer (w_now w + off i) fr peer l")
    have "WInv n off (deliver_out i (l', out @ out') w)"
      using tick_peer_WInv [OF 2(5,6), of peer fr] 2(7) False id r by (simp add: deliver_deliver)
    then show ?thesis using False r 2 by simp
  qed
qed simp

lemma tick_WInv:
  assumes inv: "WInv n off w" and i: "i < n" and t: "tick (w_now w + off i) alive fr (w_lease w i) = Some r"
  shows "WInv n off (deliver_out i r w)"
proof -
  have lok: "lok n i (w_lease w i)" using WInvD(2) [OF inv i] .
  show ?thesis
  proof (cases "started (w_lease w i) \<and> w_now w + off i < renewAt (w_lease w i)")
    case True
    then show ?thesis using t WInv_silent [OF inv refl lok] by (simp add: tick_def)
  next
    case False
    then obtain l out where l: "tick_peers (w_now w + off i) alive fr [0..<n] (w_lease w i, []) = Some (l, out)"
      and r: "r = (recomputeWriteUntil (w_now w + off i) (l\<lparr>started := True, renewAt := w_now w + off i + leaseRenewInterval\<rparr>), out)"
      using t lok by (auto simp: tick_def lok_def sizes_ok_def bind_eq_Some_conv simp del: upt_Suc split: if_splits)
    have w1: "WInv n off (deliver_out i (l, out) w)"
      by (rule tick_peers_WInv [where w = w and off = off and i = i, OF l]) (use WInv_silent [OF inv refl lok] i in auto)
    have lok1: "lok n i l" using WInvD(2) [OF w1 i] by simp
    have "lok n i (fst r)" unfolding r fst_conv by (rule lok_recompute [OF lok1]) (use sizes_lok(1) [OF lok1] in \<open>simp_all add: sizes_ok_def\<close>)
    then have "WInv n off (deliver_out i (fst r, []) (deliver_out i (l, out) w))" by (intro WInv_silent [OF w1]) (simp_all add: r)
    then show ?thesis using r by (simp add: deliver_deliver)
  qed
qed

lemma receive_guard_WInv:
  assumes inv: "WInv n off w" and i: "i < n" "g < n" "g \<noteq> i" and p: "(t, p) \<in> from_to packetGuard g i (w_sent w)"
  shows "WInv n off (deliver_out i (receive_guard p g (w_now w + off i) (w_lease w i)) w)"
proof -
  let ?l = "w_lease w i"
  have lok: "lok n i ?l" using WInvD(2) [OF inv i(1)] .
  show ?thesis
  proof (cases "bad_duration p \<or> lp_Timestamp p \<le> receivedGuardSequence ?l ! g")
    case True
    then show ?thesis using WInv_silent [OF inv refl lok] by (auto simp: receive_guard_def)
  next
    case False
    let ?l' = "?l\<lparr>receivedGuardSequence := (receivedGuardSequence ?l)[g := lp_Timestamp p], guardExpires := (guardExpires ?l)[g := w_now w + off i + lp_Duration p]\<rparr>"
    have d: "lp_Duration p = guardDuration" using LInvD(1) [OF WInvD(1) [OF inv] i(2,1,3)] p unfolding guard_ok_def by auto
    have f: "lp_From p = int g" using p by (simp add: from_to_def)
    have sz: "length (receivedGuardSequence ?l) = n" "length (guardExpires ?l) = n" "l_id ?l = i" using sizes_lok(1) [OF lok] by (simp_all add: sizes_ok_def)
    have "lview (off i) ?l' = (lview (off i) ?l)\<lparr>a_grecv := (a_grecv (lview (off i) ?l))(g := lp_Timestamp p),
        a_gexp := (a_gexp (lview (off i) ?l))(g := w_now w + guardDuration)\<rparr>"
      using sz i d by (auto simp: lview_def)
    then have "lstep n (lnet_of off w) (lnet_of off (deliver_out i (receive_guard p g (w_now w + off i) ?l) w))"
      using lstep.l_guard_ack [of g n i t p "lnet_of off w"] i p False sz by (simp add: receive_guard_def lnet_deliver f)
    moreover have "lok n i ?l'" using lok by (auto simp: lok_def sizes_ok_def deadlines_ok_def grants_def)
    ultimately show ?thesis using False by (intro WInv_deliver [OF inv]) (simp_all add: receive_guard_def)
  qed
qed

lemma receive_guard_ack_WInv:
  assumes inv: "WInv n off w" and i: "i < n" "h < n" "h \<noteq> i" and p: "(t, p) \<in> from_to packetGuardAck h i (w_sent w)"
  shows "WInv n off (deliver_out i (receive_guard_ack p h (w_now w + off i) fr (w_lease w i)) w)"
proof -
  let ?l = "w_lease w i" and ?now = "w_now w + off i"
  let ?l' = "?l\<lparr>lastGuard := (lastGuard ?l)[h := 0], lastResponse := (lastResponse ?l)[h := ?now]\<rparr>"
  have lok: "lok n i ?l" using WInvD(2) [OF inv i(1)] .
  show ?thesis
  proof (cases "lp_LeaseEpoch p \<noteq> promisedBy ?l \<or> lp_Timestamp p \<noteq> guardSequence ?l ! h \<or> lastGuard ?l ! h = 0")
    case True
    then show ?thesis using WInv_silent [OF inv refl lok] by (simp add: receive_guard_ack_def)
  next
    case False
    have "lok n i ?l'" using lok by simp
    moreover have "lstep n (lnet_of off w) (lnet_of off (deliver_out i (sendPromise ?now h fr True ?l') w))"
      by (rule sendPromise_lstep [OF WInvD(1) [OF inv] i]) (use sizes_lok(1) [OF \<open>lok n i ?l'\<close>] p False in auto)
    ultimately show ?thesis using False sendPromise_lok [of n i ?l'] by (intro WInv_deliver [OF inv]) (simp_all add: receive_guard_ack_def)
  qed
qed

lemma receive_reply_WInv:
  assumes inv: "WInv n off w" and i: "i < n" "h < n" "h \<noteq> i" and p: "(t, p) \<in> from_to packetLeaseReply h i (w_sent w)"
  shows "WInv n off (deliver_out i (receive_reply p h (w_now w + off i) (w_lease w i), []) w)"
proof -
  let ?l = "w_lease w i" and ?now = "w_now w + off i"
  have lok: "lok n i ?l" using WInvD(2) [OF inv i(1)] .
  have sz: "length (ackSequence ?l) = n" "length (lastAckTime ?l) = n" "length (latestReplies ?l) = n" "length (sentSequence ?l) = n"
    using sizes_lok(1) [OF lok] by (simp_all add: sizes_ok_def)
  show ?thesis
  proof (cases "lp_LeaseEpoch p \<noteq> promisedBy ?l \<or> lp_Timestamp p \<noteq> sentSequence ?l ! h \<or> \<not> ?now < latestReplies ?l ! h")
    case True
    then show ?thesis using WInv_silent [OF inv refl lok] by (simp add: receive_reply_def)
  next
    case False
    let ?la = "?l\<lparr>ackSequence := (ackSequence ?l)[h := lp_Timestamp p], lastResponse := (lastResponse ?l)[h := ?now], lastAckTime := (lastAckTime ?l)[h := ?now]\<rparr>"
    let ?lb = "if ?now + leaseDuration < latestReplies ?l ! h then ?la\<lparr>latestReplies := (latestReplies ?l)[h := ?now + leaseDuration]\<rparr> else ?la"
    have eq: "receive_reply p h ?now ?l = recomputeWriteUntil ?now ?lb" using False by (simp add: receive_reply_def Let_def)
    have "lok n i (recomputeWriteUntil ?now ?lb)"
      by (rule lok_recompute [OF lok]) (use sizes_lok(1) [OF lok] in \<open>simp_all add: sizes_ok_def\<close>)
    moreover have "lview (off i) ?lb = (lview (off i) ?l)\<lparr>a_ack := (a_ack (lview (off i) ?l))(h := lp_Timestamp p),
        a_ackT := (a_ackT (lview (off i) ?l))(h := w_now w),
        a_oblige := (a_oblige (lview (off i) ?l))(h := min (a_oblige (lview (off i) ?l) h) (w_now w + leaseDuration))\<rparr>"
      using sz i by (auto simp: lview_def)
    then have "lstep n (lnet_of off w) (lnet_of off (deliver_out i (recomputeWriteUntil ?now ?lb, []) w))"
      using lstep.l_reply [of i n h "lview (off i) ?l" "lnet_of off w" t p] i p False sz by (simp add: lnet_deliver_silent)
    ultimately show ?thesis unfolding eq by (intro WInv_deliver [OF inv]) simp_all
  qed
qed

lemma map_le_expire:
  assumes "distinct (map fst m)"
  shows "map_of (expire_acks now m) \<subseteq>\<^sub>m map_of m"
  using assms unfolding expire_acks_def map_le_def
  by (auto simp: map_of_eq_Some_iff distinct_map_filter dest: map_of_SomeD)

lemma distinct_mput: "distinct (map fst m) \<Longrightarrow> distinct (map fst (mput k v m))"
  by (simp add: mput_def distinct_update)

lemma lok_readUntil:
  assumes "sizes_ok n i l" "0 < n div 2" "\<forall>x<n. x \<noteq> i \<longrightarrow> latestReplies l ! x \<le> writeUntil l"
  shows "lok n i (recomputeReadUntil now l)"
proof -
  have "l_n l = n" "l_id l = i" "length (latestPromises l) = n" using assms(1) by (simp_all add: sizes_ok_def)
  then show ?thesis using assms recomputeReadUntil_grants [of l now] by (simp add: lok_def deadlines_ok_def)
qed

lemma receive_promise_WInv:
  assumes inv: "WInv n off w" and off: "0 \<le> off i" and i: "i < n" "g < n" "g \<noteq> i" and p: "(t, p) \<in> from_to packetLeasePromise g i (w_sent w)"
  shows "WInv n off (deliver_out i (receive_promise p g (w_now w + off i) (w_lease w i)) w)"
proof -
  let ?l = "w_lease w i" and ?now = "w_now w + off i"
  have lok: "lok n i ?l" using WInvD(2) [OF inv i(1)] .
  have sz: "length (receivedSequence ?l) = n" "length (receivedGuardSequence ?l) = n" "length (guardExpires ?l) = n" "length (ackTimes ?l) = n"
    "length (latestPromises ?l) = n" "l_id ?l = i" "l_n ?l = n" "good_acks (ackTimes ?l)"
    using sizes_lok(1) [OF lok] by (simp_all add: sizes_ok_def)
  have f: "lp_From p = int g" using p by (simp add: from_to_def)
  consider "lp_Timestamp p \<le> receivedSequence ?l ! g \<or> \<not> admissible p g ?now ?l \<or> bad_duration p"
    | "\<not> lp_Timestamp p \<le> receivedSequence ?l ! g" "admissible p g ?now ?l" "\<not> bad_duration p" "lp_LeaseEpoch p < promisedTo ?l"
    | "\<not> lp_Timestamp p \<le> receivedSequence ?l ! g" "admissible p g ?now ?l" "\<not> bad_duration p" "\<not> lp_LeaseEpoch p < promisedTo ?l" by blast
  then show ?thesis
  proof cases
    case 1
    then show ?thesis using WInv_silent [OF inv _ lok] WInv_silent [OF inv, of i "?l\<lparr>promisesRejected := promisesRejected ?l + 1\<rparr>"] lok
      by (auto simp: receive_promise_def)
  next
    case 2
    then have "lstep n (lnet_of off w) (lnet_of off (deliver_out i (receive_promise p g ?now ?l) w))"
      using lstep.l_refuse [of g n i t p "lnet_of off w"] i p sz
      by (simp add: receive_promise_def f lnet_deliver) (simp add: lnet_of_def fun_upd_idem)
    then show ?thesis using 2 lok by (intro WInv_deliver [OF inv]) (simp_all add: receive_promise_def)
  next
    case 3
    let ?e = "lp_LeaseEpoch p"
    let ?le = "if ?e > promisedTo ?l then enter_epoch ?e ?l else ?l"
    let ?m = "expire_acks ?now (mput (lp_Timestamp p) ?now (ackTimes ?l ! g))"
    let ?la = "?le\<lparr>receivedSequence := (receivedSequence ?l)[g := lp_Timestamp p], latestPromises := (latestPromises ?le)[g := ?now + lp_Duration p],
       frontiers := (frontiers ?le)[g := lp_Frontier p], ackTimes := (ackTimes ?l)[g := ?m]\<rparr>"
    let ?v = "lview (off i) ?l" and ?am = "\<lambda>s. map_option (\<lambda>t. t - off i) (mget ?m s)" and ?dead = "\<lambda>_. - off i"
    let ?cl = "\<lambda>x. if promisedTo ?l < ?e then - off i else a_claim ?v x"
    have eq: "accept_promise p g ?now ?l = recomputeReadUntil ?now ?la" by (simp add: accept_promise_def Let_def enter_epoch_def)
    have d: "lp_Duration p = leaseDuration"
      using LInvD(2) [OF WInvD(1) [OF inv] i(2,1,3)] p unfolding promises_ok_def promise_ok_def by auto
    have dist: "distinct (map fst (ackTimes ?l ! g))" using sz(4,8) i by (simp add: good_acks_def)
    have adm: "lp_AckSequence p < 0 \<and> lp_AckSequence p = - a_grecv ?v g \<and> w_now w < a_gexp ?v g \<or>
        0 < lp_AckSequence p \<and> (\<exists>u. a_times ?v g (lp_AckSequence p) = Some u \<and> w_now w - u < lp_Elapsed p + guardDuration)"
    proof (cases "lp_AckSequence p > 0")
      case True
      then obtain u where u: "mget (ackTimes ?l ! g) (lp_AckSequence p) = Some u" "0 \<le> lp_Elapsed p" "time_sub ?now u < int64 (lp_Elapsed p + guardDuration)"
        using 3(2) by (auto simp: admissible_def split: option.splits)
      then show ?thesis using True time_sub_less_int64 [OF u(2,3)] sz i by (intro disjI2) auto
    qed (use 3(2) sz i in \<open>auto simp: admissible_def\<close>)
    have "map_of ?m \<subseteq>\<^sub>m (map_of (ackTimes ?l ! g))(lp_Timestamp p \<mapsto> ?now)"
      using map_le_expire [OF distinct_mput [OF dist, of "lp_Timestamp p" ?now], of ?now] by simp
    then have m: "?am \<subseteq>\<^sub>m (a_times ?v g)(lp_Timestamp p \<mapsto> w_now w)" using sz i unfolding map_le_def by force
    have view: "lview (off i) ?la = ?v\<lparr>a_to := ?e, a_recv := (a_recv ?v)(g := lp_Timestamp p), a_claim := ?cl(g := w_now w + leaseDuration),
        a_times := (a_times ?v)(g := ?am)\<rparr>"
      using 3(4) sz i d by (auto simp: lview_def enter_epoch_def)
    define R where "R = recomputeReadUntil ?now ?la"
    have R: "promisedTo R = ?e" "l_id R = i" "lview (off i) R = lview (off i) ?la" using 3(4) sz by (simp_all add: R_def enter_epoch_def)
    then have out: "receive_promise p g ?now ?l = (R\<lparr>promisesAccepted := promisesAccepted R + 1\<rparr>, [(int g, LeasePacket packetLeaseReply (int i) ?e (lp_Timestamp p))])"
      using 3 by (simp add: receive_promise_def f eq R_def [symmetric] Let_def)
    have net: "lnet_of off (deliver_out i (receive_promise p g ?now ?l) w) = (lnet_of off w)\<lparr>nodes := (nodes (lnet_of off w))(i :=
        ?v\<lparr>a_to := ?e, a_recv := (a_recv ?v)(g := lp_Timestamp p), a_claim := ?cl(g := w_now w + leaseDuration), a_times := (a_times ?v)(g := ?am)\<rparr>),
        msgs := insert (w_now w, g, LeasePacket packetLeaseReply (int i) ?e (lp_Timestamp p)) (w_sent w)\<rparr>"
      unfolding out lnet_deliver lview_frame R(3) view by simp
    have "lstep n (lnet_of off w) (lnet_of off (deliver_out i (receive_promise p g ?now ?l) w))"
      unfolding net using lstep.l_accept [of g n i ?v "lnet_of off w" t p ?am ?cl ?dead] i p 3 sz adm m off by simp
    moreover have "lok n i R" unfolding R_def 
    proof (rule lok_readUntil)
      have "good_acks ((ackTimes ?l)[g := ?m])"
        using sz(8) distinct_map_filter [OF distinct_mput [OF dist, of "lp_Timestamp p" ?now]] set_update_subset_insert [of "ackTimes ?l" g ?m]
        by (auto simp: good_acks_def expire_acks_def)
      then show "sizes_ok n i ?la" using sizes_lok(1) [OF lok] by (simp add: sizes_ok_def enter_epoch_def)
      show "\<forall>x<n. x \<noteq> i \<longrightarrow> latestReplies ?la ! x \<le> writeUntil ?la" using lok by (simp add: lok_def sizes_ok_def deadlines_ok_def enter_epoch_def)
    qed (use i in auto)
    ultimately show ?thesis by (intro WInv_deliver [OF inv]) (simp_all add: out)
  qed
qed

lemma receive_WInv:
  assumes inv: "WInv n off w" and off: "0 \<le> off i" and i: "i < n" and p: "(t, i, p) \<in> w_sent w"
    and r: "receive p (w_now w + off i) fr (w_lease w i) = (handled, r)"
  shows "WInv n off (deliver_out i r w)"
proof (cases "lp_From p < 0 \<or> lp_From p \<ge> int n \<or> lp_From p = int i \<or> lp_Kind p = otherKind")
  case True
  then have "r = (w_lease w i, [])"
    using r sizes_lok(1) [OF WInvD(2) [OF inv i]] by (auto simp: receive_def sizes_ok_def Let_def split: lease_kind.splits if_splits)
  then show ?thesis using WInv_silent [OF inv refl WInvD(2) [OF inv i]] by simp
next
  case False
  define g where "g = nat (lp_From p)"
  have g: "g < n" "g \<noteq> i" and ft: "(t, p) \<in> from_to (lp_Kind p) g i (w_sent w)"
    using False p by (auto simp: g_def from_to_def)
  have "l_n (w_lease w i) = n" "l_id (w_lease w i) = i" using sizes_lok(1) [OF WInvD(2) [OF inv i]] by (simp_all add: sizes_ok_def)
  then show ?thesis using False r ft receive_guard_WInv [OF inv i g] receive_guard_ack_WInv [OF inv i g]
      receive_promise_WInv [where i = i, OF inv off i g] receive_reply_WInv [OF inv i g]
    by (cases "lp_Kind p") (auto simp: receive_def g_def [symmetric])
qed

lemma switch_WInv:
  assumes inv: "WInv n off w" and off: "0 \<le> off i" and i: "i < n" and c: "canWriteOutside (w_now w + off i) (w_lease w i)"
  shows "WInv n off (deliver_out i (switchEpoch e (w_now w + off i) (w_lease w i), []) w)"
proof -
  let ?l = "w_lease w i" and ?v = "lview (off i) (w_lease w i)"
  have lok: "lok n i ?l" using WInvD(2) [OF inv i] .
  have "\<forall>h<n. h \<noteq> i \<longrightarrow> latestReplies ?l ! h - off i \<le> w_now w"
    using lok c by (fastforce simp: lok_def sizes_ok_def deadlines_ok_def canWriteOutside_def)
  then have "\<forall>h<n. h \<noteq> i \<longrightarrow> a_oblige ?v h \<le> w_now w" using sizes_lok(1) [OF lok] by (simp add: sizes_ok_def)
  moreover have "lview (off i) (switchEpoch e (w_now w + off i) ?l) = ?v\<lparr>a_by := e, a_oblige := \<lambda>_. - off i, a_ack := \<lambda>_. 0\<rparr>"
    by (auto simp: switchEpoch_def lview_def)
  ultimately have "lstep n (lnet_of off w) (lnet_of off (deliver_out i (switchEpoch e (w_now w + off i) ?l, []) w))"
    using lstep.l_switch [of i n ?v "lnet_of off w" "\<lambda>_. - off i" e] i off by (simp add: lnet_deliver_silent)
  moreover have "lok n i (switchEpoch e (w_now w + off i) ?l)"
    using lok off LInvD(5) [OF WInvD(1) [OF inv]] WInvD(1) [OF inv]
    by (auto simp: switchEpoch_def lok_def sizes_ok_def deadlines_ok_def grants_def LInv_def)
  ultimately show ?thesis by (intro WInv_deliver [OF inv]) simp_all
qed

lemma world_step_WInv:
  assumes "world_step n off w w'" "WInv n off w" "\<forall>i. 0 < off i"
  shows "WInv n off w'"
  using assms
proof (induction rule: world_step.induct)
  case (ws_advance d)
  have "lstep n (lnet_of off w) ((lnet_of off w)\<lparr>at := w_now w + d\<rparr>)" using lstep.l_advance [of d n "lnet_of off w"] ws_advance by simp
  moreover have "lnet_of off (w\<lparr>w_now := w_now w + d\<rparr>) = (lnet_of off w)\<lparr>at := w_now w + d\<rparr>" by (simp add: lnet_of_def)
  ultimately show ?case using ws_advance lstep_LInv by (auto simp: WInv_def)
next
  case (ws_tick i alive frontier r)
  then show ?case using tick_WInv by blast
next
  case (ws_receive i t p frontier handled r)
  then show ?case using receive_WInv [of n off w i t p frontier handled r] by (simp add: order_less_imp_le)
next
  case (ws_switch i e)
  then show ?case using switch_WInv [of n off w i e] by (simp add: order_less_imp_le)
qed

lemma world_init_WInv:
  assumes "world_init n w" "\<forall>i. 0 < off i"
  shows "WInv n off w"
proof -
  have "linit (lnet_of off w)"
    using assms by (auto simp: linit_def world_init_def newLeaseState_def Let_def less_imp_le geti_def)
  moreover have "lok n i (w_lease w i)" for i
    using assms(1) by (auto simp: world_init_def newLeaseState_def lok_def sizes_ok_def deadlines_ok_def good_acks_def)
  ultimately show ?thesis using linit_LInv by (simp add: WInv_def)
qed

lemma world_reachable_WInv:
  assumes "world_reachable n off w" "\<forall>i. 0 < off i"
  shows "WInv n off w"
  using assms by (induction rule: world_reachable.induct) (auto intro: world_init_WInv world_step_WInv)

subsection \<open>Local reads are safe\<close>

lemma held_promise_covered:
  assumes inv: "WInv n off w" and gh: "g < n" "h < n" "g \<noteq> h" and live: "w_now w + off h < latestPromises (w_lease w h) ! g"
  shows "w_now w + off g < latestReplies (w_lease w g) ! h" "promisedBy (w_lease w g) = promisedTo (w_lease w h)"
    "\<not> canWriteOutside (w_now w + off g) (w_lease w g)"
proof -
  have sz: "length (latestPromises (w_lease w h)) = n" "length (latestReplies (w_lease w g)) = n"
    using WInvD(2) [OF inv] gh by (simp_all add: lok_def sizes_ok_def)
  show 1: "w_now w + off g < latestReplies (w_lease w g) ! h" and "promisedBy (w_lease w g) = promisedTo (w_lease w h)"
    using claim_covered [OF WInvD(1) [OF inv] gh] live sz gh by auto
  have "latestReplies (w_lease w g) ! h \<le> writeUntil (w_lease w g)"
    using WInvD(2) [OF inv gh(1)] gh by (auto simp: lok_def sizes_ok_def deadlines_ok_def)
  then show "\<not> canWriteOutside (w_now w + off g) (w_lease w g)" using 1 by (simp add: canWriteOutside_def)
qed

definition grantors :: "nat \<Rightarrow> (nat \<Rightarrow> int) \<Rightarrow> world \<Rightarrow> nat \<Rightarrow> nat set" where
  "grantors n off w h = {g. g < n \<and> g \<noteq> h \<and> promisedBy (w_lease w g) = promisedTo (w_lease w h) \<and>
     \<not> canWriteOutside (w_now w + off g) (w_lease w g)}"

lemma canRead_grantors:
  assumes inv: "WInv n off w" and off: "0 < off h" and h: "h < n" and read: "canRead (w_now w + off h) executed (w_lease w h)"
  shows "n div 2 \<le> card (grantors n off w h)"
proof -
  let ?l = "w_lease w h"
  have t: "0 \<le> w_now w" using WInvD(1) [OF inv] by (simp add: LInv_def)
  have "readUntil ?l \<noteq> 0" "w_now w + off h < readUntil ?l" using read off t by (auto simp: canRead_def)
  then have "n div 2 \<le> card (grants ?l (readUntil ?l))" "l_n ?l = n" "l_id ?l = h"
    using WInvD(2) [OF inv h] by (auto simp: lok_def sizes_ok_def deadlines_ok_def)
  moreover have "grants ?l (readUntil ?l) \<subseteq> grantors n off w h"
    using held_promise_covered [OF inv _ h] \<open>l_n ?l = n\<close> \<open>l_id ?l = h\<close> \<open>w_now w + off h < readUntil ?l\<close>
    unfolding grants_def grantors_def by fastforce
  then have "card (grants ?l (readUntil ?l)) \<le> card (grantors n off w h)" by (intro card_mono) (simp_all add: grantors_def)
  ultimately show ?thesis by simp
qed

text \<open>A run of three replicas: replica 1 guards, is acknowledged and grants replica 0 a lease.\<close>

definition demo_off :: "nat \<Rightarrow> int" where "demo_off i = 1 + int i"

definition demo_guard :: lease_packet where
  "demo_guard = (LeasePacket packetGuard 1 1 1)\<lparr>lp_Duration := guardDuration\<rparr>"

definition demo_ack :: lease_packet where "demo_ack = LeasePacket packetGuardAck 0 1 1"

definition demo_promise :: lease_packet where
  "demo_promise = (LeasePacket packetLeasePromise 1 1 1)\<lparr>lp_Duration := leaseDuration, lp_Frontier := -1, lp_AckSequence := -1\<rparr>"

definition world_zero :: world where
  "world_zero = \<lparr>w_now = 0, w_lease = newLeaseState 3, w_sent = {}\<rparr>"

definition world_guard :: world where
  "world_guard = deliver_out 1 (the (tick 2 [True, False, False] (-1) (newLeaseState 3 1))) world_zero"

definition world_ack :: world where
  "world_ack = deliver_out 0 (snd (receive demo_guard 1 (-1) (w_lease world_guard 0))) world_guard"

definition world_promise :: world where
  "world_promise = deliver_out 1 (snd (receive demo_ack 2 (-1) (w_lease world_ack 1))) world_ack"

definition world_lease :: world where
  "world_lease = deliver_out 0 (snd (receive demo_promise 1 (-1) (w_lease world_promise 0))) world_promise"

lemma receive_step:
  assumes "i < n" "(t, i, p) \<in> w_sent w"
  shows "world_step n off w (deliver_out i (snd (receive p (w_now w + off i) fr (w_lease w i))) w)"
  by (rule world_step.ws_receive [OF assms, of off fr "fst (receive p (w_now w + off i) fr (w_lease w i))"]) simp

lemma demo_times: "w_now world_zero = 0" "w_now world_guard = 0" "w_now world_ack = 0" "w_now world_promise = 0" "w_now world_lease = 0"
  by (simp_all add: world_zero_def world_guard_def world_ack_def world_promise_def world_lease_def)

lemma world_guard_step: "world_step 3 demo_off world_zero world_guard"
proof -
  have "tick (w_now world_zero + demo_off 1) [True, False, False] (-1) (w_lease world_zero 1) = Some (the (tick 2 [True, False, False] (-1) (newLeaseState 3 1)))"
    by code_simp
  then show ?thesis unfolding world_guard_def by (rule world_step.ws_tick [rotated]) simp
qed

lemma world_ack_step: "world_step 3 demo_off world_guard world_ack"
proof -
  have "(0, 0, demo_guard) \<in> w_sent world_guard" by code_simp
  from receive_step [OF _ this, of 3 demo_off "-1"] show ?thesis by (simp add: world_ack_def demo_times demo_off_def)
qed

lemma world_promise_step: "world_step 3 demo_off world_ack world_promise"
proof -
  have "(0, 1, demo_ack) \<in> w_sent world_ack" by code_simp
  from receive_step [OF _ this, of 3 demo_off "-1"] show ?thesis by (simp add: world_promise_def demo_times demo_off_def)
qed

lemma world_lease_step: "world_step 3 demo_off world_promise world_lease"
proof -
  have "(0, 0, demo_promise) \<in> w_sent world_promise" by code_simp
  from receive_step [OF _ this, of 3 demo_off "-1"] show ?thesis by (simp add: world_lease_def demo_times demo_off_def)
qed

lemma world_lease_reachable: "world_reachable 3 demo_off world_lease"
proof -
  have "world_reachable 3 demo_off world_zero" by (rule world_reachable.wr_init) (simp add: world_init_def world_zero_def fun_eq_iff)
  then show ?thesis using world_guard_step world_ack_step world_promise_step world_lease_step world_reachable.wr_step by blast
qed

lemma demo_read: "canRead (w_now world_lease + demo_off 0) (-1) (w_lease world_lease 0)"
  by code_simp

lemma demo_off_pos: "\<forall>i. 0 < demo_off i"
  by (simp add: demo_off_def)

lemma only_own_epoch: "promisedBy l = a \<and> (\<forall>e. admits now e l \<longleftrightarrow> e = a) \<longleftrightarrow> promisedBy l = a \<and> \<not> canWriteOutside now l"
  unfolding admits_def by (metis add.commute add_cancel_left_left zero_neq_one)

text \<open>C20 While a replica may read locally, at least half of the other replicas are in the configuration the
  reader holds promises for and refuse to vote for writes of any other configuration.\<close>

theorem pql_read_is_granted:
  assumes "world_reachable n off w" "\<forall>i. 0 < off i" "h < n" "canRead (w_now w + off h) executed (w_lease w h)"
  shows "n div 2 \<le> card {g. g < n \<and> g \<noteq> h \<and> promisedBy (w_lease w g) = promisedTo (w_lease w h) \<and>
     (\<forall>e. admits (w_now w + off g) e (w_lease w g) \<longleftrightarrow> e = promisedTo (w_lease w h))}"
proof -
  have "grantors n off w h = {g. g < n \<and> g \<noteq> h \<and> promisedBy (w_lease w g) = promisedTo (w_lease w h) \<and>
      (\<forall>e. admits (w_now w + off g) e (w_lease w g) \<longleftrightarrow> e = promisedTo (w_lease w h))}"
    unfolding grantors_def using only_own_epoch by blast
  moreover have "n div 2 \<le> card (grantors n off w h)" using canRead_grantors [OF world_reachable_WInv [OF assms(1,2)]] assms by blast
  ultimately show ?thesis by simp
qed

theorem pql_read_is_granted_witness:
  "1 \<le> card {g. g < 3 \<and> g \<noteq> 0 \<and> promisedBy (w_lease world_lease g) = promisedTo (w_lease world_lease 0) \<and>
     (\<forall>e. admits (w_now world_lease + demo_off g) e (w_lease world_lease g) \<longleftrightarrow> e = promisedTo (w_lease world_lease 0))}"
  using pql_read_is_granted [OF world_lease_reachable demo_off_pos _ demo_read] by simp

text \<open>C19 At any instant at which a replica may read locally, the lease tests do not let through a write of another lease
  configuration at a majority without the reader: every majority whose members would all accept a proposal of
  epoch \<open>e\<close> at that instant contains the reader, unless \<open>e\<close> is the configuration of the reader's own lease. The
  statement is about one instant; votes cast at different instants, before a member granted its lease, are the
  business of the catch-up bound a reader waits for.\<close>

theorem pql_no_foreign_majority:
  assumes "world_reachable n off w" "\<forall>i. 0 < off i" "h < n" "canRead (w_now w + off h) executed (w_lease w h)"
    and Q: "Q \<subseteq> {..<n}" "n < 2 * card Q" "\<forall>q\<in>Q. admits (w_now w + off q) e (w_lease w q)"
  shows "h \<in> Q \<or> e = promisedTo (w_lease w h)"
proof (rule ccontr)
  assume no: "\<not> (h \<in> Q \<or> e = promisedTo (w_lease w h))"
  have g: "n div 2 \<le> card (grantors n off w h)" using canRead_grantors [OF world_reachable_WInv [OF assms(1,2)]] assms by simp
  have fin: "finite (grantors n off w h)" "h \<notin> grantors n off w h" by (simp_all add: grantors_def)
  have "insert h (grantors n off w h) \<inter> Q \<noteq> {}"
    by (rule card_overlap [of "{..<n}"]) (use Q(1,2) g fin assms(3) in \<open>auto simp: grantors_def card_insert_if\<close>)
  then obtain q where "q \<in> Q" "q \<in> grantors n off w h" using no by auto
  then show False using Q(3) no by (auto simp: grantors_def admits_def)
qed

theorem pql_no_foreign_majority_witness:
  "(0::nat) \<in> {1, 2} \<or> 1 = promisedTo (w_lease world_lease 0)"
proof -
  have "\<forall>q\<in>{1, 2}. admits (w_now world_lease + demo_off q) 1 (w_lease world_lease q)" by code_simp
  then show ?thesis using pql_no_foreign_majority [OF world_lease_reachable demo_off_pos _ demo_read, of "{1, 2}" 1] by simp
qed

text \<open>C21 A promise a holder still counts on is an obligation its grantor still honours: measured in global
  time the grantor's deadline is not earlier, and grantor and holder agree on the configuration.\<close>

theorem pql_promise_enclosed:
  assumes "world_reachable n off w" "\<forall>i. 0 < off i" "g < n" "h < n" "g \<noteq> h"
    "w_now w + off h < latestPromises (w_lease w h) ! g"
  shows "latestPromises (w_lease w h) ! g - off h \<le> latestReplies (w_lease w g) ! h - off g \<and>
    promisedBy (w_lease w g) = promisedTo (w_lease w h)"
proof -
  have inv: "WInv n off w" using world_reachable_WInv assms by blast
  have "length (latestPromises (w_lease w h)) = n" "length (latestReplies (w_lease w g)) = n"
    using WInvD(2) [OF inv] assms by (simp_all add: lok_def sizes_ok_def)
  then show ?thesis using LInvD(4) [OF WInvD(1) [OF inv] assms(3-5)] assms(3-6) unfolding pair_ok_def by auto
qed

theorem pql_promise_enclosed_witness:
  "latestPromises (w_lease world_lease 0) ! 1 - demo_off 0 \<le> latestReplies (w_lease world_lease 1) ! 0 - demo_off 1 \<and>
    promisedBy (w_lease world_lease 1) = promisedTo (w_lease world_lease 0)"
proof -
  have "w_now world_lease + demo_off 0 < latestPromises (w_lease world_lease 0) ! 1" by code_simp
  then show ?thesis using pql_promise_enclosed [OF world_lease_reachable demo_off_pos, of 1 0] by simp
qed

end
