(* ===== verification/PqlPolicy.thy ===== *)
theory PqlPolicy
  imports KVState ReplicaSet "HOL-Library.Product_Lexorder"
begin

text \<open>
  Lease configurations of package \<open>pql\<close> (\<open>src/pql/policy.go\<close>): which replicas hold a read lease on a
  key and which replicas an accept is sent to. A policy overlays its parent; masks are sets of
  replicas in one \<open>uint64\<close>, read through \<^const>\<open>ids\<close>.
\<close>

datatype leasePolicy = LeasePolicy (pol_n: int) (pol_leader: int) (pol_holders: "(key, 64 word) gomap")
  (defaultMask: "64 word") (excluded: "64 word") (parent: "leasePolicy option")

definition bit_of :: "int \<Rightarrow> 64 word" where
  "bit_of i = (if i < 0 then 0 else push_bit (nat i) 1)"

function bitCount :: "64 word \<Rightarrow> int" where
  "bitCount m = (if m = 0 then 0 else bitCount (m AND (m - 1)) + 1)"
  by pat_completeness auto
termination
  by (relation "measure (\<lambda>m. card (ids m))")
    (auto simp: clear_lowest ids_Remove intro!: psubset_card_mono dest: trailing_in_ids)

declare bitCount.simps [simp del]

function holders_of :: "leasePolicy \<Rightarrow> key \<Rightarrow> 64 word option" where
  "holders_of v key = (case mget (pol_holders v) key of
     Some m \<Rightarrow> Some m
   | None \<Rightarrow> (case parent v of None \<Rightarrow> None | Some v' \<Rightarrow> holders_of v' key))"
  by pat_completeness auto
termination
proof (relation "measure (\<lambda>(v, _). size v)")
  fix v v' key
  assume "parent v = Some v'"
  then show "((v', key), v, key) \<in> measure (\<lambda>(v, _). size v)" by (cases v) auto
qed simp

declare holders_of.simps [simp del]

definition holderMask :: "leasePolicy \<Rightarrow> key \<Rightarrow> 64 word" where
  "holderMask p key = (case holders_of p key of
     Some m \<Rightarrow> m AND NOT (excluded p)
   | None \<Rightarrow> bit_of (pol_leader p) AND NOT (excluded p))"

text \<open>One of the two loops of \<open>writeMask\<close>: add members of \<open>from\<close> until the mask is a majority.\<close>

fun fill_mask :: "int \<Rightarrow> 64 word \<Rightarrow> int list \<Rightarrow> 64 word \<Rightarrow> 64 word" where
  "fill_mask n from [] m = m"
| "fill_mask n from (i # is) m =
     (if bitCount m < n div 2 + 1
      then fill_mask n from is (if from AND bit_of i \<noteq> 0 then m OR bit_of i else m)
      else m)"

definition writeMask :: "leasePolicy \<Rightarrow> command \<Rightarrow> 64 word" where
  "writeMask p cmd =
     (let m = bit_of (pol_leader p);
          m = (if Op cmd = PUT then m OR holderMask p (K cmd) else m);
          preferred = defaultMask p AND NOT (excluded p);
          m = fill_mask (pol_n p) preferred [0..pol_n p - 1] m
      in fill_mask (pol_n p) (NOT (excluded p)) [0..pol_n p - 1] m)"

definition holds :: "leasePolicy \<Rightarrow> int \<Rightarrow> key \<Rightarrow> bool" where
  "holds p i key \<longleftrightarrow> i \<ge> 0 \<and> i < pol_n p \<and> holderMask p key AND bit_of i \<noteq> 0"

text \<open>
  Choosing the holders of a key: the leader and the \<open>n / 2\<close> best of the other candidates. The
  comparison functions of the code order candidates by the keys given to \<open>choose_holders\<close>; both end
  with the replica's rank, so no two candidates are equal and the sorted order is unique.
\<close>

definition choose_holders :: "int \<Rightarrow> int \<Rightarrow> (int \<Rightarrow> 'a::linorder) \<Rightarrow> int list \<Rightarrow> 64 word" where
  "choose_holders n leader f is = fold (\<lambda>i m. m OR bit_of i) (take (nat (n div 2)) (sort_key f is)) (bit_of leader)"

definition sampled_holders :: "int \<Rightarrow> int \<Rightarrow> 64 word list \<Rightarrow> 64 word" where
  "sampled_holders n leader counts =
     choose_holders n leader (\<lambda>i. (- uint (counts ! nat i), i)) (filter (\<lambda>i. i \<noteq> leader) [0..n - 1])"

datatype policy_error = BadMembership | BadLeader | BadProfile | NoRoute string | NotAReplica string | BadRank | BadDefaultQuorum

text \<open>\<open>profile\<close> is what \<open>heatprofile.LoadRegional\<close> returned (\<^const>\<open>None\<close> an error), \<open>routes\<close> and \<open>fast\<close> are the
  \<open>ClientRoutes\<close> and the ranks of \<open>FastQuorum\<close> of the deployment plan.\<close>

definition count_row :: "int \<Rightarrow> nat \<Rightarrow> key \<times> 64 word \<Rightarrow> (key, 64 word list) gomap \<Rightarrow> (key, 64 word list) gomap" where
  "count_row n region = (\<lambda>(k, r) reads.
     if r = 0 then reads
     else let cs = (case mget reads k of None \<Rightarrow> replicate (nat n) 0 | Some cs \<Rightarrow> cs)
       in mput k (cs[region := cs ! region + r]) reads)"

fun count_clients :: "int \<Rightarrow> (string, string) gomap \<Rightarrow> (string, nat) gomap \<Rightarrow> (string \<times> (key \<times> 64 word) list) list
    \<Rightarrow> (key, 64 word list) gomap \<Rightarrow> policy_error + (key, 64 word list) gomap" where
  "count_clients n routes indices [] reads = Inr reads"
| "count_clients n routes indices ((client, rows) # cs) reads = (case mget routes client of
     None \<Rightarrow> Inl (NoRoute client)
   | Some alias \<Rightarrow> (case mget indices alias of
        None \<Rightarrow> Inl (NotAReplica alias)
      | Some region \<Rightarrow> count_clients n routes indices cs (fold (count_row n region) rows reads)))"

definition loadLeasePolicy :: "string list \<Rightarrow> int \<Rightarrow> (string \<times> (key \<times> 64 word) list) list option \<Rightarrow> (string, string) gomap \<Rightarrow> int list
    \<Rightarrow> policy_error + leasePolicy" where
  "loadLeasePolicy aliases leader profile routes fast =
     (let n = int (length aliases) in
      if n < 3 \<or> n > 63 \<or> n mod 2 = 0 then Inl BadMembership
      else if leader < 0 \<or> leader \<ge> n then Inl BadLeader
      else case profile of None \<Rightarrow> Inl BadProfile
      | Some clients \<Rightarrow>
        let indices = fold (\<lambda>(i, alias) m. mput alias i m) (enumerate 0 aliases) [] in
        case count_clients n routes indices clients [] of Inl err \<Rightarrow> Inl err
        | Inr reads \<Rightarrow>
          if \<exists>rank\<in>set fast. rank < 0 \<or> rank \<ge> n then Inl BadRank
          else
            let dm = fold (\<lambda>rank m. m OR bit_of rank) fast 0 in
            if bitCount dm \<noteq> n div 2 + 1 \<or> dm AND bit_of leader = 0 then Inl BadDefaultQuorum
            else Inr (LeasePolicy n leader (map (\<lambda>(k, cs). (k, sampled_holders n leader cs)) reads) dm 0 None))"

subsection \<open>Masks as sets\<close>

lemma ids_or [simp]: "ids (a OR b) = ids a \<union> ids b"
  using ids_Union by (simp add: Union_def)

lemma ids_and [simp]: "ids (a AND b) = ids a \<inter> ids b"
  using ids_Intersection by (simp add: Intersection_def)

lemma ids_not [simp]: "ids (NOT a) = {0..<64} - ids a"
  by (auto simp: ids_def in_range_def bit_not_iff)

lemma ids_bit_of [simp]: "ids (bit_of i) = (if in_range i then {i} else {})"
  by (auto simp: ids_def bit_of_def in_range_def bit_single)

lemma mask_meets_bit: "m AND bit_of i \<noteq> 0 \<longleftrightarrow> i \<in> ids m"
proof -
  have "m AND bit_of i = 0 \<longleftrightarrow> ids (m AND bit_of i) = {}" using ids_inject [of "m AND bit_of i" 0] by simp
  then show ?thesis using ids_subset [of m] by (auto simp: in_range_def)
qed

lemma bitCount_card: "bitCount m = int (card (ids m))"
proof (induction m rule: bitCount.induct)
  case (1 m)
  show ?case
  proof (cases "m = 0")
    case False
    have "card (ids m) = Suc (card (ids m - {int (TrailingZeros64 m)}))"
      by (rule card.remove [OF finite_ids trailing_in_ids [OF False]])
    then show ?thesis using 1 [OF False] False by (simp add: bitCount.simps [of m] clear_lowest ids_Remove)
  qed (simp add: bitCount.simps)
qed

lemma holds_iff: "holds p i key \<longleftrightarrow> 0 \<le> i \<and> i < pol_n p \<and> i \<in> ids (holderMask p key)"
  by (simp add: holds_def mask_meets_bit)

lemma ids_holderMask: "ids (holderMask p key) \<inter> ids (excluded p) = {}"
  by (auto simp: holderMask_def split: option.splits)

text \<open>The loop adds members of \<open>from\<close>, in order, and stops at a majority.\<close>

lemma fill_mask_bounds: "ids m \<subseteq> ids (fill_mask n from is m) \<and> ids (fill_mask n from is m) \<subseteq> ids m \<union> (ids from \<inter> set is)"
  by (induction n "from" "is" m rule: fill_mask.induct) (auto simp: mask_meets_bit split: if_splits)

lemma fill_mask_enough:
  "n div 2 + 1 \<le> int (card (ids (fill_mask n from is m))) \<or> ids from \<inter> set is \<subseteq> ids (fill_mask n from is m)"
proof (induction n "from" "is" m rule: fill_mask.induct)
  case (2 n "from" i "is" m)
  show ?case
  proof (cases "bitCount m < n div 2 + 1")
    case True
    let ?m = "if from AND bit_of i \<noteq> 0 then m OR bit_of i else m"
    have "ids from \<inter> {i} \<subseteq> ids ?m" using ids_subset [of "from"] by (auto simp: mask_meets_bit in_range_def)
    then have "ids from \<inter> {i} \<subseteq> ids (fill_mask n from is ?m)" using fill_mask_bounds by blast
    then show ?thesis using 2 [OF True] True by auto
  qed (simp add: bitCount_card)
qed simp

subsection \<open>Holder sets are majorities\<close>

lemma ids_fold_or: "\<forall>i\<in>set is. in_range i \<Longrightarrow> ids (fold (\<lambda>i m. m OR bit_of i) is m) = ids m \<union> set is"
  by (induction "is" arbitrary: m) auto

lemma card_choose_holders:
  assumes "distinct is" "\<forall>i\<in>set is. in_range i \<and> i \<noteq> leader" "in_range leader" "n div 2 \<le> int (length is)" "0 \<le> n"
  shows "leader \<in> ids (choose_holders n leader f is)" "int (card (ids (choose_holders n leader f is))) = n div 2 + 1"
proof -
  let ?ch = "take (nat (n div 2)) (sort_key f is)"
  have sub: "set ?ch \<subseteq> set is" using set_take_subset [of "nat (n div 2)" "sort_key f is"] by simp
  then have eq: "ids (choose_holders n leader f is) = insert leader (set ?ch)"
    using assms(2,3) ids_fold_or [of ?ch "bit_of leader"] by (auto simp: choose_holders_def)
  have "card (set ?ch) = nat (n div 2)" using assms(1,4) by (simp add: distinct_card nat_le_iff)
  moreover have "leader \<notin> set ?ch" using sub assms(2) by blast
  ultimately show "leader \<in> ids (choose_holders n leader f is)" "int (card (ids (choose_holders n leader f is))) = n div 2 + 1"
    using assms(5) by (simp_all add: eq)
qed

lemma sampled_holders_majority:
  assumes "0 \<le> leader" "leader < n" "n \<le> 63"
  shows "leader \<in> ids (sampled_holders n leader counts)" "int (card (ids (sampled_holders n leader counts))) = n div 2 + 1"
proof -
  have "set (filter (\<lambda>i. i \<noteq> leader) [0..n - 1]) = {0..<n} - {leader}" by auto
  moreover have d: "distinct (filter (\<lambda>i. i \<noteq> leader) [0..n - 1])" by (intro distinct_filter) simp
  ultimately have "length (filter (\<lambda>i. i \<noteq> leader) [0..n - 1]) = card ({0..<n} - {leader})" by (metis distinct_card)
  also have "\<dots> = nat n - 1" using assms by simp
  finally have len: "n div 2 \<le> int (length (filter (\<lambda>i. i \<noteq> leader) [0..n - 1]))" using assms by simp
  show "leader \<in> ids (sampled_holders n leader counts)" "int (card (ids (sampled_holders n leader counts))) = n div 2 + 1"
    unfolding sampled_holders_def using assms d len by (intro card_choose_holders; auto simp: in_range_def)+
qed

text \<open>C24 Every policy that is loaded is well formed: odd membership of 3 to 63 replicas, a leader in range, and the
  holder set of every sampled key and the default write quorum are majorities that contain the leader.\<close>

theorem loaded_policy_ok:
  assumes "loadLeasePolicy aliases leader profile routes fast = Inr p"
  shows "pol_n p = int (length aliases) \<and> 3 \<le> pol_n p \<and> pol_n p \<le> 63 \<and> odd (pol_n p) \<and> pol_leader p = leader \<and>
    0 \<le> leader \<and> leader < pol_n p \<and> excluded p = 0 \<and> parent p = None \<and>
    (\<forall>m\<in>insert (defaultMask p) (snd ` set (pol_holders p)). leader \<in> ids m \<and> bitCount m = pol_n p div 2 + 1)"
proof -
  let ?n = "int (length aliases)"
  obtain reads where *: "3 \<le> ?n" "?n \<le> 63" "?n mod 2 \<noteq> 0" "0 \<le> leader" "leader < ?n"
    "bitCount (fold (\<lambda>rank m. m OR bit_of rank) fast 0) = ?n div 2 + 1" "fold (\<lambda>rank m. m OR bit_of rank) fast 0 AND bit_of leader \<noteq> 0"
    "p = LeasePolicy ?n leader (map (\<lambda>(k, cs). (k, sampled_holders ?n leader cs)) reads) (fold (\<lambda>rank m. m OR bit_of rank) fast 0) 0 None"
    using assms by (auto simp: loadLeasePolicy_def Let_def split: if_splits option.splits sum.splits)
  have "bitCount m = ?n div 2 + 1 \<and> leader \<in> ids m" if "m \<in> snd ` set (pol_holders p)" for m
    using that sampled_holders_majority [OF *(4,5,2)] by (auto simp: *(8) bitCount_card)
  moreover have "odd ?n" using *(3) by presburger
  ultimately show ?thesis using * by (auto simp: mask_meets_bit)
qed

theorem loaded_policy_ok_witness:
  "\<exists>p. loadLeasePolicy [''a'', ''b'', ''c''] 0 (Some [(''x'', [(7, 4)])]) [(''x'', ''c'')] [0, 1] = Inr p \<and>
    pol_holders p = [(7, 5)] \<and> pol_n p = 3"
proof -
  have l: "loadLeasePolicy [''a'', ''b'', ''c''] 0 (Some [(''x'', [(7, 4)])]) [(''x'', ''c'')] [0, 1] = Inr (LeasePolicy 3 0 [(7, 5)] 3 0 None)"
    by code_simp
  from loaded_policy_ok [OF l] l show ?thesis by simp
qed

subsection \<open>Where a write goes\<close>

lemma writeMask_parts:
  assumes p: "0 \<le> pol_leader p" "pol_leader p < pol_n p" "pol_n p \<le> 63"
  shows "pol_leader p \<in> ids (writeMask p cmd)"
    "Op cmd = PUT \<Longrightarrow> ids (holderMask p (K cmd)) \<subseteq> ids (writeMask p cmd)"
    "ids (writeMask p cmd) \<inter> ids (excluded p) \<subseteq> {pol_leader p}"
proof -
  define m where "m = (if Op cmd = PUT then bit_of (pol_leader p) OR holderMask p (K cmd) else bit_of (pol_leader p))"
  define m' where "m' = fill_mask (pol_n p) (defaultMask p AND NOT (excluded p)) [0..pol_n p - 1] m"
  have w: "writeMask p cmd = fill_mask (pol_n p) (NOT (excluded p)) [0..pol_n p - 1] m'"
    by (simp add: writeMask_def Let_def m_def m'_def)
  have b: "ids m \<subseteq> ids m'" "ids m' \<subseteq> ids (writeMask p cmd)" "ids m' \<subseteq> ids m \<union> - ids (excluded p)"
    "ids (writeMask p cmd) \<subseteq> ids m' \<union> - ids (excluded p)"
    using fill_mask_bounds [of m "pol_n p" "defaultMask p AND NOT (excluded p)" "[0..pol_n p - 1]"]
      fill_mask_bounds [of m' "pol_n p" "NOT (excluded p)" "[0..pol_n p - 1]"]
    unfolding w m'_def [symmetric] by auto
  have "in_range (pol_leader p)" using p by (simp add: in_range_def)
  then have "pol_leader p \<in> ids m" "Op cmd = PUT \<Longrightarrow> ids (holderMask p (K cmd)) \<subseteq> ids m"
    "ids m \<inter> ids (excluded p) \<subseteq> {pol_leader p}"
    using ids_holderMask [of p "K cmd"] by (auto simp: m_def split: if_splits)
  then show "pol_leader p \<in> ids (writeMask p cmd)"
    "Op cmd = PUT \<Longrightarrow> ids (holderMask p (K cmd)) \<subseteq> ids (writeMask p cmd)"
    "ids (writeMask p cmd) \<inter> ids (excluded p) \<subseteq> {pol_leader p}"
    using b by blast+
qed

lemma writeMask_majority:
  assumes n: "pol_n p \<le> 63" and up: "pol_n p div 2 + 1 \<le> int (card ({0..<pol_n p} - ids (excluded p)))"
  shows "pol_n p div 2 + 1 \<le> int (card (ids (writeMask p cmd)))"
proof -
  obtain m' where w: "writeMask p cmd = fill_mask (pol_n p) (NOT (excluded p)) [0..pol_n p - 1] m'"
    by (simp add: writeMask_def Let_def)
  have "ids (NOT (excluded p)) \<inter> set [0..pol_n p - 1] = {0..<pol_n p} - ids (excluded p)" using n by auto
  then consider "pol_n p div 2 + 1 \<le> int (card (ids (writeMask p cmd)))" | "{0..<pol_n p} - ids (excluded p) \<subseteq> ids (writeMask p cmd)"
    using fill_mask_enough [of "pol_n p" "NOT (excluded p)" "[0..pol_n p - 1]" m'] unfolding w by metis
  then show ?thesis
  proof cases
    case 2
    then have "card ({0..<pol_n p} - ids (excluded p)) \<le> card (ids (writeMask p cmd))" by (intro card_mono) simp_all
    then show ?thesis using up by linarith
  qed
qed

text \<open>C23 The replicas a write is sent to include the deployment leader and every lease holder of the key,
  avoid excluded replicas other than the leader, and are a majority whenever a majority is not excluded.\<close>

theorem writeMask_reaches_holders:
  assumes "0 \<le> pol_leader p" "pol_leader p < pol_n p" "pol_n p \<le> 63"
    "pol_n p div 2 + 1 \<le> int (card ({0..<pol_n p} - ids (excluded p)))"
  shows "pol_leader p \<in> ids (writeMask p cmd) \<and> ids (writeMask p cmd) \<inter> ids (excluded p) \<subseteq> {pol_leader p} \<and>
    pol_n p div 2 + 1 \<le> bitCount (writeMask p cmd) \<and>
    {i. Op cmd = PUT \<and> holds p i (K cmd)} \<subseteq> ids (writeMask p cmd)"
  using writeMask_parts [OF assms(1-3)] writeMask_majority [OF assms(3,4)] by (auto simp: bitCount_card holds_iff)

theorem writeMask_reaches_holders_witness:
  "bitCount (writeMask (LeasePolicy 3 0 [(7, 5)] 3 0 None) \<lparr>Op = PUT, K = 7, V = []\<rparr>) \<ge> 2 \<and>
   {i. (PUT :: operation) = PUT \<and> holds (LeasePolicy 3 0 [(7, 5)] 3 0 None) i 7}
     \<subseteq> ids (writeMask (LeasePolicy 3 0 [(7, 5)] 3 0 None) \<lparr>Op = PUT, K = 7, V = []\<rparr>)"
  using writeMask_reaches_holders [of "LeasePolicy 3 0 [(7, 5)] 3 0 None" "\<lparr>Op = PUT, K = 7, V = []\<rparr>"] by simp

end
