(* ===== verification/PqlCore.thy ===== *)
theory PqlCore
  imports PqlLease PqlPolicy
begin

text \<open>
  The core of package \<open>pql\<close>: \<open>src/pql/core.go\<close>, \<open>execute.go\<close>, \<open>recovery.go\<close>, \<open>configuration.go\<close> and
  \<open>defs.go\<close>. A replica runs two instances of the same majority log: the command log (with leases) and
  the Lease-Paxos log \<open>configLog\<close> (\<open>c_control\<close>). The methods are functions over a core whose
  \<open>configLog\<close> has an arbitrary type \<open>'cfg\<close>; the operations of the inner log are the fields of
  \<open>config_ops\<close>, instantiated at the end of the theory with the same functions at type \<open>unit\<close>.

  As in the other cores \<^const>\<open>None\<close> is a panic, calls of \<open>send\<close>, \<open>broadcast\<close> and \<open>reply\<close> are appended
  to \<open>c_out\<close>, a send to the replica itself is delivered synchronously through the argument \<open>L\<close>, and
  the order of each loop over a map comes from the environment. \<open>onChange\<close> of the inner log is the
  effect \<open>Change\<close>, applied to the outer core when the call of the inner log returns. One reading of the
  runtime clock serves a whole event.
\<close>

definition PageSize :: int where "PageSize = 128"
definition AdmissionWindow :: int where "AdmissionWindow = 8192"
definition configurationBatch :: int where "configurationBatch = 5000"
abbreviation configurationInterval :: int where "configurationInterval \<equiv> 10 * Second"

datatype kind = packetPrepare | packetPromise | packetAccept | packetAck | packetCommit | packetReady | packetFetch
  | packetForward | packetForwardReply | packetLease lease_kind | packetSuspect | packetUnknown byte

record leaseChange =
  ch_Leader :: int
  ch_Excluded :: "64 word"
  ch_Updates :: "(key \<times> 64 word) list"

record request =
  req_ID :: request_id
  req_Command :: command
  req_Origin :: int
  req_Timestamp :: int
  req_Change :: "leaseChange option"

record logrec =
  r_Slot :: int
  r_Ballot :: int
  r_Request :: request
  r_Committed :: bool
  r_NotifyMask :: "64 word"
  r_LeaseEpoch :: int

record packet =
  p_Kind :: kind
  p_From :: int
  p_Ballot :: int
  p_Floor :: int
  p_High :: int
  p_Page :: int
  p_Pages :: int
  p_Records :: "logrec list"
  p_Requests :: "request list"
  p_LeaseEpoch :: int
  p_Timestamp :: int
  p_Duration :: int
  p_Frontier :: int
  p_Result :: bytes
  p_Control :: bool
  p_AckSequence :: int
  p_Elapsed :: int

definition Packet :: "kind \<Rightarrow> int \<Rightarrow> int \<Rightarrow> packet" where
  "Packet k from b = \<lparr>p_Kind = k, p_From = from, p_Ballot = b, p_Floor = 0, p_High = 0, p_Page = 0, p_Pages = 0,
     p_Records = [], p_Requests = [], p_LeaseEpoch = 0, p_Timestamp = 0, p_Duration = 0, p_Frontier = 0, p_Result = [],
     p_Control = False, p_AckSequence = 0, p_Elapsed = 0\<rparr>"

text \<open>The lease fields of a packet.\<close>

definition lease_part :: "lease_kind \<Rightarrow> packet \<Rightarrow> lease_packet" where
  "lease_part k p = \<lparr>lp_Kind = k, lp_From = p_From p, lp_LeaseEpoch = p_LeaseEpoch p, lp_Timestamp = p_Timestamp p,
     lp_Duration = p_Duration p, lp_AckSequence = p_AckSequence p, lp_Elapsed = p_Elapsed p, lp_Frontier = p_Frontier p\<rparr>"

definition of_lease :: "lease_packet \<Rightarrow> packet" where
  "of_lease l = (Packet (packetLease (lp_Kind l)) (lp_From l) 0)\<lparr>p_LeaseEpoch := lp_LeaseEpoch l, p_Timestamp := lp_Timestamp l,
     p_Duration := lp_Duration l, p_AckSequence := lp_AckSequence l, p_Elapsed := lp_Elapsed l, p_Frontier := lp_Frontier l\<rparr>"

datatype effect = Send int packet | Broadcast packet | Local packet | Reply request bytes | Change int "leaseChange option"

definition recoveryNoop :: "request \<Rightarrow> bool" where
  "recoveryNoop r \<longleftrightarrow> req_Origin r = -1 \<and> Op (req_Command r) = NONE \<and> req_Change r = None"

record ('st, 'cfg) core =
  c_n :: int
  c_id :: int
  c_leader :: int
  c_policy :: leasePolicy
  c_lease :: leaseState
  c_control :: bool
  c_config :: 'cfg
  c_policies :: "(int, leasePolicy) gomap"
  c_latestEpoch :: int
  c_configSequence :: int
  c_readStats :: "(key, 64 word list) gomap"
  c_nextConfiguration :: time
  c_unresponsive :: "time list"
  c_suspected :: "64 word"
  c_lastConfigProposal :: time
  c_clock :: time
  c_leaderHeard :: time
  c_localPending :: "request_id list"
  c_localQueued :: "(request_id, bool) gomap"
  c_frozen :: "packet list"
  c_frozenBallot :: int
  c_frozenFloor :: int
  c_ballot :: int
  c_active :: bool
  c_preparing :: bool
  c_high :: int
  c_executed :: int
  c_log :: "(int, logrec) gomap"
  c_values :: "(request_id, bytes) gomap"
  c_forwardResults :: "(request_id, bytes) gomap"
  c_assigned :: "(request_id, int) gomap"
  c_pending :: "(request_id, request) gomap"
  c_votes :: "(int, rset) gomap"
  c_pages :: "(int, (int, packet) gomap) gomap"
  c_promises :: "(int, bool) gomap"
  c_queue :: "request_id list"
  c_queued :: "(request_id, bool) gomap"
  c_recoveryEnd :: int
  c_catchupTarget :: int
  c_lastSend :: time
  c_lastFetch :: time
  c_updating :: "(key, int) gomap"
  c_recoveries :: "64 word"
  c_replayReplies :: "64 word"
  c_gapAccepts :: "64 word"
  c_fetchRequests :: "64 word"
  c_fetchSuppressed :: "64 word"
  c_localReads :: "64 word"
  c_forwardedReads :: "64 word"
  c_loggedReads :: "64 word"
  c_leaseRejects :: "64 word"
  c_quorumSends :: "64 word"
  c_resume :: "request list"
  c_app :: 'st
  c_out :: "effect list"

datatype loop = Loop_pending | Loop_log | Loop_promises | Loop_pages int

record 'cfg config_ops =
  cfg_requestFetch :: "time \<Rightarrow> 'cfg \<Rightarrow> 'cfg \<times> effect list"
  cfg_submit :: "request \<Rightarrow> time \<Rightarrow> 'cfg \<Rightarrow> ('cfg \<times> effect list) option"
  cfg_receive :: "packet \<Rightarrow> time \<Rightarrow> 'cfg \<Rightarrow> ('cfg \<times> effect list) option"
  cfg_tick :: "time \<Rightarrow> bool list \<Rightarrow> 'cfg \<Rightarrow> ('cfg \<times> effect list) option"
  cfg_Begin :: "time \<Rightarrow> 'cfg \<Rightarrow> ('cfg \<times> effect list) option"

text \<open>\<open>runtime\<close> is the reading of \<open>c.now()\<close>, \<^const>\<open>None\<close> for the deterministic drivers that leave \<open>c.now\<close> unset.\<close>

record ('st, 'cfg) env =
  execute :: "command \<Rightarrow> 'st \<Rightarrow> (bytes \<times> 'st) option"
  runtime :: "time option"
  order :: "loop \<Rightarrow> nat list"
  ops :: "'cfg config_ops"

definition newLogCore :: "int \<Rightarrow> int \<Rightarrow> int \<Rightarrow> leasePolicy \<Rightarrow> bool \<Rightarrow> 'cfg \<Rightarrow> 'st \<Rightarrow> ('st, 'cfg) core option" where
  "newLogCore n i leader policy control cfg app =
     (if n < 3 \<or> n > 63 \<or> n mod 2 = 0 then None
      else if pol_n policy \<noteq> n then None
      else Some \<lparr>c_n = n, c_id = i, c_leader = leader, c_policy = policy, c_lease = newLeaseState (nat n) (nat i), c_control = control,
        c_config = cfg, c_policies = [], c_latestEpoch = 0, c_configSequence = 0, c_readStats = [], c_nextConfiguration = 0,
        c_unresponsive = [], c_suspected = 0, c_lastConfigProposal = 0, c_clock = 0, c_leaderHeard = 0, c_localPending = [],
        c_localQueued = [], c_frozen = [], c_frozenBallot = 0, c_frozenFloor = 0, c_ballot = leader, c_active = True, c_preparing = False,
        c_high = -1, c_executed = -1, c_log = [], c_values = [], c_forwardResults = [], c_assigned = [], c_pending = [], c_votes = [],
        c_pages = [], c_promises = [], c_queue = [], c_queued = [], c_recoveryEnd = -1, c_catchupTarget = -1, c_lastSend = 0, c_lastFetch = 0,
        c_updating = [], c_recoveries = 0, c_replayReplies = 0, c_gapAccepts = 0, c_fetchRequests = 0, c_fetchSuppressed = 0,
        c_localReads = 0, c_forwardedReads = 0, c_loggedReads = 0, c_leaseRejects = 0, c_quorumSends = 0, c_resume = [], c_app = app, c_out = []\<rparr>)"

definition newCore :: "int \<Rightarrow> int \<Rightarrow> int \<Rightarrow> leasePolicy \<Rightarrow> 'st \<Rightarrow> ('st, (unit, unit) core) core option" where
  "newCore n i leader policy app = do {
     cfg \<leftarrow> newLogCore n i leader policy True () ();
     c \<leftarrow> newLogCore n i leader policy False cfg app;
     Some (c\<lparr>c_policies := [(genesisLeaseEpoch, policy)], c_latestEpoch := genesisLeaseEpoch, c_unresponsive := replicate (nat n) 0\<rparr>)
   }"

definition emit :: "effect \<Rightarrow> ('st, 'cfg) core \<Rightarrow> ('st, 'cfg) core" where
  "emit x c = c\<lparr>c_out := c_out c @ [x]\<rparr>"

type_synonym ('st, 'cfg) deliver = "packet \<Rightarrow> ('st, 'cfg) core \<Rightarrow> ('st, 'cfg) core option"

definition Transport_Send :: "('st, 'cfg) deliver \<Rightarrow> int \<Rightarrow> packet \<Rightarrow> ('st, 'cfg) core \<Rightarrow> ('st, 'cfg) core option" where
  "Transport_Send L to p c = (if to = c_id c then L p (emit (Local p) c) else Some (emit (Send to p) c))"

fun sendMask :: "('st, 'cfg) deliver \<Rightarrow> 64 word \<Rightarrow> packet \<Rightarrow> int list \<Rightarrow> ('st, 'cfg) core \<Rightarrow> ('st, 'cfg) core option" where
  "sendMask L m p [] c = Some c"
| "sendMask L m p (i # is) c = do {
     c \<leftarrow> (if m AND bit_of i \<noteq> 0 then Transport_Send L i p c else Some c);
     sendMask L m p is c
   }"

definition send_leases :: "lease_out \<Rightarrow> ('st, 'cfg) core \<Rightarrow> ('st, 'cfg) core" where
  "send_leases out c = fold (\<lambda>(to, l). emit (Send to (of_lease l))) out c"

definition observeTime :: "('st, 'cfg) env \<Rightarrow> time \<Rightarrow> ('st, 'cfg) core \<Rightarrow> time \<times> ('st, 'cfg) core" where
  "observeTime e now c =
     (let now = (case runtime e of Some t \<Rightarrow> t | None \<Rightarrow> now)
      in if now < c_clock c then (c_clock c, c) else (now, c\<lparr>c_clock := now\<rparr>))"

subsection \<open>Configurations\<close>

definition commitConfiguration :: "int \<Rightarrow> leaseChange option \<Rightarrow> ('st, 'cfg) core \<Rightarrow> ('st, 'cfg) core option" where
  "commitConfiguration slot change c =
     (let epoch = genesisLeaseEpoch + slot + 1; previous = mget (c_policies c) (c_latestEpoch c) in
      case change of
        None \<Rightarrow> Some (c\<lparr>c_policies := (case previous of None \<Rightarrow> mdel epoch (c_policies c) | Some p \<Rightarrow> mput epoch p (c_policies c)),
                   c_latestEpoch := epoch\<rparr>)
      | Some ch \<Rightarrow> do {
          p \<leftarrow> previous;
          let policy = LeasePolicy (c_n c) (ch_Leader ch) (fold (\<lambda>(k, h). mput k h) (ch_Updates ch) []) (defaultMask p)
                (excluded p OR ch_Excluded ch) (Some p);
          Some (c\<lparr>c_policies := mput epoch policy (c_policies c), c_latestEpoch := epoch\<rparr>)
        })"

text \<open>What the callbacks of the inner log do to the outer core.\<close>

fun relay :: "effect list \<Rightarrow> ('st, 'cfg) core \<Rightarrow> ('st, 'cfg) core option" where
  "relay [] c = Some c"
| "relay (x # xs) c = do {
     c \<leftarrow> (case x of
         Send to p \<Rightarrow> Some (emit (Send to (p\<lparr>p_Control := True\<rparr>)) c)
       | Broadcast p \<Rightarrow> Some (emit (Broadcast (p\<lparr>p_Control := True\<rparr>)) c)
       | Local p \<Rightarrow> Some (emit (Local (p\<lparr>p_Control := True\<rparr>)) c)
       | Reply r v \<Rightarrow> Some c
       | Change slot change \<Rightarrow> commitConfiguration slot change c);
     relay xs c
   }"

definition with_config :: "('cfg \<times> effect list) option \<Rightarrow> ('st, 'cfg) core \<Rightarrow> ('st, 'cfg) core option" where
  "with_config r c = do { (cfg, out) \<leftarrow> r; relay out (c\<lparr>c_config := cfg\<rparr>) }"

definition config_requestFetch :: "('st, 'cfg) env \<Rightarrow> time \<Rightarrow> ('st, 'cfg) core \<Rightarrow> ('st, 'cfg) core option" where
  "config_requestFetch e now c = with_config (Some (cfg_requestFetch (ops e) now (c_config c))) c"

subsection \<open>Submitting requests\<close>

definition enqueue :: "request \<Rightarrow> ('st, 'cfg) core \<Rightarrow> ('st, 'cfg) core" where
  "enqueue r c =
     (if mget (c_values c) (req_ID r) \<noteq> None then c
      else if mget (c_assigned c) (req_ID r) \<noteq> None then c
      else if \<not> mgetd False (c_queued c) (req_ID r)
        then c\<lparr>c_queue := c_queue c @ [req_ID r], c_queued := mput (req_ID r) True (c_queued c)\<rparr>
      else c)"

definition finish :: "request \<Rightarrow> bytes \<Rightarrow> ('st, 'cfg) core \<Rightarrow> ('st, 'cfg) core" where
  "finish r v c =
     (if req_Origin r = c_id c then emit (Reply r v) c
      else if c_id c \<noteq> c_leader c then c
      else emit (Send (req_Origin r) ((Packet packetForwardReply (c_id c) (c_ballot c))\<lparr>p_Requests := [r], p_Result := v\<rparr>)) c)"

definition count_read :: "request \<Rightarrow> ('st, 'cfg) core \<Rightarrow> ('st, 'cfg) core" where
  "count_read r c =
     (if \<not> c_control c \<and> c_id c = c_leader c \<and> Op (req_Command r) = GET \<and> req_Origin r \<ge> 0 \<and> req_Origin r < c_n c \<and>
         mget (c_pending c) (req_ID r) = None
      then let k = K (req_Command r);
               cs = (case mget (c_readStats c) k of None \<Rightarrow> replicate (nat (c_n c)) 0 | Some cs \<Rightarrow> cs);
               i = nat (req_Origin r)
           in c\<lparr>c_readStats := mput k (cs[i := cs ! i + 1]) (c_readStats c)\<rparr>
      else c)"

text \<open>Whether this replica is a configured holder of a key, for the reads it may serve.\<close>

definition read_holder :: "key \<Rightarrow> ('st, 'cfg) core \<Rightarrow> bool option" where
  "read_holder k c = do {
     let readPolicy = (case mget (c_policies c) (promisedTo (c_lease c)) of None \<Rightarrow> c_policy c | Some p \<Rightarrow> p);
     latest \<leftarrow> mget (c_policies c) (c_latestEpoch c);
     Some (excluded latest AND bit_of (c_id c) = 0 \<and> holds readPolicy (c_id c) k)
   }"

definition defer_read :: "request \<Rightarrow> ('st, 'cfg) core \<Rightarrow> ('st, 'cfg) core" where
  "defer_read r c =
     (let c = c\<lparr>c_pending := mput (req_ID r) r (c_pending c)\<rparr>
      in if mgetd False (c_localQueued c) (req_ID r) then c
      else c\<lparr>c_localQueued := mput (req_ID r) True (c_localQueued c), c_localPending := c_localPending c @ [req_ID r]\<rparr>)"

definition local_read :: "('st, 'cfg) env \<Rightarrow> request \<Rightarrow> ('st, 'cfg) core \<Rightarrow> ('st, 'cfg) core option" where
  "local_read e r c = do {
     (v, st) \<leftarrow> execute e (req_Command r) (c_app c);
     Some (finish r v (c\<lparr>c_app := st, c_values := mput (req_ID r) v (c_values c), c_pending := mdel (req_ID r) (c_pending c),
       c_localReads := c_localReads c + 1\<rparr>))
   }"

text \<open>The ordered path at the end of \<open>submit\<close>.\<close>

definition order_request :: "request \<Rightarrow> ('st, 'cfg) core \<Rightarrow> ('st, 'cfg) core" where
  "order_request r c =
     (let c = c\<lparr>c_pending := mput (req_ID r) r (c_pending c)\<rparr>; isGet = (Op (req_Command r) = GET) in
      if \<not> c_active c then c
      else if c_leader c = c_id c
      then enqueue r (if isGet then c\<lparr>c_loggedReads := c_loggedReads c + 1\<rparr> else c)
      else let c = (if isGet then c\<lparr>c_forwardedReads := c_forwardedReads c + 1\<rparr> else c)
        in emit (Send (c_leader c) ((Packet packetForward (c_id c) (c_ballot c))\<lparr>p_Requests := [r]\<rparr>)) c)"

definition submit :: "('st, 'cfg) env \<Rightarrow> request \<Rightarrow> time \<Rightarrow> ('st, 'cfg) core \<Rightarrow> ('st, 'cfg) core option" where
  "submit e r now c =
     (let (now, c) = observeTime e now c in
      case mget (c_values c) (req_ID r) of
        Some v \<Rightarrow> Some (finish r v (c\<lparr>c_replayReplies := c_replayReplies c + 1\<rparr>))
      | None \<Rightarrow> (case mget (c_forwardResults c) (req_ID r) of
          Some v \<Rightarrow> Some (emit (Reply r v) c)
        | None \<Rightarrow>
            let c = count_read r c; k = K (req_Command r) in
            if \<not> c_control c \<and> mget (c_assigned c) (req_ID r) = None \<and> Op (req_Command r) = GET then do {
              isHolder \<leftarrow> read_holder k c;
              if isHolder \<or> c_id c = c_leader c then
                (if isHolder \<and> mgetd 0 (c_updating c) k = 0 \<and> canRead now (c_executed c) (c_lease c) then local_read e r c
                 else Some (defer_read r c))
              else Some (order_request r c)
            }
            else Some (order_request r c)))"

subsection \<open>Executing the committed prefix\<close>

definition removeUpdating :: "key \<Rightarrow> ('st, 'cfg) core \<Rightarrow> ('st, 'cfg) core" where
  "removeUpdating k c =
     (if mgetd 0 (c_updating c) k \<le> 1 then c\<lparr>c_updating := mdel k (c_updating c)\<rparr>
      else c\<lparr>c_updating := mput k (mgetd 0 (c_updating c) k - 1) (c_updating c)\<rparr>)"

definition apply_value :: "('st, 'cfg) env \<Rightarrow> request \<Rightarrow> ('st, 'cfg) core \<Rightarrow> ('st, 'cfg) core option" where
  "apply_value e r c =
     (if mget (c_values c) (req_ID r) = None \<and> \<not> recoveryNoop r then do {
        (v, st) \<leftarrow> (if Op (req_Command r) \<noteq> NONE then execute e (req_Command r) (c_app c) else Some ([], c_app c));
        let c = c\<lparr>c_app := st, c_values := mput (req_ID r) v (c_values c)\<rparr>;
        Some (if req_Origin r = c_id c then emit (Reply r v) c else c)
      }
      else Some c)"

definition apply_one :: "('st, 'cfg) env \<Rightarrow> logrec \<Rightarrow> ('st, 'cfg) core \<Rightarrow> ('st, 'cfg) core option" where
  "apply_one e rec c = do {
     let r = r_Request rec;
     let internal = recoveryNoop r;
     let c = (if c_control c then
           let c = emit (Change (r_Slot rec) (req_Change r)) c
           in if internal then c else c\<lparr>c_values := mput (req_ID r) [] (c_values c)\<rparr>
         else c);
     c \<leftarrow> apply_value e r c;
     let c = (if Op (req_Command r) = PUT then removeUpdating (K (req_Command r)) c else c);
     let c = (if internal then c else c\<lparr>c_pending := mdel (req_ID r) (c_pending c)\<rparr>);
     Some (c\<lparr>c_votes := mdel (r_Slot rec) (c_votes c), c_executed := c_executed c + 1\<rparr>)
   }"

lemma pql_apply_one_log:
  assumes "apply_one e r c = Some c'"
  shows "c_log c' = c_log c" "c_executed c' = c_executed c + 1"
  using assms by (auto simp: apply_one_def apply_value_def emit_def removeUpdating_def Let_def split: Option.bind_splits if_splits)

function apply_log :: "('st, 'cfg) env \<Rightarrow> ('st, 'cfg) core \<Rightarrow> ('st, 'cfg) core option" where
  "apply_log e c = (case mget (c_log c) (c_executed c + 1) of
     None \<Rightarrow> Some c
   | Some r \<Rightarrow> if \<not> r_Committed r then Some c
       else (case apply_one e r c of None \<Rightarrow> None | Some c' \<Rightarrow> apply_log e c'))"
  by pat_completeness auto
termination
proof (relation "measure (\<lambda>(e, c). card {s \<in> dom (map_of (c_log c)). c_executed c < s})")
  fix e :: "('st, 'cfg) env" and c c' :: "('st, 'cfg) core" and r
  assume r: "mget (c_log c) (c_executed c + 1) = Some r" and "apply_one e r c = Some c'"
  then have eq: "c_log c' = c_log c" "c_executed c' = c_executed c + 1" using pql_apply_one_log by blast+
  have "{s \<in> dom (map_of (c_log c)). c_executed c + 1 < s} \<subset> {s \<in> dom (map_of (c_log c)). c_executed c < s}"
    using r by (intro psubsetI) (auto dest: domI)
  then show "((e, c'), e, c) \<in> measure (\<lambda>(e, c). card {s \<in> dom (map_of (c_log c)). c_executed c < s})"
    by (simp add: eq psubset_card_mono finite_dom_map_of)
qed simp

declare apply_log.simps [simp del]

subsection \<open>Acknowledgements\<close>

text \<open>One record of an acknowledgement, with the record it commits, if any.\<close>

definition ack_one :: "packet \<Rightarrow> logrec \<Rightarrow> ('st, 'cfg) core \<Rightarrow> ('st, 'cfg) core \<times> logrec list" where
  "ack_one p a c =
     (if r_Slot a \<le> c_executed c then (c, [])
      else case mget (c_log c) (r_Slot a) of
        None \<Rightarrow> (c, [])
      | Some r \<Rightarrow>
          if \<not> c_control c \<and> r_LeaseEpoch r \<noteq> p_LeaseEpoch p then (c, [])
          else
            let vs = With (mgetd 0 (c_votes c) (r_Slot a)) (p_From p);
                c = c\<lparr>c_votes := mput (r_Slot a) vs (c_votes c)\<rparr>
            in if r_Ballot r \<noteq> c_ballot c \<or> r_Committed r \<or> Size vs < go_div (c_n c) 2 + 1 then (c, [])
            else if vs AND r_NotifyMask r \<noteq> r_NotifyMask r then (c, [])
            else let r' = r\<lparr>r_Committed := True\<rparr> in (c\<lparr>c_log := mput (r_Slot a) r' (c_log c)\<rparr>, [r']))"

fun ack_loop :: "packet \<Rightarrow> logrec list \<Rightarrow> ('st, 'cfg) core \<Rightarrow> ('st, 'cfg) core \<times> logrec list" where
  "ack_loop p [] c = (c, [])"
| "ack_loop p (a # as) c =
     (let (c, now_committed) = ack_one p a c; (c, later) = ack_loop p as c in (c, now_committed @ later))"

definition ack :: "('st, 'cfg) env \<Rightarrow> packet \<Rightarrow> ('st, 'cfg) core \<Rightarrow> ('st, 'cfg) core option" where
  "ack e p c =
     (if c_preparing c \<or> c_id c \<noteq> c_leader c then Some c
      else let (c, committed) = ack_loop p (p_Records p) c;
               c = (if committed \<noteq> []
                 then emit (Broadcast ((Packet packetCommit (c_id c) (c_ballot c))\<lparr>p_Records := committed\<rparr>)) c
                 else c)
           in apply_log e c)"

subsection \<open>Accepting records\<close>

definition same_request :: "logrec \<Rightarrow> logrec \<Rightarrow> bool" where
  "same_request old r \<longleftrightarrow> req_ID (r_Request old) = req_ID (r_Request r) \<and> recoveryNoop (r_Request old) = recoveryNoop (r_Request r)"

definition install_new :: "logrec \<Rightarrow> ('st, 'cfg) core \<Rightarrow> ('st, 'cfg) core" where
  "install_new r c =
     (let cmd = req_Command (r_Request r)
      in c\<lparr>c_log := mput (r_Slot r) r (c_log c),
           c_assigned := (if recoveryNoop (r_Request r) then c_assigned c else mput (req_ID (r_Request r)) (r_Slot r) (c_assigned c)),
           c_updating := (if r_Slot r > c_executed c \<and> Op cmd = PUT
             then mput (K cmd) (mgetd 0 (c_updating c) (K cmd) + 1) (c_updating c) else c_updating c),
           c_high := (if r_Slot r > c_high c then r_Slot r else c_high c)\<rparr>)"

definition install :: "logrec \<Rightarrow> ('st, 'cfg) core \<Rightarrow> ('st, 'cfg) core option" where
  "install r c = (case mget (c_log c) (r_Slot r) of
     None \<Rightarrow> Some (install_new r c)
   | Some old \<Rightarrow>
       if r_Committed old then (if same_request old r then Some c else None)
       else if same_request old r then Some (c\<lparr>c_log := mput (r_Slot r) r (c_log c)\<rparr>)
       else
         let cmd = req_Command (r_Request old);
             c = (if Op cmd = PUT then removeUpdating (K cmd) c else c);
             c = (if recoveryNoop (r_Request old) then c else c\<lparr>c_assigned := mdel (req_ID (r_Request old)) (c_assigned c)\<rparr>)
         in Some (install_new r c))"

definition requestFetch :: "time \<Rightarrow> ('st, 'cfg) core \<Rightarrow> ('st, 'cfg) core" where
  "requestFetch now c =
     (if c_id c = c_leader c then c
      else if time_sub now (c_lastFetch c) < 100 * Millisecond
        then c\<lparr>c_fetchSuppressed := c_fetchSuppressed c + 1\<rparr>
      else
        let c = c\<lparr>c_lastFetch := now, c_fetchRequests := c_fetchRequests c + 1\<rparr>;
            frontier = (if l_catchup (c_lease c) > c_high c then l_catchup (c_lease c) else c_high c)
        in emit (Send (c_leader c) ((Packet packetFetch (c_id c) (c_ballot c))\<lparr>p_Floor := c_executed c + 1, p_High := frontier\<rparr>)) c)"

definition zero_record :: "int \<Rightarrow> logrec" where
  "zero_record slot = \<lparr>r_Slot = slot, r_Ballot = 0,
     r_Request = \<lparr>req_ID = RequestID 0 0, req_Command = \<lparr>Op = NONE, K = 0, V = []\<rparr>, req_Origin = 0, req_Timestamp = 0, req_Change = None\<rparr>,
     r_Committed = False, r_NotifyMask = 0, r_LeaseEpoch = 0\<rparr>"

fun accept_loop :: "packet \<Rightarrow> logrec list \<Rightarrow> bool \<times> ('st, 'cfg) core \<Rightarrow> (bool \<times> ('st, 'cfg) core) option" where
  "accept_loop p [] (gap, c) = Some (gap, c)"
| "accept_loop p (r # rs) (gap, c) =
     (let missing = (r_Slot r > 0 \<and> mget (c_log c) (r_Slot r - 1) = None);
          c = (if missing then c\<lparr>c_gapAccepts := c_gapAccepts c + 1\<rparr> else c)
      in do { c \<leftarrow> install (r\<lparr>r_Ballot := p_Ballot p, r_LeaseEpoch := p_LeaseEpoch p\<rparr>) c; accept_loop p rs (gap \<or> missing, c) })"

text \<open>The lease test of \<open>accept\<close>: the configuration is known and, while promises are outstanding, is ours.\<close>

definition lease_admits :: "time \<Rightarrow> int \<Rightarrow> ('st, 'cfg) core \<Rightarrow> bool" where
  "lease_admits now epoch c \<longleftrightarrow> c_control c \<or> mget (c_policies c) epoch \<noteq> None \<and> admits now epoch (c_lease c)"

definition accept :: "('st, 'cfg) deliver \<Rightarrow> ('st, 'cfg) env \<Rightarrow> packet \<Rightarrow> time \<Rightarrow> ('st, 'cfg) core \<Rightarrow> ('st, 'cfg) core option" where
  "accept L e p now c =
     (if \<not> lease_admits now (p_LeaseEpoch p) c then
        let c = c\<lparr>c_leaseRejects := c_leaseRejects c + 1\<rparr>
        in if mget (c_policies c) (p_LeaseEpoch p) = None then config_requestFetch e now c else Some c
      else do {
        (gap, c) \<leftarrow> accept_loop p (p_Records p) (False, c);
        let c = (if gap then requestFetch now c else c);
        let accepted = map (\<lambda>r. zero_record (r_Slot r)) (p_Records p);
        if accepted = [] then Some c
        else Transport_Send L (c_leader c)
          ((Packet packetAck (c_id c) (c_ballot c))\<lparr>p_LeaseEpoch := p_LeaseEpoch p, p_Records := accepted\<rparr>) c
      })"

subsection \<open>Sending the suffix\<close>

definition noop_record :: "int \<Rightarrow> logrec" where
  "noop_record slot = (zero_record slot)\<lparr>r_Request :=
     \<lparr>req_ID = RequestID (-1) (int32 slot), req_Command = \<lparr>Op = NONE, K = 0, V = []\<rparr>, req_Origin = -1, req_Timestamp = 0, req_Change = None\<rparr>\<rparr>"

fun fillCatchup_loop :: "nat \<Rightarrow> ('st, 'cfg) core \<Rightarrow> ('st, 'cfg) core option" where
  "fillCatchup_loop 0 c = Some c"
| "fillCatchup_loop (Suc k) c =
     (if c_high c < c_catchupTarget c \<and> c_high c - c_executed c < AdmissionWindow
      then do {
        c \<leftarrow> install ((noop_record (c_high c + 1))\<lparr>r_Ballot := c_ballot c, r_LeaseEpoch := promisedBy (c_lease c)\<rparr>) c;
        fillCatchup_loop k c
      }
      else Some c)"

definition fillCatchup :: "('st, 'cfg) core \<Rightarrow> ('st, 'cfg) core option" where
  "fillCatchup c = (if c_id c \<noteq> c_leader c \<or> c_preparing c then Some c else fillCatchup_loop (nat PageSize) c)"

definition page_records :: "('st, 'cfg) core \<Rightarrow> int \<Rightarrow> int \<Rightarrow> logrec list" where
  "page_records c lo hi =
     List.map_filter (\<lambda>s. map_option (\<lambda>r. r\<lparr>r_Ballot := c_ballot c\<rparr>) (mget (c_log c) s)) [lo..hi]"

text \<open>Records grouped by destination mask, in the order in which the masks first appear.\<close>

type_synonym groups = "(64 word \<times> logrec list) list"

fun add_group :: "64 word \<Rightarrow> logrec \<Rightarrow> groups \<Rightarrow> groups" where
  "add_group m r [] = [(m, [r])]"
| "add_group m r ((m', rs) # gs) = (if m' = m then (m', rs @ [r]) # gs else (m', rs) # add_group m r gs)"

definition notify_mask :: "request \<Rightarrow> ('st, 'cfg) core \<Rightarrow> 64 word" where
  "notify_mask r c = (if Op (req_Command r) = PUT then holderMask (c_policy c) (K (req_Command r)) else 0)"

text \<open>Retransmitting a record under the current lease configuration; the local record follows.\<close>

definition regroup :: "logrec \<Rightarrow> groups \<times> ('st, 'cfg) core \<Rightarrow> (groups \<times> ('st, 'cfg) core) option" where
  "regroup rec = (\<lambda>(gs, c). do {
     let rec = rec\<lparr>r_Committed := False, r_NotifyMask := notify_mask (r_Request rec) c, r_LeaseEpoch := promisedBy (c_lease c)\<rparr>;
     loc \<leftarrow> mget (c_log c) (r_Slot rec);
     let c = c\<lparr>c_votes := (if r_LeaseEpoch loc \<noteq> r_LeaseEpoch rec \<or> r_NotifyMask loc \<noteq> r_NotifyMask rec
            then mdel (r_Slot rec) (c_votes c) else c_votes c),
          c_log := mput (r_Slot rec) (loc\<lparr>r_LeaseEpoch := r_LeaseEpoch rec, r_NotifyMask := r_NotifyMask rec\<rparr>) (c_log c)\<rparr>;
     Some (add_group (writeMask (c_policy c) (req_Command (r_Request rec))) rec gs, c)
   })"

fun regroup_all :: "logrec list \<Rightarrow> groups \<times> ('st, 'cfg) core \<Rightarrow> (groups \<times> ('st, 'cfg) core) option" where
  "regroup_all [] s = Some s"
| "regroup_all (r # rs) s = do { s \<leftarrow> regroup r s; regroup_all rs s }"

fun send_groups :: "('st, 'cfg) deliver \<Rightarrow> groups \<Rightarrow> ('st, 'cfg) core \<Rightarrow> ('st, 'cfg) core option" where
  "send_groups L [] c = Some c"
| "send_groups L ((m, rs) # gs) c = do {
     let p = (Packet packetAccept (c_id c) (c_ballot c))\<lparr>p_LeaseEpoch := promisedBy (c_lease c), p_Records := rs\<rparr>;
     c \<leftarrow> sendMask L m p [0..c_n c - 1] (c\<lparr>c_quorumSends := c_quorumSends c + 1\<rparr>);
     send_groups L gs c
   }"

definition send_page :: "('st, 'cfg) deliver \<Rightarrow> ('st, 'cfg) env \<Rightarrow> int \<Rightarrow> bool \<Rightarrow> time \<Rightarrow> logrec list \<Rightarrow> ('st, 'cfg) core \<Rightarrow> ('st, 'cfg) core option" where
  "send_page L e to fetch now recs c =
     (if recs = [] then Some c
      else if fetch \<and> to \<noteq> c_id c then
        let c = emit (Send to ((Packet packetAccept (c_id c) (c_ballot c))\<lparr>p_LeaseEpoch := promisedBy (c_lease c), p_Records := recs\<rparr>)) c;
            decided = filter r_Committed recs
        in Some (if decided \<noteq> [] then emit (Send to ((Packet packetCommit (c_id c) (c_ballot c))\<lparr>p_Records := decided\<rparr>)) c else c)
      else if c_control c then
        let p = (Packet packetAccept (c_id c) (c_ballot c))\<lparr>p_Records := map (\<lambda>r. r\<lparr>r_Committed := False\<rparr>) recs\<rparr>
        in accept L e p now (emit (Broadcast p) (c\<lparr>c_quorumSends := c_quorumSends c + 1\<rparr>))
      else do { (gs, c) \<leftarrow> regroup_all recs ([], c); send_groups L gs c })"

function sendSuffix_loop :: "('st, 'cfg) deliver \<Rightarrow> ('st, 'cfg) env \<Rightarrow> int \<Rightarrow> bool \<Rightarrow> time \<Rightarrow> int \<Rightarrow> int \<Rightarrow> ('st, 'cfg) core \<Rightarrow> ('st, 'cfg) core option" where
  "sendSuffix_loop L e to fetch now hi lo c =
     (if lo > hi then Some c
      else case send_page L e to fetch now (page_records c lo (min (lo + PageSize - 1) hi)) c of
        None \<Rightarrow> None
      | Some c' \<Rightarrow> sendSuffix_loop L e to fetch now hi (lo + PageSize) c')"
  by pat_completeness auto
termination
  by (relation "measure (\<lambda>(L, e, to, fetch, now, hi, lo, c). nat (hi - lo + 1))") (auto simp: PageSize_def)

declare sendSuffix_loop.simps [simp del]

definition sendSuffix :: "('st, 'cfg) deliver \<Rightarrow> ('st, 'cfg) env \<Rightarrow> int \<Rightarrow> int \<Rightarrow> bool \<Rightarrow> time \<Rightarrow> ('st, 'cfg) core \<Rightarrow> ('st, 'cfg) core option" where
  "sendSuffix L e to start fetch now c =
     (let limit = start + 2048 - 1; hi = (if c_high c > limit then limit else c_high c)
      in sendSuffix_loop L e to fetch now hi start c)"

subsection \<open>Recovery\<close>

definition schedulePending :: "('st, 'cfg) env \<Rightarrow> ('st, 'cfg) core \<Rightarrow> ('st, 'cfg) core" where
  "schedulePending e c = c\<lparr>c_resume := map snd (mrange (order e Loop_pending) (c_pending c))\<rparr>"

definition activate :: "('st, 'cfg) env \<Rightarrow> ('st, 'cfg) core \<Rightarrow> ('st, 'cfg) core" where
  "activate e c =
     (let c = c\<lparr>c_active := True\<rparr>;
          c = emit (Broadcast ((Packet packetReady (c_id c) (c_ballot c))\<lparr>p_High := c_executed c, p_Floor := 1\<rparr>)) c
      in schedulePending e c)"

fun send_pages :: "('st, 'cfg) deliver \<Rightarrow> int \<Rightarrow> packet list \<Rightarrow> ('st, 'cfg) core \<Rightarrow> ('st, 'cfg) core option" where
  "send_pages L to [] c = Some c"
| "send_pages L to (p # ps) c = do { c \<leftarrow> Transport_Send L to p c; send_pages L to ps c }"

definition snapshot_values :: "int \<Rightarrow> ('st, 'cfg) core \<Rightarrow> logrec list" where
  "snapshot_values flr c = List.map_filter (mget (c_log c)) [flr..c_high c]"

definition page_count :: "nat \<Rightarrow> nat" where
  "page_count k = (let cnt = (k + 128 - 1) div 128 in if cnt = 0 then 1 else cnt)"

definition snapshot_page :: "('st, 'cfg) core \<Rightarrow> int \<Rightarrow> logrec list \<Rightarrow> nat \<Rightarrow> packet" where
  "snapshot_page c flr vs page =
     (Packet packetPromise (c_id c) (c_ballot c))\<lparr>p_Floor := flr, p_High := c_high c,
        p_Page := int page, p_Pages := int (page_count (length vs)),
        p_Records := take 128 (drop (page * 128) vs)\<rparr>"

definition snapshot :: "('st, 'cfg) core \<Rightarrow> int \<Rightarrow> packet list" where
  "snapshot c flr =
     (let vs = snapshot_values flr c in map (snapshot_page c flr vs) [0..<page_count (length vs)])"

definition promise :: "('st, 'cfg) deliver \<Rightarrow> packet \<Rightarrow> ('st, 'cfg) core \<Rightarrow> ('st, 'cfg) core option" where
  "promise L p c =
     (if c_frozen c \<noteq> [] \<and> c_frozenBallot c = p_Ballot p \<and> c_frozenFloor c = p_Floor p
      then send_pages L (p_From p) (c_frozen c) c
      else let snap = snapshot c (p_Floor p)
        in send_pages L (p_From p) snap
          (c\<lparr>c_frozen := snap, c_frozenBallot := p_Ballot p, c_frozenFloor := p_Floor p\<rparr>))"

definition pages_complete :: "('st, 'cfg) core \<Rightarrow> packet \<Rightarrow> (int, packet) gomap \<Rightarrow> bool" where
  "pages_complete c p pgs \<longleftrightarrow>
     int (mlen pgs) = p_Pages p \<and>
     (\<forall>page \<in> set [0..p_Pages p - 1]. case mget pgs page of
        None \<Rightarrow> False
      | Some v \<Rightarrow> p_Pages v = p_Pages p \<and> p_Floor v = c_executed c + 1 \<and> p_High v = p_High p)"

fun select_records :: "logrec list \<Rightarrow> (int, logrec) gomap \<Rightarrow> (int, logrec) gomap" where
  "select_records [] sel = sel"
| "select_records (r # rs) sel = select_records rs
     (case mget sel (r_Slot r) of
        None \<Rightarrow> mput (r_Slot r) r sel
      | Some old \<Rightarrow> if r_Ballot r > r_Ballot old then mput (r_Slot r) r sel else sel)"

fun select_pages :: "packet list \<Rightarrow> (int, logrec) gomap \<times> int \<Rightarrow> (int, logrec) gomap \<times> int" where
  "select_pages [] (sel, high) = (sel, high)"
| "select_pages (p # ps) (sel, high) =
     select_pages ps (select_records (p_Records p) sel, if p_High p > high then p_High p else high)"

definition promised_pages :: "('st, 'cfg) env \<Rightarrow> ('st, 'cfg) core \<Rightarrow> packet list" where
  "promised_pages e c = concat (map
     (\<lambda>(peer, _). map snd (mrange (order e (Loop_pages peer)) (mgetd [] (c_pages c) peer)))
     (mrange (order e Loop_promises) (c_promises c)))"

text \<open>The loop that keeps the executed prefix of the log and forgets the rest.\<close>

definition keep_executed :: "int \<times> logrec \<Rightarrow> ('st, 'cfg) core \<Rightarrow> ('st, 'cfg) core" where
  "keep_executed = (\<lambda>(slot, r) c.
     if slot \<le> c_executed c
     then (if recoveryNoop (r_Request r) then c else c\<lparr>c_assigned := mput (req_ID (r_Request r)) slot (c_assigned c)\<rparr>)
     else c\<lparr>c_log := mdel slot (c_log c)\<rparr>)"

definition refill_slot :: "(int, logrec) gomap \<Rightarrow> int \<Rightarrow> ('st, 'cfg) core \<Rightarrow> ('st, 'cfg) core" where
  "refill_slot sel slot c =
     (let r = (case mget sel slot of Some r \<Rightarrow> r | None \<Rightarrow> noop_record slot);
          r = r\<lparr>r_Ballot := c_ballot c, r_Committed := False\<rparr>;
          cmd = req_Command (r_Request r)
      in c\<lparr>c_log := mput slot r (c_log c),
           c_assigned := (if recoveryNoop (r_Request r) then c_assigned c else mput (req_ID (r_Request r)) slot (c_assigned c)),
           c_updating := (if Op cmd = PUT then mput (K cmd) (mgetd 0 (c_updating c) (K cmd) + 1) (c_updating c) else c_updating c)\<rparr>)"

definition recover :: "('st, 'cfg) env \<Rightarrow> ('st, 'cfg) core \<Rightarrow> ('st, 'cfg) core option" where
  "recover e c = do {
     let (sel, high) = select_pages (promised_pages e c) ([], c_executed c);
     let c = c\<lparr>c_preparing := False, c_high := high, c_assigned := [], c_updating := []\<rparr>;
     let c = fold keep_executed (mrange (order e Loop_log) (c_log c)) c;
     let c = fold (refill_slot sel) [c_executed c + 1..high] c;
     c \<leftarrow> fillCatchup c;
     Some (c\<lparr>c_recoveryEnd := c_high c, c_votes := []\<rparr>)
   }"

definition promiseReply :: "('st, 'cfg) deliver \<Rightarrow> ('st, 'cfg) env \<Rightarrow> packet \<Rightarrow> time \<Rightarrow> ('st, 'cfg) core \<Rightarrow> ('st, 'cfg) core option" where
  "promiseReply L e p now c =
     (if \<not> c_preparing c \<or> c_leader c \<noteq> c_id c \<or> p_Pages p \<le> 0 \<or> p_Page p < 0 \<or> p_Page p \<ge> p_Pages p
      then Some c
      else
        let pgs = mput (p_Page p) p (mgetd [] (c_pages c) (p_From p));
            c = c\<lparr>c_pages := mput (p_From p) pgs (c_pages c)\<rparr>
        in if \<not> pages_complete c p pgs then Some c
        else
          let c = c\<lparr>c_promises := mput (p_From p) True (c_promises c)\<rparr>
          in if int (mlen (c_promises c)) < go_div (c_n c) 2 + 1 then Some c
          else do {
            c \<leftarrow> recover e c;
            c \<leftarrow> sendSuffix L e (c_id c) (c_executed c + 1) False now c;
            Some (if c_executed c \<ge> c_recoveryEnd c then activate e c else c)
          })"

subsection \<open>Receiving a packet\<close>

fun commit_loop :: "logrec list \<Rightarrow> ('st, 'cfg) core \<Rightarrow> ('st, 'cfg) core option" where
  "commit_loop [] c = Some c"
| "commit_loop (r # rs) c = do {
     c \<leftarrow> install r c;
     old \<leftarrow> mget (c_log c) (r_Slot r);
     commit_loop rs (c\<lparr>c_log := mput (r_Slot r) (old\<lparr>r_Committed := True\<rparr>) (c_log c)\<rparr>)
   }"

fun submit_all :: "('st, 'cfg) env \<Rightarrow> time \<Rightarrow> request list \<Rightarrow> ('st, 'cfg) core \<Rightarrow> ('st, 'cfg) core option" where
  "submit_all e now [] c = Some c"
| "submit_all e now (r # rs) c = do { c \<leftarrow> submit e r now c; submit_all e now rs c }"

definition hasUnexcludedSuspect :: "('st, 'cfg) core \<Rightarrow> bool option" where
  "hasUnexcludedSuspect c = do {
     latest \<leftarrow> mget (c_policies c) (c_latestEpoch c);
     Some (c_suspected c AND NOT (excluded latest) \<noteq> 0)
   }"

definition receive_lease :: "('st, 'cfg) env \<Rightarrow> lease_kind \<Rightarrow> packet \<Rightarrow> time \<Rightarrow> ('st, 'cfg) core \<Rightarrow> ('st, 'cfg) core option" where
  "receive_lease e k p now c = do {
     suspect \<leftarrow> (if k = packetGuardAck \<and> \<not> c_latestEpoch c > promisedBy (c_lease c) then hasUnexcludedSuspect c else Some False);
     if k = packetLeasePromise \<and> mget (c_policies c) (p_LeaseEpoch p) = None then config_requestFetch e now c
     else if k = packetGuardAck \<and> (c_latestEpoch c > promisedBy (c_lease c) \<or> suspect) then Some c
     else let (_, l, out) = PqlLease.receive (lease_part k p) now (c_high c) (c_lease c)
       in Some (send_leases out (c\<lparr>c_lease := l\<rparr>))
   }"

definition receive_ready :: "('st, 'cfg) env \<Rightarrow> packet \<Rightarrow> time \<Rightarrow> ('st, 'cfg) core \<Rightarrow> ('st, 'cfg) core" where
  "receive_ready e p now c =
     (if p_From p \<noteq> c_leader c then c
      else
        let c = (if p_Floor p = 1 \<and> \<not> c_active c then schedulePending e (c\<lparr>c_active := True\<rparr>) else c)
        in if p_High p > c_executed c then requestFetch now c else c)"

definition receive_fetch :: "('st, 'cfg) deliver \<Rightarrow> ('st, 'cfg) env \<Rightarrow> packet \<Rightarrow> time \<Rightarrow> ('st, 'cfg) core \<Rightarrow> ('st, 'cfg) core option" where
  "receive_fetch L e p now c =
     (if c_leader c \<noteq> c_id c then Some c
      else
        let c = (if p_High p > c_catchupTarget c then c\<lparr>c_catchupTarget := p_High p\<rparr> else c)
        in if c_preparing c then Some c
        else do { c \<leftarrow> fillCatchup c; sendSuffix L e (p_From p) (p_Floor p) True now c })"

definition receive_forwardReply :: "packet \<Rightarrow> ('st, 'cfg) core \<Rightarrow> ('st, 'cfg) core" where
  "receive_forwardReply p c = (case p_Requests p of
     [r] \<Rightarrow>
       if p_From p \<noteq> c_leader c \<or> req_Origin r \<noteq> c_id c then c
       else emit (Reply r (p_Result p)) (c\<lparr>c_forwardResults := mput (req_ID r) (p_Result p) (c_forwardResults c),
              c_pending := mdel (req_ID r) (c_pending c)\<rparr>)
   | _ \<Rightarrow> c)"

definition receive_prepare :: "('st, 'cfg) deliver \<Rightarrow> packet \<Rightarrow> time \<Rightarrow> ('st, 'cfg) core \<Rightarrow> ('st, 'cfg) core option" where
  "receive_prepare L p now c =
     (if p_Ballot p < c_ballot c then Some c
      else let c = (if p_Ballot p > c_ballot c
             then c\<lparr>c_ballot := p_Ballot p, c_leader := p_From p, c_preparing := False, c_votes := []\<rparr>
             else c)
        in promise L p (c\<lparr>c_active := False, c_leaderHeard := now\<rparr>))"

definition receive_log :: "('st, 'cfg) deliver \<Rightarrow> ('st, 'cfg) env \<Rightarrow> packet \<Rightarrow> time \<Rightarrow> ('st, 'cfg) core \<Rightarrow> ('st, 'cfg) core option" where
  "receive_log L e p now c =
     (let c = (if p_Kind p = packetReady \<and> p_Ballot p > c_ballot c
           then c\<lparr>c_ballot := p_Ballot p, c_leader := p_From p, c_preparing := False, c_active := False, c_votes := []\<rparr>
           else c)
      in if p_Ballot p \<noteq> c_ballot c then Some c
      else
        let c = (if p_From p = c_leader c \<and> p_Kind p \<in> {packetReady, packetAccept, packetCommit} then c\<lparr>c_leaderHeard := now\<rparr> else c)
        in case p_Kind p of
            packetPromise \<Rightarrow> promiseReply L e p now c
          | packetAccept \<Rightarrow> if p_From p = c_leader c then accept L e p now c else Some c
          | packetAck \<Rightarrow> ack e p c
          | packetCommit \<Rightarrow>
              if p_From p \<noteq> c_leader c then Some c
              else do { c \<leftarrow> commit_loop (p_Records p) c; apply_log e c }
          | packetReady \<Rightarrow> Some (receive_ready e p now c)
          | packetFetch \<Rightarrow> receive_fetch L e p now c
          | packetForward \<Rightarrow> if c_id c = c_leader c \<and> c_active c then submit_all e now (p_Requests p) c else Some c
          | packetForwardReply \<Rightarrow> Some (receive_forwardReply p c)
          | _ \<Rightarrow> Some c)"

definition receive_body :: "('st, 'cfg) deliver \<Rightarrow> ('st, 'cfg) env \<Rightarrow> packet \<Rightarrow> time \<Rightarrow> ('st, 'cfg) core \<Rightarrow> ('st, 'cfg) core option" where
  "receive_body L e p now c =
     (let (now, c) = observeTime e now c in
      if p_From p < 0 \<or> p_From p \<ge> c_n c then Some c
      else if p_Control p \<and> \<not> c_control c then with_config (cfg_receive (ops e) p now (c_config c)) c
      else if \<not> c_control c \<and> p_Kind p = packetSuspect then Some c
      else case p_Kind p of
          packetLease k \<Rightarrow> if c_control c then receive_log L e p now c else receive_lease e k p now c
        | packetPrepare \<Rightarrow> receive_prepare L p now c
        | _ \<Rightarrow> receive_log L e p now c)"

text \<open>
  Local deliveries nest at most three times: a Prepare makes the replica send itself a Promise, whose
  handling can send it an Accept, whose handling can send it an Ack.
\<close>

definition receive_ack :: "('st, 'cfg) env \<Rightarrow> time \<Rightarrow> packet \<Rightarrow> ('st, 'cfg) core \<Rightarrow> ('st, 'cfg) core option" where
  "receive_ack e now p = receive_body (\<lambda>p c. None) e p now"

definition receive_accept :: "('st, 'cfg) env \<Rightarrow> time \<Rightarrow> packet \<Rightarrow> ('st, 'cfg) core \<Rightarrow> ('st, 'cfg) core option" where
  "receive_accept e now p = receive_body (receive_ack e now) e p now"

definition receive_promised :: "('st, 'cfg) env \<Rightarrow> time \<Rightarrow> packet \<Rightarrow> ('st, 'cfg) core \<Rightarrow> ('st, 'cfg) core option" where
  "receive_promised e now p = receive_body (receive_accept e now) e p now"

definition receive :: "('st, 'cfg) env \<Rightarrow> packet \<Rightarrow> time \<Rightarrow> ('st, 'cfg) core \<Rightarrow> ('st, 'cfg) core option" where
  "receive e p now = receive_body (receive_promised e now) e p now"

subsection \<open>Elections and flushing\<close>

definition Begin :: "('st, 'cfg) env \<Rightarrow> time \<Rightarrow> ('st, 'cfg) core \<Rightarrow> ('st, 'cfg) core option" where
  "Begin e now c =
     (let (now, c) = observeTime e now c;
          c = c\<lparr>c_leaderHeard := now, c_ballot := (go_div (c_ballot c) (c_n c) + 1) * c_n c + c_id c, c_leader := c_id c,
            c_active := False, c_preparing := True, c_recoveries := c_recoveries c + 1, c_pages := [],
            c_promises := [], c_votes := [], c_lastSend := now\<rparr>
      in do {
        c \<leftarrow> (if c_control c then Some c else with_config (cfg_Begin (ops e) now (c_config c)) c);
        let p = (Packet packetPrepare (c_id c) (c_ballot c))\<lparr>p_Floor := c_executed c + 1\<rparr>;
        receive e p now (emit (Broadcast p) c)
      })"

fun flush_loop :: "request_id list \<Rightarrow> int \<Rightarrow> groups \<Rightarrow> ('st, 'cfg) core \<Rightarrow> (groups \<times> ('st, 'cfg) core) option" where
  "flush_loop [] cnt gs c = Some (gs, c\<lparr>c_queue := []\<rparr>)"
| "flush_loop (rid # q) cnt gs c =
     (if \<not> (cnt < PageSize \<and> c_high c - c_executed c < AdmissionWindow) then Some (gs, c\<lparr>c_queue := rid # q\<rparr>)
      else
        let c = c\<lparr>c_queue := q, c_queued := mdel rid (c_queued c)\<rparr>
        in if mget (c_assigned c) rid \<noteq> None then flush_loop q cnt gs c
        else if mget (c_values c) rid \<noteq> None then flush_loop q cnt gs c
        else (case mget (c_pending c) rid of
            None \<Rightarrow> flush_loop q cnt gs c
          | Some r \<Rightarrow> do {
              let h = c_high c + 1;
              let rec = \<lparr>r_Slot = h, r_Ballot = c_ballot c, r_Request = r, r_Committed = False, r_NotifyMask = 0, r_LeaseEpoch = 0\<rparr>;
              c \<leftarrow> install rec (c\<lparr>c_high := h\<rparr>);
              flush_loop q (cnt + 1) (add_group (if c_control c then 0 else writeMask (c_policy c) (req_Command r)) rec gs) c
            }))"

text \<open>The records of one group get the current epoch and holders, in the packet and in the log.\<close>

definition stamp :: "('st, 'cfg) core \<Rightarrow> logrec \<Rightarrow> logrec" where
  "stamp c rec = rec\<lparr>r_LeaseEpoch := promisedBy (c_lease c),
     r_NotifyMask := (if \<not> c_control c \<and> Op (req_Command (r_Request rec)) = PUT
       then holderMask (c_policy c) (K (req_Command (r_Request rec))) else r_NotifyMask rec)\<rparr>"

fun stamp_log :: "logrec list \<Rightarrow> ('st, 'cfg) core \<Rightarrow> ('st, 'cfg) core option" where
  "stamp_log [] c = Some c"
| "stamp_log (rec # rs) c = do {
     loc \<leftarrow> mget (c_log c) (r_Slot rec);
     stamp_log rs (c\<lparr>c_log := mput (r_Slot rec) (loc\<lparr>r_LeaseEpoch := r_LeaseEpoch rec, r_NotifyMask := r_NotifyMask rec\<rparr>) (c_log c)\<rparr>)
   }"

fun flush_groups :: "('st, 'cfg) deliver \<Rightarrow> ('st, 'cfg) env \<Rightarrow> time \<Rightarrow> groups \<Rightarrow> ('st, 'cfg) core \<Rightarrow> ('st, 'cfg) core option" where
  "flush_groups L e now [] c = Some c"
| "flush_groups L e now ((m, rs) # gs) c = do {
     let records = map (stamp c) rs;
     c \<leftarrow> stamp_log records c;
     let p = (Packet packetAccept (c_id c) (c_ballot c))\<lparr>p_LeaseEpoch := promisedBy (c_lease c), p_Records := records\<rparr>;
     let c = c\<lparr>c_quorumSends := c_quorumSends c + 1\<rparr>;
     c \<leftarrow> (if c_control c then accept L e p now (emit (Broadcast p) c) else sendMask L m p [0..c_n c - 1] c);
     flush_groups L e now gs c
   }"

definition flush :: "('st, 'cfg) deliver \<Rightarrow> ('st, 'cfg) env \<Rightarrow> time \<Rightarrow> ('st, 'cfg) core \<Rightarrow> ('st, 'cfg) core option" where
  "flush L e now c =
     (if c_high c - c_executed c \<ge> AdmissionWindow then Some c
      else do { (gs, c) \<leftarrow> flush_loop (c_queue c) 0 [] c; flush_groups L e now gs c })"

subsection \<open>Maintaining the lease configuration\<close>

definition proposeConfiguration :: "('st, 'cfg) env \<Rightarrow> leaseChange \<Rightarrow> time \<Rightarrow> ('st, 'cfg) core \<Rightarrow> ('st, 'cfg) core option" where
  "proposeConfiguration e change now c = do {
     let c = c\<lparr>c_configSequence := int32 (c_configSequence c + 1)\<rparr>;
     let r = \<lparr>req_ID = RequestID (-2 - c_id c) (c_configSequence c), req_Command = \<lparr>Op = NONE, K = 0, V = []\<rparr>,
           req_Origin = c_id c, req_Timestamp = 0, req_Change = Some change\<rparr>;
     c \<leftarrow> with_config (cfg_submit (ops e) r now (c_config c)) c;
     Some (c\<lparr>c_lastConfigProposal := now\<rparr>)
   }"

definition observed_update :: "('st, 'cfg) core \<Rightarrow> leasePolicy \<Rightarrow> key \<Rightarrow> (key \<times> 64 word) option" where
  "observed_update c policy k =
     (let counts = mgetd [] (c_readStats c) k;
          old = holderMask policy k;
          is = filter (\<lambda>i. i \<noteq> c_leader c \<and> excluded policy AND bit_of i = 0) [0..c_n c - 1]
      in if int (length is) < c_n c div 2 then None
      else let m = choose_holders (c_n c) (c_leader c) (\<lambda>i. (- uint (counts ! nat i), old AND bit_of i = 0, i)) is
        in if m \<noteq> old then Some (k, m) else None)"

function propose_batches :: "('st, 'cfg) env \<Rightarrow> leasePolicy \<Rightarrow> (key \<times> 64 word) list \<Rightarrow> time \<Rightarrow> ('st, 'cfg) core \<Rightarrow> ('st, 'cfg) core option" where
  "propose_batches e policy updates now c =
     (if updates = [] then Some c
      else case proposeConfiguration e \<lparr>ch_Leader = c_leader c, ch_Excluded = excluded policy, ch_Updates = take 5000 updates\<rparr> now c of
        None \<Rightarrow> None
      | Some c' \<Rightarrow> propose_batches e policy (drop 5000 updates) now c')"
  by pat_completeness auto
termination
  by (relation "measure (\<lambda>(e, policy, updates, now, c). length updates)") auto

declare propose_batches.simps [simp del]

definition proposeObservedHolders :: "('st, 'cfg) env \<Rightarrow> time \<Rightarrow> ('st, 'cfg) core \<Rightarrow> ('st, 'cfg) core option" where
  "proposeObservedHolders e now c = do {
     policy \<leftarrow> mget (c_policies c) (c_latestEpoch c);
     let updates = List.map_filter (observed_update c policy) (sort_key sint (mkeys (c_readStats c)));
     propose_batches e policy updates now (c\<lparr>c_readStats := []\<rparr>)
   }"

text \<open>The failure detector: silent connections and unanswered lease traffic.\<close>

definition suspect_peer :: "time \<Rightarrow> 64 word \<Rightarrow> nat \<times> bool \<Rightarrow> ('st, 'cfg) core \<Rightarrow> ('st, 'cfg) core" where
  "suspect_peer now excl = (\<lambda>(peer, up) c.
     if int peer = c_id c then c
     else
       let c = (if up then c\<lparr>c_unresponsive := (c_unresponsive c)[peer := 0]\<rparr>
                else if c_unresponsive c ! peer = 0 then c\<lparr>c_unresponsive := (c_unresponsive c)[peer := now]\<rparr> else c);
           lastReply = lastResponse (c_lease c) ! peer
       in if excl AND bit_of (int peer) \<noteq> 0 then c
       else if c_unresponsive c ! peer \<noteq> 0 \<and> time_sub now (c_unresponsive c ! peer) \<ge> failureGrace \<or>
          lastReply \<noteq> 0 \<and> time_sub (lastSent (c_lease c) ! peer) lastReply \<ge> failureGrace
       then c\<lparr>c_suspected := c_suspected c OR bit_of (int peer)\<rparr> else c)"

definition start_configurations :: "time \<Rightarrow> ('st, 'cfg) core \<Rightarrow> ('st, 'cfg) core" where
  "start_configurations now c =
     (let c = c\<lparr>c_suspected := c_suspected c AND NOT (bit_of (c_id c))\<rparr>
      in if c_nextConfiguration c \<noteq> 0 then c
      else c\<lparr>c_nextConfiguration := now + configurationInterval,
             c_lease := (c_lease c)\<lparr>lastResponse := map (\<lambda>_. now) (lastResponse (c_lease c))\<rparr>\<rparr>)"

definition propose_changes :: "('st, 'cfg) env \<Rightarrow> (('st, 'cfg) core \<Rightarrow> bool) \<Rightarrow> time \<Rightarrow> ('st, 'cfg) core \<Rightarrow> ('st, 'cfg) core option" where
  "propose_changes e config_ready now c = do {
     latest \<leftarrow> mget (c_policies c) (c_latestEpoch c);
     suspect \<leftarrow> hasUnexcludedSuspect c;
     c \<leftarrow> (if c_id c = c_leader c \<and> config_ready c \<and> (suspect \<or> pol_leader latest \<noteq> c_leader c) \<and> time_sub now (c_lastConfigProposal c) \<ge> Second
          then proposeConfiguration e \<lparr>ch_Leader = c_leader c, ch_Excluded = c_suspected c AND NOT (bit_of (c_id c)), ch_Updates = []\<rparr> now c
          else Some c);
     if c_id c = c_leader c \<and> config_ready c \<and> \<not> now < c_nextConfiguration c
     then do { c \<leftarrow> proposeObservedHolders e now c; Some (c\<lparr>c_nextConfiguration := now + configurationInterval\<rparr>) }
     else Some c
   }"

text \<open>Granting under the current configuration, after the switch.\<close>

definition grant_leases :: "time \<Rightarrow> bool list \<Rightarrow> ('st, 'cfg) core \<Rightarrow> ('st, 'cfg) core option" where
  "grant_leases now alive c = do {
     suspect \<leftarrow> hasUnexcludedSuspect c;
     let excl = excluded (c_policy c);
     if suspect \<or> excl AND bit_of (c_id c) \<noteq> 0 then Some c
     else if started (c_lease c) \<and> now < renewAt (c_lease c) then Some c
     else do {
       let eligible = map (\<lambda>(peer, up). up \<and> excl AND bit_of (int peer) = 0) (enumerate 0 alive);
       (l, out) \<leftarrow> PqlLease.tick now eligible (c_high c) (c_lease c);
       Some (send_leases out (c\<lparr>c_lease := l\<rparr>))
     }
   }"

definition maintainConfigurations :: "('st, 'cfg) env \<Rightarrow> (('st, 'cfg) core \<Rightarrow> bool) \<Rightarrow> time \<Rightarrow> bool list \<Rightarrow> ('st, 'cfg) core \<Rightarrow> ('st, 'cfg) core option" where
  "maintainConfigurations e config_ready now alive c = do {
     let c = start_configurations now c;
     latest \<leftarrow> mget (c_policies c) (c_latestEpoch c);
     let c = fold (suspect_peer now (excluded latest)) (enumerate 0 alive) c;
     c \<leftarrow> propose_changes e config_ready now c;
     if c_latestEpoch c > promisedBy (c_lease c) then
       (if \<not> canWriteOutside now (c_lease c) then Some c
        else do {
          p \<leftarrow> mget (c_policies c) (c_latestEpoch c);
          grant_leases now alive (c\<lparr>c_policy := p, c_lease := switchEpoch (c_latestEpoch c) now (c_lease c)\<rparr>)
        })
     else grant_leases now alive c
   }"

subsection \<open>The timer\<close>

definition candidate :: "bool list \<Rightarrow> ('st, 'cfg) core \<Rightarrow> int" where
  "candidate alive c = (case find (\<lambda>i. alive ! i \<and> int i \<noteq> c_leader c \<and> excluded (c_policy c) AND bit_of (int i) = 0 \<and>
       (int i = c_id c \<or> c_suspected c AND bit_of (int i) = 0)) [0..<length alive] of
     None \<Rightarrow> -1 | Some i \<Rightarrow> int i)"

definition tick_election :: "('st, 'cfg) env \<Rightarrow> time \<Rightarrow> bool list \<Rightarrow> ('st, 'cfg) core \<Rightarrow> ('st, 'cfg) core option" where
  "tick_election e now alive c =
     (if c_control c \<or> c_id c = c_leader c then Some c
      else do {
        leader_alive \<leftarrow> slice_get alive (c_leader c);
        if leader_alive \<and> \<not> time_sub now (c_leaderHeard c) \<ge> failureGrace then Some c
        else
          let c = c\<lparr>c_suspected := c_suspected c OR bit_of (c_leader c)\<rparr>
          in if candidate alive c = c_id c \<and> \<not> c_preparing c then Begin e now c else Some c
      })"

fun local_loop :: "('st, 'cfg) env \<Rightarrow> time \<Rightarrow> nat \<Rightarrow> ('st, 'cfg) core \<Rightarrow> ('st, 'cfg) core option" where
  "local_loop e now 0 c = Some c"
| "local_loop e now (Suc k) c = (case c_localPending c of
     [] \<Rightarrow> None
   | rid # rest \<Rightarrow> do {
       let c = c\<lparr>c_localPending := rest, c_localQueued := mdel rid (c_localQueued c)\<rparr>;
       c \<leftarrow> (case mget (c_pending c) rid of None \<Rightarrow> Some c | Some r \<Rightarrow> submit e r now c);
       local_loop e now k c
     })"

definition tick_local :: "('st, 'cfg) env \<Rightarrow> time \<Rightarrow> ('st, 'cfg) core \<Rightarrow> ('st, 'cfg) core option" where
  "tick_local e now c =
     (let c = (if c_localPending c = [] then c
           else if c_id c = c_leader c
           then (if l_catchup (c_lease c) > c_catchupTarget c then c\<lparr>c_catchupTarget := l_catchup (c_lease c)\<rparr> else c)
           else requestFetch now c)
      in local_loop e now (min (length (c_localPending c)) (nat PageSize)) c)"

fun resume_loop :: "('st, 'cfg) env \<Rightarrow> time \<Rightarrow> nat \<Rightarrow> ('st, 'cfg) core \<Rightarrow> ('st, 'cfg) core option" where
  "resume_loop e now 0 c = Some c"
| "resume_loop e now (Suc k) c = (case c_resume c of [] \<Rightarrow> Some c
     | r # rs \<Rightarrow> do {
         let c = c\<lparr>c_resume := rs\<rparr>;
         c \<leftarrow> (if mget (c_pending c) (req_ID r) \<noteq> None then submit e r now c else Some c);
         resume_loop e now k c
       })"

definition tick_leader :: "('st, 'cfg) env \<Rightarrow> time \<Rightarrow> ('st, 'cfg) core \<Rightarrow> ('st, 'cfg) core option" where
  "tick_leader e now c = do {
     c \<leftarrow> fillCatchup c;
     let c = (if \<not> c_active c \<and> c_executed c \<ge> c_recoveryEnd c then activate e c else c);
     c \<leftarrow> (if c_active c then flush (\<lambda>p. receive e p now) e now c else Some c);
     if time_sub now (c_lastSend c) \<ge> 200 * Millisecond
     then
       let c = c\<lparr>c_lastSend := now\<rparr>;
           c = emit (Broadcast ((Packet packetReady (c_id c) (c_ballot c))
                 \<lparr>p_High := c_executed c, p_Floor := boolInt (c_active c)\<rparr>)) c
       in sendSuffix (\<lambda>p. receive e p now) e (c_id c) (c_executed c + 1) False now c
     else Some c
   }"

definition tick :: "('st, 'cfg) env \<Rightarrow> (('st, 'cfg) core \<Rightarrow> bool) \<Rightarrow> time \<Rightarrow> bool list \<Rightarrow> ('st, 'cfg) core \<Rightarrow> ('st, 'cfg) core option" where
  "tick e config_ready now alive c =
     (let (now, c) = observeTime e now c;
          c = (if c_leaderHeard c = 0 then c\<lparr>c_leaderHeard := now\<rparr> else c)
      in do {
        c \<leftarrow> (if c_control c then Some c else maintainConfigurations e config_ready now alive c);
        c \<leftarrow> tick_election e now alive c;
        c \<leftarrow> (if c_control c then Some c
             else do { c \<leftarrow> tick_local e now c; with_config (cfg_tick (ops e) now alive (c_config c)) c });
        c \<leftarrow> (if c_active c then resume_loop e now (nat PageSize) c else Some c);
        if c_preparing c then
          (if time_sub now (c_lastSend c) \<ge> Second
           then
             let c = c\<lparr>c_lastSend := now\<rparr>;
                 p = (Packet packetPrepare (c_id c) (c_ballot c))\<lparr>p_Floor := c_executed c + 1\<rparr>
             in receive e p now (emit (Broadcast p) c)
           else Some c)
        else if c_leader c = c_id c then tick_leader e now c
        else Some c
      })"

subsection \<open>The two logs together\<close>

definition drain :: "('st, 'cfg) core \<Rightarrow> ('st, 'cfg) core \<times> effect list" where
  "drain c = (c\<lparr>c_out := []\<rparr>, c_out c)"

definition no_ops :: "unit config_ops" where
  "no_ops = \<lparr>cfg_requestFetch = \<lambda>_ c. (c, []), cfg_submit = \<lambda>_ _ _. None, cfg_receive = \<lambda>_ _ _. None, cfg_tick = \<lambda>_ _ _. None, cfg_Begin = \<lambda>_ _. None\<rparr>"

type_synonym config_core = "(unit, unit) core"

definition config_env :: "time option \<Rightarrow> (loop \<Rightarrow> nat list) \<Rightarrow> (unit, unit) env" where
  "config_env rt ord = \<lparr>execute = \<lambda>_ _. None, runtime = rt, order = ord, ops = no_ops\<rparr>"

definition log_ops :: "time option \<Rightarrow> (loop \<Rightarrow> nat list) \<Rightarrow> config_core config_ops" where
  "log_ops rt ord = (let e = config_env rt ord in
     \<lparr>cfg_requestFetch = \<lambda>now c. drain (requestFetch now c),
      cfg_submit = \<lambda>r now c. map_option drain (submit e r now c),
      cfg_receive = \<lambda>p now c. map_option drain (receive e p now c),
      cfg_tick = \<lambda>now alive c. map_option drain (tick e (\<lambda>_. False) now alive c),
      cfg_Begin = \<lambda>now c. map_option drain (Begin e now c)\<rparr>)"

definition data_env :: "(command \<Rightarrow> 'st \<Rightarrow> (bytes \<times> 'st) option) \<Rightarrow> time option \<Rightarrow> (loop \<Rightarrow> nat list) \<Rightarrow> (loop \<Rightarrow> nat list) \<Rightarrow> ('st, config_core) env" where
  "data_env ex rt ord cord = \<lparr>execute = ex, runtime = rt, order = ord, ops = log_ops rt cord\<rparr>"

definition configLog_ready :: "('st, config_core) core \<Rightarrow> bool" where
  "configLog_ready c \<longleftrightarrow> c_active (c_config c) \<and> \<not> c_preparing (c_config c)"

definition replica_tick :: "('st, config_core) env \<Rightarrow> time \<Rightarrow> bool list \<Rightarrow> ('st, config_core) core \<Rightarrow> ('st, config_core) core option" where
  "replica_tick e = tick e configLog_ready"

end
