(* ===== verification/PqlUpdating.thy ===== *)
theory PqlUpdating
  imports PqlCore
begin

text \<open>
  The index \<open>updating\<close> of package \<open>pql\<close> counts, for every key, the writes that this replica has accepted
  and not yet executed; a lease holder reads a key locally only when the count is zero. The index is
  kept incrementally by \<open>install\<close>, \<open>apply\<close> and the recovery; \<open>index_ok\<close> says that it is exact, and every
  handler of the replica preserves it. \<open>F\<close> is the command a client sent under a request identifier.
\<close>

named_theorems keeps_index "handlers that keep the index exact"

definition put_on :: "key \<Rightarrow> logrec \<Rightarrow> bool" where
  "put_on k r \<longleftrightarrow> Op (req_Command (r_Request r)) = PUT \<and> K (req_Command (r_Request r)) = k"

definition req_ok :: "(request_id \<Rightarrow> command) \<Rightarrow> request \<Rightarrow> bool" where
  "req_ok F r \<longleftrightarrow> recoveryNoop r \<or> req_Command r = F (req_ID r)"

definition open_puts :: "int \<Rightarrow> (int, logrec) gomap \<Rightarrow> key \<Rightarrow> int set" where
  "open_puts ex lg k = {s. ex < s \<and> (\<exists>r. mget lg s = Some r \<and> put_on k r)}"

definition log_ok :: "(request_id \<Rightarrow> command) \<Rightarrow> int \<Rightarrow> (int, logrec) gomap \<Rightarrow> bool" where
  "log_ok F ex lg \<longleftrightarrow> -1 \<le> ex \<and> (\<forall>s. 0 \<le> s \<and> s \<le> ex \<longrightarrow> mget lg s \<noteq> None) \<and>
     (\<forall>s r. mget lg s = Some r \<longrightarrow> req_ok F (r_Request r) \<and> r_Slot r = s \<and> 0 \<le> s \<and> (s \<le> ex \<longrightarrow> r_Committed r))"

definition index_ok :: "(request_id \<Rightarrow> command) \<Rightarrow> int \<Rightarrow> (int, logrec) gomap \<Rightarrow> (key, int) gomap \<Rightarrow> bool" where
  "index_ok F ex lg upd \<longleftrightarrow> log_ok F ex lg \<and> (\<forall>k. mgetd 0 upd k = int (card (open_puts ex lg k)))"

lemma finite_open_puts [simp]: "finite (open_puts ex lg k)"
proof (rule finite_subset)
  show "open_puts ex lg k \<subseteq> dom (map_of lg)" by (auto simp: open_puts_def)
qed (rule finite_dom_map_of)

lemma open_puts_put:
  "open_puts ex (mput s r lg) k = (if ex < s \<and> put_on k r then insert s (open_puts ex lg k) else open_puts ex lg k - {s})"
  by (auto simp: open_puts_def)

lemma noop_not_put: "recoveryNoop (r_Request r) \<Longrightarrow> \<not> put_on k r"
  by (simp add: recoveryNoop_def put_on_def)

text \<open>Replacing a record by one for the same request.\<close>

lemma index_same:
  assumes "index_ok F ex lg upd" "mget lg s = Some old" "r_Slot r = s" "req_ok F (r_Request r)" "s \<le> ex \<longrightarrow> r_Committed r"
    "\<And>k. put_on k r = put_on k old"
  shows "index_ok F ex (mput s r lg) upd"
proof -
  have "open_puts ex (mput s r lg) k = open_puts ex lg k" for k
    using assms(2,6) by (auto simp: open_puts_put open_puts_def)
  then show ?thesis using assms(1-5) by (auto simp: index_ok_def log_ok_def)
qed

lemma same_request_put:
  assumes "same_request old r" "req_ok F (r_Request old)" "req_ok F (r_Request r)"
  shows "put_on k r = put_on k old"
  using assms noop_not_put [of r k] noop_not_put [of old k] by (auto simp: same_request_def req_ok_def put_on_def)

definition dec :: "key \<Rightarrow> (key, int) gomap \<Rightarrow> (key, int) gomap" where
  "dec k u = (if mgetd 0 u k \<le> 1 then mdel k u else mput k (mgetd 0 u k - 1) u)"

definition inc :: "key \<Rightarrow> (key, int) gomap \<Rightarrow> (key, int) gomap" where
  "inc k u = mput k (mgetd 0 u k + 1) u"

lemma mgetd_dec: "0 < mgetd 0 u k \<Longrightarrow> mgetd 0 (dec k u) k' = mgetd 0 u k' - (if k' = k then 1 else 0)"
  by (simp add: dec_def)

lemma mgetd_inc: "mgetd 0 (inc k u) k' = mgetd 0 u k' + (if k' = k then 1 else 0)"
  by (simp add: inc_def)

lemma removeUpdating_dec: "removeUpdating k c = c\<lparr>c_updating := dec k (c_updating c)\<rparr>"
  by (simp add: removeUpdating_def dec_def)

definition put_key :: "logrec \<Rightarrow> key" where "put_key r = K (req_Command (r_Request r))"

abbreviation is_put :: "logrec \<Rightarrow> bool" where "is_put r \<equiv> Op (req_Command (r_Request r)) = PUT"

lemma put_on_key: "put_on k r \<longleftrightarrow> is_put r \<and> put_key r = k"
  by (simp add: put_on_def put_key_def)

text \<open>Replacing the record of an open slot, or filling it, by one for another request.\<close>

lemma index_fill:
  assumes inv: "index_ok F ex lg upd" and s: "r_Slot r = s" "ex < s" "0 \<le> s" and r: "req_ok F (r_Request r)"
    and u: "u = (case mget lg s of Some old \<Rightarrow> if is_put old then dec (put_key old) upd else upd | None \<Rightarrow> upd)"
  shows "index_ok F ex (mput s r lg) (if is_put r then inc (put_key r) u else u)"
proof -
  have card: "mgetd 0 upd k = int (card (open_puts ex lg k))" for k using inv by (simp add: index_ok_def)
  have u_card: "mgetd 0 u k = int (card (open_puts ex lg k - {s}))" for k
  proof (cases "\<exists>old. mget lg s = Some old \<and> is_put old")
    case True
    then obtain old where old: "mget lg s = Some old" "is_put old" by blast
    have mem: "s \<in> open_puts ex lg k \<longleftrightarrow> k = put_key old" for k using old s(2) by (auto simp: open_puts_def put_on_key)
    have pos: "0 < mgetd 0 upd (put_key old)" using mem [of "put_key old"] by (auto simp: card card_gt_0_iff)
    show ?thesis using old u mgetd_dec [OF pos, of k] mem [of k] card [of k] pos
      by (cases "k = put_key old") (auto simp: card_Diff_singleton of_nat_diff)
  next
    case False
    then have "s \<notin> open_puts ex lg k" by (auto simp: open_puts_def put_on_key)
    then show ?thesis using False u card by (auto split: option.splits)
  qed
  have "mgetd 0 (if is_put r then inc (put_key r) u else u) k = int (card (open_puts ex (mput s r lg) k))" for k
  proof -
    have "card (insert s (open_puts ex lg k)) = Suc (card (open_puts ex lg k - {s}))" by (simp add: card.insert_remove)
    then show ?thesis using s(2) u_card by (auto simp: open_puts_put put_on_key mgetd_inc)
  qed
  moreover have "log_ok F ex (mput s r lg)" using inv s r by (auto simp: index_ok_def log_ok_def)
  ultimately show ?thesis by (simp add: index_ok_def)
qed

text \<open>Executing the next slot.\<close>

lemma index_execute:
  assumes inv: "index_ok F ex lg upd" and r: "mget lg (ex + 1) = Some r" "r_Committed r"
  shows "index_ok F (ex + 1) lg (if is_put r then dec (put_key r) upd else upd)"
proof -
  have o: "open_puts (ex + 1) lg k = open_puts ex lg k - {ex + 1}" for k by (auto simp: open_puts_def)
  have mem: "ex + 1 \<in> open_puts ex lg k \<longleftrightarrow> put_on k r" for k using r(1) by (auto simp: open_puts_def)
  have card: "mgetd 0 upd k = int (card (open_puts ex lg k))" for k using inv by (simp add: index_ok_def)
  have "mgetd 0 (if is_put r then dec (put_key r) upd else upd) k = int (card (open_puts (ex + 1) lg k))" for k
  proof (cases "is_put r")
    case True
    then have pos: "0 < mgetd 0 upd (put_key r)" using mem [of "put_key r"] by (auto simp: card card_gt_0_iff put_on_key)
    show ?thesis using True mgetd_dec [OF pos, of k] mem [of k] card [of k] pos
      by (cases "k = put_key r") (auto simp: o put_on_key card_Diff_singleton of_nat_diff)
  next
    case False
    then show ?thesis using mem [of k] card by (simp add: o put_on_key)
  qed
  moreover have "s \<le> ex + 1 \<longleftrightarrow> s \<le> ex \<or> s = ex + 1" for s by linarith
  then have "log_ok F (ex + 1) lg" using inv r by (auto simp: index_ok_def log_ok_def)
  ultimately show ?thesis by (simp add: index_ok_def)
qed

subsection \<open>The invariant of a replica\<close>

definition rec_ok :: "(request_id \<Rightarrow> command) \<Rightarrow> logrec \<Rightarrow> bool" where
  "rec_ok F r \<longleftrightarrow> req_ok F (r_Request r) \<and> 0 \<le> r_Slot r"

text \<open>Packets whose records end up in a log.\<close>

definition pkt_ok :: "(request_id \<Rightarrow> command) \<Rightarrow> packet \<Rightarrow> bool" where
  "pkt_ok F p \<longleftrightarrow> (p_Kind p \<in> {packetPromise, packetAccept, packetCommit} \<longrightarrow> (\<forall>r\<in>set (p_Records p). rec_ok F r)) \<and>
     (\<forall>r\<in>set (p_Requests p). req_ok F r)"

definition stored_ok :: "(request_id \<Rightarrow> command) \<Rightarrow> (request_id, request) gomap \<Rightarrow> request list \<Rightarrow> (int, (int, packet) gomap) gomap \<Rightarrow> packet list \<Rightarrow> bool" where
  "stored_ok F pend res pgs frz \<longleftrightarrow> (\<forall>i r. mget pend i = Some r \<longrightarrow> req_ok F r) \<and> (\<forall>r\<in>set res. req_ok F r) \<and>
     (\<forall>i m j p. mget pgs i = Some m \<longrightarrow> mget m j = Some p \<longrightarrow> (\<forall>r\<in>set (p_Records p). rec_ok F r)) \<and>
     (\<forall>p\<in>set frz. pkt_ok F p)"

definition UInv :: "(request_id \<Rightarrow> command) \<Rightarrow> ('st, 'cfg) core \<Rightarrow> bool" where
  "UInv F c \<longleftrightarrow> index_ok F (c_executed c) (c_log c) (c_updating c) \<and> -1 \<le> c_high c \<and>
     stored_ok F (c_pending c) (c_resume c) (c_pages c) (c_frozen c)"

lemma UInv_log: "UInv F c \<Longrightarrow> mget (c_log c) s = Some r \<Longrightarrow> req_ok F (r_Request r) \<and> r_Slot r = s \<and> 0 \<le> s \<and> (s \<le> c_executed c \<longrightarrow> r_Committed r)"
  by (auto simp: UInv_def index_ok_def log_ok_def)

lemma UInv_executed: "UInv F c \<Longrightarrow> -1 \<le> c_executed c"
  by (simp add: UInv_def index_ok_def log_ok_def)

lemma UInv_emit [simp]: "UInv F (emit x c) = UInv F c"
  by (simp add: UInv_def emit_def)

lemma UInv_frame [simp]:
  "UInv F (c\<lparr>c_votes := v\<rparr>) = UInv F c" "UInv F (c\<lparr>c_values := vs\<rparr>) = UInv F c" "UInv F (c\<lparr>c_app := a, c_values := vs\<rparr>) = UInv F c"
  "UInv F (c\<lparr>c_clock := t\<rparr>) = UInv F c" "UInv F (c\<lparr>c_config := g\<rparr>) = UInv F c" "UInv F (c\<lparr>c_assigned := m\<rparr>) = UInv F c"
  "UInv F (c\<lparr>c_gapAccepts := w\<rparr>) = UInv F c" "UInv F (c\<lparr>c_leaseRejects := w\<rparr>) = UInv F c" "UInv F (c\<lparr>c_quorumSends := w\<rparr>) = UInv F c"
  "UInv F (c\<lparr>c_active := b\<rparr>) = UInv F c" "UInv F (c\<lparr>c_leaderHeard := t\<rparr>) = UInv F c" "UInv F (c\<lparr>c_active := b, c_leaderHeard := t\<rparr>) = UInv F c"
  "UInv F (c\<lparr>c_lastSend := t\<rparr>) = UInv F c" "UInv F (c\<lparr>c_suspected := m64\<rparr>) = UInv F c" "UInv F (c\<lparr>c_catchupTarget := z\<rparr>) = UInv F c"
  "UInv F (c\<lparr>c_promises := ps\<rparr>) = UInv F c" "UInv F (c\<lparr>c_lease := l\<rparr>) = UInv F c" "UInv F (c\<lparr>c_readStats := rs\<rparr>) = UInv F c"
  "UInv F (c\<lparr>c_policies := q, c_latestEpoch := z\<rparr>) = UInv F c" "UInv F (c\<lparr>c_policy := po, c_lease := l\<rparr>) = UInv F c"
  "UInv F (c\<lparr>c_queue := qu\<rparr>) = UInv F c" "UInv F (c\<lparr>c_queue := qu, c_queued := qd\<rparr>) = UInv F c"
  "UInv F (c\<lparr>c_nextConfiguration := t\<rparr>) = UInv F c" "UInv F (c\<lparr>c_lastConfigProposal := t\<rparr>) = UInv F c" "UInv F (c\<lparr>c_configSequence := z\<rparr>) = UInv F c"
  "UInv F (c\<lparr>c_localPending := li, c_localQueued := qd\<rparr>) = UInv F c" "UInv F (c\<lparr>c_localQueued := qd, c_localPending := li\<rparr>) = UInv F c"
  "UInv F (c\<lparr>c_unresponsive := ts\<rparr>) = UInv F c" "UInv F (c\<lparr>c_replayReplies := w\<rparr>) = UInv F c" "UInv F (c\<lparr>c_fetchSuppressed := w\<rparr>) = UInv F c"
  "UInv F (c\<lparr>c_lastFetch := t, c_fetchRequests := w\<rparr>) = UInv F c" "UInv F (c\<lparr>c_loggedReads := w\<rparr>) = UInv F c" "UInv F (c\<lparr>c_forwardedReads := w\<rparr>) = UInv F c"
  "UInv F (c\<lparr>c_nextConfiguration := t, c_lease := l\<rparr>) = UInv F c" "UInv F (c\<lparr>c_votes := v, c_log := lg\<rparr>) = UInv F (c\<lparr>c_log := lg\<rparr>)"
  by (simp_all add: UInv_def)

lemma UInv_pending [simp]: "UInv F c \<Longrightarrow> req_ok F r \<Longrightarrow> UInv F (c\<lparr>c_pending := mput i r (c_pending c)\<rparr>)"
  by (auto simp: UInv_def stored_ok_def)

lemma UInv_unpend [simp]: "UInv F c \<Longrightarrow> UInv F (c\<lparr>c_pending := mdel i (c_pending c)\<rparr>)"
  by (auto simp: UInv_def stored_ok_def)

subsection \<open>Installing and executing\<close>

lemma install_new_UInv:
  assumes inv: "UInv F c" and r: "rec_ok F r" "c_executed c < r_Slot r"
    and u: "upd = (case mget (c_log c) (r_Slot r) of Some old \<Rightarrow> if is_put old then dec (put_key old) (c_updating c) else c_updating c | None \<Rightarrow> c_updating c)"
  shows "UInv F (install_new r (c\<lparr>c_updating := upd\<rparr>))"
proof -
  have "index_ok F (c_executed c) (mput (r_Slot r) r (c_log c)) (if is_put r then inc (put_key r) upd else upd)"
    by (rule index_fill [OF _ refl r(2) _ _ u]) (use inv r in \<open>auto simp: UInv_def rec_ok_def\<close>)
  then show ?thesis using inv r(2)
    by (cases "is_put r") (simp_all add: UInv_def install_new_def Let_def inc_def put_key_def)
qed

lemma updating_assigned: "c\<lparr>c_assigned := m, c_updating := u\<rparr> = c\<lparr>c_updating := u, c_assigned := m\<rparr>"
  by simp

lemma open_slot:
  assumes "UInv F c" "0 \<le> s" "mget (c_log c) s = None \<or> (\<exists>old. mget (c_log c) s = Some old \<and> \<not> r_Committed old)"
  shows "c_executed c < s"
  using assms by (cases "s \<le> c_executed c") (auto simp: UInv_def index_ok_def log_ok_def)

lemma install_UInv [keeps_index]:
  assumes inv: "UInv F c" and r: "rec_ok F r" and res: "install r c = Some c'"
  shows "UInv F c'"
proof (cases "mget (c_log c) (r_Slot r)")
  case None
  then have "c_executed c < r_Slot r" using open_slot [OF inv] r by (simp add: rec_ok_def)
  from install_new_UInv [OF inv r this refl] show ?thesis using None res by (simp add: install_def)
next
  case (Some old)
  note old = UInv_log [OF inv Some]
  consider "c' = c" | "\<not> r_Committed old" "same_request old r" | "\<not> r_Committed old" "\<not> same_request old r"
    using res Some by (auto simp: install_def split: if_splits)
  then show ?thesis
  proof cases
    case 2
    have "index_ok F (c_executed c) (mput (r_Slot r) r (c_log c)) (c_updating c)"
      by (rule index_same [OF _ Some refl]) (use inv r old 2 same_request_put [OF 2(2)] in \<open>auto simp: UInv_def rec_ok_def\<close>)
    then show ?thesis using 2 Some res inv by (auto simp: install_def UInv_def)
  next
    case 3
    have ex: "c_executed c < r_Slot r" using open_slot [OF inv] r Some 3 by (simp add: rec_ok_def)
    let ?d = "if recoveryNoop (r_Request old) then c else c\<lparr>c_assigned := mdel (req_ID (r_Request old)) (c_assigned c)\<rparr>"
    let ?upd = "if is_put old then dec (put_key old) (c_updating c) else c_updating c"
    have "UInv F (install_new r (?d\<lparr>c_updating := ?upd\<rparr>))"
      by (rule install_new_UInv) (use inv r ex Some in \<open>simp_all\<close>)
    moreover have "c' = install_new r (?d\<lparr>c_updating := ?upd\<rparr>)"
      using 3 Some res by (auto simp: install_def Let_def removeUpdating_dec put_key_def updating_assigned)
    ultimately show ?thesis by simp
  qed (use inv in simp)
qed

lemma apply_one_UInv:
  assumes inv: "UInv F c" and r: "mget (c_log c) (c_executed c + 1) = Some r" "r_Committed r" and res: "apply_one e r c = Some c'"
  shows "UInv F c'"
proof -
  have idx: "index_ok F (c_executed c + 1) (c_log c) (if is_put r then dec (put_key r) (c_updating c) else c_updating c)"
    by (rule index_execute [OF _ r]) (use inv in \<open>simp add: UInv_def\<close>)
  have "c_executed c' = c_executed c + 1 \<and> c_log c' = c_log c \<and> c_updating c' = (if is_put r then dec (put_key r) (c_updating c) else c_updating c) \<and>
      c_high c' = c_high c \<and> c_resume c' = c_resume c \<and> c_pages c' = c_pages c \<and> c_frozen c' = c_frozen c \<and>
      (c_pending c' = c_pending c \<or> c_pending c' = mdel (req_ID (r_Request r)) (c_pending c))"
    using res by (auto simp: apply_one_def apply_value_def emit_def Let_def removeUpdating_dec put_key_def split: Option.bind_splits if_splits)
  then show ?thesis using inv idx by (auto simp: UInv_def stored_ok_def split: if_splits)
qed

lemma apply_log_UInv [keeps_index]: "UInv F c \<Longrightarrow> apply_log e c = Some c' \<Longrightarrow> UInv F c'"
proof (induction e c arbitrary: c' rule: apply_log.induct)
  case (1 e c)
  show ?case
  proof (cases "\<exists>r. mget (c_log c) (c_executed c + 1) = Some r \<and> r_Committed r")
    case True
    then obtain r where r: "mget (c_log c) (c_executed c + 1) = Some r" "r_Committed r" by blast
    then obtain d where d: "apply_one e r c = Some d" "apply_log e d = Some c'"
      using "1.prems"(2) by (subst (asm) apply_log.simps) (auto split: option.splits)
    show ?thesis using 1(1) [OF r(1) _ d(1)] r(2) d apply_one_UInv [OF "1.prems"(1) r d(1)] by simp
  next
    case False
    then have "apply_log e c = Some c" by (subst apply_log.simps) (auto split: option.splits)
    then show ?thesis using "1.prems" by simp
  qed
qed

lemma UInv_mark:
  assumes "UInv F c" "mget (c_log c) s = Some old" "r_Request r = r_Request old" "r_Slot r = r_Slot old" "r_Committed old \<Longrightarrow> r_Committed r"
  shows "UInv F (c\<lparr>c_log := mput s r (c_log c)\<rparr>)"
proof -
  have "index_ok F (c_executed c) (mput s r (c_log c)) (c_updating c)"
    by (rule index_same [OF _ assms(2)]) (use UInv_log [OF assms(1,2)] assms in \<open>auto simp: UInv_def put_on_def\<close>)
  then show ?thesis using assms(1) by (simp add: UInv_def)
qed

lemma ack_one_UInv: "UInv F c \<Longrightarrow> UInv F (fst (ack_one p a c))"
  by (auto simp: ack_one_def Let_def split: option.splits intro!: UInv_mark)

lemma ack_loop_UInv: "UInv F c \<Longrightarrow> UInv F (fst (ack_loop p as c))"
proof (induction "as" arbitrary: c)
  case (Cons a as)
  show ?case using Cons.IH [OF ack_one_UInv [OF Cons.prems, of p a]] by (simp add: Let_def split_beta)
qed simp

lemma ack_UInv [keeps_index]: "UInv F c \<Longrightarrow> ack e p c = Some c' \<Longrightarrow> UInv F c'"
  using ack_loop_UInv [of F c p "p_Records p"]
  by (auto simp: ack_def Let_def split_beta split: if_splits intro: apply_log_UInv [rotated])

lemma requestFetch_UInv [simp]: "UInv F (requestFetch now c) = UInv F c"
  by (simp add: requestFetch_def Let_def)

lemma schedulePending_UInv [simp]: "UInv F c \<Longrightarrow> UInv F (schedulePending e c)"
  by (auto simp: schedulePending_def UInv_def stored_ok_def)

lemma activate_UInv [simp]: "UInv F c \<Longrightarrow> UInv F (activate e c)"
  by (simp add: activate_def Let_def)

subsection \<open>Packets\<close>

definition keepsL :: "(request_id \<Rightarrow> command) \<Rightarrow> ('st, 'cfg) deliver \<Rightarrow> bool" where
  "keepsL F L \<longleftrightarrow> (\<forall>p c c'. pkt_ok F p \<longrightarrow> UInv F c \<longrightarrow> L p c = Some c' \<longrightarrow> UInv F c')"

lemma keepsLD: "keepsL F L \<Longrightarrow> pkt_ok F p \<Longrightarrow> UInv F c \<Longrightarrow> L p c = Some c' \<Longrightarrow> UInv F c'"
  by (auto simp: keepsL_def)

lemma Transport_Send_UInv [keeps_index]:
  "keepsL F L \<Longrightarrow> pkt_ok F p \<Longrightarrow> UInv F c \<Longrightarrow> Transport_Send L to p c = Some c' \<Longrightarrow> UInv F c'"
  using keepsLD [of F L p "emit (Local p) c" c'] by (auto simp: Transport_Send_def split: if_splits)

lemma sendMask_UInv [keeps_index]:
  "keepsL F L \<Longrightarrow> pkt_ok F p \<Longrightarrow> UInv F c \<Longrightarrow> sendMask L m p is c = Some c' \<Longrightarrow> UInv F c'"
  by (induction L m p "is" c arbitrary: c' rule: sendMask.induct)
    (auto split: Option.bind_splits if_splits dest: Transport_Send_UInv)

lemma pkt_ok_simps [simp]:
  "pkt_ok F (Packet k i b)" "pkt_ok F (p\<lparr>p_LeaseEpoch := x\<rparr>) = pkt_ok F p" "pkt_ok F (p\<lparr>p_Floor := x\<rparr>) = pkt_ok F p" "pkt_ok F (p\<lparr>p_High := x\<rparr>) = pkt_ok F p"
  "pkt_ok F ((Packet k i b)\<lparr>p_Records := rs\<rparr>) \<longleftrightarrow> k \<in> {packetPromise, packetAccept, packetCommit} \<longrightarrow> (\<forall>r\<in>set rs. rec_ok F r)"
  "pkt_ok F ((Packet k i b)\<lparr>p_LeaseEpoch := x, p_Records := rs\<rparr>) \<longleftrightarrow> k \<in> {packetPromise, packetAccept, packetCommit} \<longrightarrow> (\<forall>r\<in>set rs. rec_ok F r)"
  by (auto simp: pkt_ok_def Packet_def)

lemma relay_UInv: "UInv F c \<Longrightarrow> relay out c = Some c' \<Longrightarrow> UInv F c'"
proof (induction out arbitrary: c)
  case (Cons x xs)
  have "UInv F d" if "commitConfiguration slot ch c = Some d" for slot ch d
    using that Cons.prems(1) by (auto simp: commitConfiguration_def Let_def split: option.splits Option.bind_splits)
  then show ?case using Cons.prems by (auto split: effect.splits Option.bind_splits intro: Cons.IH [rotated])
qed simp

lemma with_config_UInv [keeps_index]: "UInv F c \<Longrightarrow> with_config r c = Some c' \<Longrightarrow> UInv F c'"
  by (auto simp: with_config_def split: Option.bind_splits intro: relay_UInv [rotated])

lemma config_requestFetch_UInv [keeps_index]: "UInv F c \<Longrightarrow> config_requestFetch e now c = Some c' \<Longrightarrow> UInv F c'"
  unfolding config_requestFetch_def by (rule with_config_UInv)

lemma accept_loop_UInv:
  "UInv F c \<Longrightarrow> \<forall>r\<in>set rs. rec_ok F r \<Longrightarrow> accept_loop p rs (gap, c) = Some (gap', c') \<Longrightarrow> UInv F c'"
proof (induction rs arbitrary: gap c)
  case (Cons r rs)
  let ?d = "if r_Slot r > 0 \<and> mget (c_log c) (r_Slot r - 1) = None then c\<lparr>c_gapAccepts := c_gapAccepts c + 1\<rparr> else c"
  obtain d g where d: "install (r\<lparr>r_Ballot := p_Ballot p, r_LeaseEpoch := p_LeaseEpoch p\<rparr>) ?d = Some d" "accept_loop p rs (g, d) = Some (gap', c')"
    using Cons.prems(3) by (auto simp: Let_def split: Option.bind_splits)
  have "UInv F d" by (rule install_UInv [OF _ _ d(1)]) (use Cons.prems in \<open>simp_all add: rec_ok_def\<close>)
  then show ?case using Cons.IH d(2) Cons.prems(2) by simp
qed simp

lemma accept_UInv [keeps_index]:
  assumes L: "keepsL F L" and p: "\<forall>r\<in>set (p_Records p). rec_ok F r" and inv: "UInv F c" and res: "accept L e p now c = Some c'"
  shows "UInv F c'"
proof (cases "lease_admits now (p_LeaseEpoch p) c")
  case False
  then show ?thesis using res inv config_requestFetch_UInv [of F "c\<lparr>c_leaseRejects := c_leaseRejects c + 1\<rparr>"]
    by (auto simp: accept_def Let_def split: if_splits)
next
  case True
  then obtain gap d where d: "accept_loop p (p_Records p) (False, c) = Some (gap, d)"
    and d': "p_Records p = [] \<and> c' = (if gap then requestFetch now d else d) \<or>
      Transport_Send L (c_leader (if gap then requestFetch now d else d)) ((Packet packetAck (c_id (if gap then requestFetch now d else d)) (c_ballot (if gap then requestFetch now d else d)))
        \<lparr>p_LeaseEpoch := p_LeaseEpoch p, p_Records := map (\<lambda>r. zero_record (r_Slot r)) (p_Records p)\<rparr>) (if gap then requestFetch now d else d) = Some c'"
    using res by (auto simp: accept_def Let_def split: Option.bind_splits if_splits)
  have "UInv F (if gap then requestFetch now d else d)" using accept_loop_UInv [OF inv p d] by simp
  moreover have "pkt_ok F ((Packet packetAck i b)\<lparr>p_LeaseEpoch := x, p_Records := rs\<rparr>)" for i b x rs by simp
  ultimately show ?thesis using d' Transport_Send_UInv [OF L] by blast
qed

subsection \<open>The suffix\<close>

lemma noop_rec_ok [simp]: "0 \<le> s \<Longrightarrow> rec_ok F ((noop_record s)\<lparr>r_Ballot := b, r_LeaseEpoch := x\<rparr>)"
  "0 \<le> s \<Longrightarrow> rec_ok F (noop_record s)"
  by (simp_all add: rec_ok_def noop_record_def zero_record_def req_ok_def recoveryNoop_def)

lemma fillCatchup_loop_UInv: "fillCatchup_loop k c = Some c' \<Longrightarrow> UInv F c \<Longrightarrow> UInv F c'"
proof (induction k c rule: fillCatchup_loop.induct)
  case (2 k c)
  show ?case
  proof (cases "c_high c < c_catchupTarget c \<and> c_high c - c_executed c < AdmissionWindow")
    case True
    then obtain d where d: "install ((noop_record (c_high c + 1))\<lparr>r_Ballot := c_ballot c, r_LeaseEpoch := promisedBy (c_lease c)\<rparr>) c = Some d"
      "fillCatchup_loop k d = Some c'" using 2(2) by (auto split: Option.bind_splits)
    have "0 \<le> c_high c + 1" using 2(3) by (simp add: UInv_def)
    then have "UInv F d" using install_UInv [OF 2(3) _ d(1)] by simp
    then show ?thesis using 2(1) [OF True d] by blast
  qed (use 2 in auto)
qed simp

lemma fillCatchup_UInv: "fillCatchup c = Some c' \<Longrightarrow> UInv F c \<Longrightarrow> UInv F c'"
  using fillCatchup_loop_UInv by (auto simp: fillCatchup_def split: if_splits)

lemma log_rec_ok: "UInv F c \<Longrightarrow> mget (c_log c) s = Some r \<Longrightarrow> rec_ok F r"
  using UInv_log by (fastforce simp: rec_ok_def)

lemma page_records_ok: "UInv F c \<Longrightarrow> r \<in> set (page_records c lo hi) \<Longrightarrow> rec_ok F r"
  using log_rec_ok by (fastforce simp: page_records_def map_filter_def rec_ok_def)

definition groups_ok :: "(request_id \<Rightarrow> command) \<Rightarrow> groups \<Rightarrow> bool" where
  "groups_ok F gs \<longleftrightarrow> (\<forall>g\<in>set gs. \<forall>r\<in>set (snd g). rec_ok F r)"

lemma groups_ok_simps [simp]:
  "groups_ok F []" "groups_ok F ((m, rs) # gs) \<longleftrightarrow> (\<forall>r\<in>set rs. rec_ok F r) \<and> groups_ok F gs"
  by (simp_all add: groups_ok_def)

lemma groups_ok_add: "groups_ok F (add_group m r gs) \<longleftrightarrow> rec_ok F r \<and> groups_ok F gs"
  by (induction m r gs rule: add_group.induct) auto

lemma regroup_UInv:
  assumes "regroup r (gs, c) = Some (gs', c')" "UInv F c" "rec_ok F r" "groups_ok F gs"
  shows "UInv F c' \<and> groups_ok F gs'"
proof -
  obtain loc where loc: "mget (c_log c) (r_Slot r) = Some loc" using assms(1) by (auto simp: regroup_def Let_def split: Option.bind_splits)
  let ?r = "r\<lparr>r_Committed := False, r_NotifyMask := notify_mask (r_Request r) c, r_LeaseEpoch := promisedBy (c_lease c)\<rparr>"
  have mark: "UInv F (c\<lparr>c_log := mput (r_Slot r) (loc\<lparr>r_LeaseEpoch := a, r_NotifyMask := b\<rparr>) (c_log c)\<rparr>)" for a b
    by (rule UInv_mark [OF assms(2) loc]) simp_all
  have "rec_ok F ?r" using assms(3) by (simp add: rec_ok_def)
  then have grp: "groups_ok F (add_group m ?r gs)" for m using assms(4) by (simp add: groups_ok_add)
  obtain m v a b where gs': "gs' = add_group m ?r gs" and c': "c' = c\<lparr>c_votes := v, c_log := mput (r_Slot r) (loc\<lparr>r_LeaseEpoch := a, r_NotifyMask := b\<rparr>) (c_log c)\<rparr>"
    using assms(1) by (simp add: regroup_def Let_def loc) blast
  have "UInv F c'" unfolding c' UInv_frame by (rule mark)
  then show ?thesis unfolding gs' by (rule conjI [OF _ grp])
qed

lemma regroup_all_UInv:
  "regroup_all rs (gs, c) = Some (gs', c') \<Longrightarrow> UInv F c \<Longrightarrow> \<forall>r\<in>set rs. rec_ok F r \<Longrightarrow> groups_ok F gs \<Longrightarrow> UInv F c' \<and> groups_ok F gs'"
proof (induction rs arbitrary: gs c)
  case (Cons r rs)
  obtain gd d where d: "regroup r (gs, c) = Some (gd, d)" "regroup_all rs (gd, d) = Some (gs', c')"
    using Cons.prems(1) by (auto split: Option.bind_splits)
  have "rec_ok F r" using Cons.prems(3) by simp
  from regroup_UInv [OF d(1) Cons.prems(2) this Cons.prems(4)] show ?case using Cons.IH [OF d(2)] Cons.prems(3) by simp
qed simp

lemma send_groups_UInv:
  assumes L: "keepsL F L"
  shows "send_groups L gs c = Some c' \<Longrightarrow> UInv F c \<Longrightarrow> groups_ok F gs \<Longrightarrow> UInv F c'"
proof (induction gs arbitrary: c)
  case (Cons g gs)
  obtain m rs where g: "g = (m, rs)" by (cases g)
  let ?p = "(Packet packetAccept (c_id c) (c_ballot c))\<lparr>p_LeaseEpoch := promisedBy (c_lease c), p_Records := rs\<rparr>"
  obtain d where d: "sendMask L m ?p [0..c_n c - 1] (c\<lparr>c_quorumSends := c_quorumSends c + 1\<rparr>) = Some d" "send_groups L gs d = Some c'"
    using Cons.prems(1) g by (auto simp: Let_def split: Option.bind_splits)
  have "UInv F d" by (rule sendMask_UInv [OF L _ _ d(1)]) (use Cons.prems g in simp_all)
  then show ?case using Cons.IH [OF d(2)] Cons.prems(3) g by simp
qed simp

lemma send_page_UInv:
  assumes L: "keepsL F L" and inv: "UInv F c" and recs: "\<forall>r\<in>set recs. rec_ok F r" and res: "send_page L e to fetch now recs c = Some c'"
  shows "UInv F c'"
proof -
  consider "recs = []" | "recs \<noteq> []" "fetch \<and> to \<noteq> c_id c" | "recs \<noteq> []" "\<not> (fetch \<and> to \<noteq> c_id c)" "c_control c"
    | "recs \<noteq> []" "\<not> (fetch \<and> to \<noteq> c_id c)" "\<not> c_control c" by blast
  then show ?thesis
  proof cases
    case 3
    let ?p = "(Packet packetAccept (c_id c) (c_ballot c))\<lparr>p_Records := map (\<lambda>r. r\<lparr>r_Committed := False\<rparr>) recs\<rparr>"
    have "accept L e ?p now (emit (Broadcast ?p) (c\<lparr>c_quorumSends := c_quorumSends c + 1\<rparr>)) = Some c'"
      using res 3 by (auto simp: send_page_def Let_def)
    then show ?thesis by (rule accept_UInv [OF L _ _, rotated -1]) (use inv recs in \<open>auto simp: rec_ok_def\<close>)
  next
    case 4
    then obtain gs d where d: "regroup_all recs ([], c) = Some (gs, d)" "send_groups L gs d = Some c'"
      using res by (auto simp: send_page_def Let_def split: Option.bind_splits)
    then show ?thesis using regroup_all_UInv [OF d(1) inv recs] send_groups_UInv [OF L d(2)] by auto
  qed (use inv res in \<open>auto simp: send_page_def Let_def\<close>)
qed

lemma sendSuffix_loop_UInv:
  "sendSuffix_loop L e to fetch now hi lo c = Some c' \<Longrightarrow> keepsL F L \<Longrightarrow> UInv F c \<Longrightarrow> UInv F c'"
proof (induction L e to fetch now hi lo c arbitrary: c' rule: sendSuffix_loop.induct)
  case (1 L e to fetch now hi lo c)
  show ?case
  proof (cases "lo > hi")
    case True
    then show ?thesis using 1 by (subst (asm) sendSuffix_loop.simps) simp
  next
    case False
    then obtain d where d: "send_page L e to fetch now (page_records c lo (min (lo + PageSize - 1) hi)) c = Some d"
      "sendSuffix_loop L e to fetch now hi (lo + PageSize) d = Some c'"
      using 1(2) by (subst (asm) sendSuffix_loop.simps) (auto split: option.splits)
    have "UInv F d" by (rule send_page_UInv [OF 1(3,4) _ d(1)]) (use page_records_ok [OF 1(4)] in blast)
    then show ?thesis using 1(1) [OF False d(1) d(2) 1(3)] by blast
  qed
qed

lemma sendSuffix_UInv [keeps_index]:
  "keepsL F L \<Longrightarrow> UInv F c \<Longrightarrow> sendSuffix L e to start fetch now c = Some c' \<Longrightarrow> UInv F c'"
  unfolding sendSuffix_def Let_def by (rule sendSuffix_loop_UInv)

subsection \<open>Recovery\<close>

lemma send_pages_UInv:
  "send_pages L to ps c = Some c' \<Longrightarrow> keepsL F L \<Longrightarrow> \<forall>p\<in>set ps. pkt_ok F p \<Longrightarrow> UInv F c \<Longrightarrow> UInv F c'"
proof (induction L to ps c rule: send_pages.induct)
  case (2 L to p ps c)
  then obtain d where d: "Transport_Send L to p c = Some d" "send_pages L to ps d = Some c'" by (auto split: Option.bind_splits)
  have "UInv F d" using Transport_Send_UInv [OF 2(3) _ 2(5) d(1)] 2(4) by simp
  then show ?case using 2(1) [OF d 2(3)] 2(4) by simp
qed simp

lemma snapshot_ok: "UInv F c \<Longrightarrow> p \<in> set (snapshot c flr) \<Longrightarrow> pkt_ok F p"
proof -
  assume inv: "UInv F c" and "p \<in> set (snapshot c flr)"
  then obtain page where p: "p = snapshot_page c flr (snapshot_values flr c) page" by (auto simp: snapshot_def Let_def)
  have "rec_ok F r" if "r \<in> set (snapshot_values flr c)" for r
    using that log_rec_ok [OF inv] by (auto simp: snapshot_values_def map_filter_def)
  then have "\<forall>r\<in>set (p_Records p). rec_ok F r" unfolding p snapshot_page_def by (auto dest!: in_set_takeD in_set_dropD)
  then show "pkt_ok F p" by (simp add: pkt_ok_def p snapshot_page_def Packet_def)
qed

lemma promise_UInv:
  assumes L: "keepsL F L" and inv: "UInv F c" and res: "promise L p c = Some c'"
  shows "UInv F c'"
proof (cases "c_frozen c \<noteq> [] \<and> c_frozenBallot c = p_Ballot p \<and> c_frozenFloor c = p_Floor p")
  case True
  have sp: "send_pages L (p_From p) (c_frozen c) c = Some c'" using res unfolding promise_def if_P [OF True] .
  show ?thesis by (rule send_pages_UInv [OF sp L _ inv]) (use inv in \<open>simp add: UInv_def stored_ok_def\<close>)
next
  case False
  have frz: "UInv F (c\<lparr>c_frozen := snapshot c (p_Floor p), c_frozenBallot := p_Ballot p, c_frozenFloor := p_Floor p\<rparr>)"
    using inv snapshot_ok [OF inv] by (simp add: UInv_def stored_ok_def)
  have sp: "send_pages L (p_From p) (snapshot c (p_Floor p))
      (c\<lparr>c_frozen := snapshot c (p_Floor p), c_frozenBallot := p_Ballot p, c_frozenFloor := p_Floor p\<rparr>) = Some c'"
    using res unfolding promise_def if_not_P [OF False] Let_def .
  show ?thesis by (rule send_pages_UInv [OF sp L _ frz]) (use snapshot_ok [OF inv] in blast)
qed

definition sel_ok :: "(request_id \<Rightarrow> command) \<Rightarrow> (int, logrec) gomap \<Rightarrow> bool" where
  "sel_ok F sel \<longleftrightarrow> (\<forall>s r. mget sel s = Some r \<longrightarrow> req_ok F (r_Request r) \<and> r_Slot r = s)"

lemma select_records_ok: "sel_ok F sel \<Longrightarrow> \<forall>r\<in>set rs. rec_ok F r \<Longrightarrow> sel_ok F (select_records rs sel)"
proof (induction rs sel rule: select_records.induct)
  case (2 r rs sel)
  let ?sel = "case mget sel (r_Slot r) of None \<Rightarrow> mput (r_Slot r) r sel
    | Some old \<Rightarrow> if r_Ballot r > r_Ballot old then mput (r_Slot r) r sel else sel"
  have "sel_ok F ?sel" using 2(2,3) unfolding sel_ok_def by (auto simp: rec_ok_def split: option.split)
  then show ?case using 2(1) 2(3) by simp
qed simp

lemma select_pages_ok:
  "select_pages ps (sel, h) = (sel', h') \<Longrightarrow> sel_ok F sel \<Longrightarrow> \<forall>p\<in>set ps. \<forall>r\<in>set (p_Records p). rec_ok F r \<Longrightarrow> sel_ok F sel' \<and> h \<le> h'"
proof (induction ps "(sel, h)" arbitrary: sel h rule: select_pages.induct)
  case (2 p ps sel h)
  have "sel_ok F (select_records (p_Records p) sel)" using select_records_ok 2 by simp
  from 2(1) [OF _ this] 2(2,4) show ?case by (auto split: if_splits)
qed simp

lemma promised_pages_ok: "UInv F c \<Longrightarrow> p \<in> set (promised_pages e c) \<Longrightarrow> r \<in> set (p_Records p) \<Longrightarrow> rec_ok F r"
proof -
  assume inv: "UInv F c" and p: "p \<in> set (promised_pages e c)" and r: "r \<in> set (p_Records p)"
  then obtain i j m where "mget (c_pages c) i = Some m" "mget m j = Some p"
    by (auto simp: promised_pages_def mgetd_def split: option.splits)
  then show "rec_ok F r" using inv r unfolding UInv_def stored_ok_def by blast
qed

text \<open>After the loop over the log only the executed prefix is left, and no write is open.\<close>

lemma keep_executed_fold:
  "c_executed (fold keep_executed xs c) = c_executed c \<and> c_updating (fold keep_executed xs c) = c_updating c \<and>
   c_high (fold keep_executed xs c) = c_high c \<and> c_pending (fold keep_executed xs c) = c_pending c \<and>
   c_resume (fold keep_executed xs c) = c_resume c \<and> c_pages (fold keep_executed xs c) = c_pages c \<and> c_frozen (fold keep_executed xs c) = c_frozen c \<and>
   map_of (c_log (fold keep_executed xs c)) = map_of (c_log c) |` (- {s. c_executed c < s \<and> s \<in> fst ` set xs})"
proof (induction xs arbitrary: c)
  case (Cons x xs)
  show ?case unfolding fold_Cons o_apply using Cons.IH [of "keep_executed x c"]
    by (cases x) (auto simp: keep_executed_def restrict_map_def fun_eq_iff split: if_splits)
qed (simp add: restrict_map_def)

lemma refill_slot_UInv:
  assumes inv: "UInv F c" and s: "c_executed c < s" "mget (c_log c) s = None" and sel: "sel_ok F sel"
  shows "UInv F (refill_slot sel s c)"
proof -
  have pos: "0 \<le> s" using UInv_executed [OF inv] s by simp
  define r where "r = (case mget sel s of Some r \<Rightarrow> r | None \<Rightarrow> noop_record s)\<lparr>r_Ballot := c_ballot c, r_Committed := False\<rparr>"
  have r: "r_Slot r = s" "req_ok F (r_Request r)"
    using sel noop_rec_ok(2) [OF pos, of F] by (auto simp: r_def sel_ok_def rec_ok_def noop_record_def zero_record_def split: option.splits)
  have "index_ok F (c_executed c) (mput s r (c_log c)) (if is_put r then inc (put_key r) (c_updating c) else c_updating c)"
    by (rule index_fill [OF _ r(1) s(1) pos r(2)]) (use inv s in \<open>simp_all add: UInv_def\<close>)
  then show ?thesis using inv unfolding refill_slot_def Let_def r_def [symmetric]
    by (cases "is_put r") (simp_all add: UInv_def inc_def put_key_def)
qed

lemma refill_UInv:
  assumes sel: "sel_ok F sel"
  shows "UInv F c \<Longrightarrow> c_executed c < lo \<Longrightarrow> (\<forall>s\<ge>lo. mget (c_log c) s = None) \<Longrightarrow> UInv F (fold (refill_slot sel) [lo..hi] c)"
proof (induction "nat (hi + 1 - lo)" arbitrary: lo c)
  case (Suc n)
  then have le: "lo \<le> hi" by simp
  have step: "UInv F (refill_slot sel lo c)" using refill_slot_UInv [OF Suc.prems(1,2) _ sel] Suc.prems(3) by simp
  have "c_executed (refill_slot sel lo c) = c_executed c" "\<forall>s\<ge>lo + 1. mget (c_log (refill_slot sel lo c)) s = None"
    using Suc.prems(3) by (simp_all add: refill_slot_def Let_def)
  then have "UInv F (fold (refill_slot sel) [lo + 1..hi] (refill_slot sel lo c))"
    using Suc.hyps(2) Suc.prems(2) by (intro Suc.hyps(1) [OF _ step]) simp_all
  then show ?case using le by (simp add: upto_rec1)
qed simp

lemma recover_UInv:
  assumes inv: "UInv F c" and res: "recover e c = Some c'"
  shows "UInv F c'"
proof -
  obtain sel h where sel: "select_pages (promised_pages e c) ([], c_executed c) = (sel, h)" by (cases "select_pages (promised_pages e c) ([], c_executed c)")
  have ok: "sel_ok F sel \<and> c_executed c \<le> h"
    by (rule select_pages_ok [OF sel]) (use promised_pages_ok [OF inv] in \<open>auto simp: sel_ok_def\<close>)
  define c1 where "c1 = c\<lparr>c_preparing := False, c_high := h, c_assigned := [], c_updating := []\<rparr>"
  define c2 where "c2 = fold keep_executed (mrange (order e Loop_log) (c_log c)) c1"
  define c3 where "c3 = fold (refill_slot sel) [c_executed c + 1..h] c2"
  note kf = keep_executed_fold [of "mrange (order e Loop_log) (c_log c)" c1, folded c2_def]
  have c2: "c_executed c2 = c_executed c" "c_updating c2 = []" "c_high c2 = h" "c_pending c2 = c_pending c" "c_resume c2 = c_resume c"
    "c_pages c2 = c_pages c" "c_frozen c2 = c_frozen c" using kf by (simp_all add: c1_def)
  have log2: "mget (c_log c2) s = (if c_executed c < s then None else mget (c_log c) s)" for s
    using kf by (force simp: c1_def restrict_map_def image_iff)
  have "open_puts (c_executed c) (c_log c2) k = {}" for k by (auto simp: open_puts_def log2)
  moreover have "log_ok F (c_executed c) (c_log c2)" using inv by (auto simp: UInv_def index_ok_def log_ok_def log2 split: if_splits)
  ultimately have "UInv F c2" using inv ok UInv_executed [OF inv] by (simp add: UInv_def index_ok_def c2)
  then have "UInv F c3" unfolding c3_def by (rule refill_UInv [OF conjunct1 [OF ok]]) (simp_all add: c2 log2)
  moreover obtain d where d: "fillCatchup c3 = Some d" "c' = d\<lparr>c_recoveryEnd := c_high d, c_votes := []\<rparr>"
    using res by (auto simp: recover_def sel c1_def [symmetric] c2_def [symmetric] c2 c3_def [symmetric] Let_def split: Option.bind_splits)
  ultimately have "UInv F d" using fillCatchup_UInv by blast
  then show ?thesis by (simp add: d(2) UInv_def)
qed

lemma promiseReply_UInv [keeps_index]:
  assumes L: "keepsL F L" and p: "\<forall>r\<in>set (p_Records p). rec_ok F r" and inv: "UInv F c" and res: "promiseReply L e p now c = Some c'"
  shows "UInv F c'"
proof -
  define pgs where "pgs = mput (p_Page p) p (mgetd [] (c_pages c) (p_From p))"
  define c1 where "c1 = c\<lparr>c_pages := mput (p_From p) pgs (c_pages c)\<rparr>"
  define c2 where "c2 = c1\<lparr>c_promises := mput (p_From p) True (c_promises c1)\<rparr>"
  have "\<forall>r\<in>set (p_Records q). rec_ok F r" if "mget pgs j = Some q" for j q
    using that inv p by (auto simp: pgs_def mgetd_def UInv_def stored_ok_def split: if_splits option.splits)
  then have c1: "UInv F c1" using inv by (auto simp: c1_def UInv_def stored_ok_def)
  then have c2: "UInv F c2" by (simp add: c2_def)
  have "c' = c \<or> c' = c1 \<or> c' = c2 \<or> (\<exists>d d'. recover e c2 = Some d \<and> sendSuffix L e (c_id d) (c_executed d + 1) False now d = Some d' \<and>
      c' = (if c_executed d' \<ge> c_recoveryEnd d' then activate e d' else d'))"
    using res unfolding promiseReply_def pgs_def [symmetric] Let_def c1_def [symmetric] c2_def [symmetric]
    by (auto split: if_splits Option.bind_splits)
  then show ?thesis using inv c1 c2 recover_UInv [OF c2] sendSuffix_UInv [OF L] by fastforce
qed

end
