(* ===== verification/PqlCommit.thy ===== *)
theory PqlCommit
  imports PqlCore
begin

text \<open>
  What it takes to commit a record in package \<open>pql\<close>: votes of a majority that include every replica the
  record must notify, all given under the lease configuration of the record.
\<close>

definition votes_grow :: "('st, 'cfg) core \<Rightarrow> ('st, 'cfg) core \<Rightarrow> bool" where
  "votes_grow c c' \<longleftrightarrow> c_ballot c' = c_ballot c \<and> c_n c' = c_n c \<and> c_executed c' = c_executed c \<and> c_control c' = c_control c \<and>
     (\<forall>s. ids (mgetd 0 (c_votes c) s) \<subseteq> ids (mgetd 0 (c_votes c') s)) \<and>
     (\<forall>s r. mget (c_log c) s = Some r \<longrightarrow> r_Committed r \<longrightarrow> mget (c_log c') s = Some r)"

lemma ack_one_grows: "ack_one p a c = (c', com) \<Longrightarrow> votes_grow c c'"
  by (auto simp: ack_one_def Let_def votes_grow_def ids_With split: if_splits option.splits)

lemma ack_loop_grows: "ack_loop p as c = (c', com) \<Longrightarrow> votes_grow c c'"
proof (induction p as c arbitrary: c' com rule: ack_loop.induct)
  case (2 p a as c)
  obtain d x y where d: "ack_one p a c = (d, x)" "ack_loop p as d = (c', y)"
    using 2(2) by (auto simp: Let_def split: prod.splits)
  then have "votes_grow c d" "votes_grow d c'" using ack_one_grows 2(1) by metis+
  then show ?case unfolding votes_grow_def by (simp, blast)
qed (simp add: votes_grow_def)

text \<open>What the log, the votes and the acknowledged packet say of a record that the loop commits.\<close>

definition chosen_by :: "packet \<Rightarrow> ('st, 'cfg) core \<Rightarrow> int \<Rightarrow> logrec \<Rightarrow> bool" where
  "chosen_by p c s r \<longleftrightarrow> c_executed c < s \<and> mget (c_log c) s = Some r \<and> r_Committed r \<and> r_Ballot r = c_ballot c \<and>
     (c_control c \<or> r_LeaseEpoch r = p_LeaseEpoch p) \<and>
     go_div (c_n c) 2 + 1 \<le> Size (mgetd 0 (c_votes c) s) \<and> ids (r_NotifyMask r) \<subseteq> ids (mgetd 0 (c_votes c) s)"

lemma mask_covers: "vs AND m = m \<longleftrightarrow> ids m \<subseteq> ids vs"
  using Covers_iff by (simp add: Covers_def)

lemma chosen_by_later:
  assumes "votes_grow c c'" "chosen_by p c s r"
  shows "chosen_by p c' s r"
proof -
  have "card (ids (mgetd 0 (c_votes c) s)) \<le> card (ids (mgetd 0 (c_votes c') s))"
    using assms(1) by (intro card_mono) (auto simp: votes_grow_def)
  then have "Size (mgetd 0 (c_votes c) s) \<le> Size (mgetd 0 (c_votes c') s)" by (simp add: Size_card)
  moreover have "ids (r_NotifyMask r) \<subseteq> ids (mgetd 0 (c_votes c') s)"
    using assms unfolding votes_grow_def chosen_by_def by (meson order_trans)
  ultimately show ?thesis using assms unfolding chosen_by_def votes_grow_def by auto
qed

lemma ack_one_chosen: "ack_one p a c = (c', com) \<Longrightarrow> r \<in> set com \<Longrightarrow> chosen_by p c' (r_Slot a) r"
  by (auto simp: ack_one_def Let_def chosen_by_def mask_covers split: if_splits option.splits)

lemma ack_loop_chosen:
  "ack_loop p as c = (c', com) \<Longrightarrow> r \<in> set com \<Longrightarrow> \<exists>a\<in>set as. chosen_by p c' (r_Slot a) r"
proof (induction p as c arbitrary: c' com rule: ack_loop.induct)
  case (2 p a as c)
  obtain d x y where d: "ack_one p a c = (d, x)" "ack_loop p as d = (c', y)" "com = x @ y"
    using 2(2) by (auto simp: Let_def split: prod.splits)
  show ?case
  proof (cases "r \<in> set x")
    case True
    then show ?thesis using chosen_by_later [OF ack_loop_grows [OF d(2)] ack_one_chosen [OF d(1)]] by auto
  next
    case False
    then show ?thesis using 2(1) [OF d(1) [symmetric] refl d(2)] 2(3) d(3) by auto
  qed
qed simp

text \<open>A leader of three replicas orders a write of a key that replica 2 holds a lease on.\<close>

definition demo_policy :: leasePolicy where "demo_policy = LeasePolicy 3 0 [(7, 5)] 3 0 None"

definition demo_env :: "(nat, config_core) env" where
  "demo_env = data_env (\<lambda>cmd n. Some (V cmd, n + 1)) None (\<lambda>_. []) (\<lambda>_. [])"

definition demo_put :: request where
  "demo_put = \<lparr>req_ID = RequestID 4 1, req_Command = \<lparr>Op = PUT, K = 7, V = [9]\<rparr>, req_Origin = 0, req_Timestamp = 0, req_Change = None\<rparr>"

definition demo_core :: "(nat, config_core) core" where
  "demo_core = the (do {
     c \<leftarrow> newCore 3 0 0 demo_policy 0;
     c \<leftarrow> submit demo_env demo_put 1000 c;
     replica_tick demo_env 1000 [True, True, True] c
   })"

definition demo_ack :: packet where
  "demo_ack = (Packet packetAck 2 0)\<lparr>p_LeaseEpoch := 1, p_Records := [zero_record 0]\<rparr>"

text \<open>C22 A record that an acknowledgement commits has the votes of a majority of the replicas, among them every
  replica of its notification mask, and the acknowledgement is for the lease configuration of the record.\<close>

theorem pql_commit_needs_holders:
  assumes "ack_loop p as c = (c', committed)" "r \<in> set committed"
  shows "\<exists>a\<in>set as. mget (c_log c') (r_Slot a) = Some r \<and> r_Ballot r = c_ballot c \<and>
    (c_control c \<or> r_LeaseEpoch r = p_LeaseEpoch p) \<and>
    go_div (c_n c) 2 + 1 \<le> int (card (ids (mgetd 0 (c_votes c') (r_Slot a)))) \<and>
    ids (r_NotifyMask r) \<subseteq> ids (mgetd 0 (c_votes c') (r_Slot a))"
  using ack_loop_chosen [OF assms] ack_loop_grows [OF assms(1)] unfolding chosen_by_def Size_card votes_grow_def by auto

theorem pql_commit_needs_holders_witness:
  "ids (r_NotifyMask (hd (snd (ack_loop demo_ack (p_Records demo_ack) demo_core))))
     \<subseteq> ids (mgetd 0 (c_votes (fst (ack_loop demo_ack (p_Records demo_ack) demo_core))) 0) \<and>
   2 \<le> int (card (ids (mgetd 0 (c_votes (fst (ack_loop demo_ack (p_Records demo_ack) demo_core))) 0)))"
proof -
  have "hd (snd (ack_loop demo_ack (p_Records demo_ack) demo_core)) \<in> set (snd (ack_loop demo_ack (p_Records demo_ack) demo_core))"
    by code_simp
  moreover have "go_div (c_n demo_core) 2 + 1 = 2" by code_simp
  moreover have "r_Slot a = 0" if "a \<in> set (p_Records demo_ack)" for a using that by (simp add: demo_ack_def zero_record_def)
  ultimately show ?thesis
    using pql_commit_needs_holders [of demo_ack "p_Records demo_ack" demo_core "fst (ack_loop demo_ack (p_Records demo_ack) demo_core)"
        "snd (ack_loop demo_ack (p_Records demo_ack) demo_core)"] by fastforce
qed

end
