(* ===== verification/PqlReads.thy ===== *)
theory PqlReads
  imports PqlUpdating PqlCommit
begin

text \<open>
  Every handler of a \<open>pql\<close> replica keeps the index of open writes exact, so a read that a lease holder
  serves locally has no accepted and unexecuted write of its key behind it.
\<close>

subsection \<open>Packets\<close>

lemma commit_loop_UInv: "commit_loop rs c = Some c' \<Longrightarrow> \<forall>r\<in>set rs. rec_ok F r \<Longrightarrow> UInv F c \<Longrightarrow> UInv F c'"
proof (induction rs arbitrary: c)
  case (Cons r rs)
  obtain d old where d: "install r c = Some d" "mget (c_log d) (r_Slot r) = Some old"
    "commit_loop rs (d\<lparr>c_log := mput (r_Slot r) (old\<lparr>r_Committed := True\<rparr>) (c_log d)\<rparr>) = Some c'"
    using Cons.prems(1) by (auto split: Option.bind_splits)
  have "UInv F d" using install_UInv [OF Cons.prems(3) _ d(1)] Cons.prems(2) by simp
  then have "UInv F (d\<lparr>c_log := mput (r_Slot r) (old\<lparr>r_Committed := True\<rparr>) (c_log d)\<rparr>)" by (rule UInv_mark [OF _ d(2)]) simp_all
  then show ?case using Cons.IH [OF d(3)] Cons.prems(2) by simp
qed simp

lemma observeTime_UInv: "observeTime e now c = (now', d) \<Longrightarrow> UInv F d = UInv F c"
  by (auto simp: observeTime_def Let_def split: if_splits)

lemma finish_UInv [simp]: "UInv F (finish r v c) = UInv F c"
  by (simp add: finish_def)

lemma count_read_UInv [simp]: "UInv F (count_read r c) = UInv F c"
  by (simp add: count_read_def Let_def)

lemma order_request_UInv: "UInv F c \<Longrightarrow> req_ok F r \<Longrightarrow> UInv F (order_request r c)"
  by (simp add: order_request_def Let_def enqueue_def)

lemma defer_read_UInv: "UInv F c \<Longrightarrow> req_ok F r \<Longrightarrow> UInv F (defer_read r c)"
  by (simp add: defer_read_def Let_def)

lemma local_read_UInv: "local_read e r c = Some c' \<Longrightarrow> UInv F c \<Longrightarrow> UInv F c'"
proof -
  assume res: "local_read e r c = Some c'" and inv: "UInv F c"
  obtain v st where eq: "c' = finish r v (c\<lparr>c_app := st, c_values := mput (req_ID r) v (c_values c), c_pending := mdel (req_ID r) (c_pending c),
      c_localReads := c_localReads c + 1\<rparr>)"
    using res by (auto simp: local_read_def split: Option.bind_splits)
  show "UInv F c'" unfolding eq finish_UInv using UInv_unpend [OF inv, of "req_ID r"] by (simp add: UInv_def del: UInv_unpend)
qed

text \<open>The outcomes of \<open>submit\<close>.\<close>

lemma submit_cases:
  assumes "submit e r now c = Some c'" "observeTime e now c = (t, d)"
  obtains (replay) v where "mget (c_values d) (req_ID r) = Some v" "c' = finish r v (d\<lparr>c_replayReplies := c_replayReplies d + 1\<rparr>)"
  | (forwarded) v where "mget (c_forwardResults d) (req_ID r) = Some v" "c' = emit (Reply r v) d"
  | (read) "mget (c_values d) (req_ID r) = None" "\<not> c_control d" "Op (req_Command r) = GET" "read_holder (K (req_Command r)) (count_read r d) = Some True"
      "mgetd 0 (c_updating (count_read r d)) (K (req_Command r)) = 0" "canRead t (c_executed (count_read r d)) (c_lease (count_read r d))"
      "local_read e r (count_read r d) = Some c'"
  | (waits) "c' = defer_read r (count_read r d)"
  | (ordered) "c' = order_request r (count_read r d)"
proof -
  let ?c = "count_read r d"
  have ctl: "c_control ?c = c_control d" by (simp add: count_read_def Let_def)
  consider (a) v where "mget (c_values d) (req_ID r) = Some v" | (b) v where "mget (c_values d) (req_ID r) = None" "mget (c_forwardResults d) (req_ID r) = Some v"
    | (c) "mget (c_values d) (req_ID r) = None" "mget (c_forwardResults d) (req_ID r) = None" by (cases "mget (c_values d) (req_ID r)"; cases "mget (c_forwardResults d) (req_ID r)") auto
  then show thesis
  proof cases
    case c
    show thesis
    proof (cases "\<not> c_control ?c \<and> mget (c_assigned ?c) (req_ID r) = None \<and> Op (req_Command r) = GET")
      case False
      then show thesis using assms c ordered by (auto simp: submit_def Let_def)
    next
      case True
      then obtain h where h: "read_holder (K (req_Command r)) ?c = Some h"
        using assms c by (auto simp: submit_def Let_def split: Option.bind_splits)
      show thesis
      proof (cases "h \<and> mgetd 0 (c_updating ?c) (K (req_Command r)) = 0 \<and> canRead t (c_executed ?c) (c_lease ?c)")
        case True
        then show thesis using assms c h \<open>\<not> c_control ?c \<and> _ \<and> _\<close> ctl by (intro read) (auto simp: submit_def Let_def)
      next
        case False
        then have "c' = defer_read r ?c \<or> c' = order_request r ?c"
          using assms c h \<open>\<not> c_control ?c \<and> _ \<and> _\<close> by (auto simp: submit_def Let_def split: if_splits)
        then show thesis using waits ordered by blast
      qed
    qed
  qed (use assms in \<open>auto simp: submit_def Let_def intro: replay forwarded\<close>)
qed

lemma submit_UInv: "submit e r now c = Some c' \<Longrightarrow> req_ok F r \<Longrightarrow> UInv F c \<Longrightarrow> UInv F c'"
proof -
  assume res: "submit e r now c = Some c'" and r: "req_ok F r" and inv: "UInv F c"
  obtain t d where d: "observeTime e now c = (t, d)" by (cases "observeTime e now c")
  have inv: "UInv F d" using observeTime_UInv [OF d] inv by simp
  from res d show "UInv F c'"
    by (cases rule: submit_cases) (use inv r in \<open>auto intro: local_read_UInv order_request_UInv defer_read_UInv\<close>)
qed

lemma submit_all_UInv: "submit_all e now rs c = Some c' \<Longrightarrow> \<forall>r\<in>set rs. req_ok F r \<Longrightarrow> UInv F c \<Longrightarrow> UInv F c'"
proof (induction rs arbitrary: c)
  case (Cons r rs)
  obtain d where d: "submit e r now c = Some d" "submit_all e now rs d = Some c'" using Cons.prems(1) by (auto split: Option.bind_splits)
  then show ?case using Cons.IH [OF d(2)] submit_UInv [OF d(1)] Cons.prems by simp
qed simp

lemma send_leases_UInv [simp]: "UInv F (send_leases out c) = UInv F c"
  unfolding send_leases_def by (induction out arbitrary: c) (simp_all add: split_beta)

lemma receive_lease_UInv: "receive_lease e k p now c = Some c' \<Longrightarrow> UInv F c \<Longrightarrow> UInv F c'"
  by (auto simp: receive_lease_def split: Option.bind_splits if_splits prod.splits intro: config_requestFetch_UInv)

lemma receive_ready_UInv: "UInv F c \<Longrightarrow> UInv F (receive_ready e p now c)"
  by (simp add: receive_ready_def Let_def)

lemma receive_forwardReply_UInv: "UInv F c \<Longrightarrow> UInv F (receive_forwardReply p c)"
  by (auto simp: receive_forwardReply_def UInv_def stored_ok_def emit_def split: list.split if_splits)

lemma receive_prepare_UInv:
  assumes "receive_prepare L p now c = Some c'" "keepsL F L" "UInv F c"
  shows "UInv F c'"
proof -
  let ?d = "if p_Ballot p > c_ballot c then c\<lparr>c_ballot := p_Ballot p, c_leader := p_From p, c_preparing := False, c_votes := []\<rparr> else c"
  have "UInv F (?d\<lparr>c_active := False, c_leaderHeard := now\<rparr>)" using assms(3) by (simp add: UInv_def)
  note promised = promise_UInv [OF assms(2) this]
  have "c' = c \<or> promise L p (?d\<lparr>c_active := False, c_leaderHeard := now\<rparr>) = Some c'"
    using assms(1) by (simp add: receive_prepare_def Let_def split: if_splits)
  then show ?thesis using promised assms(3) by blast
qed

lemma receive_fetch_UInv:
  assumes res: "receive_fetch L e p now c = Some c'" and L: "keepsL F L" and inv: "UInv F c"
  shows "UInv F c'"
proof -
  define d where "d = (if p_High p > c_catchupTarget c then c\<lparr>c_catchupTarget := p_High p\<rparr> else c)"
  have d: "UInv F d" using inv by (simp add: d_def)
  note res = res [unfolded receive_fetch_def, folded d_def, unfolded Let_def]
  show ?thesis
  proof (cases "c_leader c \<noteq> c_id c \<or> c_preparing d")
    case True
    then show ?thesis using res inv d by (auto split: if_splits)
  next
    case False
    then obtain x where x: "fillCatchup d = Some x" "sendSuffix L e (p_From p) (p_Floor p) True now x = Some c'"
      using res by (auto split: Option.bind_splits)
    show ?thesis by (rule sendSuffix_UInv [OF L fillCatchup_UInv [OF x(1) d] x(2)])
  qed
qed

lemma receive_log_UInv:
  assumes res: "receive_log L e p now c = Some c'" and L: "keepsL F L" and p: "pkt_ok F p" and inv: "UInv F c"
  shows "UInv F c'"
proof -
  define d where "d = (if p_Kind p = packetReady \<and> p_Ballot p > c_ballot c
      then c\<lparr>c_ballot := p_Ballot p, c_leader := p_From p, c_preparing := False, c_active := False, c_votes := []\<rparr> else c)"
  define d' where "d' = (if p_From p = c_leader d \<and> p_Kind p \<in> {packetReady, packetAccept, packetCommit} then d\<lparr>c_leaderHeard := now\<rparr> else d)"
  have d: "UInv F d" using inv by (simp add: d_def UInv_def)
  then have d': "UInv F d'" by (simp add: d'_def)
  note res = res [unfolded receive_log_def, folded d_def, unfolded Let_def, folded d'_def]
  show ?thesis
  proof (cases "p_Ballot p \<noteq> c_ballot d")
    case True
    then show ?thesis using res d by simp
  next
    case False
    have recs: "p_Kind p \<in> {packetPromise, packetAccept, packetCommit} \<Longrightarrow> \<forall>r\<in>set (p_Records p). rec_ok F r" and reqs: "\<forall>r\<in>set (p_Requests p). req_ok F r"
      using p by (simp_all add: pkt_ok_def)
    show ?thesis
    proof (cases "p_Kind p")
      case packetPromise
      then show ?thesis using res False promiseReply_UInv [OF L _ d'] recs by simp
    next
      case packetAccept
      then show ?thesis using res False accept_UInv [OF L _ d'] recs d' by (simp split: if_splits)
    next
      case packetAck
      then show ?thesis using res False ack_UInv [OF d'] by simp
    next
      case packetCommit
      then have "c' = d' \<or> (\<exists>x. commit_loop (p_Records p) d' = Some x \<and> apply_log e x = Some c')"
        using res False by (auto split: if_splits Option.bind_splits)
      then show ?thesis using commit_loop_UInv [OF _ _ d'] apply_log_UInv recs packetCommit d' by blast
    next
      case packetReady
      then show ?thesis using res False receive_ready_UInv [OF d'] by auto
    next
      case packetFetch
      then show ?thesis using res False receive_fetch_UInv [OF _ L d'] by simp
    next
      case packetForward
      then show ?thesis using res False submit_all_UInv [OF _ reqs d'] d' by (simp split: if_splits)
    next
      case packetForwardReply
      then show ?thesis using res False receive_forwardReply_UInv [OF d'] by auto
    qed (use res False d' in simp_all)
  qed
qed

lemma receive_body_UInv:
  assumes res: "receive_body L e p now c = Some c'" and L: "keepsL F L" and p: "pkt_ok F p" and inv: "UInv F c"
  shows "UInv F c'"
proof -
  obtain t d where d: "observeTime e now c = (t, d)" by (cases "observeTime e now c")
  have inv: "UInv F d" using observeTime_UInv [OF d] inv by simp
  note res = res [unfolded receive_body_def d Let_def prod.case]
  consider (out) "p_From p < 0 \<or> p_From p \<ge> c_n d" | (cfg) "\<not> (p_From p < 0 \<or> p_From p \<ge> c_n d)" "p_Control p \<and> \<not> c_control d"
    | (sus) "\<not> (p_From p < 0 \<or> p_From p \<ge> c_n d)" "\<not> (p_Control p \<and> \<not> c_control d)" "\<not> c_control d \<and> p_Kind p = packetSuspect"
    | (main) "\<not> (p_From p < 0 \<or> p_From p \<ge> c_n d)" "\<not> (p_Control p \<and> \<not> c_control d)" "\<not> (\<not> c_control d \<and> p_Kind p = packetSuspect)" by blast
  then show ?thesis
  proof cases
    case cfg
    then show ?thesis using res with_config_UInv [OF inv] by simp
  next
    case main
    note rl = receive_log_UInv [OF _ L p inv]
    note res = res [unfolded if_not_P [OF main(1)] if_not_P [OF main(2)] if_not_P [OF main(3)]]
    show ?thesis using res rl receive_lease_UInv [OF _ inv] receive_prepare_UInv [OF _ L inv]
      by (cases "p_Kind p") (simp_all split: if_splits)
  qed (use inv res in simp_all)
qed

lemma keepsLI: "(\<And>p c c'. pkt_ok F p \<Longrightarrow> UInv F c \<Longrightarrow> L p c = Some c' \<Longrightarrow> UInv F c') \<Longrightarrow> keepsL F L"
  by (simp add: keepsL_def)

lemma keepsL_receive_body: "keepsL F L \<Longrightarrow> keepsL F (\<lambda>p. receive_body L e p now)"
  by (rule keepsLI) (rule receive_body_UInv)

lemma keepsL_receive: "keepsL F (\<lambda>p. receive e p now)"
proof -
  have "keepsL F (\<lambda>p (c :: ('a, 'b) core). None)" by (simp add: keepsL_def)
  then have "keepsL F (receive_ack e now :: ('a, 'b) deliver)" unfolding receive_ack_def [abs_def] by (rule keepsL_receive_body)
  then have "keepsL F (receive_accept e now)" unfolding receive_accept_def [abs_def] by (rule keepsL_receive_body)
  then have "keepsL F (receive_promised e now)" unfolding receive_promised_def [abs_def] by (rule keepsL_receive_body)
  then show ?thesis unfolding receive_def [abs_def] by (rule keepsL_receive_body)
qed

lemma receive_UInv: "receive e p now c = Some c' \<Longrightarrow> pkt_ok F p \<Longrightarrow> UInv F c \<Longrightarrow> UInv F c'"
  by (rule keepsLD [OF keepsL_receive])

subsection \<open>Elections and flushing\<close>

lemma prepare_ok [simp]: "pkt_ok F ((Packet packetPrepare i b)\<lparr>p_Floor := x\<rparr>)"
  by simp

lemma Begin_UInv:
  assumes res: "Begin e now c = Some c'" and inv: "UInv F c"
  shows "UInv F c'"
proof -
  obtain t d where d: "observeTime e now c = (t, d)" by (cases "observeTime e now c")
  let ?d = "d\<lparr>c_leaderHeard := t, c_ballot := (go_div (c_ballot d) (c_n d) + 1) * c_n d + c_id d, c_leader := c_id d, c_active := False, c_preparing := True,
    c_recoveries := c_recoveries d + 1, c_pages := [], c_promises := [], c_votes := [], c_lastSend := t\<rparr>"
  have d1: "UInv F ?d" using observeTime_UInv [OF d, of F] inv by (auto simp: UInv_def stored_ok_def)
  obtain x where x: "(if c_control ?d then Some ?d else with_config (cfg_Begin (ops e) t (c_config ?d)) ?d) = Some x"
    and r: "receive e ((Packet packetPrepare (c_id x) (c_ballot x))\<lparr>p_Floor := c_executed x + 1\<rparr>) t
      (emit (Broadcast ((Packet packetPrepare (c_id x) (c_ballot x))\<lparr>p_Floor := c_executed x + 1\<rparr>)) x) = Some c'"
    using res unfolding Begin_def d Let_def prod.case by (auto split: Option.bind_splits)
  have "UInv F x" using x d1 with_config_UInv [OF d1] by (auto split: if_splits)
  then show ?thesis by (intro receive_UInv [OF r]) simp_all
qed

lemma flush_loop_UInv:
  "flush_loop q cnt gs c = Some (gs', c') \<Longrightarrow> UInv F c \<Longrightarrow> groups_ok F gs \<Longrightarrow> UInv F c' \<and> groups_ok F gs'"
proof (induction q arbitrary: cnt gs c)
  case (Cons rid q)
  define d where "d = c\<lparr>c_queue := q, c_queued := mdel rid (c_queued c)\<rparr>"
  have d: "UInv F d" using Cons.prems(2) by (simp add: d_def)
  note res = Cons.prems(1) [unfolded flush_loop.simps, folded d_def, unfolded Let_def]
  show ?case
  proof (cases "\<not> (cnt < PageSize \<and> c_high c - c_executed c < AdmissionWindow)")
    case True
    then show ?thesis using res Cons.prems by auto
  next
    case False
    note res = res [unfolded if_not_P [OF False]]
    show ?thesis
    proof (cases "mget (c_assigned d) rid = None \<and> mget (c_values d) rid = None \<and> mget (c_pending d) rid \<noteq> None")
      case False
      then have "flush_loop q cnt gs d = Some (gs', c')" using res by (auto split: if_splits)
      then show ?thesis by (rule Cons.IH [OF _ d Cons.prems(3)])
    next
      case True
      then obtain r where r: "mget (c_pending d) rid = Some r" by blast
      let ?rec = "\<lparr>r_Slot = c_high d + 1, r_Ballot = c_ballot d, r_Request = r, r_Committed = False, r_NotifyMask = 0, r_LeaseEpoch = 0\<rparr>"
      obtain x m where x: "install ?rec (d\<lparr>c_high := c_high d + 1\<rparr>) = Some x" "flush_loop q (cnt + 1) (add_group m ?rec gs) x = Some (gs', c')"
        using res True r by (auto split: Option.bind_splits)
      have rec: "rec_ok F ?rec" using d r by (auto simp: rec_ok_def UInv_def stored_ok_def)
      have "UInv F (d\<lparr>c_high := c_high d + 1\<rparr>)" using d by (simp add: UInv_def)
      then have "UInv F x" by (rule install_UInv [OF _ rec x(1)])
      then show ?thesis using Cons.IH [OF x(2)] Cons.prems(3) rec by (simp add: groups_ok_add)
    qed
  qed
qed auto

lemma stamp_log_UInv: "stamp_log rs c = Some c' \<Longrightarrow> UInv F c \<Longrightarrow> UInv F c'"
proof (induction rs arbitrary: c)
  case (Cons r rs)
  obtain loc where loc: "mget (c_log c) (r_Slot r) = Some loc"
    "stamp_log rs (c\<lparr>c_log := mput (r_Slot r) (loc\<lparr>r_LeaseEpoch := r_LeaseEpoch r, r_NotifyMask := r_NotifyMask r\<rparr>) (c_log c)\<rparr>) = Some c'"
    using Cons.prems(1) by (auto split: Option.bind_splits)
  show ?case by (rule Cons.IH [OF loc(2)]) (rule UInv_mark [OF Cons.prems(2) loc(1)], simp_all)
qed simp

lemma stamp_ok: "rec_ok F (stamp c r) = rec_ok F r"
  by (simp add: stamp_def rec_ok_def)

lemma flush_groups_UInv:
  assumes L: "keepsL F L"
  shows "flush_groups L e now gs c = Some c' \<Longrightarrow> UInv F c \<Longrightarrow> groups_ok F gs \<Longrightarrow> UInv F c'"
proof (induction gs arbitrary: c)
  case (Cons g gs)
  obtain m rs where g: "g = (m, rs)" by (cases g)
  obtain d x where d: "stamp_log (map (stamp c) rs) c = Some d"
    and x: "(if c_control d then accept L e ((Packet packetAccept (c_id d) (c_ballot d))\<lparr>p_LeaseEpoch := promisedBy (c_lease d), p_Records := map (stamp c) rs\<rparr>) now
        (emit (Broadcast ((Packet packetAccept (c_id d) (c_ballot d))\<lparr>p_LeaseEpoch := promisedBy (c_lease d), p_Records := map (stamp c) rs\<rparr>)) (d\<lparr>c_quorumSends := c_quorumSends d + 1\<rparr>))
      else sendMask L m ((Packet packetAccept (c_id d) (c_ballot d))\<lparr>p_LeaseEpoch := promisedBy (c_lease d), p_Records := map (stamp c) rs\<rparr>) [0..c_n (d\<lparr>c_quorumSends := c_quorumSends d + 1\<rparr>) - 1]
        (d\<lparr>c_quorumSends := c_quorumSends d + 1\<rparr>)) = Some x"
    and r: "flush_groups L e now gs x = Some c'"
    using Cons.prems(1) unfolding g flush_groups.simps Let_def by (auto split: Option.bind_splits)
  have rs: "\<forall>r\<in>set (map (stamp c) rs). rec_ok F r" using Cons.prems(3) g by (simp add: stamp_ok)
  have "UInv F d" by (rule stamp_log_UInv [OF d Cons.prems(2)])
  then have d': "UInv F (d\<lparr>c_quorumSends := c_quorumSends d + 1\<rparr>)" by simp
  have "UInv F x"
  proof (cases "c_control d")
    case True
    show ?thesis by (rule accept_UInv [OF L _ _ x [unfolded if_P [OF True]]]) (use rs d' in simp_all)
  next
    case False
    show ?thesis by (rule sendMask_UInv [OF L _ d' x [unfolded if_not_P [OF False]]]) (use rs in simp)
  qed
  then show ?case using Cons.IH [OF r] Cons.prems(3) g by simp
qed simp

lemma flush_UInv: "flush L e now c = Some c' \<Longrightarrow> keepsL F L \<Longrightarrow> UInv F c \<Longrightarrow> UInv F c'"
proof -
  assume res: "flush L e now c = Some c'" and L: "keepsL F L" and inv: "UInv F c"
  consider "c' = c" | gs d where "flush_loop (c_queue c) 0 [] c = Some (gs, d)" "flush_groups L e now gs d = Some c'"
    using res by (auto simp: flush_def split: if_splits Option.bind_splits)
  then show "UInv F c'"
  proof cases
    case 2
    have "UInv F d \<and> groups_ok F gs" by (rule flush_loop_UInv [OF 2(1) inv]) simp
    then show ?thesis using flush_groups_UInv [OF L 2(2)] by blast
  qed (use inv in simp)
qed

subsection \<open>Configurations and the timer\<close>

lemma proposeConfiguration_UInv: "proposeConfiguration e ch now c = Some c' \<Longrightarrow> UInv F c \<Longrightarrow> UInv F c'"
proof -
  assume res: "proposeConfiguration e ch now c = Some c'" and inv: "UInv F c"
  obtain d r x where "with_config r d = Some x" "UInv F d" "c' = x\<lparr>c_lastConfigProposal := now\<rparr>"
    using res inv unfolding proposeConfiguration_def Let_def by (auto split: Option.bind_splits)
  then show "UInv F c'" using with_config_UInv by simp
qed

lemma propose_batches_UInv: "propose_batches e po us now c = Some c' \<Longrightarrow> UInv F c \<Longrightarrow> UInv F c'"
proof (induction e po us now c arbitrary: c' rule: propose_batches.induct)
  case (1 e po us now c)
  show ?case
  proof (cases "us = []")
    case True
    then show ?thesis using 1 by (subst (asm) propose_batches.simps) simp
  next
    case False
    then obtain d where d: "proposeConfiguration e \<lparr>ch_Leader = c_leader c, ch_Excluded = excluded po, ch_Updates = take 5000 us\<rparr> now c = Some d"
      "propose_batches e po (drop 5000 us) now d = Some c'"
      using 1(2) by (subst (asm) propose_batches.simps) (auto split: option.splits)
    show ?thesis by (rule 1(1) [OF False d]) (rule proposeConfiguration_UInv [OF d(1) 1(3)])
  qed
qed

lemma proposeObservedHolders_UInv: "proposeObservedHolders e now c = Some c' \<Longrightarrow> UInv F c \<Longrightarrow> UInv F c'"
  by (auto simp: proposeObservedHolders_def Let_def split: Option.bind_splits intro: propose_batches_UInv)

lemma suspect_peer_UInv [simp]: "UInv F (suspect_peer now ex x c) = UInv F c"
  by (cases x) (simp add: suspect_peer_def Let_def)

lemma suspect_peers_UInv [simp]: "UInv F (fold (suspect_peer now ex) xs c) = UInv F c"
  by (induction xs arbitrary: c) simp_all

lemma start_configurations_UInv [simp]: "UInv F (start_configurations now c) = UInv F c"
  by (simp add: start_configurations_def Let_def)

lemma propose_changes_UInv:
  assumes res: "propose_changes e ready now c = Some c'" and inv: "UInv F c"
  shows "UInv F c'"
proof -
  obtain d ch where d: "proposeConfiguration e ch now c = Some d \<or> d = c"
    and c': "c' = d \<or> (\<exists>x. proposeObservedHolders e now d = Some x \<and> c' = x\<lparr>c_nextConfiguration := now + configurationInterval\<rparr>)"
    using res unfolding propose_changes_def by (auto split: Option.bind_splits if_splits)
  have "UInv F d" using d inv proposeConfiguration_UInv by blast
  then show ?thesis using c' proposeObservedHolders_UInv by fastforce
qed

lemma grant_leases_UInv: "grant_leases now alive c = Some c' \<Longrightarrow> UInv F c \<Longrightarrow> UInv F c'"
  by (auto simp: grant_leases_def Let_def split: Option.bind_splits if_splits)

lemma maintainConfigurations_UInv:
  assumes res: "maintainConfigurations e ready now alive c = Some c'" and inv: "UInv F c"
  shows "UInv F c'"
proof -
  obtain ex d where d: "propose_changes e ready now (fold (suspect_peer now ex) (enumerate 0 alive) (start_configurations now c)) = Some d"
    and c': "c' = d \<or> grant_leases now alive d = Some c' \<or> (\<exists>p l. grant_leases now alive (d\<lparr>c_policy := p, c_lease := l\<rparr>) = Some c')"
    using res unfolding maintainConfigurations_def Let_def by (auto split: Option.bind_splits if_splits)
  have "UInv F d" by (rule propose_changes_UInv [OF d]) (simp add: inv)
  then show ?thesis using c' by (elim disjE exE) (simp, erule grant_leases_UInv, assumption, erule grant_leases_UInv, simp add: UInv_def)
qed

lemma tick_election_UInv: "tick_election e now alive c = Some c' \<Longrightarrow> UInv F c \<Longrightarrow> UInv F c'"
  by (auto simp: tick_election_def Let_def split: Option.bind_splits if_splits intro: Begin_UInv)

lemma local_loop_UInv: "local_loop e now k c = Some c' \<Longrightarrow> UInv F c \<Longrightarrow> UInv F c'"
proof (induction e now k c rule: local_loop.induct)
  case (2 e now k c)
  obtain rid rest where q: "c_localPending c = rid # rest" using 2(2) by (auto split: list.splits)
  define d where "d = c\<lparr>c_localPending := rest, c_localQueued := mdel rid (c_localQueued c)\<rparr>"
  obtain x where x: "(case mget (c_pending d) rid of None \<Rightarrow> Some d | Some r \<Rightarrow> submit e r now d) = Some x" "local_loop e now k x = Some c'"
    using 2(2) [unfolded local_loop.simps q list.case Let_def, folded d_def] by (auto split: Option.bind_splits)
  have d: "UInv F d" using 2(3) by (simp add: d_def)
  have pend: "req_ok F r" if "mget (c_pending d) rid = Some r" for r using d that unfolding UInv_def stored_ok_def by blast
  have "UInv F x" using x(1) d submit_UInv [OF _ pend d] by (auto split: option.splits)
  then show ?case using 2(1) [OF q d_def] x by blast
qed simp

lemma tick_local_UInv: "tick_local e now c = Some c' \<Longrightarrow> UInv F c \<Longrightarrow> UInv F c'"
  by (auto simp: tick_local_def Let_def split: if_splits intro: local_loop_UInv)

lemma resume_loop_UInv: "resume_loop e now k c = Some c' \<Longrightarrow> UInv F c \<Longrightarrow> UInv F c'"
proof (induction e now k c rule: resume_loop.induct)
  case (2 e now k c)
  show ?case
  proof (cases "c_resume c")
    case (Cons r rs)
    define d where "d = c\<lparr>c_resume := rs\<rparr>"
    obtain x where x: "(if mget (c_pending d) (req_ID r) \<noteq> None then submit e r now d else Some d) = Some x" "resume_loop e now k x = Some c'"
      using 2(2) [unfolded resume_loop.simps Cons list.case Let_def, folded d_def] by (auto split: Option.bind_splits)
    have d: "UInv F d" "req_ok F r" using 2(3) Cons by (auto simp: d_def UInv_def stored_ok_def)
    have "UInv F x" using x(1) d submit_UInv [of e r now d x F] by (auto split: if_splits)
    then show ?thesis using 2(1) [OF Cons d_def] x by blast
  qed (use 2 in auto)
qed simp

lemma tick_leader_UInv:
  assumes res: "tick_leader e now c = Some c'" and inv: "UInv F c"
  shows "UInv F c'"
proof -
  let ?L = "\<lambda>p. receive e p now"
  let ?ready = "\<lambda>x. Broadcast ((Packet packetReady (c_id (x\<lparr>c_lastSend := now\<rparr>)) (c_ballot (x\<lparr>c_lastSend := now\<rparr>)))
    \<lparr>p_High := c_executed (x\<lparr>c_lastSend := now\<rparr>), p_Floor := boolInt (c_active (x\<lparr>c_lastSend := now\<rparr>))\<rparr>)"
  obtain d x where d: "fillCatchup c = Some d"
    and x: "(if c_active (if \<not> c_active d \<and> c_executed d \<ge> c_recoveryEnd d then activate e d else d)
        then flush ?L e now (if \<not> c_active d \<and> c_executed d \<ge> c_recoveryEnd d then activate e d else d)
        else Some (if \<not> c_active d \<and> c_executed d \<ge> c_recoveryEnd d then activate e d else d)) = Some x"
    and c': "(if time_sub now (c_lastSend x) \<ge> 200 * Millisecond
        then sendSuffix ?L e (c_id (emit (?ready x) (x\<lparr>c_lastSend := now\<rparr>))) (c_executed (emit (?ready x) (x\<lparr>c_lastSend := now\<rparr>)) + 1) False now
          (emit (?ready x) (x\<lparr>c_lastSend := now\<rparr>))
        else Some x) = Some c'"
    using res unfolding tick_leader_def Let_def bind_eq_Some_conv by blast
  have "UInv F (if \<not> c_active d \<and> c_executed d \<ge> c_recoveryEnd d then activate e d else d)" using fillCatchup_UInv [OF d inv] by simp
  then have "UInv F x" using x flush_UInv [OF _ keepsL_receive] by (auto split: if_split_asm)
  then have "UInv F (emit (?ready x) (x\<lparr>c_lastSend := now\<rparr>))" by simp
  from sendSuffix_UInv [OF keepsL_receive this] show ?thesis using c' \<open>UInv F x\<close> by (simp split: if_split_asm)
qed

lemma tick_UInv:
  assumes res: "tick e ready now alive c = Some c'" and inv: "UInv F c"
  shows "UInv F c'"
proof -
  obtain t d0 where o: "observeTime e now c = (t, d0)" by (cases "observeTime e now c")
  define d where "d = (if c_leaderHeard d0 = 0 then d0\<lparr>c_leaderHeard := t\<rparr> else d0)"
  have d: "UInv F d" using observeTime_UInv [OF o, of F] inv by (simp add: d_def)
  note res = res [unfolded tick_def o prod.case Let_def, folded d_def]
  obtain c1 c2 c3 c4 where c1: "(if c_control d then Some d else maintainConfigurations e ready t alive d) = Some c1"
    and c2: "tick_election e t alive c1 = Some c2"
    and c3: "(if c_control c2 then Some c2 else do { x \<leftarrow> tick_local e t c2; with_config (cfg_tick (ops e) t alive (c_config x)) x }) = Some c3"
    and c4: "(if c_active c3 then resume_loop e t (nat PageSize) c3 else Some c3) = Some c4"
    and r: "(if c_preparing c4 then
          (if time_sub t (c_lastSend c4) \<ge> Second
           then receive e ((Packet packetPrepare (c_id (c4\<lparr>c_lastSend := t\<rparr>)) (c_ballot (c4\<lparr>c_lastSend := t\<rparr>)))\<lparr>p_Floor := c_executed (c4\<lparr>c_lastSend := t\<rparr>) + 1\<rparr>) t
             (emit (Broadcast ((Packet packetPrepare (c_id (c4\<lparr>c_lastSend := t\<rparr>)) (c_ballot (c4\<lparr>c_lastSend := t\<rparr>)))\<lparr>p_Floor := c_executed (c4\<lparr>c_lastSend := t\<rparr>) + 1\<rparr>)) (c4\<lparr>c_lastSend := t\<rparr>))
           else Some c4)
        else if c_leader c4 = c_id c4 then tick_leader e t c4 else Some c4) = Some c'"
    using res by (auto simp only: bind_eq_Some_conv)
  have "UInv F c1" using c1 d maintainConfigurations_UInv by (auto split: if_splits)
  then have "UInv F c2" by (rule tick_election_UInv [OF c2])
  then have "UInv F c3" using c3 by (auto split: if_splits Option.bind_splits intro: with_config_UInv tick_local_UInv)
  then have "UInv F c4" using c4 by (auto split: if_splits intro: resume_loop_UInv)
  then show ?thesis using r by (auto split: if_splits intro: tick_leader_UInv receive_UInv)
qed

subsection \<open>Runs of a replica\<close>

text \<open>A replica from its creation, over any clock, any state machine and any packets and requests that are
  consistent with \<open>F\<close>.\<close>

inductive replica_run :: "(request_id \<Rightarrow> command) \<Rightarrow> ('st, config_core) core \<Rightarrow> bool" for F where
  run_new: "newCore n i leader policy app = Some c \<Longrightarrow> replica_run F c"
| run_submit: "\<lbrakk>replica_run F c; req_ok F r; submit e r now c = Some c'\<rbrakk> \<Longrightarrow> replica_run F c'"
| run_receive: "\<lbrakk>replica_run F c; pkt_ok F p; receive e p now c = Some c'\<rbrakk> \<Longrightarrow> replica_run F c'"
| run_tick: "\<lbrakk>replica_run F c; replica_tick e now alive c = Some c'\<rbrakk> \<Longrightarrow> replica_run F c'"

lemma newCore_UInv: "newCore n i leader policy app = Some c \<Longrightarrow> UInv F c"
  by (auto simp: newCore_def newLogCore_def UInv_def index_ok_def log_ok_def stored_ok_def open_puts_def split: if_splits Option.bind_splits)

lemma replica_run_UInv: "replica_run F c \<Longrightarrow> UInv F c"
  by (induction rule: replica_run.induct)
    (auto simp: replica_tick_def intro: newCore_UInv submit_UInv receive_UInv tick_UInv)

text \<open>Two runs: a leader with a write in its log (\<open>demo_core\<close>), and a holder with a lease from replica 1.\<close>

lemma someD: "x \<noteq> None \<Longrightarrow> x = Some (the x)"
  by simp

definition demo_F :: "request_id \<Rightarrow> command" where
  "demo_F i = (if i = RequestID 4 1 then \<lparr>Op = PUT, K = 7, V = [9]\<rparr> else \<lparr>Op = GET, K = 7, V = []\<rparr>)"

lemma demo_core_run: "replica_run demo_F demo_core"
proof -
  define c0 where "c0 = the (newCore 3 0 0 demo_policy (0::nat))"
  define c1 where "c1 = the (submit demo_env demo_put 1000 c0)"
  have "newCore 3 0 0 demo_policy (0::nat) \<noteq> None" by code_simp
  from someD [OF this] have c0: "newCore 3 0 0 demo_policy (0::nat) = Some c0" by (simp add: c0_def)
  have "submit demo_env demo_put 1000 c0 \<noteq> None" unfolding c0_def by code_simp
  from someD [OF this] have c1: "submit demo_env demo_put 1000 c0 = Some c1" by (simp add: c1_def)
  have "replica_tick demo_env 1000 [True, True, True] c1 \<noteq> None" unfolding c1_def c0_def by code_simp
  from someD [OF this] have c2: "replica_tick demo_env 1000 [True, True, True] c1 = Some demo_core" by (simp add: demo_core_def c0 c1)
  have "req_ok demo_F demo_put" by code_simp
  then show ?thesis using run_tick [OF run_submit [OF run_new [OF c0] _ c1] c2] by blast
qed

definition demo_guard :: packet where
  "demo_guard = of_lease ((LeasePacket packetGuard 1 1 1)\<lparr>lp_Duration := guardDuration\<rparr>)"

definition demo_promise :: packet where
  "demo_promise = of_lease ((LeasePacket packetLeasePromise 1 1 1)\<lparr>lp_Duration := leaseDuration, lp_Frontier := -1, lp_AckSequence := -1\<rparr>)"

definition demo_get :: request where
  "demo_get = \<lparr>req_ID = RequestID 4 2, req_Command = \<lparr>Op = GET, K = 7, V = []\<rparr>, req_Origin = 0, req_Timestamp = 0, req_Change = None\<rparr>"

definition demo_holder :: "(nat, config_core) core" where
  "demo_holder = the (do {
     c \<leftarrow> newCore 3 0 0 demo_policy 0;
     c \<leftarrow> receive demo_env demo_guard 1000 c;
     receive demo_env demo_promise 2000 c
   })"

lemma demo_holder_run: "replica_run demo_F demo_holder"
proof -
  define c0 where "c0 = the (newCore 3 0 0 demo_policy (0::nat))"
  define c1 where "c1 = the (receive demo_env demo_guard 1000 c0)"
  have "newCore 3 0 0 demo_policy (0::nat) \<noteq> None" by code_simp
  from someD [OF this] have c0: "newCore 3 0 0 demo_policy (0::nat) = Some c0" by (simp add: c0_def)
  have "receive demo_env demo_guard 1000 c0 \<noteq> None" unfolding c0_def by code_simp
  from someD [OF this] have c1: "receive demo_env demo_guard 1000 c0 = Some c1" by (simp add: c1_def)
  have "receive demo_env demo_promise 2000 c1 \<noteq> None" unfolding c1_def c0_def by code_simp
  from someD [OF this] have c2: "receive demo_env demo_promise 2000 c1 = Some demo_holder" by (simp add: demo_holder_def c0 c1)
  have "pkt_ok demo_F demo_guard" "pkt_ok demo_F demo_promise" by (simp_all add: pkt_ok_def demo_guard_def demo_promise_def of_lease_def Packet_def)
  then show ?thesis using run_receive [OF run_receive [OF run_new [OF c0] _ c1] _ c2] by blast
qed

text \<open>C25 The index of open writes is exact at every replica at all times: for every key it counts the slots above
  the execution frontier whose accepted record writes that key.\<close>

theorem pql_updating_exact:
  assumes "replica_run F c"
  shows "mgetd 0 (c_updating c) k = int (card {s. c_executed c < s \<and> (\<exists>r. mget (c_log c) s = Some r \<and>
     Op (req_Command (r_Request r)) = PUT \<and> K (req_Command (r_Request r)) = k)})"
  using replica_run_UInv [OF assms] by (simp add: UInv_def index_ok_def open_puts_def put_on_def)

theorem pql_updating_exact_witness:
  "mgetd 0 (c_updating demo_core) 7 = int (card {s. c_executed demo_core < s \<and> (\<exists>r. mget (c_log demo_core) s = Some r \<and>
     Op (req_Command (r_Request r)) = PUT \<and> K (req_Command (r_Request r)) = 7)})"
  by (rule pql_updating_exact [OF demo_core_run])

text \<open>C26 A read that a replica serves from its local state has no accepted write of its key left to execute, the
  replica holds a lease on the key, and the lease is valid at the time of the read.\<close>

theorem pql_local_read_is_fresh:
  assumes "replica_run F c" "req_ok F r" "submit e r now c = Some c'" "c_localReads c' \<noteq> c_localReads c"
  shows "(\<forall>s rec. mget (c_log c) s = Some rec \<longrightarrow> put_on (K (req_Command r)) rec \<longrightarrow> s \<le> c_executed c) \<and>
    read_holder (K (req_Command r)) c = Some True \<and> canRead (fst (observeTime e now c)) (c_executed c) (c_lease c)"
proof -
  obtain t d where o: "observeTime e now c = (t, d)" by (cases "observeTime e now c")
  have d: "c_updating d = c_updating c" "c_executed d = c_executed c" "c_lease d = c_lease c" "c_policies d = c_policies c" "c_latestEpoch d = c_latestEpoch c"
    "c_policy d = c_policy c" "c_id d = c_id c" "c_localReads d = c_localReads c"
    using o by (auto simp: observeTime_def Let_def split: if_splits)
  have cr: "c_updating (count_read r d) = c_updating d" "c_executed (count_read r d) = c_executed d" "c_lease (count_read r d) = c_lease d"
    "c_localReads (count_read r d) = c_localReads d" "c_policy (count_read r d) = c_policy d" "c_policies (count_read r d) = c_policies d"
    "c_latestEpoch (count_read r d) = c_latestEpoch d" "c_id (count_read r d) = c_id d"
    by (simp_all add: count_read_def Let_def)
  have "read_holder k (count_read r d) = read_holder k d" for k
    unfolding read_holder_def Let_def cr ..
  note cr = cr this
  have rh: "read_holder k d = read_holder k c" for k
    unfolding read_holder_def Let_def d ..
  from assms(3) o show ?thesis
  proof (cases rule: submit_cases)
    case read
    have "mgetd 0 (c_updating c) (K (req_Command r)) = 0" using read cr d by simp
    then have "open_puts (c_executed c) (c_log c) (K (req_Command r)) = {}"
      using replica_run_UInv [OF assms(1)] by (simp add: UInv_def index_ok_def)
    then have "\<forall>s rec. mget (c_log c) s = Some rec \<longrightarrow> put_on (K (req_Command r)) rec \<longrightarrow> s \<le> c_executed c"
      by (force simp: open_puts_def not_le)
    moreover have "read_holder (K (req_Command r)) c = Some True" using read cr rh by simp
    moreover have "canRead (fst (observeTime e now c)) (c_executed c) (c_lease c)" using read cr d o by simp
    ultimately show ?thesis by blast
  qed (use assms(4) d cr in \<open>auto simp: finish_def emit_def defer_read_def order_request_def enqueue_def Let_def split: if_splits\<close>)
qed

theorem pql_local_read_is_fresh_witness:
  "read_holder 7 demo_holder = Some True \<and> canRead (fst (observeTime demo_env 3000 demo_holder)) (c_executed demo_holder) (c_lease demo_holder)"
proof -
  have "submit demo_env demo_get 3000 demo_holder \<noteq> None" by code_simp
  note sub = someD [OF this]
  have "c_localReads (the (submit demo_env demo_get 3000 demo_holder)) \<noteq> c_localReads demo_holder" by code_simp
  moreover have "req_ok demo_F demo_get" "K (req_Command demo_get) = 7" by code_simp+
  ultimately show ?thesis using pql_local_read_is_fresh [OF demo_holder_run _ sub] by simp
qed

end
