(* ===== verification/Spec2Isabelle.thy ===== *)
theory Spec2Isabelle
  imports KVSpec PaxosSystem PaxosLocal FastPaxosRecovery CurpClient EpaxosProps SwiftQuorum SwiftHashLog PqlLeaseSystem PqlReads
begin

text \<open>
  A verification development for ConsensusArena, a testbed of state machine replication protocols written
  in Go. A replica of every protocol is a sequential \<^emph>\<open>core\<close> (an event machine: submit a request, receive a
  packet, tick) inside a runtime of goroutines and sockets. The cores share the command language and the
  key-value store (\<open>src/state\<close>), sets of replicas as bit masks (\<open>src/replicaset\<close>) and request identifiers
  (\<open>src/replica/defs\<close>). The development models the cores and what they share, and treats the runtime as an
  adversary that loses, repeats, delays and reorders packets and calls the timers at any time.

  \<^bold>\<open>Conventions.\<close> A Go struct is a \<open>record\<close>, a Go map is an association list read by \<open>map_of\<close> (theory
  \<open>Prelude\<close>: \<open>mget\<close>, \<open>mput\<close>, \<open>mdel\<close>, \<open>mlen\<close>). A loop over a map takes its order from an argument (\<open>mrange\<close>
  with a list of numbers), so that every theorem holds for every iteration order. A panic is \<open>None\<close>. Time
  is an integer in nanoseconds. The key-value store \<open>gods/treemap\<close> is a third-party package: it is the
  parameter \<open>treemap\<close> of \<open>KVState.Execute\<close>, the hash function of the hash log is a parameter as well. A
  core that sends a packet to itself handles it before the send returns: the handler that takes it is an
  argument of the definitions that may call it, and \<open>PaxosLocal\<close> shows that the chosen nesting depth is
  enough.

  \<^bold>\<open>Theories.\<close>
  \<^item> \<open>Prelude\<close>: Go maps, 32-bit integers, truncated division, majorities (locale \<open>quorum_system\<close>).
  \<^item> \<open>ReplicaSet\<close> (\<open>src/replicaset/set.go\<close>): the mask operations and their meaning as finite sets of
    identifiers; \<open>Range\<close> visits the members in ascending order.
  \<^item> \<open>KVState\<close>, \<open>KVSpec\<close> (\<open>src/state\<close>): commands, the conflict relation, execution, preloading, the byte
    codec and the command policy; execution refines an abstract key-value machine for any ordered map that
    keeps the locale \<open>treemap_spec\<close>; commands that do not conflict commute; accepted commands never panic, and survive
    the wire exactly when the value fits the 16-bit length of the codec.
  \<^item> \<open>Requests\<close> (\<open>src/replica/defs\<close>): request identifiers and their order.
  \<^item> \<open>PaxosCore\<close> (\<open>src/paxos/core.go\<close>, \<open>recovery.go\<close>, \<open>execute.go\<close>): the core. \<open>PaxosSpec\<close> is an abstract
    replicated log with ballots, \<open>PaxosSafety\<close> its invariant. \<open>PaxosRefine\<close>, \<open>PaxosHandlers\<close>, \<open>PaxosRecovery\<close>
    and \<open>PaxosTimers\<close> show that every handler of the core is a sequence of abstract steps, and
    \<open>PaxosSystem\<close> composes the replicas with the network: agreement, equal answers, equal states, no panic.
    \<open>PaxosLocal\<close> is about packets a replica sends to itself.
  \<^item> \<open>FastPaxosCore\<close> (\<open>src/fastpaxos\<close>), \<open>FastPaxosRecovery\<close>: the core, and the value selection of recovery: a value
    accepted by a fast quorum or, in a classic epoch, by a majority is selected by every answering majority.
  \<^item> \<open>CurpConflicts\<close> (\<open>src/curp/conflicts.go\<close>): the index answers as comparing with every open request does, for
    the commands the default policy accepts; a request with operation \<open>NONE\<close>, which has no effect, conflicts with nothing.
    \<open>CurpCore\<close> (\<open>src/curp/core.go\<close>, \<open>recovery.go\<close>, \<open>execute.go\<close>): the core. \<open>CurpWitness\<close>: the witness table is
    free of conflicts in every run, and recovery keeps what a superquorum witnessed. \<open>CurpClient\<close>
    (\<open>client.go\<close>, \<open>src/client/completion.go\<close>): the client completes only on sufficient evidence.
  \<^item> \<open>EpaxosCore\<close> (\<open>src/epaxos/core.go\<close>, \<open>recovery.go\<close>, \<open>defs.go\<close>): the core with explicit-prepare recovery and
    repair of gaps. \<open>EpaxosExecute\<close> (\<open>execute.go\<close>): the search for strongly connected components that executes
    committed instances; its recursion takes a bound on the depth, one more than the number of instances.
    \<open>EpaxosOrder\<close> proves the search correct by an invariant of the marks, the stack and the history of
    executions, \<open>EpaxosLive\<close> that it finishes and that the bound is never reached, \<open>EpaxosReplica\<close> that the
    handlers leave decided instances alone as long as no late reply arrives: one for an instance that was decided by another
    replica while the phase the reply answers is open at this one. The handlers act on late replies, and can
    reopen an executed instance. \<open>EpaxosProps\<close> states the properties: in the runs without late replies (\<open>timely_run\<close>)
    dependent instances are executed in the same order by replicas that agree on their attributes, once, and as soon as their
    dependencies are committed; a late reply reopens a decided instance; the attributes of a command cover the
    conflicts recorded for its key, while a batch can miss some.
  \<^item> \<open>SwiftQuorum\<close>, \<open>SwiftHashLog\<close> (\<open>src/swift/quorum.go\<close>, \<open>hashlog.go\<close>): the numbering of quorums by
    32-bit ballots, and the hash log as a refinement of a list of pending identifiers; equal path hashes mean equal
    orders up to what one replica has synchronised already.
  \<^item> \<open>PqlLease\<close> (\<open>src/pql/lease.go\<close>): the lease state machine. \<open>PqlLeaseSpec\<close> and \<open>PqlLeaseSystem\<close> compose
    the replicas with a network and with clocks that are apart by fixed amounts: at any
    instant at which a replica may read locally, half of the other replicas accept only writes of its configuration. \<open>PqlPolicy\<close> (\<open>policy.go\<close>): lease placement and write masks.
    \<open>PqlCore\<close> (\<open>core.go\<close>, \<open>recovery.go\<close>, \<open>configuration.go\<close>, \<open>execute.go\<close>), \<open>PqlCommit\<close>, \<open>PqlUpdating\<close> and
    \<open>PqlReads\<close>: commits include every lease holder, the index of open writes is exact in every run, and a
    local read has no accepted write of its key outstanding.

  \<^bold>\<open>Not modelled.\<close> The goroutines, sockets, buffers and RPC tables of \<open>src/replica\<close>, \<open>src/rpc\<close> and
  \<open>src/client\<close>; generated protobuf code; configuration, the master, logging and the placement planners
  (floating-point latency estimates); the protocols \<open>src/kcensus\<close> and \<open>src/bodega\<close>, and the core of \<open>src/swift\<close>.

  \<^bold>\<open>Integers.\<close> Slots, ballots, epochs and rounds of Paxos, Fast Paxos, CURP and PQL have 64 bits in the code and are
  unbounded integers in the models. Instance numbers, sequence numbers and ballots of EPaxos and the ballots of SwiftPaxos
  have 32 bits: the arithmetic that makes new ones wraps around (\<^const>\<open>int32\<close>), and the theorems that need it bound the
  values. Other 32-bit and 64-bit values that the code wraps or masks are words or are reduced where they are
  stored. Counters of pages and of quorums, which are 32-bit and would need \<open>2 ^ 31\<close> entries in memory to wrap, are
  unbounded.
\<close>

end
